(* ===== verification/Prelude.thy ===== *)
theory Prelude
  imports Main "HOL-Library.Word" "HOL-Library.Multiset"
begin

text \<open>
  Shared vocabulary of the development: the ways the C++ process can stop, the result
  type of every fallible operation, pointers, and generic lemmas on lists that several
  components use.

  \<^item> \<open>err\<close> lists the ways the program ends or leaves defined behaviour:
    \<open>Assertion\<close> and \<open>Fatal\<close> are \<open>ASSERT\<close> and \<open>FATAL\<close> of \<open>llbase/macros.h\<close> (both exit
    the process), \<open>Out_of_range\<close> is the \<open>std::out_of_range\<close> of a checked \<open>.at()\<close> (inside
    \<open>noexcept\<close> functions it terminates the process), \<open>Null_deref\<close> and \<open>Out_of_bounds\<close> are
    the undefined behaviours of reading through \<open>nullptr\<close> and of an unchecked index,
    \<open>Dangling\<close> and \<open>Signed_overflow\<close> those of reading an object that is gone and of signed
    integer overflow, and \<open>Diverges\<close> is a loop that never ends (the fuel of a loop ran out).
  \<^item> A pointer into a memory pool is the index of its block, \<open>None\<close> is \<open>nullptr\<close>.
\<close>

datatype err = Assertion | Fatal | Out_of_range | Null_deref | Out_of_bounds
  | Dangling | Signed_overflow | Diverges

type_synonym 'a res = "err + 'a"

type_synonym addr = nat

type_synonym ptr = "addr option"

text \<open>Sequencing: a failed step ends the computation with its error.\<close>

definition bindR :: "'a res \<Rightarrow> ('a \<Rightarrow> 'b res) \<Rightarrow> 'b res" where
  "bindR m f = (case m of Inl e \<Rightarrow> Inl e | Inr x \<Rightarrow> f x)"

text \<open>\<open>ASSERT\<close>, \<open>.at()\<close> and the other guards: fail with the error unless the condition holds.\<close>

definition require :: "err \<Rightarrow> bool \<Rightarrow> unit res" where
  "require e c = (if c then Inr () else Inl e)"

text \<open>Reading a pointer.\<close>

definition deref :: "ptr \<Rightarrow> addr res" where
  "deref p = (case p of None \<Rightarrow> Inl Null_deref | Some a \<Rightarrow> Inr a)"

text \<open>\<open>ASSERT(cond, msg)\<close> and \<open>FATAL(msg)\<close> of \<open>llbase/macros.h\<close>.\<close>

definition ASSERT :: "bool \<Rightarrow> unit res" where
  "ASSERT c = require Assertion c"

definition FATAL :: "'a res" where
  "FATAL = Inl Fatal"

named_theorems res_simps \<open>evaluation of results\<close>

lemma bindR_Inl [simp, res_simps]: "bindR (Inl e) f = Inl e"
  by (simp add: bindR_def)

lemma bindR_Inr [simp, res_simps]: "bindR (Inr x) f = f x"
  by (simp add: bindR_def)

lemma bindR_eq_Inr: "bindR m f = Inr y \<longleftrightarrow> (\<exists>x. m = Inr x \<and> f x = Inr y)"
  by (simp add: bindR_def split: sum.splits)

lemma bindR_assoc: "bindR (bindR m f) g = bindR m (\<lambda>x. bindR (f x) g)"
  by (simp add: bindR_def split: sum.splits)

lemma require_True [simp, res_simps]: "require e True = Inr ()"
  by (simp add: require_def)

lemma require_False [simp, res_simps]: "require e False = Inl e"
  by (simp add: require_def)

lemma require_eq_Inr [simp]: "require e c = Inr u \<longleftrightarrow> c"
  by (simp add: require_def)

lemma deref_Some [simp, res_simps]: "deref (Some a) = Inr a"
  by (simp add: deref_def)

lemma deref_None [simp, res_simps]: "deref None = Inl Null_deref"
  by (simp add: deref_def)

lemma deref_eq_Inr [simp]: "deref p = Inr a \<longleftrightarrow> p = Some a"
  by (simp add: deref_def split: option.splits)

lemma ASSERT_simps [simp, res_simps]: "ASSERT True = Inr ()" "ASSERT False = Inl Assertion"
  by (simp_all add: ASSERT_def)

lemma ASSERT_eq_Inr [simp]: "ASSERT c = Inr u \<longleftrightarrow> c"
  by (simp add: ASSERT_def)

text \<open>Folding a fallible step over a list: the first error ends the run.\<close>

fun foldR :: "('s \<Rightarrow> 'e \<Rightarrow> 's res) \<Rightarrow> 's \<Rightarrow> 'e list \<Rightarrow> 's res" where
  "foldR f s [] = Inr s"
| "foldR f s (x # xs) = bindR (f s x) (\<lambda>s'. foldR f s' xs)"

lemma foldR_append: "foldR f s (xs @ ys) = bindR (foldR f s xs) (\<lambda>s'. foldR f s' ys)"
  by (induction xs arbitrary: s) (simp_all add: bindR_assoc)

lemma foldR_invariant:
  assumes "\<And>s x s'. P s \<Longrightarrow> x \<in> set xs \<Longrightarrow> f s x = Inr s' \<Longrightarrow> P s'"
    and "P s" and "foldR f s xs = Inr s'"
  shows "P s'"
  using assms
proof (induction xs arbitrary: s)
  case Nil
  then show ?case by simp
next
  case (Cons x xs)
  from Cons.prems(3) obtain t where t: "f s x = Inr t" "foldR f t xs = Inr s'"
    by (auto simp: bindR_eq_Inr)
  have "P t" by (rule Cons.prems(1) [OF Cons.prems(2) _ t(1)]) simp
  show ?case
    by (rule Cons.IH [OF _ \<open>P t\<close> t(2)], rule Cons.prems(1)) auto
qed

text \<open>Lists.\<close>

lemma filter_neq_id [simp]: "a \<notin> set xs \<Longrightarrow> filter (\<lambda>c. c \<noteq> a) xs = xs"
  by (induction xs) auto

lemma find_unique:
  assumes "x \<in> set xs" "P x" "\<And>y. y \<in> set xs \<Longrightarrow> P y \<Longrightarrow> y = x"
  shows "find P xs = Some x"
  using assms
proof (induction xs)
  case (Cons y ys)
  show ?case
  proof (cases "P y")
    case True
    then show ?thesis using Cons.prems(3) [of y] by simp
  next
    case False
    then have "x \<in> set ys" using Cons.prems(1,2) by auto
    then have "find P ys = Some x" by (rule Cons.IH [OF _ Cons.prems(2)]) (rule Cons.prems(3), simp_all)
    then show ?thesis using False by simp
  qed
qed simp

text \<open>Counting up without wrap-around.\<close>

lemma word_add_one:
  fixes x :: "'w::len word"
  assumes "x \<noteq> -1"
  shows "unat (x + 1) = Suc (unat x)" "x < x + 1"
proof -
  have "1 + x \<noteq> 0" using assms by (metis add.commute eq_neg_iff_add_eq_0)
  then show u: "unat (x + 1) = Suc (unat x)" by (metis add.commute unatSuc)
  then show "x < x + 1" by (simp add: word_less_nat_alt)
qed

lemma card_lessThan_filter: "card {a. a < (n::nat) \<and> P a} \<le> n"
  using card_mono [of "{..<n}" "{a. a < n \<and> P a}"] by auto

end
