(* ===== verification/Nitek_Types.thy ===== *)
theory Nitek_Types
  imports Prelude
begin

text \<open>
  \<open>nitek/common/types.h\<close>: the exchange limits, the numeric identifiers at their widths
  with their INVALID values, the side of an order, the trading algorithms and the
  configuration structs, with their conversions to strings and indices.
\<close>

subsection \<open>Limits (of the test-suite build, the one the header selects)\<close>

definition OME_SIZE :: nat where "OME_SIZE = 16"
definition MAX_TICKERS :: nat where "MAX_TICKERS = 8"
definition MAX_CLIENT_UPDATES :: nat where "MAX_CLIENT_UPDATES = OME_SIZE * 1024"
definition MAX_MARKET_UPDATES :: nat where "MAX_MARKET_UPDATES = OME_SIZE * 1024"
definition MAX_N_CLIENTS :: nat where "MAX_N_CLIENTS = OME_SIZE"
definition MAX_ORDER_IDS :: nat where "MAX_ORDER_IDS = 1024 * 1024"
definition MAX_PRICE_LEVELS :: nat where "MAX_PRICE_LEVELS = OME_SIZE"
definition MAX_PENDING_ORDER_REQUESTS :: nat where "MAX_PENDING_ORDER_REQUESTS = 1024"

lemmas limit_defs = OME_SIZE_def MAX_TICKERS_def MAX_CLIENT_UPDATES_def MAX_MARKET_UPDATES_def
  MAX_N_CLIENTS_def MAX_ORDER_IDS_def MAX_PRICE_LEVELS_def MAX_PENDING_ORDER_REQUESTS_def

subsection \<open>Identifiers and quantities\<close>

type_synonym order_id = "64 word"
type_synonym ticker_id = "32 word"
type_synonym client_id = "32 word"
type_synonym price = "64 word" \<comment> \<open>\<open>int64_t\<close>: read with \<open>sint\<close>\<close>
type_synonym qty = "32 word"
type_synonym priority = "64 word"

text \<open>\<open>ID_INVALID<T>\<close>: the maximum of an unsigned type, and of a signed one.\<close>

definition ID_INVALID :: "'w::len word" where "ID_INVALID = - 1"

definition OrderID_INVALID :: order_id where "OrderID_INVALID = ID_INVALID"
definition TickerID_INVALID :: ticker_id where "TickerID_INVALID = ID_INVALID"
definition ClientID_INVALID :: client_id where "ClientID_INVALID = ID_INVALID"
definition Price_INVALID :: price where "Price_INVALID = 0x7FFFFFFFFFFFFFFF"
definition Qty_INVALID :: qty where "Qty_INVALID = ID_INVALID"
definition Priority_INVALID :: priority where "Priority_INVALID = ID_INVALID"

lemma Price_INVALID_max: "sint (p::price) \<le> sint Price_INVALID"
  using sint_lt [of p] by (simp add: Price_INVALID_def)

lemma ID_INVALID_max: "unat (x::'w::len word) \<le> unat (ID_INVALID::'w word)"
  by (simp add: ID_INVALID_def flip: word_le_nat_alt)

subsection \<open>Decimal strings\<close>

definition digit_char :: "nat \<Rightarrow> char" where
  "digit_char d = char_of (48 + d)"

fun nat_to_str :: "nat \<Rightarrow> string" where
  "nat_to_str n = (if n < 10 then [digit_char n] else nat_to_str (n div 10) @ [digit_char (n mod 10)])"

declare nat_to_str.simps [simp del]

definition int_to_str :: "int \<Rightarrow> string" where
  "int_to_str i = (if i < 0 then ''-'' @ nat_to_str (nat (- i)) else nat_to_str (nat i))"

text \<open>\<open>numeric_to_str\<close> at the unsigned types, and at \<open>Price\<close>.\<close>

definition numeric_to_str :: "'w::len word \<Rightarrow> string" where
  "numeric_to_str x = (if x = ID_INVALID then ''INVALID'' else nat_to_str (unat x))"

definition price_to_str :: "price \<Rightarrow> string" where
  "price_to_str p = (if p = Price_INVALID then ''INVALID'' else int_to_str (sint p))"

subsection \<open>Sides\<close>

datatype side = SIDE_INVALID | BUY | SELL | SIDE_MAX

fun side_to_str :: "side \<Rightarrow> string" where
  "side_to_str BUY = ''BUY''"
| "side_to_str SELL = ''SELL''"
| "side_to_str SIDE_INVALID = ''INVALID''"
| "side_to_str SIDE_MAX = ''MAX''"

text \<open>The underlying \<open>int8_t\<close> value.\<close>

fun side_code :: "side \<Rightarrow> int" where
  "side_code SIDE_INVALID = 0"
| "side_code BUY = 1"
| "side_code SELL = -1"
| "side_code SIDE_MAX = 2"

text \<open>\<open>static_cast<size_t>(side) + 1\<close>: the cast of \<open>-1\<close> wraps, and the addition wraps it back.\<close>

definition side_to_index :: "side \<Rightarrow> nat" where
  "side_to_index s = unat (word_of_int (side_code s) + 1 :: 64 word)"

definition side_to_value :: "side \<Rightarrow> int" where
  "side_to_value s = side_code s"

lemma side_to_index_simps [simp]:
  "side_to_index SELL = 0" "side_to_index SIDE_INVALID = 1"
  "side_to_index BUY = 2" "side_to_index SIDE_MAX = 3"
  by (simp_all add: side_to_index_def)

definition opposite :: "side \<Rightarrow> side" where
  "opposite s = (if s = BUY then SELL else BUY)"

lemma opposite_simps [simp]: "opposite BUY = SELL" "opposite SELL = BUY"
  by (simp_all add: opposite_def)

subsection \<open>Trading algorithms\<close>

datatype trade_algo = ALGO_INVALID | ALGO_RANDOM | MARKET_MAKER | LIQ_TAKER | ALGO_MAX

fun trade_algo_to_str :: "trade_algo \<Rightarrow> string" where
  "trade_algo_to_str ALGO_RANDOM = ''RANDOM''"
| "trade_algo_to_str MARKET_MAKER = ''MARKET_MAKER''"
| "trade_algo_to_str LIQ_TAKER = ''LIQUIDITY_TAKER''"
| "trade_algo_to_str ALGO_INVALID = ''INVALID''"
| "trade_algo_to_str ALGO_MAX = ''MAX''"

text \<open>The loop of \<open>str_to_trade_algo\<close> over the enumerators from INVALID (0) to MAX (4).\<close>

definition all_algos :: "trade_algo list" where
  "all_algos = [ALGO_INVALID, ALGO_RANDOM, MARKET_MAKER, LIQ_TAKER, ALGO_MAX]"

definition str_to_trade_algo :: "string \<Rightarrow> trade_algo" where
  "str_to_trade_algo s =
     (case find (\<lambda>a. trade_algo_to_str a = s) all_algos of Some a \<Rightarrow> a | None \<Rightarrow> ALGO_INVALID)"

subsection \<open>Prices in order of aggressiveness\<close>

text \<open>
  The comparison both order books write out at each use: on side \<open>sd\<close>, is price \<open>p\<close> less
  aggressive than \<open>q\<close> (a higher ask, a lower bid)? It is false for the other two sides.
\<close>

definition worse :: "side \<Rightarrow> price \<Rightarrow> price \<Rightarrow> bool" where
  "worse sd p q \<longleftrightarrow> (sd = SELL \<and> sint p > sint q) \<or> (sd = BUY \<and> sint p < sint q)"

text \<open>\<open>price % MAX_PRICE_LEVELS\<close>, the price converted to \<open>size_t\<close> first.\<close>

definition price_to_index :: "price \<Rightarrow> nat" where
  "price_to_index p = unat p mod MAX_PRICE_LEVELS"

lemma price_to_index_less [simp]: "price_to_index p < MAX_PRICE_LEVELS"
  by (simp add: price_to_index_def limit_defs)

lemma worse_irrefl [simp]: "\<not> worse sd p p"
  by (simp add: worse_def)

lemma worse_trans: "worse sd p q \<Longrightarrow> worse sd q r \<Longrightarrow> worse sd p r"
  by (auto simp: worse_def)

lemma price_eqI: "sint (p::price) = sint q \<Longrightarrow> p = q"
  by (rule signed_word_eqI)

lemma worse_total:
  assumes "sd = BUY \<or> sd = SELL" "p \<noteq> q"
  shows "worse sd p q \<or> worse sd q p"
proof -
  have "sint p \<noteq> sint q" using assms(2) price_eqI by blast
  then show ?thesis using assms(1) by (auto simp: worse_def)
qed

end
