(* ===== verification/Mem_Pool.thy ===== *)
theory Mem_Pool
  imports Prelude
begin

text \<open>
  \<open>LL::MemPool\<close> of \<open>llbase/mempool.h\<close>: a vector of blocks, each an object and a flag
  \<open>is_free\<close>, with the index of the next free block. \<open>allocate\<close> constructs an object in
  that block and scans (cyclically) for the next free one, \<open>deallocate\<close> sets the flag
  back and leaves the object where it was, so a dangling pointer still reads the old
  object. Addresses of the model are block indices; the pointer arithmetic of
  \<open>deallocate\<close> is then the identity.
  The lemmas give the success and failure conditions of both operations: in particular
  the last free block can never be handed out, since the scan that follows finds no other.
  The locale \<open>object_pool\<close> is the interface the order books rely on.
\<close>

record 'a pool =
  blk :: "addr \<Rightarrow> 'a"
  is_free :: "addr \<Rightarrow> bool"
  n_blocks :: nat
  i_next_free :: nat

text \<open>The constructor: \<open>n\<close> default objects, all free.\<close>

definition new_pool :: "nat \<Rightarrow> 'a \<Rightarrow> 'a pool" where
  "new_pool n d = \<lparr>blk = (\<lambda>_. d), is_free = (\<lambda>_. True), n_blocks = n, i_next_free = 0\<rparr>"

text \<open>
  The loop of \<open>update_next_free_index\<close>: \<open>start\<close> is the index \<open>i\<close> the scan began at,
  \<open>k\<close> the running \<open>i_next_free\<close>. The fuel is the number of blocks; the scan is back at
  \<open>start\<close> before it runs out (\<open>scan_free_terminates\<close>).
\<close>

fun scan_free :: "nat \<Rightarrow> (addr \<Rightarrow> bool) \<Rightarrow> nat \<Rightarrow> nat \<Rightarrow> nat \<Rightarrow> nat res" where
  "scan_free 0 free n start k = Inl Diverges"
| "scan_free (Suc fuel) free n start k =
     (if \<not> free k then
        let k' = (if k + 1 = n then 0 else k + 1) in
        if start = k' then Inl Assertion
        else scan_free fuel free n start k'
      else Inr k)"

definition update_next_free_index :: "'a pool \<Rightarrow> 'a pool res" where
  "update_next_free_index p =
     bindR (scan_free (n_blocks p) (is_free p) (n_blocks p) (i_next_free p) (i_next_free p))
       (\<lambda>k. Inr (p\<lparr>i_next_free := k\<rparr>))"

definition allocate :: "'a pool \<Rightarrow> 'a \<Rightarrow> (addr \<times> 'a pool) res" where
  "allocate p x =
     bindR (ASSERT (is_free p (i_next_free p))) (\<lambda>_.
     let a = i_next_free p;
         p1 = p\<lparr>blk := (blk p)(a := x), is_free := (is_free p)(a := False)\<rparr>
     in bindR (update_next_free_index p1) (\<lambda>p2. Inr (a, p2)))"

definition deallocate :: "'a pool \<Rightarrow> addr \<Rightarrow> 'a pool res" where
  "deallocate p a =
     bindR (ASSERT (a < n_blocks p)) (\<lambda>_.
     bindR (ASSERT (\<not> is_free p a)) (\<lambda>_.
     Inr (p\<lparr>is_free := (is_free p)(a := True)\<rparr>)))"

definition get_n_blocks_free :: "'a pool \<Rightarrow> nat" where
  "get_n_blocks_free p = length (filter (is_free p) [0..<n_blocks p])"

definition get_n_blocks_used :: "'a pool \<Rightarrow> nat" where
  "get_n_blocks_used p = n_blocks p - get_n_blocks_free p"

text \<open>Writing a field of an object that is in the pool, through its pointer.\<close>

definition poke :: "'a pool \<Rightarrow> addr \<Rightarrow> ('a \<Rightarrow> 'a) \<Rightarrow> 'a pool" where
  "poke p a f = p\<lparr>blk := (blk p)(a := f (blk p a))\<rparr>"

lemma poke_simps [simp]:
  "blk (poke p a f) = (blk p)(a := f (blk p a))"
  "is_free (poke p a f) = is_free p"
  "n_blocks (poke p a f) = n_blocks p"
  "i_next_free (poke p a f) = i_next_free p"
  by (simp_all add: poke_def)

text \<open>The invariant, and the set of blocks in use.\<close>

definition pool_ok :: "'a pool \<Rightarrow> bool" where
  "pool_ok p \<longleftrightarrow> i_next_free p < n_blocks p \<and> is_free p (i_next_free p)"

definition used :: "'a pool \<Rightarrow> addr set" where
  "used p = {a. a < n_blocks p \<and> \<not> is_free p a}"

lemma used_finite [simp]: "finite (used p)"
  by (simp add: used_def)

lemma used_poke [simp]: "used (poke p a f) = used p"
  by (simp add: used_def)

lemma pool_ok_poke [simp]: "pool_ok (poke p a f) = pool_ok p"
  by (simp add: pool_ok_def)

lemma pool_ok_new: "0 < n \<Longrightarrow> pool_ok (new_pool n d)"
  by (simp add: pool_ok_def new_pool_def)

lemma n_blocks_new [simp]: "n_blocks (new_pool n d) = n"
  by (simp add: new_pool_def)

lemma used_new [simp]: "used (new_pool n d) = {}"
  by (simp add: used_def new_pool_def)

lemma used_lt: "a \<in> used p \<Longrightarrow> a < n_blocks p"
  by (simp add: used_def)

lemma pool_card: "pool_ok p \<Longrightarrow> card (used p) < n_blocks p"
proof -
  assume "pool_ok p"
  then have "used p \<subset> {..<n_blocks p}" by (auto simp: pool_ok_def used_def)
  then show ?thesis using psubset_card_mono [of "{..<n_blocks p}"] by auto
qed

subsection \<open>The scan for a free block\<close>

text \<open>How far the scan has come, cyclically, and the distance it still has to go.\<close>

definition cyc :: "nat \<Rightarrow> nat \<Rightarrow> nat" where
  "cyc n k = (if k + 1 = n then 0 else k + 1)"

lemma cyc_lt: "k < n \<Longrightarrow> cyc n k < n"
  by (auto simp: cyc_def)

definition cdist :: "nat \<Rightarrow> nat \<Rightarrow> nat \<Rightarrow> nat" where
  "cdist n start k = (if k < start then start - k else n + start - k)"

lemma cdist_cyc:
  assumes "k < n" "start < n" "start \<noteq> cyc n k"
  shows "Suc (cdist n start (cyc n k)) = cdist n start k"
  using assms by (auto simp: cdist_def cyc_def split: if_splits)

lemma cdist_inj:
  assumes "k < n" "j < n" "start < n" "cdist n start j = cdist n start k"
  shows "j = k"
  using assms by (auto simp: cdist_def split: if_splits)

lemma scan_free_unfold:
  "scan_free (Suc fuel) free n start k =
     (if \<not> free k then if start = cyc n k then Inl Assertion
        else scan_free fuel free n start (cyc n k) else Inr k)"
  by (simp add: cyc_def Let_def)

lemma scan_free_result:
  assumes "k < n" "start < n"
    and "scan_free fuel free n start k = Inr r"
  shows "r < n \<and> free r"
  using assms
proof (induction fuel arbitrary: k)
  case 0
  then show ?case by simp
next
  case (Suc fuel)
  then show ?case
    using cyc_lt [of k n] by (auto simp only: scan_free_unfold split: if_splits)
qed

lemma scan_free_terminates:
  assumes "k < n" "start < n" "cdist n start k \<le> fuel"
  shows "scan_free fuel free n start k \<noteq> Inl Diverges"
  using assms
proof (induction fuel arbitrary: k)
  case 0
  then show ?case by (auto simp: cdist_def split: if_splits)
next
  case (Suc fuel)
  show ?case
  proof (cases "free k \<or> start = cyc n k")
    case True
    then show ?thesis by (auto simp only: scan_free_unfold split: if_splits)
  next
    case False
    then have "cdist n start (cyc n k) \<le> fuel"
      using cdist_cyc [of k n start] Suc.prems by simp
    then have "scan_free fuel free n start (cyc n k) \<noteq> Inl Diverges"
      using Suc.IH [of "cyc n k"] Suc.prems cyc_lt [of k n] by simp
    then show ?thesis using False by (simp only: scan_free_unfold if_False if_True) simp
  qed
qed

text \<open>The scan fails only if every block between \<open>k\<close> and \<open>start\<close> is in use.\<close>

lemma scan_free_fails:
  assumes "k < n" "start < n" "scan_free fuel free n start k = Inl Assertion"
    and "j < n" "free j" "cdist n start j \<le> cdist n start k"
  shows False
  using assms
proof (induction fuel arbitrary: k)
  case 0
  then show ?case by simp
next
  case (Suc fuel)
  have nk: "\<not> free k" using Suc.prems(3) by (auto simp only: scan_free_unfold split: if_splits)
  have jk: "cdist n start j \<noteq> cdist n start k"
    using nk Suc.prems(1,2,4,5) cdist_inj [of k n j start] by auto
  show ?case
  proof (cases "start = cyc n k")
    case True
    then have "cdist n start k = 1"
      using Suc.prems(1,2) by (auto simp: cdist_def cyc_def split: if_splits)
    moreover have "1 \<le> cdist n start j"
      using Suc.prems(2,4) by (auto simp: cdist_def)
    ultimately show ?thesis using jk Suc.prems(6) by simp
  next
    case False
    then have "scan_free fuel free n start (cyc n k) = Inl Assertion"
      using nk Suc.prems(3) by (simp only: scan_free_unfold if_True if_False) simp
    moreover have "cdist n start j \<le> cdist n start (cyc n k)"
      using cdist_cyc [of k n start] False Suc.prems jk by simp
    ultimately show ?thesis
      using Suc.IH [of "cyc n k"] Suc.prems cyc_lt [of k n] by simp
  qed
qed

lemma scan_free_finds:
  assumes "start < n" "j < n" "free j"
  shows "\<exists>r. scan_free n free n start start = Inr r \<and> r < n \<and> free r"
proof -
  have d: "cdist n start start = n" and dj: "cdist n start j \<le> n"
    using assms by (auto simp: cdist_def)
  have "scan_free n free n start start \<noteq> Inl Diverges"
    using scan_free_terminates [of start n start n free] assms d by simp
  moreover have "scan_free n free n start start \<noteq> Inl Assertion"
    using scan_free_fails [of start n start n free j] assms d dj by auto
  moreover have "scan_free f free n start k = Inl e \<Longrightarrow> e = Diverges \<or> e = Assertion" for f k e
    by (induction f arbitrary: k) (auto simp: Let_def split: if_splits)
  ultimately obtain r where r: "scan_free n free n start start = Inr r"
    by (cases "scan_free n free n start start") auto
  then show ?thesis using scan_free_result [OF assms(1) assms(1) r] by simp
qed

lemma scan_free_none:
  assumes "start < n" "\<And>j. j < n \<Longrightarrow> \<not> free j"
  shows "scan_free n free n start start = Inl Assertion"
proof (cases "scan_free n free n start start")
  case (Inl e)
  have "scan_free f free n start k = Inl e \<Longrightarrow> e = Diverges \<or> e = Assertion" for f k e
    by (induction f arbitrary: k) (auto simp: Let_def split: if_splits)
  then show ?thesis
    using Inl scan_free_terminates [of start n start n free] assms(1) by (auto simp: cdist_def)
next
  case (Inr r)
  then show ?thesis using scan_free_result [OF assms(1) assms(1) Inr] assms(2) [of r] by simp
qed

subsection \<open>Allocation and deallocation\<close>

text \<open>Allocation succeeds exactly when a second free block exists.\<close>

lemma allocate_ok:
  assumes "pool_ok p" "Suc (card (used p)) < n_blocks p"
  obtains p' where "allocate p x = Inr (i_next_free p, p')" "pool_ok p'"
    "blk p' = (blk p)(i_next_free p := x)" "used p' = insert (i_next_free p) (used p)"
    "i_next_free p \<notin> used p" "n_blocks p' = n_blocks p"
proof -
  let ?a = "i_next_free p" and ?n = "n_blocks p"
  let ?f = "(is_free p)(?a := False)"
  have a: "?a < ?n" "is_free p ?a" using assms(1) by (auto simp: pool_ok_def)
  have "\<exists>j < ?n. ?f j"
  proof (rule ccontr)
    assume "\<not> ?thesis"
    then have "{..<?n} \<subseteq> insert ?a (used p)" by (auto simp: used_def)
    then have "card {..<?n} \<le> card (insert ?a (used p))" by (rule card_mono [rotated]) simp
    also have "\<dots> \<le> Suc (card (used p))" by (rule card_insert_le_m1) auto
    finally show False using assms(2) by simp
  qed
  then obtain r where r: "scan_free ?n ?f ?n ?a ?a = Inr r" "r < ?n" "?f r"
    using scan_free_finds [OF a(1)] by blast
  let ?p = "p\<lparr>blk := (blk p)(?a := x), is_free := ?f, i_next_free := r\<rparr>"
  have "allocate p x = Inr (?a, ?p)"
    using a r by (simp add: allocate_def update_next_free_index_def Let_def)
  moreover have "pool_ok ?p" using r by (simp add: pool_ok_def)
  ultimately show ?thesis
    using a by (intro that [of ?p]) (auto simp: used_def)
qed

lemma allocate_overrun:
  assumes "pool_ok p" "Suc (card (used p)) = n_blocks p"
  shows "allocate p x = Inl Assertion"
proof -
  let ?a = "i_next_free p" and ?n = "n_blocks p"
  have a: "?a < ?n" "is_free p ?a" "?a \<notin> used p"
    using assms(1) by (auto simp: pool_ok_def used_def)
  have "card (insert ?a (used p)) = card {..<?n}" using a assms(2) by simp
  moreover have "insert ?a (used p) \<subseteq> {..<?n}" using a by (auto simp: used_def)
  ultimately have "insert ?a (used p) = {..<?n}" by (intro card_subset_eq) auto
  then have "\<not> ((is_free p)(?a := False)) j" if "j < ?n" for j
    using that by (auto simp: used_def)
  then have "scan_free ?n ((is_free p)(?a := False)) ?n ?a ?a = Inl Assertion"
    by (intro scan_free_none [OF a(1)])
  then show ?thesis
    using a by (simp add: allocate_def update_next_free_index_def Let_def)
qed

lemma deallocate_ok:
  assumes "pool_ok p" "a \<in> used p"
  obtains p' where "deallocate p a = Inr p'" "pool_ok p'" "blk p' = blk p"
    "used p' = used p - {a}" "n_blocks p' = n_blocks p" "i_next_free p' = i_next_free p"
proof (rule that [of "p\<lparr>is_free := (is_free p)(a := True)\<rparr>"])
  show "deallocate p a = Inr (p\<lparr>is_free := (is_free p)(a := True)\<rparr>)"
    using assms(2) by (simp add: deallocate_def used_def)
qed (use assms in \<open>auto simp: pool_ok_def used_def\<close>)

lemma deallocate_foreign: "n_blocks p \<le> a \<Longrightarrow> deallocate p a = Inl Assertion"
  by (simp add: deallocate_def)

lemma deallocate_free: "is_free p a \<Longrightarrow> deallocate p a = Inl Assertion"
  by (cases "a < n_blocks p") (simp_all add: deallocate_def)

lemma card_used: "card (used p) = get_n_blocks_used p"
proof -
  have "used p = set (filter (\<lambda>a. \<not> is_free p a) [0..<n_blocks p])"
    by (auto simp: used_def)
  then have "card (used p) = length (filter (\<lambda>a. \<not> is_free p a) [0..<n_blocks p])"
    by (metis distinct_card distinct_filter distinct_upt)
  then show ?thesis
    using sum_length_filter_compl [of "is_free p" "[0..<n_blocks p]"]
    by (simp add: get_n_blocks_used_def get_n_blocks_free_def)
qed

subsection \<open>The interface of the order books\<close>

text \<open>
  What a client of the pool relies on: while two blocks are free an allocation hands out a
  block that is not in use and holds the new object, nothing else changes, and a block in
  use can be given back. Inside, a batch of objects is allocated one after the other.
\<close>

fun alloc_list :: "('p \<Rightarrow> 'a \<Rightarrow> (addr \<times> 'p) res) \<Rightarrow> 'p \<Rightarrow> 'a list \<Rightarrow> (addr list \<times> 'p) res" where
  "alloc_list alloc p [] = Inr ([], p)"
| "alloc_list alloc p (x # xs) =
     bindR (alloc p x) (\<lambda>(a, p1). bindR (alloc_list alloc p1 xs) (\<lambda>(as, p2). Inr (a # as, p2)))"

fun free_list :: "('p \<Rightarrow> addr \<Rightarrow> 'p res) \<Rightarrow> 'p \<Rightarrow> addr list \<Rightarrow> 'p res" where
  "free_list free p [] = Inr p"
| "free_list free p (a # as) = bindR (free p a) (\<lambda>p1. free_list free p1 as)"

locale object_pool =
  fixes ok :: "'p \<Rightarrow> bool"
    and in_use :: "'p \<Rightarrow> addr set"
    and size_of :: "'p \<Rightarrow> nat"
    and content :: "'p \<Rightarrow> addr \<Rightarrow> 'a"
    and alloc :: "'p \<Rightarrow> 'a \<Rightarrow> (addr \<times> 'p) res"
    and free :: "'p \<Rightarrow> addr \<Rightarrow> 'p res"
  assumes alloc_law: "ok p \<Longrightarrow> Suc (card (in_use p)) < size_of p \<Longrightarrow>
      \<exists>a p'. alloc p x = Inr (a, p') \<and> ok p' \<and> a \<notin> in_use p \<and> in_use p' = insert a (in_use p)
        \<and> content p' = (content p)(a := x) \<and> size_of p' = size_of p"
    and free_law: "ok p \<Longrightarrow> a \<in> in_use p \<Longrightarrow>
      \<exists>p'. free p a = Inr p' \<and> ok p' \<and> in_use p' = in_use p - {a} \<and> content p' = content p
        \<and> size_of p' = size_of p"
    and finite_law: "finite (in_use p)"
begin

lemma alloc_list_ok:
  assumes "ok p" "card (in_use p) + length xs < size_of p"
  shows "\<exists>as p'. alloc_list alloc p xs = Inr (as, p') \<and> ok p' \<and> distinct as \<and> length as = length xs
    \<and> set as \<inter> in_use p = {} \<and> in_use p' = in_use p \<union> set as
    \<and> map (content p') as = xs \<and> (\<forall>b. b \<notin> set as \<longrightarrow> content p' b = content p b) \<and> size_of p' = size_of p"
  using assms
proof (induction xs arbitrary: p)
  case Nil
  then show ?case by simp
next
  case (Cons x xs)
  have room: "Suc (card (in_use p)) < size_of p" using Cons.prems(2) by simp
  obtain a p1 where a: "alloc p x = Inr (a, p1)" "ok p1" "a \<notin> in_use p" "in_use p1 = insert a (in_use p)"
    "content p1 = (content p)(a := x)" "size_of p1 = size_of p"
    using alloc_law [OF Cons.prems(1) room, of x] by blast
  have "card (in_use p1) + length xs < size_of p1"
    using a(3,4,6) Cons.prems(2) finite_law by simp
  then obtain as p2 where p2: "alloc_list alloc p1 xs = Inr (as, p2)" "ok p2" "distinct as"
    "length as = length xs" "set as \<inter> in_use p1 = {}" "in_use p2 = in_use p1 \<union> set as"
    "map (content p2) as = xs" "\<forall>b. b \<notin> set as \<longrightarrow> content p2 b = content p1 b" "size_of p2 = size_of p1"
    using Cons.IH [OF a(2)] by blast
  have "a \<notin> set as" using p2(5) a(4) by auto
  then show ?case using a p2 by (intro exI [of _ "a # as"] exI [of _ p2]) auto
qed

lemma free_list_ok:
  assumes "ok p" "distinct as" "set as \<subseteq> in_use p"
  shows "\<exists>p'. free_list free p as = Inr p' \<and> ok p' \<and> in_use p' = in_use p - set as \<and> content p' = content p"
  using assms
proof (induction as arbitrary: p)
  case Nil
  then show ?case by simp
next
  case (Cons a as)
  obtain p1 where p1: "free p a = Inr p1" "ok p1" "in_use p1 = in_use p - {a}" "content p1 = content p"
    using free_law [of p a] Cons.prems by auto
  then have "set as \<subseteq> in_use p1" using Cons.prems by auto
  then show ?case using Cons.IH [of p1] Cons.prems p1 by auto
qed

end

interpretation mem_pool: object_pool pool_ok used n_blocks blk allocate deallocate
proof unfold_locales
  fix p :: "'a pool" and x
  assume "pool_ok p" "Suc (card (used p)) < n_blocks p"
  then show "\<exists>a p'. allocate p x = Inr (a, p') \<and> pool_ok p' \<and> a \<notin> used p \<and> used p' = insert a (used p)
        \<and> blk p' = (blk p)(a := x) \<and> n_blocks p' = n_blocks p"
    using allocate_ok by metis
next
  fix p :: "'a pool" and a
  assume "pool_ok p" "a \<in> used p"
  then show "\<exists>p'. deallocate p a = Inr p' \<and> pool_ok p' \<and> used p' = used p - {a} \<and> blk p' = blk p
        \<and> n_blocks p' = n_blocks p"
    using deallocate_ok by metis
qed simp

text \<open>
  C38. Objects allocated one after the other get blocks of their own, none of which was in
  use, and hold the objects; giving the blocks back frees exactly them. It takes one block
  more than there are objects.
\<close>

theorem pool_roundtrip:
  assumes "pool_ok p" "card (used p) + length xs < n_blocks p"
  shows "\<exists>as p1 p2. alloc_list allocate p xs = Inr (as, p1) \<and> distinct as \<and> set as \<inter> used p = {}
    \<and> map (blk p1) as = xs \<and> (\<forall>b. b \<in> used p \<longrightarrow> blk p1 b = blk p b)
    \<and> free_list deallocate p1 as = Inr p2 \<and> pool_ok p2 \<and> used p2 = used p"
proof -
  obtain as p1 where p1: "alloc_list allocate p xs = Inr (as, p1)" "pool_ok p1" "distinct as"
    "set as \<inter> used p = {}" "used p1 = used p \<union> set as" "map (blk p1) as = xs"
    "\<forall>b. b \<notin> set as \<longrightarrow> blk p1 b = blk p b"
    using mem_pool.alloc_list_ok [OF assms] by blast
  obtain p2 where "free_list deallocate p1 as = Inr p2" "pool_ok p2" "used p2 = used p1 - set as"
    using mem_pool.free_list_ok [OF p1(2,3)] p1(5) by blast
  then show ?thesis using p1 by (intro exI [of _ as] exI [of _ p1] exI [of _ p2]) auto
qed

theorem pool_roundtrip_witness:
  "\<exists>as p1. alloc_list allocate (new_pool 3 (0::nat)) [7, 8] = Inr (as, p1) \<and> distinct as \<and> map (blk p1) as = [7, 8]"
proof -
  have "pool_ok (new_pool 3 (0::nat))" "card (used (new_pool 3 (0::nat))) + length [7, 8::nat] < n_blocks (new_pool 3 (0::nat))"
    by (simp_all add: pool_ok_new)
  from pool_roundtrip [OF this] show ?thesis by (elim exE conjE, intro exI conjI)
qed

text \<open>
  The last free block can never be handed out: with one block left the allocation stops
  the process (the scan for the next free block finds none and asserts), so a pool of \<open>n\<close> blocks
  holds at most \<open>n - 1\<close> objects.
\<close>

theorem pool_last_block_asserts:
  assumes "pool_ok p" "get_n_blocks_used p + 1 = n_blocks p"
  shows "allocate p x = Inl Assertion"
  using allocate_overrun [OF assms(1)] assms(2) card_used [of p] by simp

theorem pool_last_block_asserts_witness: "allocate (new_pool 1 (0::nat)) 7 = Inl Assertion"
  by (rule pool_last_block_asserts) (simp_all add: pool_ok_new flip: card_used)

end
