(* ===== verification/Ring.thy ===== *)
theory Ring
  imports Prelude
begin

text \<open>
  Circular doubly linked lists, as the order books keep them: price levels of a side and
  orders of a level are rings through their \<open>next\<close> and \<open>prev\<close> pointers. A ring is
  described by the list of its addresses from some starting point on; \<open>dring_rotate\<close>
  makes the starting point immaterial. The lemmas give the effect of the pointer updates
  of insertion and removal on that list.
\<close>

fun links :: "(addr \<Rightarrow> ptr) \<Rightarrow> (addr \<Rightarrow> ptr) \<Rightarrow> addr list \<Rightarrow> bool" where
  "links nx pv (x # y # zs) \<longleftrightarrow> nx x = Some y \<and> pv y = Some x \<and> links nx pv (y # zs)"
| "links nx pv _ \<longleftrightarrow> True"

definition dring :: "(addr \<Rightarrow> ptr) \<Rightarrow> (addr \<Rightarrow> ptr) \<Rightarrow> addr list \<Rightarrow> bool" where
  "dring nx pv xs \<longleftrightarrow> xs \<noteq> [] \<and> distinct xs \<and> links nx pv (xs @ [hd xs])"

lemma links_append:
  "links nx pv (xs @ a # ys) \<longleftrightarrow> links nx pv (xs @ [a]) \<and> links nx pv (a # ys)"
  by (induction xs rule: induct_list012) auto

lemma links_Cons: "links nx pv (x # ys) \<longleftrightarrow>
    (ys = [] \<or> nx x = Some (hd ys) \<and> pv (hd ys) = Some x \<and> links nx pv ys)"
  by (cases ys) auto

lemma links_snoc: "links nx pv (xs @ [y]) \<longleftrightarrow>
    (xs = [] \<or> nx (last xs) = Some y \<and> pv y = Some (last xs) \<and> links nx pv xs)"
  by (induction xs rule: induct_list012) auto

lemma links_cong:
  assumes "\<And>a. a \<in> set (butlast xs) \<Longrightarrow> nx' a = nx a" "\<And>a. a \<in> set (tl xs) \<Longrightarrow> pv' a = pv a"
  shows "links nx' pv' xs = links nx pv xs"
  using assms by (induction xs rule: induct_list012) auto

lemma dring_iff: "dring nx pv xs \<longleftrightarrow>
    xs \<noteq> [] \<and> distinct xs \<and> links nx pv xs \<and> nx (last xs) = Some (hd xs) \<and> pv (hd xs) = Some (last xs)"
  by (auto simp: dring_def links_snoc)

lemma dring_distinct: "dring nx pv xs \<Longrightarrow> distinct xs"
  by (simp add: dring_def)

lemma dring_not_Nil [simp]: "\<not> dring nx pv []"
  by (simp add: dring_def)

lemma dring_single [simp]: "dring nx pv [x] \<longleftrightarrow> nx x = Some x \<and> pv x = Some x"
  by (simp add: dring_def)

lemma dring_rotate1: "dring nx pv (x # xs) \<longleftrightarrow> dring nx pv (xs @ [x])"
  by (cases "xs = []") (auto simp: dring_iff links_Cons links_snoc)

lemma dring_rotate: "dring nx pv (us @ vs) \<longleftrightarrow> dring nx pv (vs @ us)"
proof (induction us arbitrary: vs)
  case Nil
  then show ?case by simp
next
  case (Cons u us)
  have "dring nx pv ((u # us) @ vs) \<longleftrightarrow> dring nx pv (us @ (vs @ [u]))"
    by (simp add: dring_rotate1)
  also have "\<dots> \<longleftrightarrow> dring nx pv ((vs @ [u]) @ us)" by (rule Cons.IH)
  finally show ?case by simp
qed

lemma dring_frame:
  assumes "\<And>a. a \<in> set xs \<Longrightarrow> nx' a = nx a" "\<And>a. a \<in> set xs \<Longrightarrow> pv' a = pv a"
  shows "dring nx' pv' xs \<longleftrightarrow> dring nx pv xs"
proof (cases "xs = []")
  case False
  then have "links nx' pv' (xs @ [hd xs]) = links nx pv (xs @ [hd xs])"
    using assms False by (intro links_cong) (auto dest: list.set_sel(2) in_set_butlastD)
  then show ?thesis by (simp add: dring_def)
qed simp

text \<open>Reading the links.\<close>

lemma dring_hd: "dring nx pv (x # xs) \<Longrightarrow> pv x = Some (last (x # xs)) \<and> nx (last (x # xs)) = Some x"
  by (simp add: dring_iff)

lemma dring_next: "dring nx pv (us @ a # b # vs) \<Longrightarrow> nx a = Some b \<and> pv b = Some a"
  using links_append [of nx pv us a "b # vs @ [hd (us @ a # b # vs)]"] by (simp add: dring_def)

lemma dring_next_hd: "dring nx pv (a # b # vs) \<Longrightarrow> nx a = Some b \<and> pv b = Some a"
  using dring_next [of nx pv "[]"] by simp

lemma dring_links_closed:
  assumes "dring nx pv xs" "a \<in> set xs"
  shows "\<exists>b c. nx a = Some b \<and> b \<in> set xs \<and> pv a = Some c \<and> c \<in> set xs"
proof -
  obtain us vs where xs: "xs = us @ a # vs" using assms(2) by (meson split_list)
  then have r: "dring nx pv (a # vs @ us)" using assms(1) dring_rotate [of nx pv us "a # vs"] by simp
  then have "pv a = Some (last (a # vs @ us))" by (simp add: dring_iff)
  moreover have "\<exists>b. nx a = Some b \<and> b \<in> set xs"
  proof (cases "vs @ us")
    case Nil
    then show ?thesis using r xs by simp
  next
    case (Cons b ws)
    then have "b \<in> set us \<union> set vs" by (metis Un_commute list.set_intros(1) set_append)
    then show ?thesis using r xs Cons dring_next_hd [of nx pv a b ws] by auto
  qed
  moreover have "last (a # vs @ us) \<in> set (a # vs @ us)" by (rule last_in_set) simp
  ultimately show ?thesis using xs by auto
qed

lemma dring_self_next:
  assumes "dring nx pv xs" "a \<in> set xs"
  shows "nx a = Some a \<longleftrightarrow> xs = [a]"
proof -
  obtain us vs where xs: "xs = us @ a # vs" using assms(2) by (meson split_list)
  then have r: "dring nx pv (a # vs @ us)" using assms(1) dring_rotate [of nx pv us "a # vs"] by simp
  show ?thesis
  proof (cases "vs @ us")
    case Nil
    then show ?thesis using r xs by simp
  next
    case (Cons b ws)
    then have "nx a = Some b" "a \<noteq> b" using r by (auto dest: dring_next_hd dring_distinct)
    then show ?thesis using Cons xs by (auto simp: append_eq_Cons_conv)
  qed
qed

lemma dring_self_prev:
  assumes "dring nx pv xs" "a \<in> set xs"
  shows "pv a = Some a \<longleftrightarrow> xs = [a]"
proof -
  obtain us vs where xs: "xs = us @ a # vs" using assms(2) by (meson split_list)
  then have r: "dring nx pv (a # vs @ us)" using assms(1) dring_rotate [of nx pv us "a # vs"] by simp
  then have pv: "pv a = Some (last (a # vs @ us))" by (simp add: dring_iff)
  show ?thesis
  proof (cases "vs @ us = []")
    case True
    then show ?thesis using r xs by simp
  next
    case False
    then have "last (vs @ us) \<in> set (vs @ us)" by (rule last_in_set)
    then have "last (vs @ us) \<noteq> a" using r by (auto dest: dring_distinct)
    then show ?thesis using False xs pv by (auto simp: append_eq_Cons_conv)
  qed
qed

text \<open>
  Insertion of \<open>n\<close> between the last and the first element, and removal of the first.
  Both are stated for any pair of pointer maps that agree off the changed links, which is
  how they meet the successive writes of the code.
\<close>

lemma dring_insert:
  assumes "dring nx pv xs" "n \<notin> set xs"
    and "nx' n = Some (hd xs)" "pv' n = Some (last xs)"
    and "nx' (last xs) = Some n" "pv' (hd xs) = Some n"
    and "\<And>a. a \<in> set xs \<Longrightarrow> a \<noteq> last xs \<Longrightarrow> nx' a = nx a"
    and "\<And>a. a \<in> set xs \<Longrightarrow> a \<noteq> hd xs \<Longrightarrow> pv' a = pv a"
  shows "dring nx' pv' (xs @ [n])"
proof -
  have ne: "xs \<noteq> []" and d: "distinct xs" and l: "links nx pv xs"
    using assms(1) by (auto simp: dring_iff)
  have bl: "a \<in> set xs \<and> a \<noteq> last xs" if "a \<in> set (butlast xs)" for a
    using that d ne by (metis append_butlast_last_id distinct_butlast in_set_butlastD not_distinct_conv_prefix distinct_append disjoint_iff list.set_intros(1))
  have tl: "a \<in> set xs \<and> a \<noteq> hd xs" if "a \<in> set (tl xs)" for a
    using that d ne by (metis distinct.simps(2) list.collapse list.set_sel(2))
  have "links nx' pv' xs = links nx pv xs"
    by (rule links_cong) (use bl tl assms(7,8) in auto)
  then show ?thesis using ne d l assms(2-6) by (auto simp: dring_iff links_snoc)
qed

lemma dring_remove:
  assumes "dring nx pv (x # xs)" "xs \<noteq> []"
    and "nx' (last xs) = Some (hd xs)" "pv' (hd xs) = Some (last xs)"
    and "\<And>a. a \<in> set xs \<Longrightarrow> a \<noteq> last xs \<Longrightarrow> nx' a = nx a"
    and "\<And>a. a \<in> set xs \<Longrightarrow> a \<noteq> hd xs \<Longrightarrow> pv' a = pv a"
  shows "dring nx' pv' xs"
proof -
  have d: "distinct xs" and l: "links nx pv xs"
    using assms(1,2) by (auto simp: dring_iff links_Cons)
  have bl: "a \<in> set xs \<and> a \<noteq> last xs" if "a \<in> set (butlast xs)" for a
    using that d assms(2) by (metis append_butlast_last_id distinct_butlast in_set_butlastD not_distinct_conv_prefix distinct_append disjoint_iff list.set_intros(1))
  have tl: "a \<in> set xs \<and> a \<noteq> hd xs" if "a \<in> set (tl xs)" for a
    using that d assms(2) by (metis distinct.simps(2) list.collapse list.set_sel(2))
  have "links nx' pv' xs = links nx pv xs"
    by (rule links_cong) (use bl tl assms(5,6) in auto)
  then show ?thesis using d l assms(2-4) by (auto simp: dring_iff)
qed

end
