(* ===== verification/Price_Levels.thy ===== *)
theory Price_Levels
  imports Nitek_Types Mem_Pool Ring
begin

text \<open>
  The part the two order books have in common ("implementation is necessarily almost
  identical", \<open>client/orders/te_order_book.cpp\<close>): orders in doubly linked rings at price
  levels, price levels in a doubly linked ring per side sorted by aggressiveness, a table
  from \<open>price % MAX_PRICE_LEVELS\<close> to the level, and two memory pools. The records hold the
  fields both kinds of order and book share; the exchange's and the client's classes
  extend them. Everything is pointer for pointer as in the code: an address is a block of
  the pool, and the operations perform the same reads and writes in the same order.
\<close>

record order_node =
  o_side :: side
  o_price :: price
  o_qty :: qty
  o_priority :: priority
  o_prev :: ptr
  o_next :: ptr

record level =
  l_side :: side
  l_price :: price
  l_order_0 :: ptr
  l_prev :: ptr
  l_next :: ptr

definition default_level :: level where
  "default_level = \<lparr>l_side = SIDE_INVALID, l_price = Price_INVALID, l_order_0 = None,
     l_prev = None, l_next = None\<rparr>"

record 'o level_book =
  orders_at_price_pool :: "level pool"
  bids_by_price :: ptr
  asks_by_price :: ptr
  map_price_to_price_level :: "nat \<Rightarrow> ptr"
  order_pool :: "'o order_node_scheme pool"

subsection \<open>Reads and writes through pointers\<close>

definition lev :: "('o, 'z) level_book_scheme \<Rightarrow> addr \<Rightarrow> level" where
  "lev b a = blk (orders_at_price_pool b) a"

definition ord :: "('o, 'z) level_book_scheme \<Rightarrow> addr \<Rightarrow> 'o order_node_scheme" where
  "ord b a = blk (order_pool b) a"

definition set_level ::
  "addr \<Rightarrow> (level \<Rightarrow> level) \<Rightarrow> ('o, 'z) level_book_scheme \<Rightarrow> ('o, 'z) level_book_scheme" where
  "set_level a f b = b\<lparr>orders_at_price_pool := poke (orders_at_price_pool b) a f\<rparr>"

definition set_order ::
  "addr \<Rightarrow> ('o order_node_scheme \<Rightarrow> 'o order_node_scheme) \<Rightarrow> ('o, 'z) level_book_scheme
     \<Rightarrow> ('o, 'z) level_book_scheme" where
  "set_order a f b = b\<lparr>order_pool := poke (order_pool b) a f\<rparr>"

definition best_levels :: "side \<Rightarrow> ('o, 'z) level_book_scheme \<Rightarrow> ptr" where
  "best_levels sd b = (if sd = BUY then bids_by_price b else asks_by_price b)"

definition set_best :: "side \<Rightarrow> ptr \<Rightarrow> ('o, 'z) level_book_scheme \<Rightarrow> ('o, 'z) level_book_scheme" where
  "set_best sd p b = (if sd = BUY then b\<lparr>bids_by_price := p\<rparr> else b\<lparr>asks_by_price := p\<rparr>)"

definition get_level_for_price :: "('o, 'z) level_book_scheme \<Rightarrow> price \<Rightarrow> ptr" where
  "get_level_for_price b p = map_price_to_price_level b (price_to_index p)"

subsection \<open>\<open>add_price_level\<close>\<close>

text \<open>
  The \<open>while\<close> loop that walks to the insertion point. The fuel is the size of the level
  pool: the walk stops at \<open>best\<close> or before a level it has seen.
\<close>

fun find_target :: "nat \<Rightarrow> ('o, 'z) level_book_scheme \<Rightarrow> side \<Rightarrow> price \<Rightarrow> addr \<Rightarrow> bool \<Rightarrow> addr
    \<Rightarrow> (bool \<times> addr) res" where
  "find_target fuel b sd p best should_add_after target =
     (if should_add_after \<and> target \<noteq> best then
        (case fuel of 0 \<Rightarrow> Inl Diverges
         | Suc f \<Rightarrow>
            if worse sd p (l_price (lev b target))
            then bindR (deref (l_next (lev b target))) (\<lambda>t. find_target f b sd p best True t)
            else find_target f b sd p best False target)
      else Inr (should_add_after, target))"

declare find_target.simps [simp del]

text \<open>The two insertions; \<open>best\<close> is \<open>best_orders_by_price\<close>, \<open>new\<close> is \<open>new_orders_at_price\<close>.\<close>

definition insert_level_after :: "('o, 'z) level_book_scheme \<Rightarrow> addr \<Rightarrow> addr \<Rightarrow> addr
    \<Rightarrow> ('o, 'z) level_book_scheme res" where
  "insert_level_after b best new target0 =
     bindR (if target0 = best then deref (l_prev (lev b best)) else Inr target0) (\<lambda>target.
     let b1 = set_level new (\<lambda>l. l\<lparr>l_prev := Some target\<rparr>) b in
     bindR (deref (l_next (lev b1 target))) (\<lambda>tn.
     let b2 = set_level tn (\<lambda>l. l\<lparr>l_prev := Some new\<rparr>) b1;
         b3 = set_level new (\<lambda>l. l\<lparr>l_next := l_next (lev b2 target)\<rparr>) b2;
         b4 = set_level target (\<lambda>l. l\<lparr>l_next := Some new\<rparr>) b3
     in Inr b4))"

definition insert_level_before :: "('o, 'z) level_book_scheme \<Rightarrow> addr \<Rightarrow> addr \<Rightarrow> addr
    \<Rightarrow> ('o, 'z) level_book_scheme res" where
  "insert_level_before b best new target =
     (let b1 = set_level new (\<lambda>l. l\<lparr>l_prev := l_prev (lev b target)\<rparr>) b;
          b2 = set_level new (\<lambda>l. l\<lparr>l_next := Some target\<rparr>) b1
      in bindR (deref (l_prev (lev b2 target))) (\<lambda>tp.
      let b3 = set_level tp (\<lambda>l. l\<lparr>l_next := Some new\<rparr>) b2;
          b4 = set_level target (\<lambda>l. l\<lparr>l_prev := Some new\<rparr>) b3;
          sd = l_side (lev b4 new)
      in if worse sd (l_price (lev b4 best)) (l_price (lev b4 new)) then
           let b5 = set_level target (\<lambda>l. l\<lparr>l_next := (if l_next (lev b4 target) = Some best
                      then Some new else l_next (lev b4 target))\<rparr>) b4
           in Inr (set_best sd (Some new) b5)
         else Inr b4))"

text \<open>Where the level goes: after \<open>target\<close> or before it.\<close>

definition insertion_point :: "('o, 'z) level_book_scheme \<Rightarrow> side \<Rightarrow> price \<Rightarrow> addr \<Rightarrow> (bool \<times> addr) res" where
  "insertion_point b sd p best =
     (let after = worse sd p (l_price (lev b best)) in
      bindR (if after
             then bindR (deref (l_next (lev b best))) (\<lambda>t. Inr (worse sd p (l_price (lev b t)), t))
             else Inr (after, best)) (\<lambda>(after, target).
      find_target (n_blocks (orders_at_price_pool b)) b sd p best after target))"

definition add_price_level :: "('o, 'z) level_book_scheme \<Rightarrow> addr \<Rightarrow> ('o, 'z) level_book_scheme res" where
  "add_price_level b0 new =
     (let sd = l_side (lev b0 new);
          p = l_price (lev b0 new);
          b = b0\<lparr>map_price_to_price_level := (map_price_to_price_level b0)(price_to_index p := Some new)\<rparr>
      in case best_levels sd b of
           None \<Rightarrow>
             Inr (set_level new (\<lambda>l. l\<lparr>l_prev := Some new, l_next := Some new\<rparr>) (set_best sd (Some new) b))
         | Some best \<Rightarrow>
             bindR (insertion_point b sd p best) (\<lambda>(after, target).
             if after then insert_level_after b best new target
             else insert_level_before b best new target))"

subsection \<open>\<open>remove_price_level\<close>\<close>

text \<open>The level \<open>l\<close> leaves the ring of its side.\<close>

definition unlink_level :: "('o, 'z) level_book_scheme \<Rightarrow> side \<Rightarrow> addr \<Rightarrow> ('o, 'z) level_book_scheme res" where
  "unlink_level b sd l =
     (let best = best_levels sd b in
      if l_next (lev b l) = Some l then Inr (set_best sd None b)
      else
        bindR (deref (l_prev (lev b l))) (\<lambda>lp.
        let b1 = set_level lp (\<lambda>r. r\<lparr>l_next := l_next (lev b l)\<rparr>) b in
        bindR (deref (l_next (lev b1 l))) (\<lambda>ln.
        let b2 = set_level ln (\<lambda>r. r\<lparr>l_prev := l_prev (lev b1 l)\<rparr>) b1;
            b3 = (if Some l = best then set_best sd (l_next (lev b2 l)) b2 else b2)
        in Inr (set_level l (\<lambda>r. r\<lparr>l_next := None, l_prev := None\<rparr>) b3))))"

definition remove_price_level :: "('o, 'z) level_book_scheme \<Rightarrow> side \<Rightarrow> price
    \<Rightarrow> ('o, 'z) level_book_scheme res" where
  "remove_price_level b sd p =
     bindR (deref (get_level_for_price b p)) (\<lambda>l.
     bindR (unlink_level b sd l) (\<lambda>b1.
     let b2 = b1\<lparr>map_price_to_price_level := (map_price_to_price_level b1)(price_to_index p := None)\<rparr> in
     bindR (deallocate (orders_at_price_pool b2) l) (\<lambda>lp.
     Inr (b2\<lparr>orders_at_price_pool := lp\<rparr>))))"

subsection \<open>Linking an order into the book, and out of it\<close>

text \<open>
  \<open>add_order_to_book\<close> of the exchange and \<open>add_order\<close> of the client but for their last
  statement, the entry in the book's order table.
\<close>

definition link_order :: "('o, 'z) level_book_scheme \<Rightarrow> addr \<Rightarrow> ('o, 'z) level_book_scheme res" where
  "link_order b a =
     (case get_level_for_price b (o_price (ord b a)) of
        None \<Rightarrow>
          let b1 = set_order a (\<lambda>r. r\<lparr>o_prev := Some a, o_next := Some a\<rparr>) b in
          bindR (allocate (orders_at_price_pool b1)
                   \<lparr>l_side = o_side (ord b1 a), l_price = o_price (ord b1 a), l_order_0 = Some a,
                    l_prev = None, l_next = None\<rparr>) (\<lambda>(new, lp).
          add_price_level (b1\<lparr>orders_at_price_pool := lp\<rparr>) new)
      | Some l \<Rightarrow>
          bindR (deref (l_order_0 (lev b l))) (\<lambda>first.
          bindR (deref (o_prev (ord b first))) (\<lambda>lst.
          let b1 = set_order lst (\<lambda>r. r\<lparr>o_next := Some a\<rparr>) b;
              b2 = set_order a (\<lambda>r. r\<lparr>o_prev := o_prev (ord b1 first)\<rparr>) b1;
              b3 = set_order a (\<lambda>r. r\<lparr>o_next := Some first\<rparr>) b2
          in Inr (set_order first (\<lambda>r. r\<lparr>o_prev := Some a\<rparr>) b3))))"

text \<open>
  \<open>remove_order_from_book\<close> and \<open>remove_order\<close> up to the order table and the pool.
\<close>

definition unlink_order :: "('o, 'z) level_book_scheme \<Rightarrow> addr \<Rightarrow> ('o, 'z) level_book_scheme res" where
  "unlink_order b a =
     (let lp = get_level_for_price b (o_price (ord b a)) in
      if o_prev (ord b a) = Some a then
        remove_price_level b (o_side (ord b a)) (o_price (ord b a))
      else
        bindR (deref (o_prev (ord b a))) (\<lambda>before.
        bindR (deref (o_next (ord b a))) (\<lambda>aft.
        let b1 = set_order before (\<lambda>r. r\<lparr>o_next := Some aft\<rparr>) b;
            b2 = set_order aft (\<lambda>r. r\<lparr>o_prev := Some before\<rparr>) b1
        in bindR (deref lp) (\<lambda>l.
        let b3 = (if l_order_0 (lev b2 l) = Some a
                  then set_level l (\<lambda>r. r\<lparr>l_order_0 := Some aft\<rparr>) b2 else b2)
        in Inr (set_order a (\<lambda>r. r\<lparr>o_next := None, o_prev := None\<rparr>) b3)))))"

subsection \<open>Read-over-write\<close>

named_theorems book_simps \<open>reads after writes of a level book\<close>

lemma lev_set_level [book_simps]: "lev (set_level a f b) c = (if c = a then f (lev b a) else lev b c)"
  by (simp add: lev_def set_level_def)

lemma ord_set_order [book_simps]: "ord (set_order a f b) c = (if c = a then f (ord b a) else ord b c)"
  by (simp add: ord_def set_order_def)

lemma ord_set_level [book_simps]: "ord (set_level a f b) = ord b"
  by (simp add: ord_def set_level_def fun_eq_iff)

lemma lev_set_order [book_simps]: "lev (set_order a f b) = lev b"
  by (simp add: lev_def set_order_def fun_eq_iff)

lemma lev_set_best [book_simps]: "lev (set_best sd p b) = lev b"
  by (simp add: lev_def set_best_def fun_eq_iff)

lemma ord_set_best [book_simps]: "ord (set_best sd p b) = ord b"
  by (simp add: ord_def set_best_def fun_eq_iff)

lemma best_set_level [book_simps]: "best_levels sd (set_level a f b) = best_levels sd b"
  by (simp add: best_levels_def set_level_def)

lemma best_set_order [book_simps]: "best_levels sd (set_order a f b) = best_levels sd b"
  by (simp add: best_levels_def set_order_def)

lemma best_set_best [book_simps]:
  "best_levels sd (set_best sd' p b) = (if (sd = BUY) = (sd' = BUY) then p else best_levels sd b)"
  by (auto simp: best_levels_def set_best_def)

lemma map_writes [book_simps]:
  "map_price_to_price_level (set_level a f b) = map_price_to_price_level b"
  "map_price_to_price_level (set_order a g b) = map_price_to_price_level b"
  "map_price_to_price_level (set_best sd p b) = map_price_to_price_level b"
  by (simp_all add: set_level_def set_order_def set_best_def)

lemma pool_writes [book_simps]:
  "used (orders_at_price_pool (set_level a f b)) = used (orders_at_price_pool b)"
  "orders_at_price_pool (set_order a g b) = orders_at_price_pool b"
  "orders_at_price_pool (set_best sd p b) = orders_at_price_pool b"
  "used (order_pool (set_order a g b)) = used (order_pool b)"
  "order_pool (set_level a f b) = order_pool b"
  "order_pool (set_best sd p b) = order_pool b"
  "pool_ok (orders_at_price_pool (set_level a f b)) = pool_ok (orders_at_price_pool b)"
  "pool_ok (order_pool (set_order a g b)) = pool_ok (order_pool b)"
  "n_blocks (orders_at_price_pool (set_level a f b)) = n_blocks (orders_at_price_pool b)"
  "n_blocks (order_pool (set_order a g b)) = n_blocks (order_pool b)"
  by (simp_all add: set_level_def set_order_def set_best_def)

lemma map_update_reads [book_simps]:
  "lev (b\<lparr>map_price_to_price_level := m\<rparr>) = lev b"
  "ord (b\<lparr>map_price_to_price_level := m\<rparr>) = ord b"
  "best_levels sd (b\<lparr>map_price_to_price_level := m\<rparr>) = best_levels sd b"
  by (simp_all add: lev_def ord_def best_levels_def fun_eq_iff)

lemma pool_update_reads [book_simps]:
  "lev (b\<lparr>orders_at_price_pool := lp\<rparr>) = blk lp"
  "ord (b\<lparr>orders_at_price_pool := lp\<rparr>) = ord b"
  "best_levels sd (b\<lparr>orders_at_price_pool := lp\<rparr>) = best_levels sd b"
  "lev (b\<lparr>order_pool := op\<rparr>) = lev b"
  "ord (b\<lparr>order_pool := op\<rparr>) = blk op"
  "best_levels sd (b\<lparr>order_pool := op\<rparr>) = best_levels sd b"
  by (simp_all add: lev_def ord_def best_levels_def fun_eq_iff)

lemma more_writes [book_simps]:
  "level_book.more (set_level a f b) = level_book.more b"
  "level_book.more (set_order a g b) = level_book.more b"
  "level_book.more (set_best sd p b) = level_book.more b"
  by (simp_all add: set_level_def set_order_def set_best_def)

text \<open>
  Writes through pointers change no allocation, no entry of the table and none of the
  fields a book adds.
\<close>

definition same_blocks :: "('o, 'z) level_book_scheme \<Rightarrow> ('o, 'z) level_book_scheme \<Rightarrow> bool" where
  "same_blocks b b' \<longleftrightarrow>
     used (order_pool b') = used (order_pool b) \<and> pool_ok (order_pool b') = pool_ok (order_pool b)
   \<and> n_blocks (order_pool b') = n_blocks (order_pool b)
   \<and> used (orders_at_price_pool b') = used (orders_at_price_pool b)
   \<and> pool_ok (orders_at_price_pool b') = pool_ok (orders_at_price_pool b)
   \<and> n_blocks (orders_at_price_pool b') = n_blocks (orders_at_price_pool b)
   \<and> map_price_to_price_level b' = map_price_to_price_level b
   \<and> level_book.more b' = level_book.more b"

lemma same_blocks_refl [simp]: "same_blocks b b"
  by (simp add: same_blocks_def)

lemma same_blocks_writes [simp]:
  "same_blocks b (set_level a f c) \<longleftrightarrow> same_blocks b c"
  "same_blocks b (set_order a g c) \<longleftrightarrow> same_blocks b c"
  "same_blocks b (set_best sd p c) \<longleftrightarrow> same_blocks b c"
  by (simp_all add: same_blocks_def book_simps)

end
