(* ===== verification/Level_Invariant.thy ===== *)
theory Level_Invariant
  imports Price_Levels
begin

text \<open>
  The invariant of a level book, relative to a ghost description of its contents: for
  each side the list of its price levels from the most aggressive one on, each an address
  with the addresses of its orders in queue order. \<open>book_ok b G X Y\<close> says that the pointers
  of \<open>b\<close> realise \<open>G\<close>, where \<open>X\<close> are order blocks and \<open>Y\<close> level blocks that are allocated but
  not linked in yet (or any more). The lemmas show what each operation of
  \<open>Price_Levels\<close> does to the ghost description.
\<close>

type_synonym ghost_side = "(addr \<times> addr list) list"

type_synonym ghost = "side \<Rightarrow> ghost_side"

definition lnx :: "('o, 'z) level_book_scheme \<Rightarrow> addr \<Rightarrow> ptr" where "lnx b a = l_next (lev b a)"
definition lpv :: "('o, 'z) level_book_scheme \<Rightarrow> addr \<Rightarrow> ptr" where "lpv b a = l_prev (lev b a)"
definition onx :: "('o, 'z) level_book_scheme \<Rightarrow> addr \<Rightarrow> ptr" where "onx b a = o_next (ord b a)"
definition opv :: "('o, 'z) level_book_scheme \<Rightarrow> addr \<Rightarrow> ptr" where "opv b a = o_prev (ord b a)"
definition lpr :: "('o, 'z) level_book_scheme \<Rightarrow> addr \<Rightarrow> price" where "lpr b a = l_price (lev b a)"

lemmas view_defs = lnx_def lpv_def onx_def opv_def lpr_def

definition is_side :: "side \<Rightarrow> bool" where
  "is_side sd \<longleftrightarrow> sd = BUY \<or> sd = SELL"

lemma is_side_simps [simp]: "is_side BUY" "is_side SELL" "\<not> is_side SIDE_INVALID" "\<not> is_side SIDE_MAX"
  by (simp_all add: is_side_def)

lemma is_side_opposite [simp]: "is_side (opposite sd)"
  by (simp add: opposite_def)

lemma is_side_cases: "is_side sd \<Longrightarrow> is_side sd' \<Longrightarrow> sd' = sd \<or> sd' = opposite sd"
  by (auto simp: is_side_def)

lemma opposite_neq [simp]: "opposite sd \<noteq> sd" "sd \<noteq> opposite sd"
  by (auto simp: opposite_def)

lemma BUY_eq_is_side: "is_side sd \<Longrightarrow> is_side sd' \<Longrightarrow> (sd = BUY) = (sd' = BUY) \<longleftrightarrow> sd = sd'"
  by (auto simp: is_side_def)

definition levels_of :: "ghost_side \<Rightarrow> addr set" where
  "levels_of L = fst ` set L"

definition orders_of :: "ghost_side \<Rightarrow> addr set" where
  "orders_of L = (\<Union>e \<in> set L. set (snd e))"

definition all_levels :: "ghost \<Rightarrow> addr set" where
  "all_levels G = levels_of (G BUY) \<union> levels_of (G SELL)"

definition all_orders :: "ghost \<Rightarrow> addr set" where
  "all_orders G = orders_of (G BUY) \<union> orders_of (G SELL)"

lemma levels_of_simps [simp]:
  "levels_of [] = {}" "levels_of (e # L) = insert (fst e) (levels_of L)"
  "levels_of (L @ M) = levels_of L \<union> levels_of M"
  by (auto simp: levels_of_def)

lemma orders_of_simps [simp]:
  "orders_of [] = {}" "orders_of (e # L) = set (snd e) \<union> orders_of L"
  "orders_of (L @ M) = orders_of L \<union> orders_of M"
  by (auto simp: orders_of_def)

lemma finite_of [simp]: "finite (orders_of L)" "finite (levels_of L)"
  by (simp_all add: orders_of_def levels_of_def)

lemma all_levels_side: "is_side sd \<Longrightarrow> all_levels G = levels_of (G sd) \<union> levels_of (G (opposite sd))"
  by (auto simp: all_levels_def is_side_def)

lemma all_orders_side: "is_side sd \<Longrightarrow> all_orders G = orders_of (G sd) \<union> orders_of (G (opposite sd))"
  by (auto simp: all_orders_def is_side_def)

lemma all_levels_upd: "is_side sd \<Longrightarrow> all_levels (G(sd := L)) = levels_of L \<union> levels_of (G (opposite sd))"
  by (auto simp: all_levels_def is_side_def)

lemma all_orders_upd: "is_side sd \<Longrightarrow> all_orders (G(sd := L)) = orders_of L \<union> orders_of (G (opposite sd))"
  by (auto simp: all_orders_def is_side_def)

definition order_ok :: "('o, 'z) level_book_scheme \<Rightarrow> side \<Rightarrow> price \<Rightarrow> addr \<Rightarrow> bool" where
  "order_ok b sd p a \<longleftrightarrow> o_side (ord b a) = sd \<and> o_price (ord b a) = p"

definition level_ok :: "('o, 'z) level_book_scheme \<Rightarrow> side \<Rightarrow> addr \<times> addr list \<Rightarrow> bool" where
  "level_ok b sd e \<longleftrightarrow> l_side (lev b (fst e)) = sd \<and> snd e \<noteq> []
     \<and> l_order_0 (lev b (fst e)) = Some (hd (snd e)) \<and> dring (onx b) (opv b) (snd e)
     \<and> (\<forall>a \<in> set (snd e). order_ok b sd (lpr b (fst e)) a)"

definition side_ok :: "('o, 'z) level_book_scheme \<Rightarrow> side \<Rightarrow> ghost_side \<Rightarrow> bool" where
  "side_ok b sd L \<longleftrightarrow> best_levels sd b = (if L = [] then None else Some (fst (hd L)))
     \<and> (L \<noteq> [] \<longrightarrow> dring (lnx b) (lpv b) (map fst L))
     \<and> (\<forall>e \<in> set L. level_ok b sd e)
     \<and> sorted_wrt (\<lambda>e f. worse sd (lpr b (fst f)) (lpr b (fst e))) L"

definition table_ok :: "('o, 'z) level_book_scheme \<Rightarrow> addr set \<Rightarrow> bool" where
  "table_ok b S \<longleftrightarrow>
     (\<forall>i l. map_price_to_price_level b i = Some l \<longleftrightarrow> l \<in> S \<and> price_to_index (lpr b l) = i)"

definition book_ok :: "('o, 'z) level_book_scheme \<Rightarrow> ghost \<Rightarrow> addr set \<Rightarrow> addr set \<Rightarrow> bool" where
  "book_ok b G X Y \<longleftrightarrow> pool_ok (orders_at_price_pool b) \<and> pool_ok (order_pool b)
     \<and> side_ok b BUY (G BUY) \<and> side_ok b SELL (G SELL)
     \<and> used (orders_at_price_pool b) = all_levels G \<union> Y \<and> all_levels G \<inter> Y = {}
     \<and> used (order_pool b) = all_orders G \<union> X \<and> all_orders G \<inter> X = {}
     \<and> table_ok b (all_levels G)"

lemma book_ok_side: "book_ok b G X Y \<Longrightarrow> is_side sd \<Longrightarrow> side_ok b sd (G sd)"
  by (auto simp: book_ok_def is_side_def)

text \<open>Two addresses can only be levels of one side at one index, and orders of one level.\<close>

lemma side_ok_level: "side_ok b sd L \<Longrightarrow> l \<in> levels_of L \<Longrightarrow> l_side (lev b l) = sd"
  by (auto simp: side_ok_def level_ok_def levels_of_def)

lemma side_ok_order: "side_ok b sd L \<Longrightarrow> a \<in> orders_of L \<Longrightarrow> o_side (ord b a) = sd"
  by (auto simp: side_ok_def level_ok_def order_ok_def orders_of_def)

lemma side_ok_distinct: "side_ok b sd L \<Longrightarrow> distinct (map fst L)"
  by (cases "L = []") (auto simp: side_ok_def dest: dring_distinct)

lemma sides_disjoint:
  assumes "side_ok b sd L" "side_ok b (opposite sd) M"
  shows "levels_of L \<inter> levels_of M = {}" "orders_of L \<inter> orders_of M = {}"
  using side_ok_level [OF assms(1)] side_ok_level [OF assms(2)]
    side_ok_order [OF assms(1)] side_ok_order [OF assms(2)] opposite_neq by blast+

lemma sorted_levels_price:
  assumes "sorted_wrt (\<lambda>e f. worse sd (lpr b (fst f)) (lpr b (fst e))) L"
    and "e \<in> set L" "f \<in> set L" "lpr b (fst e) = lpr b (fst f)"
  shows "e = f"
  using assms by (induction L) auto

text \<open>
  A level of a side that holds an order is the only one; used to split a ghost side.
\<close>

lemma side_ok_price:
  assumes "side_ok b sd L" "(l, os) \<in> set L" "a \<in> set os"
  shows "o_price (ord b a) = lpr b l"
proof -
  have "level_ok b sd (l, os)" using assms by (simp add: side_ok_def)
  then show ?thesis using assms(3) by (simp add: level_ok_def order_ok_def)
qed

lemma side_ok_order_level:
  assumes "side_ok b sd L" "(l, os) \<in> set L" "a \<in> set os" "(l', os') \<in> set L" "a \<in> set os'"
  shows "(l', os') = (l, os)"
proof -
  have "lpr b l' = lpr b l"
    using side_ok_price [OF assms(1-3)] side_ok_price [OF assms(1,4,5)] by simp
  then show ?thesis
    using assms sorted_levels_price [of sd b L "(l', os')" "(l, os)"] by (auto simp: side_ok_def)
qed

lemma side_ok_split:
  assumes "side_ok b sd (L1 @ (l, os) # L2)"
  shows "l \<notin> levels_of (L1 @ L2)" "set os \<inter> orders_of (L1 @ L2) = {}" "distinct os" "os \<noteq> []"
    "dring (onx b) (opv b) os"
proof -
  show "l \<notin> levels_of (L1 @ L2)"
    using side_ok_distinct [OF assms] by (auto simp: levels_of_def)
  show "set os \<inter> orders_of (L1 @ L2) = {}"
  proof (rule ccontr)
    assume "\<not> ?thesis"
    then obtain a e where "a \<in> set os" "a \<in> set (snd e)" "e \<in> set (L1 @ L2)"
      by (auto simp: orders_of_def)
    moreover obtain l' os' where "e = (l', os')" by (cases e)
    ultimately have a: "a \<in> set os" "a \<in> set os'" "(l', os') \<in> set (L1 @ L2)" by auto
    then have "(l', os') = (l, os)"
      using side_ok_order_level [OF assms, of l os a l' os'] by auto
    moreover have "l' \<in> levels_of (L1 @ L2)" using a(3) by (force simp: levels_of_def)
    ultimately show False using \<open>l \<notin> levels_of (L1 @ L2)\<close> by simp
  qed
  show "distinct os" "os \<noteq> []" "dring (onx b) (opv b) os"
    using assms by (auto simp: side_ok_def level_ok_def dest: dring_distinct)
qed

subsection \<open>Frame rules\<close>

lemma level_ok_frame:
  assumes "l_side (lev b' (fst e)) = l_side (lev b (fst e))"
    "l_order_0 (lev b' (fst e)) = l_order_0 (lev b (fst e))" "lpr b' (fst e) = lpr b (fst e)"
    "\<And>a. a \<in> set (snd e) \<Longrightarrow> onx b' a = onx b a \<and> opv b' a = opv b a
        \<and> o_side (ord b' a) = o_side (ord b a) \<and> o_price (ord b' a) = o_price (ord b a)"
  shows "level_ok b' sd e = level_ok b sd e"
proof -
  have "dring (onx b') (opv b') (snd e) = dring (onx b) (opv b) (snd e)"
    by (rule dring_frame) (use assms(4) in auto)
  then show ?thesis using assms by (auto simp: level_ok_def order_ok_def)
qed

lemma side_ok_frame:
  assumes "best_levels sd b' = best_levels sd b"
    and "\<And>l. l \<in> levels_of L \<Longrightarrow> lev b' l = lev b l"
    and "\<And>a. a \<in> orders_of L \<Longrightarrow> ord b' a = ord b a"
  shows "side_ok b' sd L = side_ok b sd L"
proof -
  have l: "lev b' (fst e) = lev b (fst e)" if "e \<in> set L" for e
    using that assms(2) by (simp add: levels_of_def)
  have o': "ord b' a = ord b a" if "e \<in> set L" "a \<in> set (snd e)" for e a
    using that assms(3) by (auto simp: orders_of_def)
  have "level_ok b' sd e = level_ok b sd e" if "e \<in> set L" for e
    by (rule level_ok_frame) (use that l o' in \<open>auto simp: view_defs\<close>)
  moreover have "dring (lnx b') (lpv b') (map fst L) = dring (lnx b) (lpv b) (map fst L)"
    by (rule dring_frame) (use l in \<open>auto simp: view_defs\<close>)
  moreover have "sorted_wrt (\<lambda>e f. worse sd (lpr b' (fst f)) (lpr b' (fst e))) L
      = sorted_wrt (\<lambda>e f. worse sd (lpr b (fst f)) (lpr b (fst e))) L"
    using l by (auto simp: lpr_def elim!: sorted_wrt_mono_rel [rotated])
  ultimately show ?thesis using assms(1) by (auto simp: side_ok_def)
qed

lemma side_ok_replace:
  assumes ok: "side_ok b sd (L1 @ (l, os) # L2)" and new: "level_ok b' sd (l, os')"
    and "best_levels sd b' = best_levels sd b"
    and links: "\<And>m. m \<in> levels_of (L1 @ (l, os) # L2) \<Longrightarrow>
          lnx b' m = lnx b m \<and> lpv b' m = lpv b m \<and> lpr b' m = lpr b m"
    and levs: "\<And>m. m \<in> levels_of (L1 @ L2) \<Longrightarrow> lev b' m = lev b m"
    and ords: "\<And>c. c \<in> orders_of (L1 @ L2) \<Longrightarrow> ord b' c = ord b c"
  shows "side_ok b' sd (L1 @ (l, os') # L2)"
proof -
  let ?L = "L1 @ (l, os) # L2"
  have mem: "fst e \<in> levels_of ?L" if "e \<in> set ?L" for e
    using that by (auto simp: levels_of_def)
  have "dring (lnx b') (lpv b') (map fst ?L) = dring (lnx b) (lpv b) (map fst ?L)"
    by (rule dring_frame) (use links in \<open>auto simp: levels_of_def\<close>)
  moreover have "sorted_wrt (\<lambda>e f. worse sd (lpr b' (fst f)) (lpr b' (fst e))) ?L"
  proof (rule sorted_wrt_mono_rel)
    show "sorted_wrt (\<lambda>e f. worse sd (lpr b (fst f)) (lpr b (fst e))) ?L"
      using ok by (simp add: side_ok_def)
  qed (use links mem in auto)
  moreover have "level_ok b' sd e" if e: "e \<in> set (L1 @ L2)" for e
  proof -
    have "fst e \<in> levels_of (L1 @ L2)" "set (snd e) \<subseteq> orders_of (L1 @ L2)"
      using e by (auto simp: levels_of_def orders_of_def)
    then have "level_ok b' sd e = level_ok b sd e"
      by (intro level_ok_frame) (auto simp: view_defs levs ords subset_iff)
    then show ?thesis using ok e by (auto simp: side_ok_def)
  qed
  ultimately show ?thesis
    using ok new assms(3) by (auto simp: side_ok_def sorted_wrt_append hd_append)
qed

lemma both_sides:
  assumes "is_side sd" "side_ok b sd L" "side_ok b (opposite sd) (G (opposite sd))"
  shows "side_ok b BUY ((G(sd := L)) BUY) \<and> side_ok b SELL ((G(sd := L)) SELL)"
  using assms by (auto simp: is_side_def)

lemma table_ok_frame:
  assumes "map_price_to_price_level b' = map_price_to_price_level b"
    and "\<And>l. l \<in> S \<Longrightarrow> lpr b' l = lpr b l"
  shows "table_ok b' S = table_ok b S"
  using assms by (auto simp: table_ok_def)

lemma table_ok_lookup:
  assumes "table_ok b S" "l \<in> S"
  shows "get_level_for_price b (lpr b l) = Some l"
  using assms by (auto simp: table_ok_def get_level_for_price_def)

lemma table_ok_index_inj:
  assumes "table_ok b S" "l \<in> S" "l' \<in> S" "price_to_index (lpr b l) = price_to_index (lpr b l')"
  shows "l = l'"
  using assms by (metis option.inject table_ok_def)

subsection \<open>What the operations leave alone\<close>

text \<open>An order without its links: what it says about the market.\<close>

definition odata :: "'o order_node_scheme \<Rightarrow> 'o order_node_scheme" where
  "odata r = r\<lparr>o_prev := None, o_next := None\<rparr>"

lemma odata_links [simp]:
  "odata (r\<lparr>o_prev := p\<rparr>) = odata r" "odata (r\<lparr>o_next := p\<rparr>) = odata r"
  by (simp_all add: odata_def)

lemma odata_fields [simp]:
  "o_side (odata r) = o_side r" "o_price (odata r) = o_price r" "o_qty (odata r) = o_qty r"
  "o_priority (odata r) = o_priority r" "order_node.more (odata r) = order_node.more r"
  by (simp_all add: odata_def)

lemma odata_eqD:
  assumes "odata r = odata s"
  shows "o_side r = o_side s" "o_price r = o_price s" "o_qty r = o_qty s"
    "o_priority r = o_priority s" "order_node.more r = order_node.more s"
  using arg_cong [OF assms, of o_side] arg_cong [OF assms, of o_price] arg_cong [OF assms, of o_qty]
    arg_cong [OF assms, of o_priority] arg_cong [OF assms, of order_node.more] by simp_all

definition book_frame :: "('o, 'z) level_book_scheme \<Rightarrow> ('o, 'z) level_book_scheme \<Rightarrow> bool" where
  "book_frame b b' \<longleftrightarrow> (\<forall>c. odata (ord b' c) = odata (ord b c))
     \<and> level_book.more b' = level_book.more b
     \<and> n_blocks (order_pool b') = n_blocks (order_pool b)
     \<and> n_blocks (orders_at_price_pool b') = n_blocks (orders_at_price_pool b)"

lemma book_frame_refl [simp]: "book_frame b b"
  by (simp add: book_frame_def)

lemma book_frame_trans [trans]: "book_frame b c \<Longrightarrow> book_frame c d \<Longrightarrow> book_frame b d"
  by (simp add: book_frame_def)

lemma same_blocks_frame:
  "same_blocks b b' \<Longrightarrow> (\<And>c. odata (ord b' c) = odata (ord b c)) \<Longrightarrow> book_frame b b'"
  by (simp add: same_blocks_def book_frame_def)

subsection \<open>Changing the orders of one level\<close>

text \<open>
  The writes may touch the level \<open>l\<close> and the orders it had or gets; everything else in the
  book is then as it was, so only the new level has to be looked at.
\<close>

lemma book_ok_replace:
  assumes ok: "book_ok b G X Y" and sd: "is_side sd" and G: "G sd = L1 @ (l, os) # L2"
    and new: "level_ok b' sd (l, os')" and best: "\<And>s. best_levels s b' = best_levels s b"
    and links: "lnx b' = lnx b" "lpv b' = lpv b" "lpr b' = lpr b"
    and levs: "\<And>m. m \<noteq> l \<Longrightarrow> lev b' m = lev b m"
    and ords: "\<And>c. c \<notin> set os \<union> set os' \<Longrightarrow> ord b' c = ord b c"
    and blocks: "same_blocks b b'"
    and sets: "set os \<union> X = set os' \<union> X'" "set os' \<inter> X' = {}"
  shows "book_ok b' (G(sd := L1 @ (l, os') # L2)) X' Y"
proof -
  let ?op = "opposite sd" and ?G = "G(sd := L1 @ (l, os') # L2)"
  have sok: "side_ok b sd (L1 @ (l, os) # L2)" using book_ok_side [OF ok sd] G by simp
  have op: "side_ok b ?op (G ?op)" by (rule book_ok_side [OF ok is_side_opposite])
  note split = side_ok_split(1,2) [OF sok] and disj = sides_disjoint [OF sok op]
  have X: "X \<inter> all_orders G = {}" using ok by (auto simp: book_ok_def)
  have off: "c \<notin> set os \<union> set os'" if "c \<in> orders_of (L1 @ L2) \<union> orders_of (G ?op)" for c
    using that split(2) disj(2) X sets(1) all_orders_side [OF sd, of G] G by auto
  have loff: "m \<noteq> l" if "m \<in> levels_of (L1 @ L2) \<union> levels_of (G ?op)" for m
    using that split(1) disj(1) by auto
  have "side_ok b' sd (L1 @ (l, os') # L2)"
    by (rule side_ok_replace [OF sok]) (use new best links levs loff ords off in auto)
  moreover have "side_ok b' ?op (G ?op)"
    using op levs loff ords off best by (subst side_ok_frame [of _ _ b]) auto
  ultimately have sides: "side_ok b' BUY (?G BUY) \<and> side_ok b' SELL (?G SELL)"
    by (rule both_sides [OF sd])
  have "all_levels ?G = all_levels G" "all_orders ?G \<union> X' = all_orders G \<union> X" "all_orders ?G \<inter> X' = {}"
    using all_levels_upd [OF sd, of G] all_levels_side [OF sd, of G] all_orders_upd [OF sd, of G]
      all_orders_side [OF sd, of G] G sets X split(2) disj(2) by auto
  moreover have "table_ok b' (all_levels G)"
    using ok links(3) blocks by (subst table_ok_frame [of _ b]) (auto simp: book_ok_def same_blocks_def)
  ultimately show ?thesis
    using ok sides blocks by (simp add: book_ok_def same_blocks_def)
qed

subsection \<open>Appending an order to an existing level\<close>

lemma link_existing:
  assumes ok: "book_ok b G (insert a X) Y" and aX: "a \<notin> X" and sd: "is_side sd"
    and G: "G sd = L1 @ (l, os) # L2"
    and a: "o_side (ord b a) = sd" "o_price (ord b a) = lpr b l"
  shows "\<exists>b'. link_order b a = Inr b' \<and> book_ok b' (G(sd := L1 @ (l, os @ [a]) # L2)) X Y
    \<and> book_frame b b' \<and> (\<forall>m. lev b' m = lev b m)"
proof -
  let ?f = "hd os" and ?t = "last os" and ?G = "G(sd := L1 @ (l, os @ [a]) # L2)"
  have sok: "side_ok b sd (L1 @ (l, os) # L2)" using book_ok_side [OF ok sd] G by simp
  note split = side_ok_split [OF sok]
  have lv: "level_ok b sd (l, os)" using sok by (simp add: side_ok_def)
  have al: "a \<notin> orders_of (G sd) \<union> orders_of (G (opposite sd))"
    using ok all_orders_side [OF sd, of G] by (auto simp: book_ok_def)
  have aos: "a \<notin> set os" using al G by simp
  have osX: "set os \<inter> X = {}" using ok all_orders_side [OF sd, of G] G by (auto simp: book_ok_def)
  have tos: "?t \<in> set os" "?f \<in> set os" using split(4) by auto
  have look: "get_level_for_price b (o_price (ord b a)) = Some l"
    using ok a(2) all_levels_side [OF sd, of G] G
    by (auto intro!: table_ok_lookup simp: book_ok_def)
  have lpv: "o_prev (ord b ?f) = Some ?t"
    using split(5) by (simp add: dring_iff opv_def)
  define b1 where "b1 = set_order ?t (\<lambda>r. r\<lparr>o_next := Some a\<rparr>) b"
  define b2 where "b2 = set_order a (\<lambda>r. r\<lparr>o_prev := o_prev (ord b1 ?f)\<rparr>) b1"
  define b3 where "b3 = set_order a (\<lambda>r. r\<lparr>o_next := Some ?f\<rparr>) b2"
  define b4 where "b4 = set_order ?f (\<lambda>r. r\<lparr>o_prev := Some a\<rparr>) b3"
  note bs = b1_def b2_def b3_def b4_def
  have run: "link_order b a = Inr b4"
    using look lv lpv by (simp add: link_order_def level_ok_def bs Let_def)
  have neq: "a \<noteq> ?t" "a \<noteq> ?f" using tos aos by auto
  have ring: "dring (onx b4) (opv b4) (os @ [a])"
    by (rule dring_insert [OF split(5) aos])
      (use neq lpv aos in \<open>auto simp: view_defs bs book_simps\<close>)
  have data: "odata (ord b4 c) = odata (ord b c)" for c
    by (simp add: bs book_simps)
  have levs: "lev b4 = lev b" by (simp add: bs book_simps)
  have newlv: "level_ok b4 sd (l, os @ [a])"
    using lv ring a odata_eqD(1,2) [OF data] split(4) levs
    by (auto simp: level_ok_def order_ok_def lpr_def)
  have blocks: "same_blocks b b4" by (simp add: bs)
  have "book_ok b4 (G(sd := L1 @ (l, os @ [a]) # L2)) X Y"
    by (rule book_ok_replace [OF ok sd G newlv _ _ _ _ _ _ blocks])
      (use levs tos al osX aX G in \<open>auto simp: view_defs bs book_simps\<close>)
  then show ?thesis
    using run levs same_blocks_frame [OF blocks data] by auto
qed

subsection \<open>Taking an order out of a level that keeps others\<close>

lemma unlink_from_level:
  assumes ok: "book_ok b G X Y" and sd: "is_side sd"
    and G: "G sd = L1 @ (l, os1 @ a # os2) # L2" and rest: "os1 @ os2 \<noteq> []"
  shows "\<exists>b'. unlink_order b a = Inr b' \<and> book_ok b' (G(sd := L1 @ (l, os1 @ os2) # L2)) (insert a X) Y
    \<and> book_frame b b' \<and> (\<forall>m. lpr b' m = lpr b m)"
proof -
  let ?os = "os1 @ a # os2" and ?r = "os2 @ os1" and ?G = "G(sd := L1 @ (l, os1 @ os2) # L2)"
  have sok: "side_ok b sd (L1 @ (l, ?os) # L2)" using book_ok_side [OF ok sd] G by simp
  note split = side_ok_split [OF sok]
  have lv: "level_ok b sd (l, ?os)" using sok by (simp add: side_ok_def)
  have ring: "dring (onx b) (opv b) (a # ?r)"
    using split(5) dring_rotate [of "onx b" "opv b" os1 "a # os2"] by simp
  have ne: "?r \<noteq> []" using rest by auto
  have nx: "o_next (ord b a) = Some (hd ?r)" and pv: "o_prev (ord b a) = Some (last ?r)"
    using ring ne by (auto simp: dring_iff links_Cons view_defs)
  have inr: "hd ?r \<in> set ?r" "last ?r \<in> set ?r" using ne by (meson hd_in_set last_in_set)+
  have an: "a \<notin> set ?r" using split(3) by auto
  have price: "o_price (ord b a) = lpr b l" using side_ok_price [OF sok, of l ?os a] by simp
  have look: "get_level_for_price b (o_price (ord b a)) = Some l"
    using ok price all_levels_side [OF sd, of G] G
    by (auto intro!: table_ok_lookup simp: book_ok_def)
  define b1 where "b1 = set_order (last ?r) (\<lambda>r. r\<lparr>o_next := Some (hd ?r)\<rparr>) b"
  define b2 where "b2 = set_order (hd ?r) (\<lambda>r. r\<lparr>o_prev := Some (last ?r)\<rparr>) b1"
  define b3 where "b3 = (if l_order_0 (lev b2 l) = Some a
      then set_level l (\<lambda>r. r\<lparr>l_order_0 := Some (hd ?r)\<rparr>) b2 else b2)"
  define b4 where "b4 = set_order a (\<lambda>r. r\<lparr>o_next := None, o_prev := None\<rparr>) b3"
  note bs = b1_def b2_def b3_def b4_def
  have run: "unlink_order b a = Inr b4"
    using nx pv look inr an by (auto simp: unlink_order_def Let_def bs)
  have data: "odata (ord b4 c) = odata (ord b c)" for c
    by (simp add: bs book_simps odata_def)
  have links: "lnx b4 = lnx b" "lpv b4 = lpv b" "lpr b4 = lpr b"
    by (auto simp: bs book_simps view_defs fun_eq_iff)
  have side: "l_side (lev b4 m) = l_side (lev b m)" for m by (simp add: bs book_simps)
  have "dring (onx b4) (opv b4) ?r"
    by (rule dring_remove [OF ring ne]) (use inr an in \<open>auto simp: view_defs bs book_simps\<close>)
  then have ring4: "dring (onx b4) (opv b4) (os1 @ os2)" by (simp add: dring_rotate)
  have "l_order_0 (lev b4 l) = Some (hd (os1 @ os2))"
    using lv rest an by (cases os1) (auto simp: bs book_simps level_ok_def)
  then have newlv: "level_ok b4 sd (l, os1 @ os2)"
    using lv ring4 rest odata_eqD(1,2) [OF data] side links(3)
    by (auto simp: level_ok_def order_ok_def)
  have "a \<notin> X" using ok all_orders_side [OF sd, of G] G by (auto simp: book_ok_def)
  moreover have blocks: "same_blocks b b4" by (simp add: bs)
  ultimately have "book_ok b4 (G(sd := L1 @ (l, os1 @ os2) # L2)) (insert a X) Y"
    using inr split(3) all_orders_side [OF sd, of G] G ok
    by (intro book_ok_replace [OF ok sd G newlv _ links _ _ blocks])
      (auto simp: bs book_simps book_ok_def)
  then show ?thesis
    using run links same_blocks_frame [OF blocks data] by auto
qed

subsection \<open>Removing a price level\<close>

lemma level_ok_frame_levels:
  assumes "ord b' = ord b" "l_side (lev b' (fst e)) = l_side (lev b (fst e))"
    "l_order_0 (lev b' (fst e)) = l_order_0 (lev b (fst e))" "lpr b' (fst e) = lpr b (fst e)"
  shows "level_ok b' sd e = level_ok b sd e"
  by (rule level_ok_frame) (use assms in \<open>auto simp: view_defs\<close>)

text \<open>Writes to the links of levels in \<open>S\<close>, on one side.\<close>

definition side_frame :: "('o, 'z) level_book_scheme \<Rightarrow> side \<Rightarrow> addr set \<Rightarrow> ('o, 'z) level_book_scheme \<Rightarrow> bool" where
  "side_frame b sd S b' \<longleftrightarrow> (\<forall>m. m \<notin> S \<longrightarrow> lev b' m = lev b m)
     \<and> (\<forall>s. is_side s \<longrightarrow> s \<noteq> sd \<longrightarrow> best_levels s b' = best_levels s b)
     \<and> lpr b' = lpr b \<and> ord b' = ord b \<and> same_blocks b b'"

lemma side_frameD:
  assumes "side_frame b sd S b'"
  shows "\<And>m. m \<notin> S \<Longrightarrow> lev b' m = lev b m" "lpr b' = lpr b" "ord b' = ord b" "same_blocks b b'"
  using assms by (simp_all add: side_frame_def)

lemma side_frame_other:
  assumes "side_frame b sd S b'" "is_side sd" "levels_of L \<inter> S = {}"
  shows "side_ok b' (opposite sd) L = side_ok b (opposite sd) L"
  using assms by (intro side_ok_frame) (auto simp: side_frame_def)

text \<open>The only level of its side, and a level among others.\<close>

lemma unlink_only_level:
  assumes sok: "side_ok b sd [(l, os)]" and sd: "is_side sd"
  shows "unlink_level b sd l = Inr (set_best sd None b)" "side_ok (set_best sd None b) sd []"
  using sok sd by (auto simp: unlink_level_def side_ok_def view_defs book_simps BUY_eq_is_side)

lemma unlink_level_among:
  assumes sok: "side_ok b sd (L1 @ (l, os) # L2)" and sd: "is_side sd" and ne: "L2 @ L1 \<noteq> []"
  shows "\<exists>b'. unlink_level b sd l = Inr b' \<and> side_ok b' sd (L1 @ L2)
    \<and> side_frame b sd (levels_of (L1 @ (l, os) # L2)) b'"
proof -
  let ?r = "map fst (L2 @ L1)"
  have "dring (lnx b) (lpv b) (map fst L1 @ l # map fst L2)" using sok by (simp add: side_ok_def)
  then have ring: "dring (lnx b) (lpv b) (l # ?r)"
    using dring_rotate [of "lnx b" "lpv b" "map fst L1" "l # map fst L2"] by simp
  have best: "best_levels sd b = Some (fst (hd (L1 @ (l, os) # L2)))" using sok by (simp add: side_ok_def)
  have ner: "?r \<noteq> []" using ne by simp
  have nx: "l_next (lev b l) = Some (hd ?r)" and pv: "l_prev (lev b l) = Some (last ?r)"
    using ring ner by (auto simp: dring_iff links_Cons view_defs)
  have ln: "l \<notin> set ?r" using dring_distinct [OF ring] by simp
  have inr: "hd ?r \<in> set ?r" "last ?r \<in> set ?r" using ner by (meson hd_in_set last_in_set)+
  have neq: "hd ?r \<noteq> l" "last ?r \<noteq> l" using inr ln by metis+
  define b1 where "b1 = set_level (last ?r) (\<lambda>r. r\<lparr>l_next := Some (hd ?r)\<rparr>) b"
  define b2 where "b2 = set_level (hd ?r) (\<lambda>r. r\<lparr>l_prev := Some (last ?r)\<rparr>) b1"
  define b3 where "b3 = (if Some l = best_levels sd b then set_best sd (l_next (lev b2 l)) b2 else b2)"
  define b4 where "b4 = set_level l (\<lambda>r. r\<lparr>l_next := None, l_prev := None\<rparr>) b3"
  note bs = b1_def b2_def b3_def b4_def
  have p1: "l_prev (lev b1 l) = Some (last ?r)" "l_next (lev b1 l) = Some (hd ?r)"
    and n2: "l_next (lev b2 l) = Some (hd ?r)"
    using nx pv neq by (simp_all add: b2_def b1_def book_simps)
  have run: "unlink_level b sd l = Inr b4"
    using nx pv neq p1 unfolding unlink_level_def b4_def b3_def b2_def b1_def by (simp add: Let_def)
  have "dring (lnx b4) (lpv b4) ?r"
    by (rule dring_remove [OF ring ner]) (use inr ln neq in \<open>auto simp: view_defs bs book_simps\<close>)
  then have ring4: "dring (lnx b4) (lpv b4) (map fst (L1 @ L2))" by (simp add: dring_rotate)
  have ords: "ord b4 = ord b" and prices: "lpr b4 = lpr b" by (auto simp: bs book_simps view_defs fun_eq_iff)
  have lv: "level_ok b4 sd e = level_ok b sd e" for e
    by (rule level_ok_frame_levels) (simp_all add: ords prices, simp_all add: bs book_simps)
  have best4: "best_levels sd b4 = Some (fst (hd (L1 @ L2)))"
  proof (cases L1)
    case Nil
    then have "best_levels sd b4 = l_next (lev b2 l)" using best by (simp add: b4_def b3_def book_simps)
    then show ?thesis using Nil n2 ne by (simp add: hd_map)
  next
    case (Cons e L)
    then show ?thesis using best ln by (auto simp: bs book_simps)
  qed
  have "side_ok b4 sd (L1 @ L2)"
    using ring4 lv sok best4 ne prices by (auto simp: side_ok_def sorted_wrt_append)
  moreover have "lev b4 m = lev b m" if "m \<notin> levels_of (L1 @ (l, os) # L2)" for m
    using that inr by (auto simp: bs book_simps levels_of_def)
  moreover have "same_blocks b b4" by (simp add: bs)
  moreover have "best_levels s b4 = best_levels s b" if "is_side s" "s \<noteq> sd" for s
    using that sd by (simp add: bs book_simps BUY_eq_is_side)
  ultimately show ?thesis using run ords prices unfolding side_frame_def by blast
qed

lemma unlink_level_ok:
  assumes sok: "side_ok b sd (L1 @ (l, os) # L2)" and sd: "is_side sd"
  shows "\<exists>b'. unlink_level b sd l = Inr b' \<and> side_ok b' sd (L1 @ L2)
    \<and> side_frame b sd (levels_of (L1 @ (l, os) # L2)) b'"
proof (cases "L2 @ L1 = []")
  case True
  then have "side_ok b sd [(l, os)]" using sok by simp
  then show ?thesis
    using unlink_only_level [of b sd l os] sd True
    by (auto simp: side_frame_def book_simps BUY_eq_is_side lpr_def fun_eq_iff)
qed (rule unlink_level_among [OF sok sd])

end
