(* ===== verification/Level_Moves.thy ===== *)
theory Level_Moves
  imports Level_Invariant
begin

text \<open>
  What removal and insertion of whole price levels do to the ghost description, and the
  two order operations \<open>link_order\<close> and \<open>unlink_order\<close> built from them.
\<close>

subsection \<open>\<open>remove_price_level\<close>\<close>

lemma table_ok_delete:
  assumes "table_ok b S" "l \<in> S" "lpr b' = lpr b"
    and "map_price_to_price_level b' = (map_price_to_price_level b)(price_to_index (lpr b l) := None)"
  shows "table_ok b' (S - {l})"
  unfolding table_ok_def
proof (intro allI)
  fix i m
  show "map_price_to_price_level b' i = Some m \<longleftrightarrow> m \<in> S - {l} \<and> price_to_index (lpr b' m) = i"
  proof (cases "i = price_to_index (lpr b l)")
    case True
    have "m \<in> S \<Longrightarrow> price_to_index (lpr b m) = i \<Longrightarrow> m = l"
      using table_ok_index_inj [OF assms(1) _ assms(2)] True by simp
    then show ?thesis using True assms(3,4) by auto
  next
    case False
    then have "map_price_to_price_level b' i = map_price_to_price_level b i" using assms(4) by simp
    then show ?thesis using assms(1,3) False by (auto simp: table_ok_def)
  qed
qed

lemma remove_price_level_ok:
  assumes ok: "book_ok b G X Y" and sd: "is_side sd" and G: "G sd = L1 @ (l, os) # L2"
  shows "\<exists>b'. remove_price_level b sd (lpr b l) = Inr b'
    \<and> book_ok b' (G(sd := L1 @ L2)) (X \<union> set os) Y \<and> book_frame b b' \<and> ord b' = ord b \<and> lpr b' = lpr b"
proof -
  let ?G = "G(sd := L1 @ L2)" and ?op = "opposite sd"
  have sok: "side_ok b sd (L1 @ (l, os) # L2)" using book_ok_side [OF ok sd] G by simp
  have op: "side_ok b ?op (G ?op)" by (rule book_ok_side [OF ok is_side_opposite])
  note split = side_ok_split [OF sok] and disj = sides_disjoint [OF sok op]
  have lG: "l \<in> all_levels G" using all_levels_side [OF sd, of G] G by simp
  have look: "get_level_for_price b (lpr b l) = Some l"
    using ok lG by (auto intro: table_ok_lookup simp: book_ok_def)
  obtain b1 where b1: "unlink_level b sd l = Inr b1" "side_ok b1 sd (L1 @ L2)"
    "side_frame b sd (levels_of (L1 @ (l, os) # L2)) b1"
    using unlink_level_ok [OF sok sd] by blast
  note fr = side_frameD(2,3) [OF b1(3)] and blocks = side_frameD(4) [OF b1(3), unfolded same_blocks_def]
  define b2 where "b2 = b1\<lparr>map_price_to_price_level := (map_price_to_price_level b1)(price_to_index (lpr b l) := None)\<rparr>"
  have pre: "pool_ok (orders_at_price_pool b2)" "l \<in> used (orders_at_price_pool b2)"
    using ok lG blocks by (auto simp: book_ok_def b2_def)
  obtain lp where lp: "deallocate (orders_at_price_pool b2) l = Inr lp" "pool_ok lp"
    "blk lp = blk (orders_at_price_pool b2)" "used lp = used (orders_at_price_pool b2) - {l}"
    "n_blocks lp = n_blocks (orders_at_price_pool b2)"
    by (rule deallocate_ok [OF pre])
  define b3 where "b3 = b2\<lparr>orders_at_price_pool := lp\<rparr>"
  have run: "remove_price_level b sd (lpr b l) = Inr b3"
    using lp(1) look by (simp add: remove_price_level_def b1(1) Let_def b3_def b2_def)
  have lev3: "lev b3 = lev b1" by (simp add: b3_def b2_def book_simps lp(3)) (simp add: lev_def fun_eq_iff)
  have ord3: "ord b3 = ord b1" and best3: "best_levels s b3 = best_levels s b1" for s
    by (simp_all add: b3_def b2_def book_simps)
  have pr3: "lpr b3 = lpr b" using lev3 fr(1) by (simp add: lpr_def fun_eq_iff)
  have same: "side_ok b3 s L = side_ok b1 s L" for s L
    by (rule side_ok_frame) (simp_all add: best3 lev3 ord3)
  have "side_ok b1 ?op (G ?op)" using side_frame_other [OF b1(3) sd, of "G ?op"] op disj(1) by auto
  then have sides: "side_ok b3 BUY (?G BUY) \<and> side_ok b3 SELL (?G SELL)"
    using b1(2) by (intro both_sides [OF sd]) (simp_all add: same)
  have sets: "all_levels ?G = all_levels G - {l}" "all_orders G = all_orders ?G \<union> set os"
    "all_orders ?G \<inter> set os = {}"
    using all_orders_upd [OF sd, of G] all_orders_side [OF sd, of G] split(1,2) disj
      all_levels_upd [OF sd, of G] all_levels_side [OF sd, of G] G by auto
  have "table_ok b3 (all_levels G - {l})"
    using ok lG pr3 blocks by (intro table_ok_delete [of b]) (auto simp: book_ok_def b3_def b2_def)
  moreover have "l \<notin> Y" using ok lG by (auto simp: book_ok_def)
  ultimately have "book_ok b3 ?G (X \<union> set os) Y"
    using ok sides sets lp blocks unfolding book_ok_def by (auto simp: b3_def b2_def)
  moreover have "book_frame b b3"
    using blocks lp(5) ord3 fr(2) by (simp add: book_frame_def b3_def b2_def)
  ultimately show ?thesis using run ord3 fr(2) pr3 by auto
qed

lemma unlink_only:
  assumes ok: "book_ok b G X Y" and sd: "is_side sd" and G: "G sd = L1 @ (l, [a]) # L2"
  shows "\<exists>b'. unlink_order b a = Inr b' \<and> book_ok b' (G(sd := L1 @ L2)) (insert a X) Y
    \<and> book_frame b b' \<and> (\<forall>m. lpr b' m = lpr b m)"
proof -
  have sok: "side_ok b sd (L1 @ (l, [a]) # L2)" using book_ok_side [OF ok sd] G by simp
  then have "order_ok b sd (lpr b l) a" "opv b a = Some a"
    by (auto simp: side_ok_def level_ok_def)
  then have "unlink_order b a = remove_price_level b sd (lpr b l)"
    by (simp add: unlink_order_def order_ok_def opv_def)
  then show ?thesis using remove_price_level_ok [OF ok sd G] by auto
qed

text \<open>The ghost side without one order; a level left empty goes with it.\<close>

definition ghost_remove :: "addr \<Rightarrow> ghost_side \<Rightarrow> ghost_side" where
  "ghost_remove a L = filter (\<lambda>e. snd e \<noteq> []) (map (\<lambda>(l, os). (l, filter (\<lambda>c. c \<noteq> a) os)) L)"

lemma ghost_remove_notin:
  assumes "a \<notin> orders_of L" "\<forall>e \<in> set L. snd e \<noteq> []"
  shows "ghost_remove a L = L"
  using assms by (induction L) (auto simp: ghost_remove_def)

lemma ghost_remove_append: "ghost_remove a (L @ M) = ghost_remove a L @ ghost_remove a M"
  by (simp add: ghost_remove_def)

lemma ghost_remove_split:
  assumes "side_ok b sd (L1 @ (l, os1 @ a # os2) # L2)"
  shows "ghost_remove a (L1 @ (l, os1 @ a # os2) # L2)
    = (if os1 @ os2 = [] then L1 @ L2 else L1 @ (l, os1 @ os2) # L2)"
proof -
  note split = side_ok_split [OF assms]
  have ne: "\<forall>e \<in> set (L1 @ L2). snd e \<noteq> []"
    using assms by (auto simp: side_ok_def level_ok_def)
  have "ghost_remove a L1 = L1" "ghost_remove a L2 = L2"
    using split(2) ne by (auto intro!: ghost_remove_notin)
  moreover have "filter (\<lambda>c. c \<noteq> a) (os1 @ a # os2) = os1 @ os2"
    using split(3) by auto
  ultimately show ?thesis
    using ghost_remove_append [of a L1 "(l, os1 @ a # os2) # L2"]
    by (simp add: ghost_remove_def split: if_splits)
qed

lemma unlink_order_ok:
  assumes ok: "book_ok b G X Y" and sd: "is_side sd" and a: "a \<in> orders_of (G sd)"
  shows "\<exists>b'. unlink_order b a = Inr b' \<and> book_ok b' (G(sd := ghost_remove a (G sd))) (insert a X) Y
    \<and> book_frame b b' \<and> (\<forall>m. lpr b' m = lpr b m)"
proof -
  obtain l os where lo: "(l, os) \<in> set (G sd)" "a \<in> set os" using a by (auto simp: orders_of_def)
  obtain L1 L2 where L: "G sd = L1 @ (l, os) # L2" using lo(1) by (meson split_list)
  obtain os1 os2 where os: "os = os1 @ a # os2" using lo(2) by (meson split_list)
  have sok: "side_ok b sd (L1 @ (l, os1 @ a # os2) # L2)" using book_ok_side [OF ok sd] L os by simp
  show ?thesis
  proof (cases "os1 @ os2 = []")
    case True
    then show ?thesis using unlink_only [OF ok sd, of L1 l a L2] L os ghost_remove_split [OF sok] by simp
  next
    case False
    then show ?thesis
      using unlink_from_level [OF ok sd, of L1 l os1 a os2 L2] L os ghost_remove_split [OF sok]
      by (metis (no_types, lifting))
  qed
qed

end
