(* ===== verification/Level_Insertion.thy ===== *)
theory Level_Insertion
  imports Level_Moves
begin

text \<open>
  \<open>add_price_level\<close>: the walk stops at the first level the new one is not worse than, or
  comes back to the best level when there is none; the insertion then puts the level into
  its sorted place. From this the effect of \<open>link_order\<close>.
\<close>

subsection \<open>The walk\<close>

definition passes :: "('o, 'z) level_book_scheme \<Rightarrow> side \<Rightarrow> price \<Rightarrow> addr \<times> addr list \<Rightarrow> bool" where
  "passes b sd p e \<longleftrightarrow> worse sd p (lpr b (fst e))"

lemma fold_passes: "worse sd p (l_price (lev b (fst e))) = passes b sd p e"
  by (simp add: passes_def lpr_def)

lemma find_target_stop: "\<not> after \<or> t = best \<Longrightarrow> find_target fuel b sd p best after t = Inr (after, t)"
  by (auto simp: find_target.simps [of fuel])

lemma find_target_walk:
  assumes "dring (lnx b) (lpv b) (map fst (P @ e # S))" "P \<noteq> []" "best = fst (hd P)"
    and "length (e # S) \<le> fuel"
  shows "find_target fuel b sd p best True (fst e) =
    (case dropWhile (passes b sd p) (e # S) of [] \<Rightarrow> Inr (True, best) | f # _ \<Rightarrow> Inr (False, fst f))"
  using assms
proof (induction S arbitrary: P e fuel)
  case Nil
  obtain f where f: "fuel = Suc f" using Nil.prems(4) by (cases fuel) auto
  have "fst e \<noteq> best"
    using Nil.prems(1-3) by (cases P) (auto dest: dring_distinct)
  moreover have "lnx b (fst e) = Some best"
    using Nil.prems(1-3) by (cases P) (auto simp: dring_iff)
  ultimately show ?case
    by (simp add: find_target.simps [of "Suc f"] f fold_passes lnx_def find_target_stop)
next
  case (Cons g S)
  obtain f where f: "fuel = Suc f" using Cons.prems(4) by (cases fuel) auto
  have ne: "fst e \<noteq> best"
    using Cons.prems(1-3) by (cases P) (auto dest: dring_distinct)
  have nx: "lnx b (fst e) = Some (fst g)"
    using Cons.prems(1) dring_next [of "lnx b" "lpv b" "map fst P" "fst e" "fst g" "map fst S"] by simp
  have "find_target f b sd p best True (fst g) =
    (case dropWhile (passes b sd p) (g # S) of [] \<Rightarrow> Inr (True, best) | f # _ \<Rightarrow> Inr (False, fst f))"
    using Cons.IH [of "P @ [e]" g f] Cons.prems f by simp
  then show ?case
    using ne nx by (simp add: find_target.simps [of "Suc f"] f fold_passes lnx_def find_target_stop)
qed

text \<open>The whole search, from the best level.\<close>

lemma insertion_point_result:
  assumes "dring (lnx b) (lpv b) (map fst (e # S))"
    and "length S < n_blocks (orders_at_price_pool b)"
  shows "insertion_point b sd p (fst e) =
    (case dropWhile (passes b sd p) (e # S) of [] \<Rightarrow> Inr (True, fst e) | f # _ \<Rightarrow> Inr (False, fst f))"
proof (cases "passes b sd p e")
  case False
  then show ?thesis by (simp add: insertion_point_def Let_def fold_passes find_target_stop)
next
  case e: True
  let ?n = "n_blocks (orders_at_price_pool b)"
  show ?thesis
  proof (cases S)
    case Nil
    then have nx: "l_next (lev b (fst e)) = Some (fst e)" using assms(1) by (simp add: lnx_def)
    have "insertion_point b sd p (fst e) = find_target ?n b sd p (fst e) True (fst e)"
      by (simp add: insertion_point_def nx fold_passes e)
    then show ?thesis using e Nil by (simp add: find_target_stop)
  next
    case (Cons g T)
    then have nx: "l_next (lev b (fst e)) = Some (fst g)"
      using assms(1) dring_next_hd [of "lnx b" "lpv b" "fst e" "fst g" "map fst T"] by (simp add: lnx_def)
    have s: "insertion_point b sd p (fst e) = find_target ?n b sd p (fst e) (passes b sd p g) (fst g)"
      by (simp add: insertion_point_def nx fold_passes e)
    show ?thesis
    proof (cases "passes b sd p g")
      case True
      have "find_target ?n b sd p (fst e) True (fst g) =
        (case dropWhile (passes b sd p) (g # T) of [] \<Rightarrow> Inr (True, fst e) | f # _ \<Rightarrow> Inr (False, fst f))"
        by (rule find_target_walk [of b "[e]"]) (use assms Cons in auto)
      then show ?thesis using s True e Cons by simp
    next
      case False
      then show ?thesis using s e Cons by (simp add: find_target_stop)
    qed
  qed
qed

subsection \<open>The two insertions splice the level in\<close>

definition spliced :: "('o, 'z) level_book_scheme \<Rightarrow> addr \<Rightarrow> addr \<Rightarrow> addr \<Rightarrow> ('o, 'z) level_book_scheme \<Rightarrow> bool" where
  "spliced b n tp tn b' \<longleftrightarrow>
     lnx b' n = Some tn \<and> lpv b' n = Some tp \<and> lnx b' tp = Some n \<and> lpv b' tn = Some n
   \<and> (\<forall>m. m \<noteq> n \<longrightarrow> m \<noteq> tp \<longrightarrow> lnx b' m = lnx b m) \<and> (\<forall>m. m \<noteq> n \<longrightarrow> m \<noteq> tn \<longrightarrow> lpv b' m = lpv b m)
   \<and> (\<forall>m. m \<noteq> n \<longrightarrow> m \<noteq> tp \<longrightarrow> m \<noteq> tn \<longrightarrow> lev b' m = lev b m)
   \<and> (\<forall>m. l_side (lev b' m) = l_side (lev b m) \<and> l_order_0 (lev b' m) = l_order_0 (lev b m))
   \<and> lpr b' = lpr b \<and> ord b' = ord b \<and> same_blocks b b'"

lemma insert_level_after_splices:
  assumes "lpv b best = Some tp" "lnx b tp = Some best" "n \<noteq> tp" "n \<noteq> best"
  shows "\<exists>b'. insert_level_after b best n best = Inr b' \<and> spliced b n tp best b'
    \<and> (\<forall>s. best_levels s b' = best_levels s b)"
proof -
  define b1 where "b1 = set_level n (\<lambda>l. l\<lparr>l_prev := Some tp\<rparr>) b"
  define b2 where "b2 = set_level best (\<lambda>l. l\<lparr>l_prev := Some n\<rparr>) b1"
  define b3 where "b3 = set_level n (\<lambda>l. l\<lparr>l_next := l_next (lev b2 tp)\<rparr>) b2"
  define b4 where "b4 = set_level tp (\<lambda>l. l\<lparr>l_next := Some n\<rparr>) b3"
  note bs = b1_def b2_def b3_def b4_def
  have n1: "l_next (lev b1 tp) = Some best" and n2: "l_next (lev b2 tp) = Some best"
    using assms by (auto simp: b1_def b2_def book_simps lnx_def)
  have "insert_level_after b best n best = Inr b4"
    using assms(1) n1 unfolding b4_def b3_def b2_def b1_def
    by (simp add: insert_level_after_def lpv_def Let_def)
  moreover have "spliced b n tp best b4"
    using assms n2 by (auto simp: spliced_def view_defs fun_eq_iff b1_def b3_def b4_def book_simps)
      (auto simp: b2_def b1_def book_simps)
  moreover have "best_levels s b4 = best_levels s b" for s by (simp add: bs book_simps)
  ultimately show ?thesis by blast
qed

lemma insert_level_before_splices:
  assumes "lpv b tn = Some tp" "lnx b tp = Some tn" "n \<noteq> tp" "n \<noteq> tn" "n \<noteq> best"
    and "l_side (lev b n) = sd" "is_side sd" "worse sd (lpr b best) (lpr b n) \<Longrightarrow> tn = best"
    and "lnx b best = Some best \<Longrightarrow> tp = best"
  shows "\<exists>b'. insert_level_before b best n tn = Inr b' \<and> spliced b n tp tn b'
    \<and> (\<forall>s. is_side s \<longrightarrow> best_levels s b' =
         (if s = sd \<and> worse sd (lpr b best) (lpr b n) then Some n else best_levels s b))"
proof -
  define b1 where "b1 = set_level n (\<lambda>l. l\<lparr>l_prev := l_prev (lev b tn)\<rparr>) b"
  define b2 where "b2 = set_level n (\<lambda>l. l\<lparr>l_next := Some tn\<rparr>) b1"
  define b3 where "b3 = set_level tp (\<lambda>l. l\<lparr>l_next := Some n\<rparr>) b2"
  define b4 where "b4 = set_level tn (\<lambda>l. l\<lparr>l_prev := Some n\<rparr>) b3"
  define b5 where "b5 = set_level tn (\<lambda>l. l\<lparr>l_next := (if l_next (lev b4 tn) = Some best
                      then Some n else l_next (lev b4 tn))\<rparr>) b4"
  note bs = b1_def b2_def b3_def b4_def
  have p2: "l_prev (lev b2 tn) = Some tp"
    using assms by (simp add: bs book_simps lpv_def)
  have r4: "l_side (lev b4 n) = sd" "l_price (lev b4 best) = lpr b best" "l_price (lev b4 n) = lpr b n"
    using assms(3-6) by (simp_all add: bs book_simps lpr_def)
  have s4: "spliced b n tp tn b4"
    using assms by (auto simp: spliced_def view_defs fun_eq_iff bs book_simps)
  have best4: "best_levels s b4 = best_levels s b" for s by (simp add: bs book_simps)
  have run: "insert_level_before b best n tn =
      (if worse sd (lpr b best) (lpr b n) then Inr (set_best sd (Some n) b5) else Inr b4)"
    using p2 r4 unfolding b5_def b4_def b3_def b2_def b1_def
    by (simp add: insert_level_before_def Let_def)
  show ?thesis
  proof (cases "worse sd (lpr b best) (lpr b n)")
    case False
    then show ?thesis using run s4 best4 by auto
  next
    case True
    then have tb: "tn = best" using assms(8) by simp
    have "l_next (lev b4 tn) \<noteq> Some best"
    proof (cases "tp = best")
      case True
      then have "lnx b4 best = Some n" using s4 by (simp add: spliced_def)
      then show ?thesis using tb assms(5) by (simp add: lnx_def)
    next
      case False
      then have "lnx b4 best = lnx b best" using s4 assms(5) by (simp add: spliced_def)
      then show ?thesis using tb assms(9) False by (auto simp: lnx_def)
    qed
    then have lev5: "lev b5 = lev b4" by (simp add: b5_def book_simps fun_eq_iff)
    let ?b = "set_best sd (Some n) b5"
    have lev6: "lev ?b = lev b4" by (simp add: book_simps lev5)
    have "lnx ?b = lnx b4" "lpv ?b = lpv b4" "lpr ?b = lpr b4" by (simp_all add: view_defs lev6 fun_eq_iff)
    moreover have "ord ?b = ord b4" "same_blocks b ?b = same_blocks b b4" by (simp_all add: book_simps b5_def)
    ultimately have "spliced b n tp tn ?b" using s4 lev6 by (simp add: spliced_def)
    moreover have "best_levels s ?b = (if s = sd then Some n else best_levels s b)" if "is_side s" for s
      using that assms(7) best4 by (simp add: book_simps b5_def BUY_eq_is_side)
    ultimately show ?thesis using True run by auto
  qed
qed

subsection \<open>\<open>add_price_level\<close>\<close>

lemma spliced_side_ok:
  assumes sok: "side_ok b sd (vs @ us)" and ne: "vs @ us \<noteq> []"
    and sp: "spliced b n tp tn b'" and tn: "tn = hd (map fst (us @ vs))" and tp: "tp = last (map fst (us @ vs))"
    and new: "level_ok b sd (n, os)" "n \<notin> levels_of (vs @ us)"
    and vs: "\<And>e. e \<in> set vs \<Longrightarrow> worse sd (lpr b n) (lpr b (fst e))"
    and us: "\<And>e. e \<in> set us \<Longrightarrow> worse sd (lpr b (fst e)) (lpr b n)"
    and best: "best_levels sd b' = (if vs = [] then Some n else best_levels sd b)"
  shows "side_ok b' sd (vs @ (n, os) # us)"
proof -
  let ?r = "map fst (us @ vs)"
  have prices: "lpr b' = lpr b" and ords: "ord b' = ord b" using sp by (simp_all add: spliced_def)
  have "dring (lnx b) (lpv b) (map fst (vs @ us))" using sok ne by (simp add: side_ok_def)
  then have ring: "dring (lnx b) (lpv b) ?r" by (simp add: dring_rotate)
  have nin: "n \<notin> set ?r" using new(2) by (auto simp: levels_of_def)
  have "dring (lnx b') (lpv b') (?r @ [n])"
  proof (rule dring_insert [OF ring nin])
    fix c assume c: "c \<in> set ?r"
    then have "c \<noteq> n" using nin by metis
    then show "c \<noteq> last ?r \<Longrightarrow> lnx b' c = lnx b c" "c \<noteq> hd ?r \<Longrightarrow> lpv b' c = lpv b c"
      using sp unfolding spliced_def tn tp by blast+
  qed (use sp tn tp in \<open>simp_all add: spliced_def\<close>)
  then have ring': "dring (lnx b') (lpv b') (map fst (vs @ (n, os) # us))"
    using dring_rotate [of "lnx b'" "lpv b'" "map fst us" "map fst vs @ [n]"] by simp
  have lv: "level_ok b' sd e = level_ok b sd e" for e
    by (rule level_ok_frame_levels) (use sp in \<open>simp_all add: spliced_def\<close>)
  show ?thesis
    using sok ring' lv new(1) vs us best prices
    by (auto simp: side_ok_def sorted_wrt_append hd_append)
qed

lemma table_ok_insert:
  assumes "table_ok b S" "\<forall>l \<in> S. price_to_index (lpr b l) \<noteq> price_to_index (lpr b n)" "lpr b' = lpr b"
    and "map_price_to_price_level b' = (map_price_to_price_level b)(price_to_index (lpr b n) := Some n)"
  shows "table_ok b' (insert n S)"
  unfolding table_ok_def
proof (intro allI)
  fix i m
  show "map_price_to_price_level b' i = Some m \<longleftrightarrow> m \<in> insert n S \<and> price_to_index (lpr b' m) = i"
    using assms by (cases "i = price_to_index (lpr b n)") (auto simp: table_ok_def)
qed

definition insert_sorted :: "('o, 'z) level_book_scheme \<Rightarrow> side \<Rightarrow> price \<Rightarrow> addr \<times> addr list
    \<Rightarrow> ghost_side \<Rightarrow> ghost_side" where
  "insert_sorted b sd p e L = takeWhile (passes b sd p) L @ e # dropWhile (passes b sd p) L"

text \<open>Where \<open>p\<close> is the price of no level, the search splits the side at it.\<close>

lemma passes_split:
  assumes sok: "side_ok b sd L" and neq: "\<forall>l \<in> levels_of L. lpr b l \<noteq> p" and sd: "is_side sd"
  shows "g \<in> set (takeWhile (passes b sd p) L) \<Longrightarrow> worse sd p (lpr b (fst g))"
    and "g \<in> set (dropWhile (passes b sd p) L) \<Longrightarrow> worse sd (lpr b (fst g)) p"
proof -
  let ?vs = "takeWhile (passes b sd p) L" and ?us = "dropWhile (passes b sd p) L"
  have L: "?vs @ ?us = L" by (rule takeWhile_dropWhile_id)
  have srt: "sorted_wrt (\<lambda>e f. worse sd (lpr b (fst f)) (lpr b (fst e))) (?vs @ ?us)"
    using sok unfolding L by (simp add: side_ok_def)
  show "worse sd p (lpr b (fst g))" if "g \<in> set ?vs"
    using that set_takeWhileD by (fastforce simp: passes_def)
  show "worse sd (lpr b (fst g)) p" if g: "g \<in> set ?us"
  proof -
    obtain h T where us: "?us = h # T" using g by (cases ?us) auto
    then have "\<not> passes b sd p h" by (metis dropWhile_eq_Cons_conv)
    moreover have "lpr b (fst h) \<noteq> p"
      using neq us L by (metis (no_types, lifting) in_set_conv_decomp levels_of_def image_eqI)
    ultimately have h: "worse sd (lpr b (fst h)) p"
      using worse_total [of sd p "lpr b (fst h)"] sd by (auto simp: passes_def is_side_def)
    have "g = h \<or> worse sd (lpr b (fst g)) (lpr b (fst h))"
      using g srt unfolding us by (auto simp: sorted_wrt_append)
    then show ?thesis using h worse_trans by blast
  qed
qed

text \<open>Between the last level before the new one and the first behind it, seen as a ring.\<close>

lemma splice_ends:
  assumes "side_ok b sd (vs @ us)" "vs @ us \<noteq> []"
  obtains tp tn where "tp = last (map fst (us @ vs))" "tn = hd (map fst (us @ vs))"
    "lpv b tn = Some tp" "lnx b tp = Some tn" "tp \<in> levels_of (vs @ us)" "tn \<in> levels_of (vs @ us)"
proof -
  let ?r = "map fst (us @ vs)"
  have "dring (lnx b) (lpv b) ?r"
    using assms dring_rotate [of "lnx b" "lpv b" "map fst vs" "map fst us"] by (simp add: side_ok_def)
  moreover have "hd ?r \<in> set ?r" "last ?r \<in> set ?r"
    using assms(2) by (intro hd_in_set last_in_set; auto)+
  ultimately show ?thesis
    using that [of "last ?r" "hd ?r"] by (auto simp: dring_iff levels_of_def)
qed

lemma spliced_frame:
  assumes "spliced b n tp tn b'" "tp \<in> levels_of L" "tn \<in> levels_of L"
    and "\<And>s. is_side s \<Longrightarrow> s \<noteq> sd \<Longrightarrow> best_levels s b' = best_levels s b"
  shows "side_frame b sd (insert n (levels_of L)) b'"
  using assms by (auto simp: side_frame_def spliced_def)

text \<open>Behind every level of a side, and before the level \<open>f\<close>.\<close>

lemma insert_behind_all:
  assumes sok: "side_ok b sd L" and ne: "L \<noteq> []" and new: "level_ok b sd (n, os)"
    and nin: "n \<notin> levels_of L" and vs: "\<And>e. e \<in> set L \<Longrightarrow> worse sd (lpr b n) (lpr b (fst e))"
  shows "\<exists>b'. insert_level_after b (fst (hd L)) n (fst (hd L)) = Inr b'
    \<and> side_ok b' sd (L @ [(n, os)]) \<and> side_frame b sd (insert n (levels_of L)) b'"
proof -
  have sok': "side_ok b sd (L @ [])" using sok by simp
  obtain tp tn where t: "tp = last (map fst ([] @ L))" "tn = hd (map fst ([] @ L))"
    "lpv b tn = Some tp" "lnx b tp = Some tn" "tp \<in> levels_of L" "tn \<in> levels_of L"
    using splice_ends [OF sok'] ne by auto
  have best: "fst (hd L) = tn" using t(2) ne by (simp add: hd_map)
  have "n \<noteq> tp" "n \<noteq> tn" using t(5,6) nin by auto
  then obtain b' where b': "insert_level_after b tn n tn = Inr b'" "spliced b n tp tn b'"
      "\<forall>s. best_levels s b' = best_levels s b"
    using insert_level_after_splices [OF t(3,4)] by auto
  have "side_ok b' sd (L @ (n, os) # [])"
    by (rule spliced_side_ok [OF sok' _ b'(2) t(2,1) new _ vs]) (use b'(3) ne nin in auto)
  then show ?thesis using b' spliced_frame [OF b'(2) t(5,6)] unfolding best by auto
qed

lemma insert_before:
  assumes sok: "side_ok b sd (vs @ f # T)" and sd: "is_side sd" and new: "level_ok b sd (n, os)"
    and nin: "n \<notin> levels_of (vs @ f # T)"
    and vs: "\<And>e. e \<in> set vs \<Longrightarrow> worse sd (lpr b n) (lpr b (fst e))"
    and us: "\<And>e. e \<in> set (f # T) \<Longrightarrow> worse sd (lpr b (fst e)) (lpr b n)"
  shows "\<exists>b'. insert_level_before b (fst (hd (vs @ f # T))) n (fst f) = Inr b'
    \<and> side_ok b' sd (vs @ (n, os) # f # T) \<and> side_frame b sd (insert n (levels_of (vs @ f # T))) b'"
proof -
  let ?L = "vs @ f # T"
  let ?best = "fst (hd ?L)"
  obtain tp tn where t: "tp = last (map fst ((f # T) @ vs))" "tn = hd (map fst ((f # T) @ vs))"
    "lpv b tn = Some tp" "lnx b tp = Some tn" "tp \<in> levels_of ?L" "tn \<in> levels_of ?L"
    using splice_ends [OF sok] by auto
  have tn: "tn = fst f" using t(2) by simp
  have nt: "n \<noteq> tp" "n \<noteq> tn" "n \<noteq> ?best" using t(5,6) nin by (auto simp: levels_of_def hd_append)
  have "\<not> (worse sd p q \<and> worse sd q p)" for p q using worse_trans worse_irrefl by blast
  then have best_iff: "worse sd (lpr b ?best) (lpr b n) \<longleftrightarrow> vs = []"
    using vs [of "hd vs"] us [of f] by (cases vs) auto
  have "\<exists>b'. insert_level_before b ?best n tn = Inr b' \<and> spliced b n tp tn b'
    \<and> (\<forall>s. is_side s \<longrightarrow> best_levels s b' =
         (if s = sd \<and> worse sd (lpr b ?best) (lpr b n) then Some n else best_levels s b))"
  proof (rule insert_level_before_splices [OF t(3,4) nt _ sd])
    show "l_side (lev b n) = sd" using new by (simp add: level_ok_def)
    show "tn = ?best" if "worse sd (lpr b ?best) (lpr b n)" using that best_iff tn by simp
    show "tp = ?best" if "lnx b ?best = Some ?best"
    proof -
      have "dring (lnx b) (lpv b) (map fst ?L)" using sok by (simp add: side_ok_def)
      then have "map fst ?L = [?best]" using that dring_self_next [of "lnx b" "lpv b" "map fst ?L" ?best] by (cases vs) auto
      then have "levels_of ?L = {?best}" by (metis levels_of_def set_map list.set(1,2))
      then show ?thesis using t(5) by blast
    qed
  qed
  then obtain b' where b': "insert_level_before b ?best n tn = Inr b'" "spliced b n tp tn b'"
      "\<And>s. is_side s \<Longrightarrow> best_levels s b' = (if s = sd \<and> vs = [] then Some n else best_levels s b)"
    unfolding best_iff by blast
  have "side_ok b' sd (vs @ (n, os) # f # T)"
    by (rule spliced_side_ok [OF sok _ b'(2) t(2,1) new nin vs us]) (use b'(3) sd in auto)
  then show ?thesis using b' tn spliced_frame [OF b'(2) t(5,6), of sd] by auto
qed

text \<open>The insertion into a side that has levels already.\<close>

lemma insert_level_links:
  assumes sok: "side_ok b sd (e # S)" and sd: "is_side sd" and new: "level_ok b sd (n, os)"
    and nin: "n \<notin> levels_of (e # S)" and fuel: "length S < n_blocks (orders_at_price_pool b)"
    and neq: "\<forall>l \<in> levels_of (e # S). lpr b l \<noteq> lpr b n"
  shows "\<exists>b'. bindR (insertion_point b sd (lpr b n) (fst e)) (\<lambda>(after, target).
        if after then insert_level_after b (fst e) n target
        else insert_level_before b (fst e) n target) = Inr b'
    \<and> side_ok b' sd (insert_sorted b sd (lpr b n) (n, os) (e # S))
    \<and> side_frame b sd (insert n (levels_of (e # S))) b'"
proof -
  let ?p = "lpr b n"
  let ?vs = "takeWhile (passes b sd ?p) (e # S)" and ?us = "dropWhile (passes b sd ?p) (e # S)"
  have L: "?vs @ ?us = e # S" by (rule takeWhile_dropWhile_id)
  note vs = passes_split(1) [OF sok neq sd] and us = passes_split(2) [OF sok neq sd]
  have ring: "dring (lnx b) (lpv b) (map fst (e # S))" using sok by (simp add: side_ok_def)
  note run = insertion_point_result [OF ring fuel, of sd ?p]
  show ?thesis
  proof (cases ?us)
    case Nil
    then have "?vs = e # S" using L by simp
    then have "\<And>g. g \<in> set (e # S) \<Longrightarrow> worse sd ?p (lpr b (fst g))" using vs by metis
    then show ?thesis
      using insert_behind_all [OF sok _ new nin] run Nil \<open>?vs = e # S\<close> by (simp add: insert_sorted_def)
  next
    case (Cons f T)
    then have L': "?vs @ f # T = e # S" using L by simp
    have us': "\<And>g. g \<in> set (f # T) \<Longrightarrow> worse sd (lpr b (fst g)) ?p" using us Cons by metis
    have "\<exists>b'. insert_level_before b (fst (hd (?vs @ f # T))) n (fst f) = Inr b'
      \<and> side_ok b' sd (?vs @ (n, os) # f # T) \<and> side_frame b sd (insert n (levels_of (?vs @ f # T))) b'"
      by (rule insert_before [OF _ sd new _ vs us']) (use sok nin in \<open>simp_all only: L' simp_thms\<close>)
    then show ?thesis
      unfolding L' insert_sorted_def Cons run by simp
  qed
qed

text \<open>The first level of a side.\<close>

lemma first_level:
  assumes "best_levels sd b = None" "is_side sd" "level_ok b sd (n, os)"
  shows "side_ok (set_level n (\<lambda>l. l\<lparr>l_prev := Some n, l_next := Some n\<rparr>) (set_best sd (Some n) b)) sd [(n, os)]"
proof -
  let ?b = "set_level n (\<lambda>l. l\<lparr>l_prev := Some n, l_next := Some n\<rparr>) (set_best sd (Some n) b)"
  have "level_ok ?b sd (n, os) = level_ok b sd (n, os)"
    by (rule level_ok_frame_levels) (simp_all add: book_simps lpr_def)
  then show ?thesis
    using assms by (simp add: side_ok_def book_simps view_defs)
qed

text \<open>The entry of the new level in the table.\<close>

definition put_level :: "addr \<Rightarrow> ('o, 'z) level_book_scheme \<Rightarrow> ('o, 'z) level_book_scheme" where
  "put_level n b = b\<lparr>map_price_to_price_level := (map_price_to_price_level b)(price_to_index (lpr b n) := Some n)\<rparr>"

lemma put_level_reads [simp]:
  "lev (put_level n b) = lev b" "ord (put_level n b) = ord b" "best_levels s (put_level n b) = best_levels s b"
  "orders_at_price_pool (put_level n b) = orders_at_price_pool b" "order_pool (put_level n b) = order_pool b"
  "map_price_to_price_level (put_level n b) = (map_price_to_price_level b)(price_to_index (lpr b n) := Some n)"
  "level_book.more (put_level n b) = level_book.more b"
  by (simp_all add: put_level_def book_simps)

lemma put_level_views [simp]:
  "lnx (put_level n b) = lnx b" "lpv (put_level n b) = lpv b" "lpr (put_level n b) = lpr b"
  "onx (put_level n b) = onx b" "opv (put_level n b) = opv b"
  by (simp_all add: view_defs fun_eq_iff)

lemma put_level_side [simp]:
  "level_ok (put_level n b) = level_ok b" "side_ok (put_level n b) = side_ok b"
  "insert_sorted (put_level n b) = insert_sorted b"
proof -
  show l: "level_ok (put_level n b) = level_ok b" by (intro ext) (simp add: level_ok_def order_ok_def)
  show "side_ok (put_level n b) = side_ok b" by (intro ext) (simp add: side_ok_def l)
  show "insert_sorted (put_level n b) = insert_sorted b"
    by (intro ext) (simp add: insert_sorted_def passes_def [abs_def])
qed

lemma add_price_level_links:
  assumes sok: "side_ok b sd L" and sd: "is_side sd" and new: "level_ok b sd (n, os)"
    and nin: "n \<notin> levels_of L" and fuel: "length L \<le> n_blocks (orders_at_price_pool b)"
    and neq: "\<forall>l \<in> levels_of L. lpr b l \<noteq> lpr b n"
  shows "\<exists>b'. add_price_level b n = Inr b' \<and> side_ok b' sd (insert_sorted b sd (lpr b n) (n, os) L)
    \<and> side_frame (put_level n b) sd (insert n (levels_of L)) b'"
proof -
  have side_n: "l_side (lev b n) = sd" using new by (simp add: level_ok_def)
  let ?b = "put_level n b"
  have put: "b\<lparr>map_price_to_price_level := (map_price_to_price_level b)(price_to_index (l_price (lev b n)) := Some n)\<rparr> = ?b"
    by (simp add: put_level_def lpr_def)
  show ?thesis
  proof (cases L)
    case Nil
    then have none: "best_levels sd ?b = None" using sok by (simp add: side_ok_def)
    let ?b' = "set_level n (\<lambda>l. l\<lparr>l_prev := Some n, l_next := Some n\<rparr>) (set_best sd (Some n) ?b)"
    have "add_price_level b n = Inr ?b'"
      using none side_n put by (simp add: add_price_level_def Let_def)
    moreover have "side_ok ?b' sd (insert_sorted b sd (lpr b n) (n, os) L)"
      using first_level [OF none sd] new Nil by (simp add: insert_sorted_def)
    moreover have "side_frame ?b sd (insert n (levels_of L)) ?b'"
      using sd by (auto simp: side_frame_def book_simps BUY_eq_is_side lpr_def fun_eq_iff)
    ultimately show ?thesis by blast
  next
    case (Cons e S)
    then have "best_levels sd b = Some (fst e)" using sok by (simp add: side_ok_def)
    then have "add_price_level b n = bindR (insertion_point ?b sd (lpr b n) (fst e)) (\<lambda>(after, target).
        if after then insert_level_after ?b (fst e) n target
        else insert_level_before ?b (fst e) n target)"
      using side_n unfolding add_price_level_def Let_def put by (simp add: lpr_def)
    then show ?thesis
      using insert_level_links [of ?b sd e S n os] sok sd new nin fuel neq Cons by auto
  qed
qed

lemma insert_sorted_sets [simp]:
  "levels_of (insert_sorted b sd p e L) = insert (fst e) (levels_of L)"
  "orders_of (insert_sorted b sd p e L) = set (snd e) \<union> orders_of L"
proof -
  have "set (insert_sorted b sd p e L) = insert e (set L)"
    unfolding insert_sorted_def by (metis (no_types, lifting) Un_insert_right list.simps(15) set_append takeWhile_dropWhile_id)
  then show "levels_of (insert_sorted b sd p e L) = insert (fst e) (levels_of L)"
    "orders_of (insert_sorted b sd p e L) = set (snd e) \<union> orders_of L"
    by (auto simp: levels_of_def orders_of_def)
qed

lemma add_price_level_ok:
  assumes ok: "book_ok b0 G (insert a X) (insert n Y)" and sd: "is_side sd"
    and new: "level_ok b0 sd (n, [a])" and fresh: "a \<notin> X" "n \<notin> Y"
    and ncol: "\<forall>l \<in> all_levels G. price_to_index (lpr b0 l) \<noteq> price_to_index (lpr b0 n)"
  shows "\<exists>b'. add_price_level b0 n = Inr b'
    \<and> book_ok b' (G(sd := insert_sorted b0 sd (lpr b0 n) (n, [a]) (G sd))) X Y
    \<and> book_frame b0 b' \<and> lpr b' = lpr b0 \<and> used (orders_at_price_pool b') = used (orders_at_price_pool b0)"
proof -
  let ?G = "G(sd := insert_sorted b0 sd (lpr b0 n) (n, [a]) (G sd))"
  let ?S = "orders_at_price_pool b0" and ?op = "opposite sd"
  have sok: "side_ok b0 sd (G sd)" by (rule book_ok_side [OF ok sd])
  have sub: "levels_of (G sd) \<subseteq> all_levels G" using all_levels_side [OF sd, of G] by simp
  have lG: "all_levels G \<subseteq> used ?S" "n \<notin> all_levels G" using ok by (auto simp: book_ok_def)
  have "length (G sd) = card (levels_of (G sd))"
    using side_ok_distinct [OF sok] by (metis distinct_card length_map levels_of_def set_map)
  also have "\<dots> \<le> card (used ?S)" using sub lG by (intro card_mono) auto
  also have "\<dots> \<le> n_blocks ?S" by (simp add: used_def card_lessThan_filter)
  finally have fuel: "length (G sd) \<le> n_blocks ?S" .
  have nin: "n \<notin> levels_of (G sd)" using sub lG(2) by auto
  have neq: "\<forall>l \<in> levels_of (G sd). lpr b0 l \<noteq> lpr b0 n" using sub ncol by (metis subsetD)
  obtain b' where b': "add_price_level b0 n = Inr b'"
    "side_ok b' sd (insert_sorted b0 sd (lpr b0 n) (n, [a]) (G sd))"
    "side_frame (put_level n b0) sd (insert n (levels_of (G sd))) b'"
    using add_price_level_links [OF sok sd new nin fuel neq] by blast
  note fr = side_frameD(2,3) [OF b'(3), simplified] and blocks = side_frameD(4) [OF b'(3), unfolded same_blocks_def, simplified]
  have op: "side_ok b0 ?op (G ?op)" by (rule book_ok_side [OF ok is_side_opposite])
  have "levels_of (G ?op) \<inter> insert n (levels_of (G sd)) = {}"
    using sides_disjoint(1) [OF sok op] lG(2) all_levels_side [OF sd, of G] by auto
  then have "side_ok b' ?op (G ?op)" using side_frame_other [OF b'(3) sd] op by simp
  then have sides: "side_ok b' BUY (?G BUY) \<and> side_ok b' SELL (?G SELL)"
    using b'(2) by (intro both_sides [OF sd])
  have sets: "all_levels ?G = insert n (all_levels G)" "all_orders ?G = insert a (all_orders G)"
    using all_levels_upd [OF sd, of G] all_levels_side [OF sd, of G]
      all_orders_upd [OF sd, of G] all_orders_side [OF sd, of G] by auto
  have "table_ok b' (insert n (all_levels G))"
    by (rule table_ok_insert [of b0]) (use ok ncol fr blocks in \<open>auto simp: book_ok_def\<close>)
  then have "book_ok b' ?G X Y"
    using ok sides sets fresh blocks unfolding book_ok_def by auto
  moreover have "book_frame b0 b'"
    using fr blocks by (simp add: book_frame_def)
  ultimately show ?thesis using b'(1) fr blocks by auto
qed

end
