(* ===== verification/Level_Orders.thy ===== *)
theory Level_Orders
  imports Level_Insertion
begin

text \<open>
  The level book as its clients see it: each side is the queue of its orders in
  price-time priority. \<open>link_order\<close> puts an order behind every order of its side that is
  at least as aggressive, \<open>unlink_order\<close> takes it out, and neither touches the other side.
  The two hypotheses of insertion are the limits of the code: no other price (and no order
  of the other side) may share the slot of the hash table, and the level pool must have
  two free blocks if the price is new.
\<close>

definition queue :: "ghost_side \<Rightarrow> addr list" where
  "queue L = concat (map snd L)"

lemma set_queue [simp]: "set (queue L) = orders_of L"
  by (auto simp: queue_def orders_of_def)

lemma queue_simps [simp]: "queue [] = []" "queue (e # L) = snd e @ queue L" "queue (L @ M) = queue L @ queue M"
  by (simp_all add: queue_def)

text \<open>Behind all that are at least as aggressive.\<close>

definition insert_prio :: "side \<Rightarrow> ('x \<Rightarrow> price) \<Rightarrow> price \<Rightarrow> 'x \<Rightarrow> 'x list \<Rightarrow> 'x list" where
  "insert_prio sd f p x xs =
     takeWhile (\<lambda>c. \<not> worse sd (f c) p) xs @ x # dropWhile (\<lambda>c. \<not> worse sd (f c) p) xs"

lemma insert_prio_split:
  assumes "\<And>c. c \<in> set xs \<Longrightarrow> \<not> worse sd (f c) p" "\<And>c. c \<in> set ys \<Longrightarrow> worse sd (f c) p"
  shows "insert_prio sd f p x (xs @ ys) = xs @ x # ys"
proof -
  have "takeWhile (\<lambda>c. \<not> worse sd (f c) p) ys = []" "dropWhile (\<lambda>c. \<not> worse sd (f c) p) ys = ys"
    using assms(2) by (cases ys; simp)+
  then show ?thesis using assms(1) by (simp add: insert_prio_def)
qed

lemma set_insert_prio [simp]: "set (insert_prio sd f p x xs) = insert x (set xs)"
proof -
  have "set (takeWhile P xs) \<union> set (dropWhile P xs) = set xs" for P
    by (metis set_append takeWhile_dropWhile_id)
  then show ?thesis by (auto simp: insert_prio_def)
qed

lemma map_insert_prio:
  assumes "\<And>c. c \<in> set xs \<Longrightarrow> g (h c) = f c"
  shows "map h (insert_prio sd f p x xs) = insert_prio sd g p (h x) (map h xs)"
proof -
  have "takeWhile (\<lambda>c. \<not> worse sd (g c) p) (map h xs) = map h (takeWhile (\<lambda>c. \<not> worse sd (f c) p) xs)"
    "dropWhile (\<lambda>c. \<not> worse sd (g c) p) (map h xs) = map h (dropWhile (\<lambda>c. \<not> worse sd (f c) p) xs)"
    using assms by (induction xs) auto
  then show ?thesis by (simp add: insert_prio_def)
qed

lemma side_ok_order_price:
  assumes "side_ok b sd L" "e \<in> set L" "c \<in> set (snd e)"
  shows "o_price (ord b c) = lpr b (fst e)"
  using side_ok_price [of b sd L "fst e" "snd e" c] assms by simp

lemma distinct_queue:
  assumes "side_ok b sd L"
  shows "distinct (queue L)"
proof -
  have "distinct (queue M)" if "sorted_wrt (\<lambda>e f. worse sd (lpr b (fst f)) (lpr b (fst e))) M"
    "\<forall>e \<in> set M. level_ok b sd e" for M
    using that
  proof (induction M)
    case (Cons g M)
    have "set (snd g) \<inter> orders_of M = {}"
    proof (rule ccontr)
      assume "\<not> ?thesis"
      then obtain c h where ch: "c \<in> set (snd g)" "h \<in> set M" "c \<in> set (snd h)"
        by (auto simp: orders_of_def)
      then have "lpr b (fst g) = lpr b (fst h)"
        using Cons.prems(2) by (auto simp: level_ok_def order_ok_def)
      then show False using ch Cons.prems(1) by auto
    qed
    moreover have "distinct (snd g)" using Cons.prems(2) by (auto simp: level_ok_def dest: dring_distinct)
    ultimately show ?case using Cons by simp
  qed simp
  then show ?thesis using assms by (simp add: side_ok_def)
qed

text \<open>The queue is in price priority.\<close>

lemma queue_sorted:
  assumes "side_ok b sd L"
  shows "sorted_wrt (\<lambda>c d. \<not> worse sd (o_price (ord b c)) (o_price (ord b d))) (queue L)"
proof -
  have "sorted_wrt (\<lambda>c d. \<not> worse sd (o_price (ord b c)) (o_price (ord b d))) (queue M)"
    if "sorted_wrt (\<lambda>e f. worse sd (lpr b (fst f)) (lpr b (fst e))) M" "\<forall>e \<in> set M. level_ok b sd e" for M
    using that
  proof (induction M)
    case (Cons g M)
    have "sorted_wrt (\<lambda>c d. \<not> worse sd (o_price (ord b c)) (o_price (ord b d))) (snd g)"
      using Cons.prems(2) by (auto simp: level_ok_def order_ok_def sorted_wrt_iff_nth_less)
    moreover have "\<not> worse sd (o_price (ord b c)) (o_price (ord b d))"
      if cd: "c \<in> set (snd g)" "d \<in> orders_of M" for c d
    proof -
      obtain h where h: "h \<in> set M" "d \<in> set (snd h)" using cd(2) by (auto simp: orders_of_def)
      then have "worse sd (o_price (ord b d)) (o_price (ord b c))"
        using Cons.prems cd(1) by (auto simp: level_ok_def order_ok_def)
      then show ?thesis using worse_trans worse_irrefl by blast
    qed
    ultimately show ?case using Cons by (simp add: sorted_wrt_append)
  qed simp
  then show ?thesis using assms by (simp add: side_ok_def)
qed

subsection \<open>\<open>link_order\<close>\<close>

text \<open>Appending to the level of the price: the queue gets the order behind its price.\<close>

lemma queue_existing:
  assumes sok: "side_ok b sd (L1 @ (l, os) # L2)"
  shows "queue (L1 @ (l, os @ [a]) # L2)
    = insert_prio sd (\<lambda>c. o_price (ord b c)) (lpr b l) a (queue (L1 @ (l, os) # L2))"
proof -
  have srt: "\<And>e. e \<in> set L1 \<Longrightarrow> worse sd (lpr b l) (lpr b (fst e))"
      "\<And>e. e \<in> set L2 \<Longrightarrow> worse sd (lpr b (fst e)) (lpr b l)"
    using sok by (auto simp: side_ok_def sorted_wrt_append)
  have pr: "o_price (ord b c) = lpr b (fst e)" if "e \<in> set L1 \<union> set L2 \<union> {(l, os)}" "c \<in> set (snd e)" for c e
    using side_ok_order_price [OF sok] that by auto
  have "\<not> worse sd (o_price (ord b c)) (lpr b l)" if "c \<in> set (queue L1 @ os)" for c
    using that srt(1) pr worse_irrefl worse_trans by (fastforce simp: orders_of_def)
  moreover have "worse sd (o_price (ord b c)) (lpr b l)" if "c \<in> set (queue L2)" for c
    using that srt(2) pr by (fastforce simp: orders_of_def)
  ultimately have "insert_prio sd (\<lambda>c. o_price (ord b c)) (lpr b l) a ((queue L1 @ os) @ queue L2)
      = (queue L1 @ os) @ a # queue L2" by (rule insert_prio_split)
  then show ?thesis by simp
qed

lemma queue_new_level:
  assumes sok: "side_ok b sd L" and neq: "\<forall>l \<in> levels_of L. lpr b l \<noteq> p" and sd: "is_side sd"
  shows "queue (insert_sorted b sd p (n, [a]) L) = insert_prio sd (\<lambda>c. o_price (ord b c)) p a (queue L)"
proof -
  let ?vs = "takeWhile (passes b sd p) L" and ?us = "dropWhile (passes b sd p) L"
  have L: "?vs @ ?us = L" by (rule takeWhile_dropWhile_id)
  note vs = passes_split(1) [OF sok neq sd] and us = passes_split(2) [OF sok neq sd]
  have pr: "o_price (ord b c) = lpr b (fst e)" if "e \<in> set ?vs \<union> set ?us" "c \<in> set (snd e)" for c e
    using side_ok_order_price [OF sok] that L by (metis set_append)
  have "\<not> worse sd (o_price (ord b c)) p" if "c \<in> set (queue ?vs)" for c
    using that vs pr worse_irrefl worse_trans by (fastforce simp: orders_of_def)
  moreover have "worse sd (o_price (ord b c)) p" if "c \<in> set (queue ?us)" for c
    using that us pr by (fastforce simp: orders_of_def)
  ultimately have "insert_prio sd (\<lambda>c. o_price (ord b c)) p a (queue ?vs @ queue ?us)
      = queue ?vs @ a # queue ?us" by (rule insert_prio_split)
  moreover have "queue ?vs @ queue ?us = queue L" using L by (metis queue_simps(3))
  ultimately show ?thesis by (simp add: insert_sorted_def)
qed

lemma book_ok_frame:
  assumes ok: "book_ok b G X Y" and best: "\<And>s. best_levels s b' = best_levels s b"
    and lev: "\<And>l. l \<in> all_levels G \<Longrightarrow> lev b' l = lev b l" and ord: "\<And>c. c \<in> all_orders G \<Longrightarrow> ord b' c = ord b c"
    and map: "map_price_to_price_level b' = map_price_to_price_level b"
    and pools: "pool_ok (orders_at_price_pool b')" "pool_ok (order_pool b')"
    and sets: "used (orders_at_price_pool b') = all_levels G \<union> Y'" "all_levels G \<inter> Y' = {}"
      "used (order_pool b') = all_orders G \<union> X'" "all_orders G \<inter> X' = {}"
  shows "book_ok b' G X' Y'"
proof -
  have "side_ok b' s (G s) = side_ok b s (G s)" if "is_side s" for s
    by (rule side_ok_frame)
      (use best lev ord all_levels_side [OF that, of G] all_orders_side [OF that, of G] in auto)
  moreover have "table_ok b' (all_levels G) = table_ok b (all_levels G)"
    by (rule table_ok_frame [OF map]) (simp add: lpr_def lev)
  ultimately show ?thesis using ok pools sets by (simp add: book_ok_def)
qed

text \<open>The levels and their prices: as many levels as there are prices in the book.\<close>

definition prices_of :: "('o, 'z) level_book_scheme \<Rightarrow> ghost \<Rightarrow> price set" where
  "prices_of b G = (\<lambda>c. o_price (ord b c)) ` all_orders G"

lemma level_has_order:
  assumes "side_ok b sd L" "l \<in> levels_of L"
  obtains c where "c \<in> orders_of L" "o_price (ord b c) = lpr b l" "o_side (ord b c) = sd"
proof -
  obtain e where e: "e \<in> set L" "l = fst e" using assms(2) by (auto simp: levels_of_def)
  then have "level_ok b sd e" using assms(1) by (simp add: side_ok_def)
  then have "hd (snd e) \<in> set (snd e)" "order_ok b sd (lpr b l) (hd (snd e))"
    using e by (simp_all add: level_ok_def)
  then show ?thesis using e by (intro that [of "hd (snd e)"]) (auto simp: orders_of_def order_ok_def)
qed

lemma order_has_level:
  assumes "side_ok b sd L" "c \<in> orders_of L"
  obtains l where "l \<in> levels_of L" "lpr b l = o_price (ord b c)"
proof -
  obtain e where "e \<in> set L" "c \<in> set (snd e)" using assms(2) by (auto simp: orders_of_def)
  then show ?thesis
    using side_ok_order_price [OF assms(1)] that by (metis image_eqI levels_of_def)
qed

lemma prices_levels:
  assumes "book_ok b G X Y"
  shows "prices_of b G = lpr b ` all_levels G" "inj_on (lpr b) (all_levels G)"
proof -
  note sides = book_ok_side [OF assms, of BUY, simplified] book_ok_side [OF assms, of SELL, simplified]
  show "prices_of b G = lpr b ` all_levels G"
  proof (intro equalityI subsetI)
    fix p assume "p \<in> prices_of b G"
    then obtain c where c: "c \<in> all_orders G" "p = o_price (ord b c)" by (auto simp: prices_of_def)
    then obtain s where "side_ok b s (G s)" "c \<in> orders_of (G s)" "levels_of (G s) \<subseteq> all_levels G"
      using sides by (auto simp: all_orders_def all_levels_def)
    then show "p \<in> lpr b ` all_levels G" using c by (metis order_has_level imageI subsetD)
  next
    fix p assume "p \<in> lpr b ` all_levels G"
    then obtain l where l: "l \<in> all_levels G" "p = lpr b l" by auto
    then obtain s where "side_ok b s (G s)" "l \<in> levels_of (G s)" "orders_of (G s) \<subseteq> all_orders G"
      using sides by (auto simp: all_orders_def all_levels_def)
    then show "p \<in> prices_of b G" unfolding prices_of_def l(2) by (metis level_has_order imageI subsetD)
  qed
  show "inj_on (lpr b) (all_levels G)"
    using assms by (auto simp: book_ok_def inj_on_def intro: table_ok_index_inj)
qed

lemma card_levels: "book_ok b G X Y \<Longrightarrow> card (all_levels G) = card (prices_of b G)"
  using prices_levels card_image by metis

text \<open>
  The first half of \<open>link_order\<close> at a new price: a level block is allocated, and the order is
  a ring of its own in it.
\<close>

lemma slot_free:
  assumes "table_ok b S" "\<forall>l \<in> S. price_to_index (lpr b l) \<noteq> price_to_index p"
  shows "get_level_for_price b p = None"
proof (rule ccontr)
  assume "get_level_for_price b p \<noteq> None"
  then obtain l where "map_price_to_price_level b (price_to_index p) = Some l"
    by (auto simp: get_level_for_price_def)
  then show False using assms by (auto simp: table_ok_def)
qed

lemma link_new_level:
  assumes ok: "book_ok b G (insert a X) Y" and a: "o_side (ord b a) = sd"
    and room: "Suc (card (all_levels G \<union> Y)) < n_blocks (orders_at_price_pool b)"
    and slot: "\<forall>l \<in> all_levels G. price_to_index (lpr b l) \<noteq> price_to_index (o_price (ord b a))"
  obtains n b' where "link_order b a = add_price_level b' n" "book_ok b' G (insert a X) (insert n Y)"
    "n \<notin> Y" "level_ok b' sd (n, [a])" "lpr b' n = o_price (ord b a)"
    "\<And>l. l \<in> all_levels G \<Longrightarrow> lpr b' l = lpr b l" "book_frame b b'"
proof -
  let ?p = "o_price (ord b a)"
  let ?l = "\<lparr>l_side = sd, l_price = ?p, l_order_0 = Some a, l_prev = None, l_next = None\<rparr>"
  have none: "get_level_for_price b ?p = None"
    by (rule slot_free [OF _ slot]) (use ok in \<open>simp add: book_ok_def\<close>)
  define b1 where "b1 = set_order a (\<lambda>r. r\<lparr>o_prev := Some a, o_next := Some a\<rparr>) b"
  have same: "orders_at_price_pool b1 = orders_at_price_pool b" by (simp add: b1_def book_simps)
  have used: "used (orders_at_price_pool b) = all_levels G \<union> Y" using ok by (simp add: book_ok_def)
  then have "Suc (card (used (orders_at_price_pool b1))) < n_blocks (orders_at_price_pool b1)"
    "pool_ok (orders_at_price_pool b1)"
    using ok room same by (simp_all add: book_ok_def)
  then obtain lp n where lp: "allocate (orders_at_price_pool b1) ?l = Inr (n, lp)" "pool_ok lp"
    "blk lp = (blk (orders_at_price_pool b1))(n := ?l)" "used lp = insert n (used (orders_at_price_pool b1))"
    "n \<notin> used (orders_at_price_pool b1)" "n_blocks lp = n_blocks (orders_at_price_pool b1)"
    using allocate_ok by metis
  define b2 where "b2 = b1\<lparr>orders_at_price_pool := lp\<rparr>"
  have reads: "o_side (ord b1 a) = sd" "o_price (ord b1 a) = ?p" using a by (simp_all add: b1_def book_simps)
  have lev2: "lev b2 m = (if m = n then ?l else lev b m)" for m
    using lp(3) same by (simp add: b2_def pool_update_reads lev_def)
  have ord2: "ord b2 = ord b1" and best2: "best_levels s b2 = best_levels s b" for s
    by (simp_all add: b2_def b1_def book_simps)
  have data: "odata (ord b2 c) = odata (ord b c)" for c by (simp add: ord2 b1_def book_simps odata_def)
  have nG: "n \<notin> all_levels G" "n \<notin> Y" using lp(5) used same by auto
  have aG: "a \<notin> all_orders G" using ok by (auto simp: book_ok_def)
  show thesis
  proof (rule that [of b2 n])
    show "link_order b a = add_price_level b2 n"
      using none lp(1) reads by (simp add: link_order_def b1_def [symmetric] b2_def)
    show "book_ok b2 G (insert a X) (insert n Y)"
    proof (rule book_ok_frame [OF ok best2])
      show "used (orders_at_price_pool b2) = all_levels G \<union> insert n Y" "all_levels G \<inter> insert n Y = {}"
        using lp(4) same used nG ok by (auto simp: b2_def book_ok_def)
    qed (use lev2 nG ord2 aG lp(2) ok in \<open>auto simp: b2_def b1_def book_simps book_ok_def\<close>)
    show "level_ok b2 sd (n, [a])"
      using reads ord2 by (simp add: level_ok_def order_ok_def view_defs lev2 b1_def book_simps)
    show "book_frame b b2"
      using data lp(6) same by (simp add: book_frame_def b2_def b1_def book_simps)
  qed (use nG in \<open>auto simp: lpr_def lev2\<close>)
qed

lemma link_new:
  assumes ok: "book_ok b G (insert a X) Y" and aX: "a \<notin> X" and sd: "is_side sd"
    and a: "o_side (ord b a) = sd" and room: "Suc (card (all_levels G \<union> Y)) < n_blocks (orders_at_price_pool b)"
    and slot: "\<forall>l \<in> all_levels G. price_to_index (lpr b l) \<noteq> price_to_index (o_price (ord b a))"
  shows "\<exists>b' L'. link_order b a = Inr b' \<and> book_ok b' (G(sd := L')) X Y \<and> book_frame b b'
    \<and> queue L' = insert_prio sd (\<lambda>c. o_price (ord b c)) (o_price (ord b a)) a (queue (G sd))"
proof -
  let ?p = "o_price (ord b a)"
  obtain n b2 where b2: "link_order b a = add_price_level b2 n" "book_ok b2 G (insert a X) (insert n Y)"
    "n \<notin> Y" "level_ok b2 sd (n, [a])" and price2: "lpr b2 n = ?p"
    and pr2: "\<And>l. l \<in> all_levels G \<Longrightarrow> lpr b2 l = lpr b l" and fr2: "book_frame b b2"
    using link_new_level [OF ok a room slot] by blast
  have slot2: "\<forall>l \<in> all_levels G. price_to_index (lpr b2 l) \<noteq> price_to_index (lpr b2 n)"
    using slot pr2 price2 by simp
  obtain b' where b': "add_price_level b2 n = Inr b'"
    "book_ok b' (G(sd := insert_sorted b2 sd ?p (n, [a]) (G sd))) X Y" "book_frame b2 b'"
    using add_price_level_ok [OF b2(2) sd b2(4) aX b2(3) slot2] unfolding price2 by blast
  have "levels_of (G sd) \<subseteq> all_levels G" using all_levels_side [OF sd, of G] by simp
  then have neq: "\<forall>l \<in> levels_of (G sd). lpr b2 l \<noteq> ?p" using slot2 price2 by (metis subsetD)
  have "o_price (ord b2 c) = o_price (ord b c)" for c
    using fr2 odata_eqD(2) by (auto simp: book_frame_def)
  then have "queue (insert_sorted b2 sd ?p (n, [a]) (G sd))
      = insert_prio sd (\<lambda>c. o_price (ord b c)) ?p a (queue (G sd))"
    using queue_new_level [OF book_ok_side [OF b2(2) sd] neq sd, of n a] by simp
  then show ?thesis using b2(1) b' book_frame_trans [OF fr2] by auto
qed

lemma link_order_ok:
  assumes ok: "book_ok b G (insert a X) {}" and aX: "a \<notin> X" and sd: "is_side sd"
    and a: "o_side (ord b a) = sd"
    and room: "o_price (ord b a) \<notin> prices_of b G \<Longrightarrow> Suc (card (prices_of b G)) < n_blocks (orders_at_price_pool b)"
    and slot: "\<And>c. c \<in> all_orders G \<Longrightarrow> price_to_index (o_price (ord b c)) = price_to_index (o_price (ord b a))
        \<Longrightarrow> o_side (ord b c) = sd \<and> o_price (ord b c) = o_price (ord b a)"
  shows "\<exists>b' L'. link_order b a = Inr b' \<and> book_ok b' (G(sd := L')) X {} \<and> book_frame b b'
    \<and> queue L' = insert_prio sd (\<lambda>c. o_price (ord b c)) (o_price (ord b a)) a (queue (G sd))"
proof -
  let ?p = "o_price (ord b a)"
  have slotl: "lpr b l = ?p \<and> l \<in> levels_of (G sd)"
    if l: "l \<in> all_levels G" "price_to_index (lpr b l) = price_to_index ?p" for l
  proof -
    have "l \<in> levels_of (G sd) \<or> l \<in> levels_of (G (opposite sd))" using l all_levels_side [OF sd, of G] by simp
    then obtain s where s: "is_side s" "l \<in> levels_of (G s)" using sd is_side_opposite by blast
    obtain c where c: "c \<in> orders_of (G s)" "o_price (ord b c) = lpr b l" "o_side (ord b c) = s"
      using level_has_order [OF book_ok_side [OF ok s(1)] s(2)] by blast
    moreover have "c \<in> all_orders G" using c(1) s(1) all_orders_side [OF s(1), of G] by simp
    ultimately have "s = sd \<and> lpr b l = ?p" using slot [of c] l by simp
    then show ?thesis using s by simp
  qed
  show ?thesis
  proof (cases "?p \<in> prices_of b G")
    case True
    then obtain l where "l \<in> all_levels G" "lpr b l = ?p" using prices_levels(1) [OF ok] by auto
    then have l: "l \<in> levels_of (G sd)" "lpr b l = ?p" using slotl by auto
    then obtain os where "(l, os) \<in> set (G sd)" by (auto simp: levels_of_def)
    then obtain L1 L2 where L: "G sd = L1 @ (l, os) # L2" by (meson split_list)
    then have "side_ok b sd (L1 @ (l, os) # L2)" using book_ok_side [OF ok sd] by simp
    note q = queue_existing [OF this, of a, folded L]
    have "\<exists>b'. link_order b a = Inr b' \<and> book_ok b' (G(sd := L1 @ (l, os @ [a]) # L2)) X {} \<and> book_frame b b'"
      using link_existing [OF ok aX sd L a] l(2) by metis
    moreover have "queue (L1 @ (l, os @ [a]) # L2)
        = insert_prio sd (\<lambda>c. o_price (ord b c)) ?p a (queue (G sd))"
      using q l(2) by (simp only:)
    ultimately show ?thesis by blast
  next
    case False
    show ?thesis
    proof (rule link_new [OF ok aX sd a])
      show "Suc (card (all_levels G \<union> {})) < n_blocks (orders_at_price_pool b)"
        using room [OF False] card_levels [OF ok] by simp
      have "lpr b l \<noteq> ?p" if "l \<in> all_levels G" for l
        using that False prices_levels(1) [OF ok] by (metis imageI)
      then show "\<forall>l \<in> all_levels G. price_to_index (lpr b l) \<noteq> price_to_index ?p"
        using slotl by metis
    qed
  qed
qed

subsection \<open>\<open>unlink_order\<close>\<close>

lemma queue_remove: "queue (ghost_remove a L) = filter (\<lambda>c. c \<noteq> a) (queue L)"
proof (induction L)
  case (Cons e L)
  then show ?case by (cases e) (simp add: ghost_remove_def)
qed (simp add: ghost_remove_def)

lemma unlink_order_queue:
  assumes ok: "book_ok b G X Y" and sd: "is_side sd" and a: "a \<in> orders_of (G sd)"
  shows "\<exists>b' L'. unlink_order b a = Inr b' \<and> book_ok b' (G(sd := L')) (insert a X) Y
    \<and> book_frame b b' \<and> queue L' = filter (\<lambda>c. c \<noteq> a) (queue (G sd))"
  using unlink_order_ok [OF assms] queue_remove by blast

lemma unlink_order_sides:
  assumes ok: "book_ok b G {} {}" and sd: "is_side sd" and a: "a \<in> orders_of (G sd)"
  obtains b' G' where "unlink_order b a = Inr b'" "book_ok b' G' {a} {}" "book_frame b b'"
    "all_orders G' = all_orders G - {a}"
    "\<And>s. is_side s \<Longrightarrow> queue (G' s) = filter (\<lambda>c. c \<noteq> a) (queue (G s))"
proof -
  obtain b' L' where b': "unlink_order b a = Inr b'" "book_ok b' (G(sd := L')) {a} {}" "book_frame b b'"
    "queue L' = filter (\<lambda>c. c \<noteq> a) (queue (G sd))"
    using unlink_order_queue [OF ok sd a] by auto
  have disj: "a \<notin> orders_of (G (opposite sd))"
    using sides_disjoint(2) [OF book_ok_side [OF ok sd] book_ok_side [OF ok is_side_opposite]] a by auto
  have "set (queue L') = set (queue (G sd)) - {a}" unfolding b'(4) by auto
  then have "all_orders (G(sd := L')) = all_orders G - {a}"
    using disj all_orders_upd [OF sd, of G] all_orders_side [OF sd, of G] by auto
  moreover have "queue ((G(sd := L')) s) = filter (\<lambda>c. c \<noteq> a) (queue (G s))" if "is_side s" for s
    using is_side_cases [OF sd that] b'(4) disj by auto
  ultimately show thesis by (rule that [OF b'(1-3)])
qed

subsection \<open>The block of an order\<close>

text \<open>Allocated before the order is linked, and freed when it is out of the book.\<close>

lemma alloc_order:
  assumes ok: "book_ok b G {} {}" and room: "Suc (card (all_orders G)) < n_blocks (order_pool b)"
  obtains a op where "allocate (order_pool b) r = Inr (a, op)" "a \<notin> all_orders G"
    "book_ok (b\<lparr>order_pool := op\<rparr>) G {a} {}" "ord (b\<lparr>order_pool := op\<rparr>) = (ord b)(a := r)"
    "n_blocks op = n_blocks (order_pool b)"
proof -
  have used: "used (order_pool b) = all_orders G" and pool: "pool_ok (order_pool b)"
    using ok by (simp_all add: book_ok_def)
  then obtain op a where op: "allocate (order_pool b) r = Inr (a, op)" "pool_ok op"
    "blk op = (blk (order_pool b))(a := r)" "used op = insert a (all_orders G)" "a \<notin> all_orders G"
    "n_blocks op = n_blocks (order_pool b)"
    using allocate_ok [OF pool] room by metis
  let ?b = "b\<lparr>order_pool := op\<rparr>"
  have ord: "ord ?b = (ord b)(a := r)" using op(3) by (simp add: ord_def fun_eq_iff)
  have "book_ok ?b G {a} {}"
    by (rule book_ok_frame [OF ok]) (use op ord ok in \<open>auto simp: book_simps book_ok_def\<close>)
  then show thesis by (rule that [OF op(1,5) _ ord op(6)])
qed

lemma free_order:
  assumes ok: "book_ok b G {a} {}"
  obtains op where "deallocate (order_pool b) a = Inr op" "book_ok (b\<lparr>order_pool := op\<rparr>) G {} {}"
    "ord (b\<lparr>order_pool := op\<rparr>) = ord b" "n_blocks op = n_blocks (order_pool b)"
proof -
  have "pool_ok (order_pool b)" "a \<in> used (order_pool b)" using ok by (auto simp: book_ok_def)
  then obtain op where op: "deallocate (order_pool b) a = Inr op" "pool_ok op" "blk op = blk (order_pool b)"
    "used op = used (order_pool b) - {a}" "n_blocks op = n_blocks (order_pool b)"
    using deallocate_ok by metis
  let ?b = "b\<lparr>order_pool := op\<rparr>"
  have ord: "ord ?b = ord b" using op(3) by (simp add: ord_def fun_eq_iff)
  have "book_ok ?b G {} {}"
    by (rule book_ok_frame [OF ok]) (use ok op ord in \<open>auto simp: book_simps book_ok_def\<close>)
  then show thesis by (rule that [OF op(1) _ ord op(5)])
qed

subsection \<open>The first order, and changes of an order in place\<close>

text \<open>An update of an order that keeps its links, side and price.\<close>

lemma set_order_book_ok:
  assumes "\<And>r. o_side (f r) = o_side r" "\<And>r. o_price (f r) = o_price r"
    "\<And>r. o_prev (f r) = o_prev r" "\<And>r. o_next (f r) = o_next r"
  shows "book_ok (set_order a f b) G X Y = book_ok b G X Y"
proof -
  let ?b = "set_order a f b"
  have v: "lnx ?b = lnx b" "lpv ?b = lpv b" "lpr ?b = lpr b" "onx ?b = onx b" "opv ?b = opv b"
    using assms by (simp_all add: view_defs book_simps fun_eq_iff)
  have "order_ok ?b = order_ok b"
    using assms by (intro ext) (simp add: order_ok_def book_simps)
  then have "level_ok ?b = level_ok b"
    by (intro ext) (simp add: level_ok_def book_simps v)
  then have "side_ok ?b = side_ok b" by (intro ext) (simp add: side_ok_def book_simps v)
  then show ?thesis by (simp add: book_ok_def book_simps table_ok_def v)
qed

lemma best_order:
  assumes "book_ok b G X Y" "is_side sd"
  shows "queue (G sd) = [] \<longleftrightarrow> best_levels sd b = None"
    and "queue (G sd) = a # as \<Longrightarrow> \<exists>l. best_levels sd b = Some l \<and> l_order_0 (lev b l) = Some a"
proof -
  have sok: "side_ok b sd (G sd)" by (rule book_ok_side [OF assms])
  show "queue (G sd) = [] \<longleftrightarrow> best_levels sd b = None"
    using sok by (cases "G sd") (auto simp: side_ok_def level_ok_def)
  show "\<exists>l. best_levels sd b = Some l \<and> l_order_0 (lev b l) = Some a" if "queue (G sd) = a # as"
  proof (cases "G sd")
    case (Cons e L)
    then have "level_ok b sd e" "best_levels sd b = Some (fst e)" using sok by (simp_all add: side_ok_def)
    moreover have "hd (snd e) = a" using that Cons calculation(1) by (cases "snd e") (auto simp: level_ok_def)
    ultimately show ?thesis by (simp add: level_ok_def)
  qed (use that in simp)
qed

lemma level_first:
  assumes ok: "book_ok b G X Y" and l: "l \<in> all_levels G"
  obtains f t where "l_order_0 (lev b l) = Some f" "o_prev (ord b f) = Some t" "f \<in> all_orders G" "t \<in> all_orders G"
proof -
  obtain s where s: "is_side s" "l \<in> levels_of (G s)" using l is_side_simps(1,2) unfolding all_levels_def by blast
  then obtain os where os: "(l, os) \<in> set (G s)" by (auto simp: levels_of_def)
  then have lv: "level_ok b s (l, os)" using book_ok_side [OF ok s(1)] by (auto simp: side_ok_def)
  then obtain f where f: "l_order_0 (lev b l) = Some f" "f \<in> set os" by (cases os) (auto simp: level_ok_def)
  then obtain t where t: "o_prev (ord b f) = Some t" "t \<in> set os"
    using dring_links_closed [of "onx b" "opv b" os f] lv by (auto simp: level_ok_def opv_def)
  have "set os \<subseteq> all_orders G" using os all_orders_side [OF s(1), of G] by (force simp: orders_of_def)
  then show thesis using that [OF f(1) t(1)] f(2) t(2) by blast
qed

end

