(* ===== verification/Messages.thy ===== *)
theory Messages
  imports Nitek_Types
begin

text \<open>
  The packed message structs that travel through the queues and over the network:
  \<open>exchange/data/ome_client_request.h\<close>, \<open>ome_client_response.h\<close> and
  \<open>ome_market_update.h\<close>, with their default values, enumerators and string forms.
\<close>

subsection \<open>Client requests\<close>

datatype request_type = REQ_INVALID | REQ_NEW | REQ_CANCEL

record ome_client_request =
  rq_type :: request_type
  rq_client_id :: client_id
  rq_ticker_id :: ticker_id
  rq_order_id :: order_id
  rq_side :: side
  rq_price :: price
  rq_qty :: qty

definition default_request :: ome_client_request where
  "default_request = \<lparr>rq_type = REQ_INVALID, rq_client_id = ClientID_INVALID,
     rq_ticker_id = TickerID_INVALID, rq_order_id = OrderID_INVALID, rq_side = SIDE_INVALID,
     rq_price = Price_INVALID, rq_qty = Qty_INVALID\<rparr>"

fun request_type_to_str :: "request_type \<Rightarrow> string" where
  "request_type_to_str REQ_NEW = ''NEW''"
| "request_type_to_str REQ_CANCEL = ''CANCEL''"
| "request_type_to_str REQ_INVALID = ''INVALID''"

definition request_to_str :: "ome_client_request \<Rightarrow> string" where
  "request_to_str r = ''<OMEClientRequest>'' @ '' [''
     @ ''type: '' @ request_type_to_str (rq_type r)
     @ '', client: '' @ numeric_to_str (rq_client_id r)
     @ '', ticker: '' @ numeric_to_str (rq_ticker_id r)
     @ '', oid: '' @ numeric_to_str (rq_order_id r)
     @ '', side: '' @ side_to_str (rq_side r)
     @ '', qty: '' @ numeric_to_str (rq_qty r)
     @ '', price: '' @ price_to_str (rq_price r)
     @ '']''"

record ogs_client_request =
  oq_n_seq :: "64 word"
  oq_request :: ome_client_request

definition ogs_request_to_str :: "ogs_client_request \<Rightarrow> string" where
  "ogs_request_to_str r = ''<OGSClientRequest>'' @ '' ['' @ ''n: '' @ nat_to_str (unat (oq_n_seq r))
     @ '' '' @ request_to_str (oq_request r) @ '']''"

subsection \<open>Client responses\<close>

datatype response_type = RES_INVALID | RES_ACCEPTED | RES_CANCELLED | RES_FILLED | RES_CANCEL_REJECTED

record ome_client_response =
  rs_type :: response_type
  rs_client_id :: client_id
  rs_ticker_id :: ticker_id
  rs_client_order_id :: order_id
  rs_market_order_id :: order_id
  rs_side :: side
  rs_price :: price
  rs_qty_exec :: qty
  rs_qty_remain :: qty

definition default_response :: ome_client_response where
  "default_response = \<lparr>rs_type = RES_INVALID, rs_client_id = ClientID_INVALID,
     rs_ticker_id = TickerID_INVALID, rs_client_order_id = OrderID_INVALID,
     rs_market_order_id = OrderID_INVALID, rs_side = SIDE_INVALID, rs_price = Price_INVALID,
     rs_qty_exec = Qty_INVALID, rs_qty_remain = Qty_INVALID\<rparr>"

fun response_type_to_str :: "response_type \<Rightarrow> string" where
  "response_type_to_str RES_ACCEPTED = ''ACCEPTED''"
| "response_type_to_str RES_CANCELLED = ''CANCELLED''"
| "response_type_to_str RES_FILLED = ''FILLED''"
| "response_type_to_str RES_CANCEL_REJECTED = ''CANCEL_REJECTED''"
| "response_type_to_str RES_INVALID = ''INVALID''"

definition response_to_str :: "ome_client_response \<Rightarrow> string" where
  "response_to_str r = ''<OMEClientResponse>'' @ '' [''
     @ ''type: '' @ response_type_to_str (rs_type r)
     @ '', client: '' @ numeric_to_str (rs_client_id r)
     @ '', ticker: '' @ numeric_to_str (rs_ticker_id r)
     @ '', oid_client: '' @ numeric_to_str (rs_client_order_id r)
     @ '', oid_market: '' @ numeric_to_str (rs_market_order_id r)
     @ '', side: '' @ side_to_str (rs_side r)
     @ '', qty_exec: '' @ numeric_to_str (rs_qty_exec r)
     @ '', qty_remain: '' @ numeric_to_str (rs_qty_remain r)
     @ '', price: '' @ price_to_str (rs_price r)
     @ '']''"

record ogs_client_response =
  os_n_seq :: "64 word"
  os_response :: ome_client_response

definition ogs_response_to_str :: "ogs_client_response \<Rightarrow> string" where
  "ogs_response_to_str r = ''<OGSClientResponse>'' @ '' ['' @ ''n: '' @ nat_to_str (unat (os_n_seq r))
     @ '' '' @ response_to_str (os_response r) @ '']''"

subsection \<open>Market updates\<close>

datatype update_type = UPD_INVALID | UPD_CLEAR | UPD_ADD | UPD_MODIFY | UPD_CANCEL | UPD_TRADE
  | UPD_SNAPSHOT_START | UPD_SNAPSHOT_END

record ome_market_update =
  mu_type :: update_type
  mu_order_id :: order_id
  mu_ticker_id :: ticker_id
  mu_side :: side
  mu_price :: price
  mu_qty :: qty
  mu_priority :: priority

definition default_update :: ome_market_update where
  "default_update = \<lparr>mu_type = UPD_INVALID, mu_order_id = OrderID_INVALID,
     mu_ticker_id = TickerID_INVALID, mu_side = SIDE_INVALID, mu_price = Price_INVALID,
     mu_qty = Qty_INVALID, mu_priority = Priority_INVALID\<rparr>"

fun update_type_to_str :: "update_type \<Rightarrow> string" where
  "update_type_to_str UPD_CLEAR = ''CLEAR''"
| "update_type_to_str UPD_ADD = ''ADD''"
| "update_type_to_str UPD_MODIFY = ''MODIFY''"
| "update_type_to_str UPD_CANCEL = ''CANCEL''"
| "update_type_to_str UPD_TRADE = ''TRADE''"
| "update_type_to_str UPD_SNAPSHOT_START = ''SNAPSHOT_START''"
| "update_type_to_str UPD_SNAPSHOT_END = ''SNAPSHOT_END''"
| "update_type_to_str UPD_INVALID = ''INVALID''"

definition update_to_str :: "ome_market_update \<Rightarrow> string" where
  "update_to_str u = ''<OMEMarketUpdate>'' @ '' [''
     @ ''type: '' @ update_type_to_str (mu_type u)
     @ '', ticker: '' @ numeric_to_str (mu_ticker_id u)
     @ '', oid: '' @ numeric_to_str (mu_order_id u)
     @ '', side: '' @ side_to_str (mu_side u)
     @ '', qty: '' @ numeric_to_str (mu_qty u)
     @ '', price: '' @ price_to_str (mu_price u)
     @ '', priority: '' @ numeric_to_str (mu_priority u)
     @ '']''"

record mdp_market_update =
  md_n_seq :: "64 word"
  md_update :: ome_market_update

definition mdp_update_to_str :: "mdp_market_update \<Rightarrow> string" where
  "mdp_update_to_str u = ''<MDPMarketUpdate>'' @ '' ['' @ ''n: '' @ nat_to_str (unat (md_n_seq u))
     @ '' '' @ update_to_str (md_update u) @ '']''"

end
