(* ===== verification/Ome_Book.thy ===== *)
theory Ome_Book
  imports Level_Orders Messages LF_Queue
begin

text \<open>
  The exchange's limit order book: \<open>exchange/orders/ome_order.h\<close> and
  \<open>ome_order_book.{h,cpp}\<close>. \<open>ome_order\<close> extends the shared order node and \<open>ome_book\<close> the
  shared level book of \<open>Price_Levels\<close>. The calls back into the matching engine
  (\<open>ome.send_client_response\<close>, \<open>ome.send_market_update\<close>) are recorded in order in the field
  \<open>sent\<close>; \<open>Matching_Engine\<close> puts them on its queues.
\<close>

record ome_order = order_node +
  o_ticker :: ticker_id
  o_client :: client_id
  o_client_oid :: order_id
  o_market_oid :: order_id

definition default_ome_order :: ome_order where
  "default_ome_order = \<lparr>o_side = SIDE_INVALID, o_price = Price_INVALID, o_qty = Qty_INVALID,
     o_priority = Priority_INVALID, o_prev = None, o_next = None, o_ticker = TickerID_INVALID,
     o_client = ClientID_INVALID, o_client_oid = OrderID_INVALID, o_market_oid = OrderID_INVALID\<rparr>"

datatype ome_msg = Resp ome_client_response | Upd ome_market_update

type_synonym client_order_map = "client_id \<Rightarrow> order_id \<Rightarrow> ptr"

record ome_book = "unit ome_order_ext level_book" +
  assigned_ticker :: ticker_id
  map_client_id_to_order :: client_order_map
  client_response :: ome_client_response
  market_update :: ome_market_update
  next_market_oid :: order_id
  sent :: "ome_msg list"

text \<open>
  The constructor. It leaves \<open>map_client_id_to_order\<close>, an array of pointers with no
  initialiser, indeterminate: its contents are the argument \<open>m\<close>.
\<close>

definition new_ome_book :: "client_order_map \<Rightarrow> ticker_id \<Rightarrow> ome_book" where
  "new_ome_book m t = \<lparr>orders_at_price_pool = new_pool MAX_PRICE_LEVELS default_level,
     bids_by_price = None, asks_by_price = None, map_price_to_price_level = (\<lambda>_. None),
     order_pool = new_pool MAX_ORDER_IDS default_ome_order, assigned_ticker = t,
     map_client_id_to_order = m, client_response = default_response,
     market_update = default_update, next_market_oid = 1, sent = []\<rparr>"

subsection \<open>Messages\<close>

definition send_response :: "ome_book \<Rightarrow> ome_book" where
  "send_response b = b\<lparr>sent := sent b @ [Resp (client_response b)]\<rparr>"

definition send_update :: "ome_book \<Rightarrow> ome_book" where
  "send_update b = b\<lparr>sent := sent b @ [Upd (market_update b)]\<rparr>"

definition mk_response :: "response_type \<Rightarrow> client_id \<Rightarrow> ticker_id \<Rightarrow> order_id \<Rightarrow> order_id \<Rightarrow> side
    \<Rightarrow> price \<Rightarrow> qty \<Rightarrow> qty \<Rightarrow> ome_client_response" where
  "mk_response t c tk co mo sd p qe qr = \<lparr>rs_type = t, rs_client_id = c, rs_ticker_id = tk,
     rs_client_order_id = co, rs_market_order_id = mo, rs_side = sd, rs_price = p,
     rs_qty_exec = qe, rs_qty_remain = qr\<rparr>"

definition mk_update :: "update_type \<Rightarrow> order_id \<Rightarrow> ticker_id \<Rightarrow> side \<Rightarrow> price \<Rightarrow> qty \<Rightarrow> priority
    \<Rightarrow> ome_market_update" where
  "mk_update t mo tk sd p q pr = \<lparr>mu_type = t, mu_order_id = mo, mu_ticker_id = tk,
     mu_side = sd, mu_price = p, mu_qty = q, mu_priority = pr\<rparr>"

subsection \<open>Priorities, and orders in and out of the book\<close>

definition get_next_priority :: "ome_book \<Rightarrow> price \<Rightarrow> priority res" where
  "get_next_priority b p =
     (case get_level_for_price b p of
        None \<Rightarrow> Inr 1
      | Some l \<Rightarrow>
          bindR (deref (l_order_0 (lev b l))) (\<lambda>first.
          bindR (deref (o_prev (ord b first))) (\<lambda>lst.
          Inr (o_priority (ord b lst) + 1))))"

text \<open>\<open>map_client_id_to_order.at(client).at(oid) = p\<close>.\<close>

definition in_range :: "client_id \<Rightarrow> order_id \<Rightarrow> bool" where
  "in_range c oid \<longleftrightarrow> unat c < MAX_N_CLIENTS \<and> unat oid < MAX_ORDER_IDS"

definition set_client_order :: "client_id \<Rightarrow> order_id \<Rightarrow> ptr \<Rightarrow> ome_book \<Rightarrow> ome_book res" where
  "set_client_order c oid p b =
     bindR (require Out_of_range (in_range c oid)) (\<lambda>_.
     Inr (b\<lparr>map_client_id_to_order := (map_client_id_to_order b)(c := (map_client_id_to_order b c)(oid := p))\<rparr>))"

definition add_order_to_book :: "ome_book \<Rightarrow> addr \<Rightarrow> ome_book res" where
  "add_order_to_book b a =
     bindR (link_order b a) (\<lambda>b1.
     set_client_order (o_client (ord b1 a)) (o_client_oid (ord b1 a)) (Some a) b1)"

definition remove_order_from_book :: "ome_book \<Rightarrow> addr \<Rightarrow> ome_book res" where
  "remove_order_from_book b a =
     bindR (unlink_order b a) (\<lambda>b1.
     bindR (set_client_order (o_client (ord b1 a)) (o_client_oid (ord b1 a)) None b1) (\<lambda>b2.
     bindR (deallocate (order_pool b2) a) (\<lambda>op.
     Inr (b2\<lparr>order_pool := op\<rparr>))))"

subsection \<open>Matching\<close>

text \<open>\<open>match\<close>: the incoming order takes what it can from the order \<open>a\<close>; returns \<open>*qty_remains\<close>.\<close>

definition match :: "ticker_id \<Rightarrow> client_id \<Rightarrow> side \<Rightarrow> order_id \<Rightarrow> order_id \<Rightarrow> addr \<Rightarrow> qty \<Rightarrow> ome_book
    \<Rightarrow> (qty \<times> ome_book) res" where
  "match tk c sd coid moid a qty_remains b =
     (let order_qty = o_qty (ord b a);
          fill_qty = min qty_remains order_qty;
          rem = qty_remains - fill_qty;
          b1 = set_order a (\<lambda>r. r\<lparr>o_qty := o_qty r - fill_qty\<rparr>) b;
          r = ord b1 a;
          b2 = send_response (b1\<lparr>client_response :=
                 mk_response RES_FILLED c tk coid moid sd (o_price r) fill_qty rem\<rparr>);
          b3 = send_response (b2\<lparr>client_response :=
                 mk_response RES_FILLED (o_client r) tk (o_client_oid r) (o_market_oid r) (o_side r)
                   (o_price r) fill_qty (o_qty r)\<rparr>);
          b4 = send_update (b3\<lparr>market_update :=
                 mk_update UPD_TRADE OrderID_INVALID tk sd (o_price r) fill_qty Priority_INVALID\<rparr>)
      in if o_qty r = 0 then
           bindR (remove_order_from_book
             (send_update (b4\<lparr>market_update :=
                mk_update UPD_CANCEL (o_market_oid r) tk (o_side r) (o_price r) order_qty
                  Priority_INVALID\<rparr>)) a) (\<lambda>b5. Inr (rem, b5))
         else
           Inr (rem, send_update (b4\<lparr>market_update :=
                mk_update UPD_MODIFY (o_market_oid r) tk (o_side r) (o_price r) (o_qty r)
                  (o_priority r)\<rparr>)))"

text \<open>
  The two \<open>while\<close> loops of \<open>find_match\<close>, one per side of the incoming order; the loop stops
  when the limit price is less aggressive than the best price of the other side.
\<close>

fun match_loop :: "nat \<Rightarrow> ticker_id \<Rightarrow> client_id \<Rightarrow> side \<Rightarrow> order_id \<Rightarrow> order_id \<Rightarrow> price \<Rightarrow> qty \<Rightarrow> ome_book
    \<Rightarrow> (qty \<times> ome_book) res" where
  "match_loop fuel tk c sd coid moid p qty_remains b =
     (if qty_remains \<noteq> 0 then
        (case best_levels (opposite sd) b of
           None \<Rightarrow> Inr (qty_remains, b)
         | Some l \<Rightarrow>
             bindR (deref (l_order_0 (lev b l))) (\<lambda>first.
             if worse sd p (o_price (ord b first)) then Inr (qty_remains, b)
             else
               (case fuel of 0 \<Rightarrow> Inl Diverges
                | Suc f \<Rightarrow>
                    bindR (match tk c sd coid moid first qty_remains b) (\<lambda>(rem, b').
                    match_loop f tk c sd coid moid p rem b'))))
      else Inr (qty_remains, b))"

declare match_loop.simps [simp del]

definition find_match :: "client_id \<Rightarrow> order_id \<Rightarrow> ticker_id \<Rightarrow> side \<Rightarrow> price \<Rightarrow> qty \<Rightarrow> order_id \<Rightarrow> ome_book
    \<Rightarrow> (qty \<times> ome_book) res" where
  "find_match c coid tk sd p q moid b =
     (if sd = BUY \<or> sd = SELL then match_loop (n_blocks (order_pool b)) tk c sd coid moid p q b
      else Inr (q, b))"

subsection \<open>\<open>add\<close> and \<open>cancel\<close>\<close>

definition add :: "client_id \<Rightarrow> order_id \<Rightarrow> ticker_id \<Rightarrow> side \<Rightarrow> price \<Rightarrow> qty \<Rightarrow> ome_book \<Rightarrow> ome_book res" where
  "add c coid tk sd p q b =
     (let moid = next_market_oid b;
          b1 = b\<lparr>next_market_oid := moid + 1\<rparr>;
          b2 = send_response (b1\<lparr>client_response :=
                 mk_response RES_ACCEPTED c tk coid moid sd p 0 q\<rparr>)
      in bindR (find_match c coid tk sd p q moid b2) (\<lambda>(rem, b3).
      if rem \<noteq> 0 then
        bindR (get_next_priority b3 p) (\<lambda>priority.
        bindR (allocate (order_pool b3)
                 \<lparr>o_side = sd, o_price = p, o_qty = rem, o_priority = priority, o_prev = None,
                  o_next = None, o_ticker = tk, o_client = c, o_client_oid = coid,
                  o_market_oid = moid\<rparr>) (\<lambda>(a, op).
        bindR (add_order_to_book (b3\<lparr>order_pool := op\<rparr>) a) (\<lambda>b4.
        Inr (send_update (b4\<lparr>market_update := mk_update UPD_ADD moid tk sd p rem priority\<rparr>)))))
      else Inr b3))"

definition cancel :: "client_id \<Rightarrow> order_id \<Rightarrow> ticker_id \<Rightarrow> ome_book \<Rightarrow> ome_book res" where
  "cancel c oid tk b =
     bindR (if unat c < MAX_N_CLIENTS
            then bindR (require Out_of_range (unat oid < MAX_ORDER_IDS)) (\<lambda>_.
                 Inr (map_client_id_to_order b c oid))
            else Inr None) (\<lambda>exchange_order.
     bindR (case exchange_order of
        None \<Rightarrow>
          Inr (b\<lparr>client_response := mk_response RES_CANCEL_REJECTED c tk oid OrderID_INVALID
                 SIDE_INVALID Price_INVALID Qty_INVALID Qty_INVALID\<rparr>)
      | Some a \<Rightarrow>
          (let r = ord b a;
               b1 = b\<lparr>client_response := mk_response RES_CANCELLED c tk oid (o_market_oid r)
                       (o_side r) (o_price r) Qty_INVALID (o_qty r)\<rparr>;
               b2 = b1\<lparr>market_update := mk_update UPD_CANCEL (o_market_oid r) tk (o_side r)
                       (o_price r) 0 (o_priority r)\<rparr>
           in bindR (remove_order_from_book b2 a) (\<lambda>b3. Inr (send_update b3)))) (\<lambda>b4.
     Inr (send_response b4)))"

end
