(* ===== verification/Ome_Spec.thy ===== *)
theory Ome_Spec
  imports Ome_Book
begin

text \<open>
  What the order book promises, with no pointers: each side is the list of its orders in
  price-time priority (records without links). \<open>add_spec\<close> and \<open>cancel_spec\<close> give the lists
  and the messages after an operation; \<open>Ome_Refinement\<close> proves the pointer-level code
  equal to them, and the properties of trading are proved here, on the specification.
\<close>

record incoming =
  in_ticker :: ticker_id
  in_client :: client_id
  in_side :: side
  in_oid :: order_id
  in_moid :: order_id
  in_price :: price

type_synonym book_view = "side \<Rightarrow> ome_order list"

subsection \<open>Matching\<close>

text \<open>The messages of one fill: \<open>r\<close> is the resting order before it, \<open>f\<close> the quantity.\<close>

definition fill_msgs :: "incoming \<Rightarrow> ome_order \<Rightarrow> qty \<Rightarrow> qty \<Rightarrow> ome_msg list" where
  "fill_msgs i r f rem =
    [Resp (mk_response RES_FILLED (in_client i) (in_ticker i) (in_oid i) (in_moid i) (in_side i)
       (o_price r) f rem),
     Resp (mk_response RES_FILLED (o_client r) (in_ticker i) (o_client_oid r) (o_market_oid r)
       (o_side r) (o_price r) f (o_qty r - f)),
     Upd (mk_update UPD_TRADE OrderID_INVALID (in_ticker i) (in_side i) (o_price r) f Priority_INVALID),
     Upd (if o_qty r - f = 0
          then mk_update UPD_CANCEL (o_market_oid r) (in_ticker i) (o_side r) (o_price r) (o_qty r)
                 Priority_INVALID
          else mk_update UPD_MODIFY (o_market_oid r) (in_ticker i) (o_side r) (o_price r)
                 (o_qty r - f) (o_priority r))]"

fun match_spec :: "incoming \<Rightarrow> qty \<Rightarrow> ome_order list \<Rightarrow> qty \<times> ome_order list \<times> ome_msg list" where
  "match_spec i q [] = (q, [], [])"
| "match_spec i q (r # rs) =
     (if q = 0 \<or> worse (in_side i) (in_price i) (o_price r) then (q, r # rs, [])
      else
        let f = min q (o_qty r) in
        if o_qty r - f = 0 then
          (case match_spec i (q - f) rs of (q', rs', ms) \<Rightarrow> (q', rs', fill_msgs i r f (q - f) @ ms))
        else (q - f, r\<lparr>o_qty := o_qty r - f\<rparr> # rs, fill_msgs i r f (q - f)))"

subsection \<open>\<open>add\<close> and \<open>cancel\<close>\<close>

definition next_priority_spec :: "price \<Rightarrow> ome_order list \<Rightarrow> priority" where
  "next_priority_spec p rs =
     (case filter (\<lambda>r. o_price r = p) rs of [] \<Rightarrow> 1 | ss \<Rightarrow> o_priority (last ss) + 1)"

definition new_order_spec :: "incoming \<Rightarrow> qty \<Rightarrow> priority \<Rightarrow> ome_order" where
  "new_order_spec i q pr = \<lparr>o_side = in_side i, o_price = in_price i, o_qty = q, o_priority = pr,
     o_prev = None, o_next = None, o_ticker = in_ticker i, o_client = in_client i,
     o_client_oid = in_oid i, o_market_oid = in_moid i\<rparr>"

definition add_spec :: "incoming \<Rightarrow> qty \<Rightarrow> book_view \<Rightarrow> book_view \<times> ome_msg list" where
  "add_spec i q A =
     (let sd = in_side i;
          acc = Resp (mk_response RES_ACCEPTED (in_client i) (in_ticker i) (in_oid i) (in_moid i) sd
                  (in_price i) 0 q)
      in case match_spec i q (A (opposite sd)) of (rem, opp, ms) \<Rightarrow>
         let A1 = A(opposite sd := opp) in
         if rem = 0 then (A1, acc # ms)
         else
           let pr = next_priority_spec (in_price i) (A sd);
               r = new_order_spec i rem pr
           in (A1(sd := insert_prio sd o_price (in_price i) r (A sd)),
               acc # ms @ [Upd (mk_update UPD_ADD (in_moid i) (in_ticker i) sd (in_price i) rem pr)]))"

definition is_order_of :: "client_id \<Rightarrow> order_id \<Rightarrow> ome_order \<Rightarrow> bool" where
  "is_order_of c oid r \<longleftrightarrow> o_client r = c \<and> o_client_oid r = oid"

definition cancel_spec :: "client_id \<Rightarrow> order_id \<Rightarrow> ticker_id \<Rightarrow> book_view \<Rightarrow> book_view \<times> ome_msg list" where
  "cancel_spec c oid tk A =
     (case find (is_order_of c oid) (A BUY @ A SELL) of
        None \<Rightarrow>
          (A, [Resp (mk_response RES_CANCEL_REJECTED c tk oid OrderID_INVALID SIDE_INVALID
                 Price_INVALID Qty_INVALID Qty_INVALID)])
      | Some r \<Rightarrow>
          (\<lambda>s. filter (\<lambda>x. \<not> is_order_of c oid x) (A s),
           [Upd (mk_update UPD_CANCEL (o_market_oid r) tk (o_side r) (o_price r) 0 (o_priority r)),
            Resp (mk_response RES_CANCELLED c tk oid (o_market_oid r) (o_side r) (o_price r)
              Qty_INVALID (o_qty r))]))"

subsection \<open>When the code can take an order\<close>

text \<open>
  The limits of the code on a new order: a real side, identifiers inside the client table
  and not in use, no two prices of the book in one slot of the hash table, and room in both
  pools.
\<close>

definition all_resting :: "book_view \<Rightarrow> ome_order list" where
  "all_resting A = A BUY @ A SELL"

definition view_prices :: "book_view \<Rightarrow> price set" where
  "view_prices A = o_price ` set (all_resting A)"

definition accepts :: "book_view \<Rightarrow> incoming \<Rightarrow> bool" where
  "accepts A i \<longleftrightarrow> is_side (in_side i)
     \<and> in_range (in_client i) (in_oid i)
     \<and> list_all (\<lambda>r. \<not> is_order_of (in_client i) (in_oid i) r) (all_resting A)
     \<and> list_all (\<lambda>r. price_to_index (o_price r) = price_to_index (in_price i) \<longrightarrow> o_price r = in_price i)
         (all_resting A)
     \<and> (in_price i \<in> view_prices A \<or> Suc (card (view_prices A)) < MAX_PRICE_LEVELS)
     \<and> Suc (length (all_resting A)) < MAX_ORDER_IDS"

text \<open>Both sides in price priority.\<close>

definition prioritised :: "side \<Rightarrow> ome_order list \<Rightarrow> bool" where
  "prioritised sd rs \<longleftrightarrow> sorted_wrt (\<lambda>r s. \<not> worse sd (o_price r) (o_price s)) rs"

lemma match_spec_subset:
  assumes "match_spec i q rs = (q', rs', ms)"
  shows "length rs' \<le> length rs"
    and "\<And>r'. r' \<in> set rs' \<Longrightarrow> \<exists>r \<in> set rs. \<exists>n. r' = r\<lparr>o_qty := n\<rparr>"
proof -
  have *: "length rs' \<le> length rs \<and> (\<forall>r' \<in> set rs'. \<exists>r \<in> set rs. \<exists>n. r' = r\<lparr>o_qty := n\<rparr>)"
    if "match_spec i q rs = (q', rs', ms)"
    using that
  proof (induction i q rs arbitrary: q' rs' ms rule: match_spec.induct)
    case (2 i q r rs)
    have self: "\<exists>n. s = s\<lparr>o_qty := n\<rparr>" for s :: ome_order by (metis order_node.surjective order_node.update_convs(3))
    show ?case
    proof (cases "q = 0 \<or> worse (in_side i) (in_price i) (o_price r)")
      case True
      then show ?thesis using 2(2) self by fastforce
    next
      case False
      show ?thesis
      proof (cases "o_qty r - min q (o_qty r) = 0")
        case True
        then show ?thesis
          using 2(1) [OF False refl True] 2(2) False by (fastforce simp: Let_def split: prod.splits)
      next
        case f: False
        then show ?thesis using 2(2) False self by (fastforce simp: Let_def)
      qed
    qed
  qed simp
  show "length rs' \<le> length rs"
    "\<And>r'. r' \<in> set rs' \<Longrightarrow> \<exists>r \<in> set rs. \<exists>n. r' = r\<lparr>o_qty := n\<rparr>"
    using * [OF assms] by auto
qed

lemma worse_opposite:
  "is_side sd \<Longrightarrow> worse sd p q \<Longrightarrow> \<not> worse (opposite sd) q r \<Longrightarrow> worse sd p r"
  by (auto simp: worse_def is_side_def)

text \<open>What is left of an order found nothing more to trade with.\<close>

lemma match_spec_leftover:
  assumes "match_spec i q rs = (q', rs', ms)" "q' \<noteq> 0" "is_side (in_side i)"
    and "prioritised (opposite (in_side i)) rs"
  shows "\<forall>r \<in> set rs'. worse (in_side i) (in_price i) (o_price r)"
  using assms
proof (induction i q rs arbitrary: q' rs' ms rule: match_spec.induct)
  case (2 i q r rs)
  show ?case
  proof (cases "q = 0 \<or> worse (in_side i) (in_price i) (o_price r)")
    case True
    then have "worse (in_side i) (in_price i) (o_price r)" "rs' = r # rs" using 2(2,3) by auto
    then show ?thesis
      using 2(4,5) worse_opposite [of "in_side i" "in_price i" "o_price r"] by (auto simp: prioritised_def)
  next
    case False
    show ?thesis
    proof (cases "o_qty r - min q (o_qty r) = 0")
      case True
      then show ?thesis
        using 2(1) [OF False refl True] 2(2-5) False by (auto simp: Let_def prioritised_def split: prod.splits)
    next
      case f: False
      then have "min q (o_qty r) = q" by (metis diff_self min_def)
      then show ?thesis using 2(2,3) False f by (auto simp: Let_def)
    qed
  qed
qed simp

subsection \<open>An accepted order still fits after it has matched\<close>

lemma all_resting_upd:
  assumes "is_side sd"
  shows "set (all_resting (A(opposite sd := rs))) = set (A sd) \<union> set rs"
    and "length (all_resting (A(opposite sd := rs))) = length (A sd) + length rs"
  using assms by (auto simp: all_resting_def is_side_def)

text \<open>Each order that rests afterwards did so before, but for its quantity.\<close>

lemma match_resting:
  assumes m: "match_spec i q (A (opposite (in_side i))) = (rem, opp, ms)" and sd: "is_side (in_side i)"
    and r: "r \<in> set (all_resting (A(opposite (in_side i) := opp)))"
  obtains r' n where "r' \<in> set (all_resting A)" "r = r'\<lparr>o_qty := n\<rparr>"
proof -
  have all: "set (all_resting A) = set (A (in_side i)) \<union> set (A (opposite (in_side i)))"
    using all_resting_upd(1) [OF sd, of A "A (opposite (in_side i))"] by simp
  have "r = r\<lparr>o_qty := o_qty r\<rparr>" by simp
  then show thesis
    using r that match_spec_subset(2) [OF m, of r] unfolding all_resting_upd(1) [OF sd] all by blast
qed

lemma match_keeps_ids:
  assumes "accepts A i" "match_spec i q (A (opposite (in_side i))) = (rem, opp, ms)"
    and "r \<in> set (all_resting (A(opposite (in_side i) := opp)))"
  shows "\<not> is_order_of (in_client i) (in_oid i) r"
proof -
  have "is_side (in_side i)" using assms(1) by (simp add: accepts_def)
  then obtain r' n where "r' \<in> set (all_resting A)" "r = r'\<lparr>o_qty := n\<rparr>" by (rule match_resting [OF assms(2) _ assms(3)])
  then show ?thesis using assms(1) by (auto simp: accepts_def list_all_iff is_order_of_def)
qed

lemma match_keeps_length:
  assumes "accepts A i" "match_spec i q (A (opposite (in_side i))) = (rem, opp, ms)"
  shows "Suc (length (all_resting (A(opposite (in_side i) := opp)))) < MAX_ORDER_IDS"
proof -
  have sd: "is_side (in_side i)" using assms(1) by (simp add: accepts_def)
  have "length (all_resting A) = length (A (in_side i)) + length (A (opposite (in_side i)))"
    using all_resting_upd(2) [OF sd, of A "A (opposite (in_side i))"] by simp
  then show ?thesis
    using assms(1) match_spec_subset(1) [OF assms(2)] all_resting_upd(2) [OF sd, of A opp]
    by (simp add: accepts_def)
qed

lemma match_keeps_levels:
  assumes acc: "accepts A i" and m: "match_spec i q (A (opposite (in_side i))) = (rem, opp, ms)"
    and np: "in_price i \<notin> view_prices (A(opposite (in_side i) := opp))" and lim: "card (view_prices A) < MAX_PRICE_LEVELS"
  shows "Suc (card (view_prices (A(opposite (in_side i) := opp)))) < MAX_PRICE_LEVELS"
proof -
  let ?A3 = "A(opposite (in_side i) := opp)"
  have sd: "is_side (in_side i)" using acc by (simp add: accepts_def)
  have sub: "view_prices ?A3 \<subseteq> view_prices A"
  proof
    fix p assume "p \<in> view_prices ?A3"
    then obtain r where r: "r \<in> set (all_resting ?A3)" "p = o_price r" unfolding view_prices_def by blast
    obtain r' n where "r' \<in> set (all_resting A)" "r = r'\<lparr>o_qty := n\<rparr>" by (rule match_resting [OF m sd r(1)])
    then show "p \<in> view_prices A" using r(2) by (simp add: view_prices_def)
  qed
  have fin: "finite (view_prices A)" by (simp add: view_prices_def)
  show ?thesis
  proof (cases "in_price i \<in> view_prices A")
    case True
    then have "view_prices ?A3 \<subset> view_prices A" using np sub by blast
    then have "card (view_prices ?A3) < card (view_prices A)" by (rule psubset_card_mono [OF fin])
    then show ?thesis using lim by (simp del: fun_upd_apply)
  next
    case False
    then show ?thesis using acc card_mono [OF fin sub] unfolding accepts_def by linarith
  qed
qed

text \<open>
  No order of the other side is left in the slot of the incoming price: at that price it
  would have been matched, and at another one \<open>accepts\<close> excludes it.
\<close>

lemma match_clears_slot:
  assumes acc: "accepts A i" and m: "match_spec i q (A (opposite (in_side i))) = (rem, opp, ms)" and rem: "rem \<noteq> 0"
    and prio: "prioritised (opposite (in_side i)) (A (opposite (in_side i)))"
    and r: "r \<in> set (all_resting (A(opposite (in_side i) := opp)))" "price_to_index (o_price r) = price_to_index (in_price i)"
  shows "r \<in> set (A (in_side i))" "o_price r = in_price i"
proof -
  have sd: "is_side (in_side i)" using acc by (simp add: accepts_def)
  obtain r' n where r': "r' \<in> set (all_resting A)" "r = r'\<lparr>o_qty := n\<rparr>" by (rule match_resting [OF m sd r(1)])
  then show p: "o_price r = in_price i" using acc r(2) by (auto simp: accepts_def list_all_iff)
  have "r \<notin> set opp" using match_spec_leftover [OF m rem sd prio] p worse_irrefl by auto
  then show "r \<in> set (A (in_side i))" using r(1) all_resting_upd(1) [OF sd, of A opp] by blast
qed

end
