(* ===== verification/Ome_Refinement.thy ===== *)
theory Ome_Refinement
  imports Ome_Spec
begin

text \<open>
  The order book of \<open>Ome_Book\<close> implements \<open>Ome_Spec\<close>: \<open>ome_ok b G\<close> is the invariant of the
  book with ghost description \<open>G\<close> (its rings, sorted levels, hash table, pools and client
  table), \<open>side_view\<close> the order lists it stands for.
\<close>

subsection \<open>The invariant\<close>

definition clients_ok :: "ome_book \<Rightarrow> addr set \<Rightarrow> bool" where
  "clients_ok b S \<longleftrightarrow>
     (\<forall>a \<in> S. in_range (o_client (ord b a)) (o_client_oid (ord b a)))
   \<and> (\<forall>c oid. in_range c oid \<longrightarrow> (\<forall>a. map_client_id_to_order b c oid = Some a \<longleftrightarrow>
        a \<in> S \<and> o_client (ord b a) = c \<and> o_client_oid (ord b a) = oid))"

definition ome_ok :: "ome_book \<Rightarrow> ghost \<Rightarrow> bool" where
  "ome_ok b G \<longleftrightarrow> book_ok b G {} {} \<and> clients_ok b (all_orders G)
     \<and> n_blocks (orders_at_price_pool b) = MAX_PRICE_LEVELS
     \<and> n_blocks (order_pool b) = MAX_ORDER_IDS"

definition side_view :: "ome_book \<Rightarrow> ghost \<Rightarrow> book_view" where
  "side_view b G sd = map (\<lambda>a. odata (ord b a)) (queue (G sd))"

subsection \<open>Frame rules for the fields of the exchange's book\<close>

text \<open>A change of the book's own fields leaves the shared part alone.\<close>

definition same_core :: "ome_book \<Rightarrow> ome_book \<Rightarrow> bool" where
  "same_core b b' \<longleftrightarrow> level_book.truncate b' = level_book.truncate b"

lemma same_coreD:
  assumes "same_core b b'"
  shows "orders_at_price_pool b' = orders_at_price_pool b" "order_pool b' = order_pool b"
    "bids_by_price b' = bids_by_price b" "asks_by_price b' = asks_by_price b"
    "map_price_to_price_level b' = map_price_to_price_level b"
    "lev b' = lev b" "ord b' = ord b" "best_levels s b' = best_levels s b"
proof -
  show "orders_at_price_pool b' = orders_at_price_pool b" "order_pool b' = order_pool b"
    "bids_by_price b' = bids_by_price b" "asks_by_price b' = asks_by_price b"
    "map_price_to_price_level b' = map_price_to_price_level b"
    using assms by (simp_all add: same_core_def level_book.truncate_def)
  then show "lev b' = lev b" "ord b' = ord b" "best_levels s b' = best_levels s b"
    by (simp_all add: lev_def ord_def best_levels_def fun_eq_iff)
qed

lemma same_core_book_ok:
  assumes "same_core b b'"
  shows "book_ok b' G X Y = book_ok b G X Y"
proof -
  note core = same_coreD [OF assms]
  have v: "lnx b' = lnx b" "lpv b' = lpv b" "lpr b' = lpr b" "onx b' = onx b" "opv b' = opv b"
    by (simp_all add: view_defs core fun_eq_iff)
  have lv: "level_ok b' = level_ok b" by (intro ext) (simp add: level_ok_def order_ok_def core v)
  have sd: "side_ok b' = side_ok b" by (intro ext) (simp add: side_ok_def core v lv)
  show ?thesis by (simp add: book_ok_def core sd table_ok_def v)
qed

lemma same_core_updates [simp]:
  "same_core b (b\<lparr>client_response := r\<rparr>)" "same_core b (b\<lparr>market_update := u\<rparr>)"
  "same_core b (b\<lparr>next_market_oid := n\<rparr>)" "same_core b (b\<lparr>sent := ms\<rparr>)"
  "same_core b (b\<lparr>map_client_id_to_order := m\<rparr>)" "same_core b b"
  by (simp_all add: same_core_def level_book.truncate_def)

lemma same_core_trans: "same_core b c \<Longrightarrow> same_core c d \<Longrightarrow> same_core b d"
  by (simp add: same_core_def)

text \<open>The fields of \<open>ome_book\<close> are those of \<open>level_book.more\<close>.\<close>

lemma same_more:
  assumes "level_book.more b' = level_book.more (b::ome_book)"
  shows "map_client_id_to_order b' = map_client_id_to_order b" "sent b' = sent b"
    "next_market_oid b' = next_market_oid b" "assigned_ticker b' = assigned_ticker b"
    "client_response b' = client_response b" "market_update b' = market_update b"
  using assms by (cases b; cases b'; simp)+

lemma same_order_more:
  assumes "odata r = odata (s::ome_order)"
  shows "o_client r = o_client s" "o_client_oid r = o_client_oid s"
    "o_market_oid r = o_market_oid s" "o_ticker r = o_ticker s"
  using odata_eqD(5) [OF assms] by (cases r; cases s; simp)+

subsection \<open>Orders in and out of the book\<close>

text \<open>What both operations leave alone.\<close>

definition book_rest :: "ome_book \<Rightarrow> ome_book \<Rightarrow> bool" where
  "book_rest b b' \<longleftrightarrow> (\<forall>c. odata (ord b' c) = odata (ord b c)) \<and> sent b' = sent b
     \<and> next_market_oid b' = next_market_oid b \<and> assigned_ticker b' = assigned_ticker b
     \<and> client_response b' = client_response b \<and> market_update b' = market_update b"

lemma clients_unique:
  assumes "clients_ok b S" "a \<in> S" "c \<in> S" "o_client (ord b c) = o_client (ord b a)"
    "o_client_oid (ord b c) = o_client_oid (ord b a)"
  shows "c = a"
proof -
  let ?m = "map_client_id_to_order b (o_client (ord b a)) (o_client_oid (ord b a))"
  have "in_range (o_client (ord b a)) (o_client_oid (ord b a))" using assms(1,2) by (simp add: clients_ok_def)
  then have "?m = Some a" "?m = Some c" using assms by (simp_all add: clients_ok_def)
  then show ?thesis by simp
qed

lemma clients_ok_remove:
  assumes "clients_ok b S" "a \<in> S" "\<And>c. odata (ord b' c) = odata (ord b c)"
    and "map_client_id_to_order b' = (map_client_id_to_order b)
      (o_client (ord b a) := (map_client_id_to_order b (o_client (ord b a)))(o_client_oid (ord b a) := None))"
  shows "clients_ok b' (S - {a})"
proof -
  note o' = same_order_more(1,2) [OF assms(3)] and uniq = clients_unique [OF assms(1,2)]
  show ?thesis
    using assms(1,2) uniq unfolding clients_ok_def assms(4) by (auto simp: o' split: if_splits)
qed

lemma remove_order_ok:
  assumes ok: "ome_ok b G" and sd: "is_side sd" and a: "a \<in> orders_of (G sd)"
  shows "\<exists>b' G'. remove_order_from_book b a = Inr b' \<and> ome_ok b' G' \<and> book_rest b b'
    \<and> (\<forall>s. is_side s \<longrightarrow> queue (G' s) = filter (\<lambda>c. c \<noteq> a) (queue (G s)))"
proof -
  have bok: "book_ok b G {} {}" and cok: "clients_ok b (all_orders G)" using ok by (simp_all add: ome_ok_def)
  obtain b1 G1 where b1: "unlink_order b a = Inr b1" "book_ok b1 G1 {a} {}" "book_frame b b1"
    "all_orders G1 = all_orders G - {a}"
    "\<And>s. is_side s \<Longrightarrow> queue (G1 s) = filter (\<lambda>c. c \<noteq> a) (queue (G s))"
    using unlink_order_sides [OF bok sd a] by blast
  let ?c = "o_client (ord b a)" and ?oid = "o_client_oid (ord b a)"
  have data1: "odata (ord b1 c) = odata (ord b c)" for c using b1(3) by (simp add: book_frame_def)
  note o1 = same_order_more(1,2) [OF data1]
  have "level_book.more b1 = level_book.more b" using b1(3) by (simp add: book_frame_def)
  note fields1 = same_more [OF this]
  have aG: "a \<in> all_orders G" using a all_orders_side [OF sd, of G] by simp
  define b2 where "b2 = b1\<lparr>map_client_id_to_order := (map_client_id_to_order b)(?c := (map_client_id_to_order b ?c)(?oid := None))\<rparr>"
  have run2: "set_client_order (o_client (ord b1 a)) (o_client_oid (ord b1 a)) None b1 = Inr b2"
    using cok aG by (simp add: set_client_order_def o1 fields1 b2_def clients_ok_def)
  have core2: "same_core b1 b2" by (simp add: b2_def)
  have "book_ok b2 G1 {a} {}" using b1(2) same_core_book_ok [OF core2] by simp
  then obtain op where op: "deallocate (order_pool b2) a = Inr op" "book_ok (b2\<lparr>order_pool := op\<rparr>) G1 {} {}"
    "ord (b2\<lparr>order_pool := op\<rparr>) = ord b2" "n_blocks op = n_blocks (order_pool b2)" by (rule free_order)
  let ?b = "b2\<lparr>order_pool := op\<rparr>"
  have data: "odata (ord ?b c) = odata (ord b c)" for c using data1 same_coreD(7) [OF core2] op(3) by simp
  have "clients_ok ?b (all_orders G1)"
    unfolding b1(4) by (rule clients_ok_remove [OF cok aG data]) (simp add: b2_def)
  then have "ome_ok ?b G1" using ok op(2,4) b1(3) by (simp add: ome_ok_def b2_def book_frame_def)
  moreover have "book_rest b ?b" using data fields1 by (simp add: book_rest_def b2_def)
  moreover have "remove_order_from_book b a = Inr ?b"
    using b1(1) run2 op(1) by (simp add: remove_order_from_book_def)
  ultimately show ?thesis using b1(5) by blast
qed

lemma clients_ok_insert:
  assumes "clients_ok b S" "a \<notin> S" "in_range (o_client (ord b a)) (o_client_oid (ord b a))"
    and "\<And>c. c \<in> S \<Longrightarrow> \<not> (o_client (ord b c) = o_client (ord b a) \<and> o_client_oid (ord b c) = o_client_oid (ord b a))"
    and "\<And>c. odata (ord b' c) = odata (ord b c)"
    and "map_client_id_to_order b' = (map_client_id_to_order b)
      (o_client (ord b a) := (map_client_id_to_order b (o_client (ord b a)))(o_client_oid (ord b a) := Some a))"
  shows "clients_ok b' (insert a S)"
proof -
  note o' = same_order_more(1,2) [OF assms(5)]
  show ?thesis
    using assms(1-4) unfolding clients_ok_def assms(6) by (auto simp: o' split: if_splits)
qed

lemma add_order_ok:
  assumes bok: "book_ok b G {a} {}" and cok: "clients_ok b (all_orders G)"
    and sizes: "n_blocks (orders_at_price_pool b) = MAX_PRICE_LEVELS" "n_blocks (order_pool b) = MAX_ORDER_IDS"
    and sd: "is_side sd" and a: "o_side (ord b a) = sd"
    and rng: "in_range (o_client (ord b a)) (o_client_oid (ord b a))"
    and fresh: "\<And>c. c \<in> all_orders G \<Longrightarrow>
      \<not> (o_client (ord b c) = o_client (ord b a) \<and> o_client_oid (ord b c) = o_client_oid (ord b a))"
    and room: "o_price (ord b a) \<notin> prices_of b G \<Longrightarrow> Suc (card (prices_of b G)) < MAX_PRICE_LEVELS"
    and slot: "\<And>c. c \<in> all_orders G \<Longrightarrow> price_to_index (o_price (ord b c)) = price_to_index (o_price (ord b a))
        \<Longrightarrow> o_side (ord b c) = sd \<and> o_price (ord b c) = o_price (ord b a)"
  shows "\<exists>b' G'. add_order_to_book b a = Inr b' \<and> ome_ok b' G' \<and> book_rest b b'
    \<and> queue (G' sd) = insert_prio sd (\<lambda>c. o_price (ord b c)) (o_price (ord b a)) a (queue (G sd))
    \<and> (\<forall>s. s \<noteq> sd \<longrightarrow> queue (G' s) = queue (G s))"
proof -
  have aG: "a \<notin> all_orders G" using bok by (auto simp: book_ok_def)
  have "\<exists>b1 L'. link_order b a = Inr b1 \<and> book_ok b1 (G(sd := L')) {} {} \<and> book_frame b b1
    \<and> queue L' = insert_prio sd (\<lambda>c. o_price (ord b c)) (o_price (ord b a)) a (queue (G sd))"
    by (rule link_order_ok [OF bok _ sd a]) (use room sizes(1) slot in simp_all)
  then obtain b1 L' where b1: "link_order b a = Inr b1" "book_ok b1 (G(sd := L')) {} {}" "book_frame b b1"
    "queue L' = insert_prio sd (\<lambda>c. o_price (ord b c)) (o_price (ord b a)) a (queue (G sd))"
    by blast
  let ?G = "G(sd := L')" and ?c = "o_client (ord b a)" and ?oid = "o_client_oid (ord b a)"
  have data1: "odata (ord b1 c) = odata (ord b c)" for c using b1(3) by (simp add: book_frame_def)
  note o1 = same_order_more(1,2) [OF data1]
  have more1: "level_book.more b1 = level_book.more b" using b1(3) by (simp add: book_frame_def)
  note fields1 = same_more [OF more1]
  define b2 where "b2 = b1\<lparr>map_client_id_to_order := (map_client_id_to_order b)(?c := (map_client_id_to_order b ?c)(?oid := Some a))\<rparr>"
  have run: "add_order_to_book b a = Inr b2"
    using rng b1(1) by (simp add: add_order_to_book_def set_client_order_def o1 fields1 b2_def)
  have core2: "same_core b1 b2" by (simp add: b2_def)
  have "orders_of L' = insert a (orders_of (G sd))" unfolding set_queue [symmetric] b1(4) by (simp del: set_queue)
  then have ordsG: "all_orders ?G = insert a (all_orders G)"
    using all_orders_upd [OF sd, of G] all_orders_side [OF sd, of G] by auto
  have data2: "odata (ord b2 c) = odata (ord b c)" for c
    using data1 same_coreD(7) [OF core2] by simp
  have "clients_ok b2 (all_orders ?G)"
    unfolding ordsG by (rule clients_ok_insert [OF cok aG rng fresh data2]) (simp_all add: b2_def)
  moreover have "book_ok b2 ?G {} {}" using b1(2) same_core_book_ok [OF core2] by simp
  moreover have "n_blocks (order_pool b2) = n_blocks (order_pool b)"
    "n_blocks (orders_at_price_pool b2) = n_blocks (orders_at_price_pool b)"
    using b1(3) by (simp_all add: b2_def book_frame_def)
  ultimately have "ome_ok b2 ?G" using sizes by (simp add: ome_ok_def)
  moreover have "book_rest b b2" using data2 fields1 by (simp add: book_rest_def b2_def)
  moreover have "queue (?G s) = queue (G s)" if "s \<noteq> sd" for s using that by simp
  ultimately show ?thesis using run b1(4) by (metis fun_upd_same)
qed

subsection \<open>Matching\<close>

lemma same_core_ome_ok:
  assumes "same_core b b'" "map_client_id_to_order b' = map_client_id_to_order b"
  shows "ome_ok b' G = ome_ok b G"
  using same_coreD [OF assms(1)] same_core_book_ok [OF assms(1)] assms(2)
  by (simp add: ome_ok_def clients_ok_def)

lemma set_qty_ome_ok: "ome_ok (set_order a (\<lambda>r. r\<lparr>o_qty := f r\<rparr>) b) G = ome_ok b G"
proof -
  let ?b = "set_order a (\<lambda>r. r\<lparr>o_qty := f r\<rparr>) b"
  have "book_ok ?b G {} {} = book_ok b G {} {}" by (rule set_order_book_ok) simp_all
  moreover have "map_client_id_to_order ?b = map_client_id_to_order b"
    by (rule same_more(1)) (simp add: more_writes)
  moreover have "o_client (ord ?b c) = o_client (ord b c)" "o_client_oid (ord ?b c) = o_client_oid (ord b c)" for c
    by (simp_all add: book_simps)
  ultimately have "clients_ok ?b (all_orders G) = clients_ok b (all_orders G)" "book_ok ?b G {} {} = book_ok b G {} {}"
    by (simp_all add: clients_ok_def)
  then show ?thesis by (simp add: ome_ok_def book_simps)
qed

text \<open>The state of \<open>match\<close> before the filled order is removed.\<close>

definition filled :: "incoming \<Rightarrow> addr \<Rightarrow> qty \<Rightarrow> ome_book \<Rightarrow> ome_book \<Rightarrow> bool" where
  "filled i a rem b b' \<longleftrightarrow> (let f = min rem (o_qty (ord b a)) in
     same_core (set_order a (\<lambda>r. r\<lparr>o_qty := o_qty r - f\<rparr>) b) b'
   \<and> map_client_id_to_order b' = map_client_id_to_order b
   \<and> sent b' = sent b @ fill_msgs i (ord b a) f (rem - f)
   \<and> next_market_oid b' = next_market_oid b \<and> assigned_ticker b' = assigned_ticker b)"

lemma match_filled:
  shows "\<exists>b'. filled i a rem b b' \<and>
    match (in_ticker i) (in_client i) (in_side i) (in_oid i) (in_moid i) a rem b =
      (let f = min rem (o_qty (ord b a)) in
       if o_qty (ord b a) - f = 0 then bindR (remove_order_from_book b' a) (\<lambda>b''. Inr (rem - f, b''))
       else Inr (rem - f, b'))"
proof -
  let ?f = "min rem (o_qty (ord b a))"
  define b1 where "b1 = set_order a (\<lambda>r. r\<lparr>o_qty := o_qty r - ?f\<rparr>) b"
  define b2 where "b2 = send_response (b1\<lparr>client_response :=
    mk_response RES_FILLED (in_client i) (in_ticker i) (in_oid i) (in_moid i) (in_side i) (o_price (ord b1 a)) ?f (rem - ?f)\<rparr>)"
  define b3 where "b3 = send_response (b2\<lparr>client_response :=
    mk_response RES_FILLED (o_client (ord b1 a)) (in_ticker i) (o_client_oid (ord b1 a)) (o_market_oid (ord b1 a))
      (o_side (ord b1 a)) (o_price (ord b1 a)) ?f (o_qty (ord b1 a))\<rparr>)"
  define b4 where "b4 = send_update (b3\<lparr>market_update :=
    mk_update UPD_TRADE OrderID_INVALID (in_ticker i) (in_side i) (o_price (ord b1 a)) ?f Priority_INVALID\<rparr>)"
  define u where "u = (if o_qty (ord b1 a) = 0
    then mk_update UPD_CANCEL (o_market_oid (ord b1 a)) (in_ticker i) (o_side (ord b1 a)) (o_price (ord b1 a))
           (o_qty (ord b a)) Priority_INVALID
    else mk_update UPD_MODIFY (o_market_oid (ord b1 a)) (in_ticker i) (o_side (ord b1 a)) (o_price (ord b1 a))
           (o_qty (ord b1 a)) (o_priority (ord b1 a)))"
  define b5 where "b5 = send_update (b4\<lparr>market_update := u\<rparr>)"
  note bs = b2_def b3_def b4_def b5_def send_response_def send_update_def
  have r1: "ord b1 a = (ord b a)\<lparr>o_qty := o_qty (ord b a) - ?f\<rparr>" by (simp add: b1_def book_simps)
  have "same_core b1 b5"
    by (simp add: bs same_core_def level_book.truncate_def)
  moreover have "map_client_id_to_order b5 = map_client_id_to_order b1" "sent b5 = sent b1 @
      [Resp (mk_response RES_FILLED (in_client i) (in_ticker i) (in_oid i) (in_moid i) (in_side i) (o_price (ord b1 a)) ?f (rem - ?f)),
       Resp (mk_response RES_FILLED (o_client (ord b1 a)) (in_ticker i) (o_client_oid (ord b1 a)) (o_market_oid (ord b1 a))
         (o_side (ord b1 a)) (o_price (ord b1 a)) ?f (o_qty (ord b1 a))),
       Upd (mk_update UPD_TRADE OrderID_INVALID (in_ticker i) (in_side i) (o_price (ord b1 a)) ?f Priority_INVALID), Upd u]"
    "next_market_oid b5 = next_market_oid b1" "assigned_ticker b5 = assigned_ticker b1"
    by (simp_all add: bs)
  moreover have "level_book.more b1 = level_book.more b" by (simp add: b1_def more_writes)
  note same_more [OF this]
  ultimately have "filled i a rem b b5"
    by (simp add: filled_def Let_def b1_def [symmetric] r1 u_def fill_msgs_def)
  moreover have "match (in_ticker i) (in_client i) (in_side i) (in_oid i) (in_moid i) a rem b =
      (if o_qty (ord b1 a) = 0 then bindR (remove_order_from_book b5 a) (\<lambda>b''. Inr (rem - ?f, b''))
       else Inr (rem - ?f, b5))"
    unfolding b5_def u_def b4_def b3_def b2_def b1_def by (simp add: match_def Let_def)
  ultimately show ?thesis by (intro exI [of _ b5]) (simp add: r1 Let_def)
qed

lemma match_ok:
  assumes ok: "ome_ok b G" and sd: "is_side (in_side i)" and q: "queue (G (opposite (in_side i))) = a # as"
    and f: "f = min rem (o_qty (ord b a))"
  shows "\<exists>b' G'. match (in_ticker i) (in_client i) (in_side i) (in_oid i) (in_moid i) a rem b = Inr (rem - f, b')
    \<and> ome_ok b' G' \<and> sent b' = sent b @ fill_msgs i (odata (ord b a)) f (rem - f)
    \<and> next_market_oid b' = next_market_oid b \<and> assigned_ticker b' = assigned_ticker b
    \<and> side_view b' G' (in_side i) = side_view b G (in_side i)
    \<and> side_view b' G' (opposite (in_side i)) =
        (if o_qty (ord b a) - f = 0 then [] else [odata ((ord b a)\<lparr>o_qty := o_qty (ord b a) - f\<rparr>)])
          @ map (\<lambda>c. odata (ord b c)) as"
proof -
  let ?sd = "in_side i" and ?op = "opposite (in_side i)"
  have bok: "book_ok b G {} {}" using ok by (simp add: ome_ok_def)
  obtain b1 where b1: "filled i a rem b b1" and run:
    "match (in_ticker i) (in_client i) (in_side i) (in_oid i) (in_moid i) a rem b =
      (if o_qty (ord b a) - f = 0 then bindR (remove_order_from_book b1 a) (\<lambda>b''. Inr (rem - f, b''))
       else Inr (rem - f, b1))"
    using match_filled [of i a rem b] f by (auto simp: Let_def)
  let ?b0 = "set_order a (\<lambda>r. r\<lparr>o_qty := o_qty r - f\<rparr>) b"
  have core: "same_core ?b0 b1" and rest1: "map_client_id_to_order b1 = map_client_id_to_order b"
    "next_market_oid b1 = next_market_oid b" "assigned_ticker b1 = assigned_ticker b"
    "sent b1 = sent b @ fill_msgs i (ord b a) f (rem - f)"
    using b1 f by (simp_all add: filled_def Let_def)
  have "map_client_id_to_order ?b0 = map_client_id_to_order b"
    by (rule same_more(1)) (simp add: more_writes)
  then have ok1: "ome_ok b1 G"
    using same_core_ome_ok [OF core] rest1(1) set_qty_ome_ok [of a _ b G] ok by simp
  have ord1: "ord b1 c = (if c = a then (ord b a)\<lparr>o_qty := o_qty (ord b a) - f\<rparr> else ord b c)" for c
    using same_coreD(7) [OF core] by (simp add: book_simps)
  have dist: "distinct (a # as)" using distinct_queue [OF book_ok_side [OF bok is_side_opposite]] q by metis
  have aop: "a \<in> orders_of (G ?op)" using q set_queue [of "G ?op"] by (metis list.set_intros(1))
  then have asd: "a \<notin> set (queue (G ?sd))"
    using sides_disjoint(2) [OF book_ok_side [OF bok sd] book_ok_side [OF bok is_side_opposite]] by auto
  have msgs: "fill_msgs i (odata (ord b a)) = fill_msgs i (ord b a)"
    by (simp add: fill_msgs_def odata_def fun_eq_iff)
  have same_sd: "map (\<lambda>c. odata (ord b1 c)) (queue (G ?sd)) = map (\<lambda>c. odata (ord b c)) (queue (G ?sd))"
    using asd by (intro map_cong) (auto simp: ord1 simp del: set_queue)
  have same_as: "map (\<lambda>c. odata (ord b1 c)) as = map (\<lambda>c. odata (ord b c)) as"
    using dist by (intro map_cong) (auto simp: ord1)
  show ?thesis
  proof (cases "o_qty (ord b a) - f = 0")
    case True
    obtain b' G' where b': "remove_order_from_book b1 a = Inr b'" "ome_ok b' G'" "book_rest b1 b'"
      "\<And>s. is_side s \<Longrightarrow> queue (G' s) = filter (\<lambda>c. c \<noteq> a) (queue (G s))"
      using remove_order_ok [OF ok1 is_side_opposite aop] by blast
    have d: "odata (ord b' c) = odata (ord b1 c)" for c using b'(3) by (simp add: book_rest_def)
    have "side_view b' G' ?sd = side_view b G ?sd"
      using b'(4) [OF sd] asd same_sd by (simp add: side_view_def d)
    moreover have "side_view b' G' ?op = map (\<lambda>c. odata (ord b c)) as"
      using b'(4) [OF is_side_opposite] q dist same_as by (simp add: side_view_def d)
    ultimately show ?thesis
      using True run b' rest1 msgs by (intro exI [of _ b'] exI [of _ G']) (simp add: book_rest_def)
  next
    case False
    then have "side_view b1 G ?op = odata ((ord b a)\<lparr>o_qty := o_qty (ord b a) - f\<rparr>) # map (\<lambda>c. odata (ord b c)) as"
      using q same_as by (simp add: side_view_def ord1)
    then show ?thesis
      using False run ok1 rest1 msgs same_sd
      by (intro exI [of _ b1] exI [of _ G]) (simp add: side_view_def)
  qed
qed

lemma match_loop_stop:
  assumes "rem = 0 \<or> best_levels (opposite sd) b = None"
  shows "match_loop fuel tk c sd coid moid p rem b = Inr (rem, b)"
  using assms by (subst match_loop.simps) (auto split: option.split)

text \<open>The loop ends at an order it cannot trade with, and otherwise takes the first one.\<close>

lemma match_loop_halt:
  assumes ok: "ome_ok b G" and sd: "is_side (in_side i)"
    and stop: "case queue (G (opposite (in_side i))) of [] \<Rightarrow> True
      | a # as \<Rightarrow> rem = 0 \<or> worse (in_side i) (in_price i) (o_price (ord b a))"
  shows "match_loop fuel (in_ticker i) (in_client i) (in_side i) (in_oid i) (in_moid i) (in_price i) rem b = Inr (rem, b)"
    and "match_spec i rem (side_view b G (opposite (in_side i))) = (rem, side_view b G (opposite (in_side i)), [])"
proof -
  let ?op = "opposite (in_side i)"
  have bok: "book_ok b G {} {}" using ok by (simp add: ome_ok_def)
  show "match_spec i rem (side_view b G ?op) = (rem, side_view b G ?op, [])"
    using stop by (cases "queue (G ?op)") (auto simp: side_view_def)
  show "match_loop fuel (in_ticker i) (in_client i) (in_side i) (in_oid i) (in_moid i) (in_price i) rem b = Inr (rem, b)"
  proof (cases "queue (G ?op)")
    case Nil
    then show ?thesis using best_order(1) [OF bok is_side_opposite] by (metis match_loop_stop)
  next
    case (Cons a as)
    obtain l where "best_levels ?op b = Some l" "l_order_0 (lev b l) = Some a"
      using best_order(2) [OF bok is_side_opposite Cons] by blast
    then show ?thesis using stop Cons by (subst match_loop.simps) auto
  qed
qed

lemma match_loop_step:
  assumes ok: "ome_ok b G" and sd: "is_side (in_side i)" and qa: "queue (G (opposite (in_side i))) = a # as"
    and go: "rem \<noteq> 0" "\<not> worse (in_side i) (in_price i) (o_price (ord b a))" and f: "f = min rem (o_qty (ord b a))"
  obtains b' G' where
    "match_loop (Suc fl) (in_ticker i) (in_client i) (in_side i) (in_oid i) (in_moid i) (in_price i) rem b
      = match_loop fl (in_ticker i) (in_client i) (in_side i) (in_oid i) (in_moid i) (in_price i) (rem - f) b'"
    "ome_ok b' G'" "sent b' = sent b @ fill_msgs i (odata (ord b a)) f (rem - f)"
    "next_market_oid b' = next_market_oid b" "assigned_ticker b' = assigned_ticker b"
    "side_view b' G' (in_side i) = side_view b G (in_side i)"
    "side_view b' G' (opposite (in_side i)) =
        (if o_qty (ord b a) - f = 0 then [] else [odata ((ord b a)\<lparr>o_qty := o_qty (ord b a) - f\<rparr>)])
          @ map (\<lambda>c. odata (ord b c)) as"
proof -
  have bok: "book_ok b G {} {}" using ok by (simp add: ome_ok_def)
  then obtain l where l: "best_levels (opposite (in_side i)) b = Some l" "l_order_0 (lev b l) = Some a"
    using best_order(2) [OF bok is_side_opposite qa] by blast
  obtain b' G' where b': "match (in_ticker i) (in_client i) (in_side i) (in_oid i) (in_moid i) a rem b = Inr (rem - f, b')"
    "ome_ok b' G'" "sent b' = sent b @ fill_msgs i (odata (ord b a)) f (rem - f)"
    "next_market_oid b' = next_market_oid b" "assigned_ticker b' = assigned_ticker b"
    "side_view b' G' (in_side i) = side_view b G (in_side i)"
    "side_view b' G' (opposite (in_side i)) =
        (if o_qty (ord b a) - f = 0 then [] else [odata ((ord b a)\<lparr>o_qty := o_qty (ord b a) - f\<rparr>)])
          @ map (\<lambda>c. odata (ord b c)) as"
    using match_ok [OF ok sd qa f] by blast
  show thesis
    by (rule that [OF _ b'(2-)]) (use l go b'(1) in \<open>subst match_loop.simps; simp\<close>)
qed

lemma match_loop_ok:
  assumes "ome_ok b G" "is_side (in_side i)" "length (queue (G (opposite (in_side i)))) \<le> fuel"
    and "match_spec i rem (side_view b G (opposite (in_side i))) = (rem', opp', ms)"
  shows "\<exists>b' G'. match_loop fuel (in_ticker i) (in_client i) (in_side i) (in_oid i) (in_moid i) (in_price i) rem b
      = Inr (rem', b')
    \<and> ome_ok b' G' \<and> sent b' = sent b @ ms
    \<and> next_market_oid b' = next_market_oid b \<and> assigned_ticker b' = assigned_ticker b
    \<and> side_view b' G' (in_side i) = side_view b G (in_side i) \<and> side_view b' G' (opposite (in_side i)) = opp'"
  using assms(1,3,4)
proof (induction fuel arbitrary: b G rem rem' opp' ms)
  case 0
  then have "queue (G (opposite (in_side i))) = []" by simp
  then show ?case
    using 0 match_loop_halt [OF 0(1) assms(2)] by (intro exI [of _ b] exI [of _ G]) simp
next
  case (Suc fl)
  let ?op = "opposite (in_side i)"
  show ?case
  proof (cases "case queue (G ?op) of [] \<Rightarrow> True
      | a # as \<Rightarrow> rem = 0 \<or> worse (in_side i) (in_price i) (o_price (ord b a))")
    case True
    then show ?thesis
      using Suc.prems match_loop_halt [OF Suc.prems(1) assms(2) True]
      by (intro exI [of _ b] exI [of _ G]) simp
  next
    case False
    then obtain a as where qa: "queue (G ?op) = a # as" and go: "rem \<noteq> 0" "\<not> worse (in_side i) (in_price i) (o_price (ord b a))"
      by (auto split: list.splits)
    let ?f = "min rem (o_qty (ord b a))" and ?r = "odata (ord b a)" and ?as = "map (\<lambda>c. odata (ord b c)) as"
    obtain b1 G1 where run: "match_loop (Suc fl) (in_ticker i) (in_client i) (in_side i) (in_oid i) (in_moid i) (in_price i) rem b
        = match_loop fl (in_ticker i) (in_client i) (in_side i) (in_oid i) (in_moid i) (in_price i) (rem - ?f) b1"
      and b1: "ome_ok b1 G1" "sent b1 = sent b @ fill_msgs i ?r ?f (rem - ?f)"
      "next_market_oid b1 = next_market_oid b" "assigned_ticker b1 = assigned_ticker b"
      "side_view b1 G1 (in_side i) = side_view b G (in_side i)"
      "side_view b1 G1 ?op = (if o_qty (ord b a) - ?f = 0 then [] else [odata ((ord b a)\<lparr>o_qty := o_qty (ord b a) - ?f\<rparr>)]) @ ?as"
      using match_loop_step [OF Suc.prems(1) assms(2) qa go refl, of fl] by blast
    have view: "side_view b G ?op = ?r # ?as" using qa by (simp add: side_view_def)
    show ?thesis
    proof (cases "o_qty (ord b a) - ?f = 0")
      case True
      obtain ms1 where ms1: "match_spec i (rem - ?f) ?as = (rem', opp', ms1)" "ms = fill_msgs i ?r ?f (rem - ?f) @ ms1"
        using Suc.prems(3) go True view by (auto simp: Let_def split: prod.splits)
      have v1: "side_view b1 G1 ?op = ?as" using b1(6) True by simp
      then have "length (queue (G1 ?op)) = length as" by (metis length_map side_view_def)
      then have len: "length (queue (G1 ?op)) \<le> fl" using Suc.prems(2) qa by simp
      show ?thesis using Suc.IH [OF b1(1) len ms1(1) [folded v1]] run b1(2-5) ms1(2) by auto
    next
      case False
      then have "?f = rem" by (metis diff_self min_def)
      then have z: "rem - ?f = 0" by simp
      then have "rem' = rem - ?f" "ms = fill_msgs i ?r ?f (rem - ?f)" "opp' = side_view b1 G1 ?op"
        using Suc.prems(3) go False view b1(6) by (auto simp: Let_def odata_def)
      then show ?thesis using run b1 z by (intro exI [of _ b1] exI [of _ G1]) (simp add: match_loop_stop)
    qed
  qed
qed

text \<open>The fuel of \<open>find_match\<close> is the size of the order pool.\<close>

lemma queue_within_pool:
  assumes "book_ok b G {} {}" "is_side s"
  shows "length (queue (G s)) \<le> n_blocks (order_pool b)"
proof -
  have "length (queue (G s)) = card (orders_of (G s))"
    using distinct_queue [OF book_ok_side [OF assms]] distinct_card by (metis set_queue)
  also have "\<dots> \<le> card (used (order_pool b))"
    using assms(1) all_orders_side [OF assms(2), of G] by (intro card_mono) (auto simp: book_ok_def)
  also have "\<dots> \<le> n_blocks (order_pool b)"
    using assms(1) pool_card [of "order_pool b"] by (simp add: book_ok_def)
  finally show ?thesis .
qed

lemma find_match_ok:
  assumes ok: "ome_ok b G" and sd: "is_side (in_side i)"
    and m: "match_spec i q (side_view b G (opposite (in_side i))) = (rem, opp, ms)"
  shows "\<exists>b' G'. find_match (in_client i) (in_oid i) (in_ticker i) (in_side i) (in_price i) q (in_moid i) b = Inr (rem, b')
    \<and> ome_ok b' G' \<and> sent b' = sent b @ ms
    \<and> next_market_oid b' = next_market_oid b \<and> assigned_ticker b' = assigned_ticker b
    \<and> side_view b' G' (in_side i) = side_view b G (in_side i) \<and> side_view b' G' (opposite (in_side i)) = opp"
proof -
  have "book_ok b G {} {}" using ok by (simp add: ome_ok_def)
  note fuel = queue_within_pool [OF this is_side_opposite]
  show ?thesis using match_loop_ok [OF ok sd fuel m] sd unfolding find_match_def is_side_def by auto
qed

subsection \<open>Priorities\<close>

lemma price_level:
  assumes bok: "book_ok b G X Y" and sd: "is_side sd"
    and slot: "\<forall>c \<in> all_orders G. price_to_index (o_price (ord b c)) = price_to_index p
        \<longrightarrow> o_side (ord b c) = sd \<and> o_price (ord b c) = p"
  shows "get_level_for_price b p = None \<and> (\<forall>c \<in> set (queue (G sd)). o_price (ord b c) \<noteq> p)
    \<or> (\<exists>l os L1 L2. get_level_for_price b p = Some l \<and> G sd = L1 @ (l, os) # L2 \<and> lpr b l = p)"
proof (cases "get_level_for_price b p")
  case None
  have "o_price (ord b c) \<noteq> p" if "c \<in> set (queue (G sd))" for c
  proof
    assume p: "o_price (ord b c) = p"
    have "c \<in> orders_of (G sd)" using that by simp
    then obtain l where l: "l \<in> levels_of (G sd)" "lpr b l = o_price (ord b c)"
      by (rule order_has_level [OF book_ok_side [OF bok sd]])
    then have "get_level_for_price b (lpr b l) = Some l"
      using bok all_levels_side [OF sd, of G] by (intro table_ok_lookup [of b "all_levels G"]) (auto simp: book_ok_def)
    then show False using None l(2) p by simp
  qed
  then show ?thesis using None by blast
next
  case (Some l)
  then have l: "l \<in> all_levels G" "price_to_index (lpr b l) = price_to_index p"
    using bok by (auto simp: book_ok_def table_ok_def get_level_for_price_def)
  then obtain s where s: "is_side s" "l \<in> levels_of (G s)" using l(1) all_levels_side [OF sd, of G] sd is_side_opposite by (metis Un_iff)
  obtain c where c: "c \<in> orders_of (G s)" "o_price (ord b c) = lpr b l" "o_side (ord b c) = s"
    using level_has_order [OF book_ok_side [OF bok s(1)] s(2)] by blast
  have "c \<in> all_orders G" using c(1) all_orders_side [OF s(1), of G] by simp
  then have "s = sd" "lpr b l = p" using slot c l(2) by auto
  moreover obtain os where "(l, os) \<in> set (G s)" using s(2) by (auto simp: levels_of_def)
  then obtain L1 L2 where "G s = L1 @ (l, os) # L2" by (meson split_list)
  ultimately show ?thesis using Some by blast
qed

lemma next_priority_ok:
  assumes bok: "book_ok b G X Y" and sd: "is_side sd"
    and slot: "\<forall>c \<in> all_orders G. price_to_index (o_price (ord b c)) = price_to_index p
        \<longrightarrow> o_side (ord b c) = sd \<and> o_price (ord b c) = p"
  shows "get_next_priority b p = Inr (next_priority_spec p (side_view b G sd))"
  using price_level [OF bok sd slot]
proof (elim disjE conjE exE)
  assume "get_level_for_price b p = None" and np: "\<forall>c \<in> set (queue (G sd)). o_price (ord b c) \<noteq> p"
  moreover have "filter (\<lambda>r. o_price r = p) (side_view b G sd) = []"
    using np by (auto simp: side_view_def filter_empty_conv)
  ultimately show ?thesis by (simp add: get_next_priority_def next_priority_spec_def)
next
  fix l os L1 L2
  assume look: "get_level_for_price b p = Some l" and G: "G sd = L1 @ (l, os) # L2" and p: "lpr b l = p"
  have sok: "side_ok b sd (L1 @ (l, os) # L2)" using book_ok_side [OF bok sd] G by simp
  note split = side_ok_split [OF sok]
  have lv: "level_ok b sd (l, os)" using sok by (simp add: side_ok_def)
  have srt: "\<And>e. e \<in> set L1 \<union> set L2 \<Longrightarrow> lpr b (fst e) \<noteq> p"
    using sok p worse_irrefl by (fastforce simp: side_ok_def sorted_wrt_append)
  have off: "o_price (ord b c) \<noteq> p" if c: "c \<in> set (queue L1) \<union> set (queue L2)" for c
  proof -
    obtain e where e: "e \<in> set L1 \<union> set L2" "c \<in> set (snd e)"
      using c by (auto simp: orders_of_def)
    then have "o_price (ord b c) = lpr b (fst e)" by (intro side_ok_order_price [OF sok]) auto
    then show ?thesis using srt [OF e(1)] by simp
  qed
  have "filter (\<lambda>c. o_price (ord b c) = p) (queue L1) = []" "filter (\<lambda>c. o_price (ord b c) = p) (queue L2) = []"
    using off by (auto simp: filter_empty_conv)
  moreover have "filter (\<lambda>c. o_price (ord b c) = p) os = os"
    using lv p by (auto simp: level_ok_def order_ok_def)
  ultimately have "filter (\<lambda>r. o_price r = p) (side_view b G sd) = map (\<lambda>c. odata (ord b c)) os"
    by (simp add: side_view_def G filter_map comp_def)
  moreover have "o_prev (ord b (hd os)) = Some (last os)" "l_order_0 (lev b l) = Some (hd os)"
    using split(5) lv by (simp_all add: dring_iff opv_def level_ok_def)
  moreover obtain f fs where os: "os = f # fs" using split(4) by (cases os) auto
  ultimately show ?thesis
    using look by (simp add: get_next_priority_def next_priority_spec_def os last_map)
qed

subsection \<open>\<open>add\<close>\<close>

definition represents :: "ome_book \<Rightarrow> book_view \<Rightarrow> bool" where
  "represents b A \<longleftrightarrow> (\<exists>G. ome_ok b G \<and> (\<forall>s. is_side s \<longrightarrow> A s = side_view b G s))"

lemma resting_orders:
  assumes "\<forall>s. is_side s \<longrightarrow> A s = side_view b G s"
  shows "set (all_resting A) = (\<lambda>c. odata (ord b c)) ` all_orders G"
    and "view_prices A = prices_of b G"
  using assms
  by (simp_all add: all_resting_def view_prices_def prices_of_def side_view_def all_orders_def image_Un image_image)

lemma resting_length:
  assumes "book_ok b G X Y" "\<forall>s. is_side s \<longrightarrow> A s = side_view b G s"
  shows "length (all_resting A) = card (all_orders G)"
proof -
  have "length (queue (G s)) = card (orders_of (G s))" if "is_side s" for s
    using distinct_queue [OF book_ok_side [OF assms(1) that]] distinct_card by (metis set_queue)
  moreover have "orders_of (G BUY) \<inter> orders_of (G SELL) = {}"
    using sides_disjoint(2) [OF book_ok_side [OF assms(1), of BUY] book_ok_side [OF assms(1), of "opposite BUY"]] by simp
  ultimately show ?thesis
    using assms(2) by (simp add: all_resting_def side_view_def all_orders_def card_Un_disjoint flip: set_queue)
qed

lemma view_prioritised:
  assumes "book_ok b G X Y" "is_side s"
  shows "prioritised s (side_view b G s)"
  using queue_sorted [OF book_ok_side [OF assms]]
  by (simp add: prioritised_def side_view_def sorted_wrt_map)

text \<open>The state of the book once the order has matched, and the limits there.\<close>

lemma add_room:
  assumes ok: "ome_ok b G" and acc: "accepts A i" and A: "\<forall>s. is_side s \<longrightarrow> A s = side_view b G s"
    and m: "match_spec i q (A (opposite (in_side i))) = (rem, opp, ms)" and rem: "rem \<noteq> 0"
    and ok3: "ome_ok b3 G3" and A3: "\<forall>s. is_side s \<longrightarrow> (A(opposite (in_side i) := opp)) s = side_view b3 G3 s"
  shows "\<And>c. c \<in> all_orders G3 \<Longrightarrow> \<not> (o_client (ord b3 c) = in_client i \<and> o_client_oid (ord b3 c) = in_oid i)"
    and "in_price i \<notin> prices_of b3 G3 \<Longrightarrow> Suc (card (prices_of b3 G3)) < MAX_PRICE_LEVELS"
    and "\<forall>c \<in> all_orders G3. price_to_index (o_price (ord b3 c)) = price_to_index (in_price i) \<longrightarrow>
        o_side (ord b3 c) = in_side i \<and> o_price (ord b3 c) = in_price i"
    and "Suc (card (all_orders G3)) < MAX_ORDER_IDS"
proof -
  let ?sd = "in_side i" and ?A3 = "A(opposite (in_side i) := opp)"
  have sd: "is_side ?sd" using acc by (simp add: accepts_def)
  have bok: "book_ok b G {} {}" and bok3: "book_ok b3 G3 {} {}" using ok ok3 by (simp_all add: ome_ok_def)
  have data3: "odata (ord b3 c) \<in> set (all_resting ?A3)" if "c \<in> all_orders G3" for c
    using that resting_orders(1) [OF A3] by blast
  show "\<not> (o_client (ord b3 c) = in_client i \<and> o_client_oid (ord b3 c) = in_oid i)" if "c \<in> all_orders G3" for c
    using match_keeps_ids [OF acc m data3 [OF that]] by (simp add: is_order_of_def odata_def)
  have "card (view_prices A) < MAX_PRICE_LEVELS"
    using pool_card [of "orders_at_price_pool b"] ok card_levels [OF bok] resting_orders(2) [OF A]
    by (simp add: ome_ok_def book_ok_def)
  then show "Suc (card (prices_of b3 G3)) < MAX_PRICE_LEVELS" if "in_price i \<notin> prices_of b3 G3"
    using match_keeps_levels [OF acc m] that unfolding resting_orders(2) [OF A3] by blast
  have prio: "prioritised (opposite ?sd) (A (opposite ?sd))"
    using view_prioritised [OF bok is_side_opposite, of ?sd] A by simp
  have side: "o_side r = ?sd" if r: "r \<in> set (A ?sd)" for r
  proof -
    obtain c where "c \<in> orders_of (G ?sd)" "r = odata (ord b c)" using r A sd by (auto simp: side_view_def)
    then show ?thesis using side_ok_order [OF book_ok_side [OF bok sd]] by simp
  qed
  show "\<forall>c \<in> all_orders G3. price_to_index (o_price (ord b3 c)) = price_to_index (in_price i) \<longrightarrow>
        o_side (ord b3 c) = ?sd \<and> o_price (ord b3 c) = in_price i"
    using match_clears_slot [OF acc m rem prio data3] side by fastforce
  show "Suc (card (all_orders G3)) < MAX_ORDER_IDS"
    using match_keeps_length [OF acc m] resting_length [OF bok3 A3] by simp
qed

text \<open>Allocation of the new order, still outside the book.\<close>

lemma alloc_order_ok:
  assumes ok: "ome_ok b G" and room: "Suc (card (all_orders G)) < MAX_ORDER_IDS"
  shows "\<exists>a op. allocate (order_pool b) r = Inr (a, op) \<and> a \<notin> all_orders G
    \<and> book_ok (b\<lparr>order_pool := op\<rparr>) G {a} {} \<and> clients_ok (b\<lparr>order_pool := op\<rparr>) (all_orders G)
    \<and> ord (b\<lparr>order_pool := op\<rparr>) = (ord b)(a := r) \<and> n_blocks op = MAX_ORDER_IDS"
proof -
  have bok: "book_ok b G {} {}" and "Suc (card (all_orders G)) < n_blocks (order_pool b)"
    using ok room by (simp_all add: ome_ok_def)
  then obtain a op where op: "allocate (order_pool b) r = Inr (a, op)" "a \<notin> all_orders G"
    "book_ok (b\<lparr>order_pool := op\<rparr>) G {a} {}" "ord (b\<lparr>order_pool := op\<rparr>) = (ord b)(a := r)"
    "n_blocks op = n_blocks (order_pool b)" by (rule alloc_order)
  moreover from this have "clients_ok (b\<lparr>order_pool := op\<rparr>) (all_orders G)"
    using ok by (auto simp: ome_ok_def clients_ok_def)
  ultimately show ?thesis using ok by (auto simp: ome_ok_def)
qed

lemma add_rest_ok:
  assumes ok: "ome_ok b G" and sd: "is_side (in_side i)" and rng: "in_range (in_client i) (in_oid i)"
    and fresh: "\<And>c. c \<in> all_orders G \<Longrightarrow> \<not> (o_client (ord b c) = in_client i \<and> o_client_oid (ord b c) = in_oid i)"
    and room: "in_price i \<notin> prices_of b G \<Longrightarrow> Suc (card (prices_of b G)) < MAX_PRICE_LEVELS"
    and slot: "\<forall>c \<in> all_orders G. price_to_index (o_price (ord b c)) = price_to_index (in_price i) \<longrightarrow>
        o_side (ord b c) = in_side i \<and> o_price (ord b c) = in_price i"
    and space: "Suc (card (all_orders G)) < MAX_ORDER_IDS"
    and r: "r = new_order_spec i rem pr"
  shows "\<exists>a op b' G'. allocate (order_pool b) r = Inr (a, op)
    \<and> add_order_to_book (b\<lparr>order_pool := op\<rparr>) a = Inr b' \<and> ome_ok b' G'
    \<and> sent b' = sent b \<and> next_market_oid b' = next_market_oid b \<and> assigned_ticker b' = assigned_ticker b
    \<and> side_view b' G' (in_side i) = insert_prio (in_side i) o_price (in_price i) r (side_view b G (in_side i))
    \<and> (\<forall>s. is_side s \<longrightarrow> s \<noteq> in_side i \<longrightarrow> side_view b' G' s = side_view b G s)"
proof -
  let ?sd = "in_side i" and ?p = "in_price i"
  obtain a op where a: "allocate (order_pool b) r = Inr (a, op)" "a \<notin> all_orders G"
    "book_ok (b\<lparr>order_pool := op\<rparr>) G {a} {}" "clients_ok (b\<lparr>order_pool := op\<rparr>) (all_orders G)"
    "ord (b\<lparr>order_pool := op\<rparr>) = (ord b)(a := r)" "n_blocks op = MAX_ORDER_IDS"
    using alloc_order_ok [OF ok space] by blast
  let ?b = "b\<lparr>order_pool := op\<rparr>"
  have fields: "o_side r = ?sd" "o_price r = ?p" "o_client r = in_client i" "o_client_oid r = in_oid i"
    "odata r = r"
    by (simp_all add: r new_order_spec_def odata_def)
  have ne: "c \<noteq> a" if "c \<in> all_orders G" for c using that a(2) by auto
  have pr: "prices_of ?b G = prices_of b G" by (auto simp: prices_of_def a(5) ne)
  have "\<exists>b' G'. add_order_to_book ?b a = Inr b' \<and> ome_ok b' G' \<and> book_rest ?b b'
    \<and> queue (G' ?sd) = insert_prio ?sd (\<lambda>c. o_price (ord ?b c)) (o_price (ord ?b a)) a (queue (G ?sd))
    \<and> (\<forall>s. s \<noteq> ?sd \<longrightarrow> queue (G' s) = queue (G s))"
  proof (rule add_order_ok [OF a(3,4)])
    show "o_price (ord ?b a) \<notin> prices_of ?b G \<Longrightarrow> Suc (card (prices_of ?b G)) < MAX_PRICE_LEVELS"
      using room pr fields by (simp add: a(5))
  qed (use a fields fresh slot ne sd rng ok in \<open>auto simp: ome_ok_def\<close>)
  then obtain b' G' where b': "add_order_to_book ?b a = Inr b'" "ome_ok b' G'" "book_rest ?b b'"
    "queue (G' ?sd) = insert_prio ?sd (\<lambda>c. o_price (ord ?b c)) (o_price (ord ?b a)) a (queue (G ?sd))"
    "\<And>s. s \<noteq> ?sd \<Longrightarrow> queue (G' s) = queue (G s)" by blast
  have d: "odata (ord b' c) = odata (ord ?b c)" for c using b'(3) by (simp add: book_rest_def)
  have old: "odata (ord b' c) = odata (ord b c)" if "c \<in> set (queue (G s))" "is_side s" for c s
    using that ne all_orders_side [of s G] by (simp add: d a(5))
  have views: "map (\<lambda>c. odata (ord b' c)) (queue (G s)) = side_view b G s" if "is_side s" for s
    unfolding side_view_def by (rule map_cong [OF refl old [OF _ that]])
  have "side_view b' G' ?sd = insert_prio ?sd o_price ?p (odata (ord b' a)) (map (\<lambda>c. odata (ord b' c)) (queue (G ?sd)))"
    unfolding side_view_def b'(4) by (subst map_insert_prio [where g = o_price]) (simp_all add: d a(5) fields)
  also have "\<dots> = insert_prio ?sd o_price ?p r (side_view b G ?sd)"
    using views [OF sd] by (simp add: d a(5) fields)
  finally have "side_view b' G' ?sd = insert_prio ?sd o_price ?p r (side_view b G ?sd)" .
  moreover have "side_view b' G' s = side_view b G s" if "is_side s" "s \<noteq> ?sd" for s
    using views [OF that(1)] b'(5) [OF that(2)] by (simp add: side_view_def)
  moreover have "sent b' = sent b" "next_market_oid b' = next_market_oid b" "assigned_ticker b' = assigned_ticker b"
    using b'(3) by (simp_all add: book_rest_def)
  ultimately show ?thesis using a(1) b'(1,2) by blast
qed

definition add_order :: "incoming \<Rightarrow> qty \<Rightarrow> ome_book \<Rightarrow> ome_book res" where
  "add_order i q b = add (in_client i) (in_oid i) (in_ticker i) (in_side i) (in_price i) q b"

lemma add_accepted:
  assumes "ome_ok b G"
  shows "\<exists>b2. ome_ok b2 G \<and> side_view b2 G = side_view b G \<and> next_market_oid b2 = next_market_oid b + 1
    \<and> assigned_ticker b2 = assigned_ticker b
    \<and> sent b2 = sent b @ [Resp (mk_response RES_ACCEPTED c tk coid (next_market_oid b) sd p 0 q)]
    \<and> add c coid tk sd p q b = bindR (find_match c coid tk sd p q (next_market_oid b) b2) (\<lambda>(rem, b3).
      if rem \<noteq> 0 then
        bindR (get_next_priority b3 p) (\<lambda>priority.
        bindR (allocate (order_pool b3)
                 \<lparr>o_side = sd, o_price = p, o_qty = rem, o_priority = priority, o_prev = None,
                  o_next = None, o_ticker = tk, o_client = c, o_client_oid = coid,
                  o_market_oid = next_market_oid b\<rparr>) (\<lambda>(a, op).
        bindR (add_order_to_book (b3\<lparr>order_pool := op\<rparr>) a) (\<lambda>b4.
        Inr (send_update (b4\<lparr>market_update := mk_update UPD_ADD (next_market_oid b) tk sd p rem priority\<rparr>)))))
      else Inr b3)"
proof -
  define b2 where "b2 = send_response (b\<lparr>next_market_oid := next_market_oid b + 1,
    client_response := mk_response RES_ACCEPTED c tk coid (next_market_oid b) sd p 0 q\<rparr>)"
  have core: "same_core b b2" by (simp add: b2_def send_response_def same_core_def level_book.truncate_def)
  have "ome_ok b2 G" using same_core_ome_ok [OF core] assms by (simp add: b2_def send_response_def)
  moreover have "side_view b2 G = side_view b G"
    using same_coreD(7) [OF core] by (simp add: side_view_def fun_eq_iff)
  ultimately show ?thesis
    by (intro exI [of _ b2]) (simp add: add_def Let_def b2_def send_response_def)
qed

text \<open>The second half of \<open>add\<close>, when some quantity is left after matching.\<close>

lemma add_remainder_ok:
  assumes ok: "ome_ok b G" and sd: "is_side (in_side i)" and rng: "in_range (in_client i) (in_oid i)"
    and lim: "\<And>c. c \<in> all_orders G \<Longrightarrow> \<not> (o_client (ord b c) = in_client i \<and> o_client_oid (ord b c) = in_oid i)"
      "in_price i \<notin> prices_of b G \<Longrightarrow> Suc (card (prices_of b G)) < MAX_PRICE_LEVELS"
      "\<forall>c \<in> all_orders G. price_to_index (o_price (ord b c)) = price_to_index (in_price i) \<longrightarrow>
        o_side (ord b c) = in_side i \<and> o_price (ord b c) = in_price i"
      "Suc (card (all_orders G)) < MAX_ORDER_IDS"
    and pr: "pr = next_priority_spec (in_price i) (side_view b G (in_side i))"
    and u: "u = mk_update UPD_ADD (in_moid i) (in_ticker i) (in_side i) (in_price i) rem pr"
  shows "\<exists>b' G'. bindR (get_next_priority b (in_price i)) (\<lambda>priority.
        bindR (allocate (order_pool b) (new_order_spec i rem priority)) (\<lambda>(a, op).
        bindR (add_order_to_book (b\<lparr>order_pool := op\<rparr>) a) (\<lambda>b4.
        Inr (send_update (b4\<lparr>market_update := mk_update UPD_ADD (in_moid i) (in_ticker i) (in_side i) (in_price i) rem priority\<rparr>)))))
      = Inr b'
    \<and> ome_ok b' G' \<and> sent b' = sent b @ [Upd u] \<and> next_market_oid b' = next_market_oid b \<and> assigned_ticker b' = assigned_ticker b
    \<and> side_view b' G' (in_side i) = insert_prio (in_side i) o_price (in_price i) (new_order_spec i rem pr) (side_view b G (in_side i))
    \<and> (\<forall>s. is_side s \<longrightarrow> s \<noteq> in_side i \<longrightarrow> side_view b' G' s = side_view b G s)"
proof -
  have "book_ok b G {} {}" using ok by (simp add: ome_ok_def)
  then have prio: "get_next_priority b (in_price i) = Inr pr" using next_priority_ok [OF _ sd lim(3)] pr by simp
  obtain a op b4 G4 where b4: "allocate (order_pool b) (new_order_spec i rem pr) = Inr (a, op)"
    "add_order_to_book (b\<lparr>order_pool := op\<rparr>) a = Inr b4" "ome_ok b4 G4"
    "sent b4 = sent b" "next_market_oid b4 = next_market_oid b" "assigned_ticker b4 = assigned_ticker b"
    "side_view b4 G4 (in_side i) = insert_prio (in_side i) o_price (in_price i) (new_order_spec i rem pr) (side_view b G (in_side i))"
    "\<And>s. is_side s \<Longrightarrow> s \<noteq> in_side i \<Longrightarrow> side_view b4 G4 s = side_view b G s"
    using add_rest_ok [OF ok sd rng lim refl] by blast
  let ?b5 = "send_update (b4\<lparr>market_update := u\<rparr>)"
  have core: "same_core b4 ?b5" by (simp add: send_update_def same_core_def level_book.truncate_def)
  have "ome_ok ?b5 G4" using same_core_ome_ok [OF core] b4(3) by (simp add: send_update_def)
  moreover have "side_view ?b5 G4 = side_view b4 G4"
    using same_coreD(7) [OF core] by (simp add: side_view_def fun_eq_iff)
  ultimately show ?thesis
    using prio b4 u by (intro exI [of _ ?b5] exI [of _ G4]) (simp add: send_update_def)
qed

text \<open>The code of \<open>add\<close> does what \<open>add_spec\<close> says whenever the limits allow it.\<close>

lemma add_ok:
  assumes rep: "represents b A" and acc: "accepts A i" and moid: "in_moid i = next_market_oid b"
  shows "\<exists>b'. add_order i q b = Inr b' \<and> represents b' (fst (add_spec i q A))
    \<and> sent b' = sent b @ snd (add_spec i q A) \<and> next_market_oid b' = next_market_oid b + 1
    \<and> assigned_ticker b' = assigned_ticker b"
proof -
  let ?sd = "in_side i" and ?op = "opposite (in_side i)" and ?p = "in_price i"
  have sd: "is_side ?sd" and rng: "in_range (in_client i) (in_oid i)" using acc by (simp_all add: accepts_def)
  obtain G where ok: "ome_ok b G" and A: "\<forall>s. is_side s \<longrightarrow> A s = side_view b G s"
    using rep by (auto simp: represents_def)
  let ?acc = "mk_response RES_ACCEPTED (in_client i) (in_ticker i) (in_oid i) (in_moid i) ?sd ?p 0 q"
  obtain b2 where ok2: "ome_ok b2 G" and b2: "side_view b2 G = side_view b G"
    "next_market_oid b2 = next_market_oid b + 1" "assigned_ticker b2 = assigned_ticker b"
    "sent b2 = sent b @ [Resp ?acc]" and
    run: "add_order i q b = bindR (find_match (in_client i) (in_oid i) (in_ticker i) ?sd ?p q (in_moid i) b2) (\<lambda>(rem, b3).
      if rem \<noteq> 0 then
        bindR (get_next_priority b3 ?p) (\<lambda>priority.
        bindR (allocate (order_pool b3) (new_order_spec i rem priority)) (\<lambda>(a, op).
        bindR (add_order_to_book (b3\<lparr>order_pool := op\<rparr>) a) (\<lambda>b4.
        Inr (send_update (b4\<lparr>market_update := mk_update UPD_ADD (in_moid i) (in_ticker i) ?sd ?p rem priority\<rparr>)))))
      else Inr b3)"
    using add_accepted [OF ok] unfolding add_order_def new_order_spec_def moid by blast
  obtain rem opp ms where m: "match_spec i q (A ?op) = (rem, opp, ms)" by (cases "match_spec i q (A ?op)")
  have m': "match_spec i q (side_view b2 G ?op) = (rem, opp, ms)" using m A b2(1) by simp
  obtain b3 G3 where b3: "find_match (in_client i) (in_oid i) (in_ticker i) ?sd ?p q (in_moid i) b2 = Inr (rem, b3)"
    "ome_ok b3 G3" "sent b3 = sent b2 @ ms" "next_market_oid b3 = next_market_oid b2"
    "assigned_ticker b3 = assigned_ticker b2"
    "side_view b3 G3 ?sd = side_view b2 G ?sd" "side_view b3 G3 ?op = opp"
    using find_match_ok [OF ok2 sd m'] by blast
  have A3: "(A(?op := opp)) s = side_view b3 G3 s" if "is_side s" for s
    using is_side_cases [OF sd that] A b2(1) b3(6,7) sd by auto
  show ?thesis
  proof (cases "rem = 0")
    case True
    then have "add_order i q b = Inr b3" using run b3(1) by simp
    moreover have "represents b3 (fst (add_spec i q A))"
      using b3(2) A3 m True by (auto simp: represents_def add_spec_def Let_def)
    moreover have "sent b3 = sent b @ snd (add_spec i q A)"
      using b3(3) b2(4) m True by (simp add: add_spec_def Let_def)
    ultimately show ?thesis using b3(4,5) b2(2,3) by auto
  next
    case False
    note lim = add_room [OF ok acc A m False b3(2) allI [OF impI [OF A3]]]
    let ?pr = "next_priority_spec ?p (A ?sd)" and ?u = "mk_update UPD_ADD (in_moid i) (in_ticker i) ?sd ?p rem (next_priority_spec ?p (A ?sd))"
    have view3: "side_view b3 G3 ?sd = A ?sd" using b3(6) b2(1) A sd by simp
    obtain b5 G5 where run5: "add_order i q b = Inr b5" and b5: "ome_ok b5 G5" "sent b5 = sent b3 @ [Upd ?u]"
      "next_market_oid b5 = next_market_oid b3" "assigned_ticker b5 = assigned_ticker b3"
      "side_view b5 G5 ?sd = insert_prio ?sd o_price ?p (new_order_spec i rem ?pr) (A ?sd)"
      "\<And>s. is_side s \<Longrightarrow> s \<noteq> ?sd \<Longrightarrow> side_view b5 G5 s = side_view b3 G3 s"
      using add_remainder_ok [OF b3(2) sd rng lim refl refl, of rem] run b3(1) False unfolding view3 by auto
    have spec: "add_spec i q A = ((A(?op := opp))(?sd := insert_prio ?sd o_price ?p (new_order_spec i rem ?pr) (A ?sd)),
        Resp ?acc # ms @ [Upd ?u])"
      using m False by (simp add: add_spec_def Let_def)
    have "fst (add_spec i q A) s = side_view b5 G5 s" if "is_side s" for s
      using b5(5,6) A3 [OF that] that by (simp add: spec)
    then have "represents b5 (fst (add_spec i q A))" using b5(1) by (auto simp: represents_def)
    moreover have "sent b5 = sent b @ snd (add_spec i q A)" using b5(2) b3(3) b2(4) by (simp add: spec)
    ultimately show ?thesis using run5 b5(3,4) b3(4,5) b2(2,3) by auto
  qed
qed

subsection \<open>\<open>cancel\<close>\<close>

lemma cancel_view:
  assumes cok: "clients_ok b (all_orders G)" and a: "a \<in> all_orders G" and s: "is_side s"
    and c: "o_client (ord b a) = c" "o_client_oid (ord b a) = oid"
  shows "map (\<lambda>x. odata (ord b x)) (filter (\<lambda>x. x \<noteq> a) (queue (G s)))
    = filter (\<lambda>r. \<not> is_order_of c oid r) (side_view b G s)"
proof -
  have "(x \<noteq> a) = (\<not> is_order_of c oid (odata (ord b x)))" if "x \<in> set (queue (G s))" for x
  proof -
    have "x \<in> all_orders G" using that all_orders_side [OF s, of G] by simp
    then show ?thesis
      using clients_unique [OF cok a, of x] c same_order_more(1,2) [of "odata (ord b x)" "ord b x"]
      by (auto simp: is_order_of_def odata_def)
  qed
  then have "filter (\<lambda>x. x \<noteq> a) (queue (G s)) = filter (\<lambda>x. \<not> is_order_of c oid (odata (ord b x))) (queue (G s))"
    by (rule filter_cong [OF refl])
  then show ?thesis by (simp add: side_view_def filter_map comp_def)
qed

text \<open>
  \<open>cancel\<close> returns on every input but one: an order id outside the table with a client id
  inside it, where \<open>.at()\<close> throws (\<open>cancel_out_of_range\<close>).
\<close>

lemma cancel_rejected:
  assumes "ome_ok b G" and A: "\<forall>s. is_side s \<longrightarrow> A s = side_view b G s"
    and "\<not> (in_range c oid \<and> (\<exists>a. map_client_id_to_order b c oid = Some a))"
    and "unat c < MAX_N_CLIENTS \<Longrightarrow> unat oid < MAX_ORDER_IDS"
  shows "find (is_order_of c oid) (all_resting A) = None"
    and "cancel c oid tk b = Inr (send_response (b\<lparr>client_response := mk_response RES_CANCEL_REJECTED c tk oid
      OrderID_INVALID SIDE_INVALID Price_INVALID Qty_INVALID Qty_INVALID\<rparr>))"
proof -
  have cok: "clients_ok b (all_orders G)" using assms(1) by (simp add: ome_ok_def)
  have "\<not> is_order_of c oid r" if "r \<in> set (all_resting A)" for r
  proof
    assume r: "is_order_of c oid r"
    have "r \<in> (\<lambda>c. odata (ord b c)) ` all_orders G" using that resting_orders(1) [OF A] by simp
    then obtain a where a: "a \<in> all_orders G" "r = odata (ord b a)" by auto
    then have "o_client (ord b a) = c" "o_client_oid (ord b a) = oid"
      using r same_order_more(1,2) [of "odata (ord b a)" "ord b a"] by (auto simp: is_order_of_def odata_def)
    then have "in_range c oid" "map_client_id_to_order b c oid = Some a"
      using cok a(1) unfolding clients_ok_def by blast+
    then show False using assms(3) by blast
  qed
  then show "find (is_order_of c oid) (all_resting A) = None" by (simp add: find_None_iff)
  show "cancel c oid tk b = Inr (send_response (b\<lparr>client_response := mk_response RES_CANCEL_REJECTED c tk oid
      OrderID_INVALID SIDE_INVALID Price_INVALID Qty_INVALID Qty_INVALID\<rparr>))"
    using assms(3,4) by (auto simp: cancel_def in_range_def)
qed

lemma cancel_finds:
  assumes ok: "ome_ok b G" and A: "\<forall>s. is_side s \<longrightarrow> A s = side_view b G s"
    and a: "map_client_id_to_order b c oid = Some a" "in_range c oid"
  shows "a \<in> all_orders G" "o_client (ord b a) = c" "o_client_oid (ord b a) = oid"
    "find (is_order_of c oid) (all_resting A) = Some (odata (ord b a))"
proof -
  let ?r = "odata (ord b a)"
  have cok: "clients_ok b (all_orders G)" using ok by (simp add: ome_ok_def)
  then show aG: "a \<in> all_orders G" and ids: "o_client (ord b a) = c" "o_client_oid (ord b a) = oid"
    using a by (auto simp: clients_ok_def)
  have "?r \<in> set (all_resting A)" using aG resting_orders(1) [OF A] by auto
  moreover have is_r: "is_order_of c oid (odata (ord b x)) \<longleftrightarrow> o_client (ord b x) = c \<and> o_client_oid (ord b x) = oid" for x
    by (simp add: is_order_of_def odata_def)
  moreover have "y = ?r" if y: "y \<in> set (all_resting A)" "is_order_of c oid y" for y
  proof -
    have "y \<in> (\<lambda>c. odata (ord b c)) ` all_orders G" using y(1) resting_orders(1) [OF A] by simp
    then obtain x where x: "x \<in> all_orders G" "y = odata (ord b x)" by auto
    then have "x = a" using clients_unique [OF cok aG x(1)] y(2) is_r ids by simp
    then show ?thesis using x(2) by simp
  qed
  ultimately show "find (is_order_of c oid) (all_resting A) = Some ?r"
    using ids by (intro find_unique) blast+
qed

lemma cancel_hit:
  assumes ok: "ome_ok b G" and A: "\<forall>s. is_side s \<longrightarrow> A s = side_view b G s"
    and a: "map_client_id_to_order b c oid = Some a" and rng: "in_range c oid"
  shows "\<exists>b'. cancel c oid tk b = Inr b' \<and> represents b' (fst (cancel_spec c oid tk A))
    \<and> sent b' = sent b @ snd (cancel_spec c oid tk A) \<and> next_market_oid b' = next_market_oid b
    \<and> assigned_ticker b' = assigned_ticker b"
proof -
  have cok: "clients_ok b (all_orders G)" using ok by (simp add: ome_ok_def)
  note hit = cancel_finds [OF ok A a rng]
  note aG = hit(1) and ids = hit(2,3) and found = hit(4) [unfolded all_resting_def]
  obtain sd where sd: "is_side sd" "a \<in> orders_of (G sd)" using aG is_side_simps(1,2) unfolding all_orders_def by blast
  define b2 where "b2 = b\<lparr>client_response := mk_response RES_CANCELLED c tk oid (o_market_oid (ord b a))
                     (o_side (ord b a)) (o_price (ord b a)) Qty_INVALID (o_qty (ord b a)),
    market_update := mk_update UPD_CANCEL (o_market_oid (ord b a)) tk (o_side (ord b a))
                     (o_price (ord b a)) 0 (o_priority (ord b a))\<rparr>"
  have core: "same_core b b2" by (simp add: b2_def same_core_def level_book.truncate_def)
  have ok2: "ome_ok b2 G" using same_core_ome_ok [OF core] ok by (simp add: b2_def)
  obtain b3 G3 where b3: "remove_order_from_book b2 a = Inr b3" "ome_ok b3 G3" "book_rest b2 b3"
    "\<And>s. is_side s \<Longrightarrow> queue (G3 s) = filter (\<lambda>x. x \<noteq> a) (queue (G s))"
    using remove_order_ok [OF ok2 sd] by blast
  have d: "odata (ord b3 x) = odata (ord b x)" for x
    using b3(3) same_coreD(7) [OF core] by (simp add: book_rest_def)
  let ?b = "send_response (send_update b3)"
  have run: "cancel c oid tk b = Inr ?b"
    using rng a b3(1) by (simp add: cancel_def in_range_def Let_def b2_def)
  have core3: "same_core b3 ?b" by (simp add: send_response_def send_update_def same_core_def level_book.truncate_def)
  have "ome_ok ?b G3" using same_core_ome_ok [OF core3] b3(2) by (simp add: send_response_def send_update_def)
  moreover have "side_view ?b G3 s = filter (\<lambda>x. \<not> is_order_of c oid x) (A s)" if s: "is_side s" for s
  proof -
    have "side_view ?b G3 s = map (\<lambda>x. odata (ord b x)) (filter (\<lambda>x. x \<noteq> a) (queue (G s)))"
      using b3(4) [OF s] d same_coreD(7) [OF core3] by (simp add: side_view_def)
    then show ?thesis using cancel_view [OF cok aG s ids] A s by simp
  qed
  ultimately have "represents ?b (fst (cancel_spec c oid tk A))"
    using found by (auto simp: represents_def cancel_spec_def)
  moreover have "sent ?b = sent b @ snd (cancel_spec c oid tk A)"
    using b3(3) found same_order_more(3) [of "odata (ord b a)" "ord b a"]
    by (simp add: cancel_spec_def send_response_def send_update_def book_rest_def b2_def odata_def)
  ultimately show ?thesis
    using run b3(3) by (simp add: book_rest_def b2_def send_response_def send_update_def)
qed

lemma cancel_ok:
  assumes rep: "represents b A" and rng: "unat c < MAX_N_CLIENTS \<Longrightarrow> unat oid < MAX_ORDER_IDS"
  shows "\<exists>b'. cancel c oid tk b = Inr b' \<and> represents b' (fst (cancel_spec c oid tk A))
    \<and> sent b' = sent b @ snd (cancel_spec c oid tk A) \<and> next_market_oid b' = next_market_oid b
    \<and> assigned_ticker b' = assigned_ticker b"
proof -
  obtain G where ok: "ome_ok b G" and A: "\<forall>s. is_side s \<longrightarrow> A s = side_view b G s"
    using rep by (auto simp: represents_def)
  show ?thesis
  proof (cases "in_range c oid \<and> (\<exists>a. map_client_id_to_order b c oid = Some a)")
    case False
    note rej = cancel_rejected [OF ok A False rng]
    let ?b = "send_response (b\<lparr>client_response := mk_response RES_CANCEL_REJECTED c tk oid
      OrderID_INVALID SIDE_INVALID Price_INVALID Qty_INVALID Qty_INVALID\<rparr>)"
    have core: "same_core b ?b" by (simp add: send_response_def same_core_def level_book.truncate_def)
    have "ome_ok ?b G" using same_core_ome_ok [OF core] ok by (simp add: send_response_def)
    moreover have "side_view ?b G = side_view b G"
      using same_coreD(7) [OF core] by (simp add: side_view_def fun_eq_iff)
    ultimately have "represents ?b A" using A by (auto simp: represents_def)
    then show ?thesis using rej by (simp add: cancel_spec_def all_resting_def send_response_def)
  next
    case True
    then show ?thesis using cancel_hit [OF ok A] by blast
  qed
qed

lemma cancel_out_of_range:
  "unat c < MAX_N_CLIENTS \<Longrightarrow> MAX_ORDER_IDS \<le> unat oid \<Longrightarrow> cancel c oid tk b = Inl Out_of_range"
  by (simp add: cancel_def)

text \<open>The empty book.\<close>

lemma new_ome_book_ok:
  assumes "\<And>c oid. in_range c oid \<Longrightarrow> m c oid = None"
  shows "represents (new_ome_book m t) (\<lambda>_. [])"
proof -
  let ?b = "new_ome_book m t" and ?G = "\<lambda>_. []"
  have "all_levels ?G = {}" "all_orders ?G = {}" by (simp_all add: all_levels_def all_orders_def)
  then have "ome_ok ?b ?G"
    using assms
    by (auto simp: ome_ok_def book_ok_def side_ok_def table_ok_def clients_ok_def new_ome_book_def best_levels_def
        pool_ok_new limit_defs)
  then show ?thesis by (auto simp: represents_def side_view_def)
qed

end
