(* ===== verification/Ome_Properties.thy ===== *)
theory Ome_Properties
  imports Ome_Refinement
begin

text \<open>
  What the refinement buys: the properties of trading, proved on the specification by
  induction over the matching and carried over to the code of the exchange's book through
  \<open>add_ok\<close> and \<open>cancel_ok\<close>.
\<close>

subsection \<open>Quantities and trades\<close>

definition total_qty :: "ome_order list \<Rightarrow> nat" where
  "total_qty rs = sum_list (map (\<lambda>r. unat (o_qty r)) rs)"

definition updates :: "ome_msg list \<Rightarrow> ome_market_update list" where
  "updates ms = concat (map (\<lambda>m. case m of Upd u \<Rightarrow> [u] | Resp _ \<Rightarrow> []) ms)"

definition responses :: "ome_msg list \<Rightarrow> ome_client_response list" where
  "responses ms = concat (map (\<lambda>m. case m of Resp r \<Rightarrow> [r] | Upd _ \<Rightarrow> []) ms)"

definition trades :: "ome_msg list \<Rightarrow> ome_market_update list" where
  "trades ms = filter (\<lambda>u. mu_type u = UPD_TRADE) (updates ms)"

definition traded :: "ome_msg list \<Rightarrow> nat" where
  "traded ms = sum_list (map (\<lambda>u. unat (mu_qty u)) (trades ms))"

lemma msgs_simps [simp]:
  "updates [] = []" "updates (Upd u # ms) = u # updates ms" "updates (Resp r # ms) = updates ms"
  "updates (ms @ ns) = updates ms @ updates ns"
  "responses [] = []" "responses (Resp r # ms) = r # responses ms" "responses (Upd u # ms) = responses ms"
  "responses (ms @ ns) = responses ms @ responses ns"
  by (simp_all add: updates_def responses_def)

lemma trades_simps [simp]:
  "trades [] = []" "trades (Resp r # ms) = trades ms" "trades (ms @ ns) = trades ms @ trades ns"
  "trades (Upd u # ms) = (if mu_type u = UPD_TRADE then u # trades ms else trades ms)"
  "traded [] = 0" "traded (Resp r # ms) = traded ms" "traded (ms @ ns) = traded ms + traded ns"
  "traded (Upd u # ms) = (if mu_type u = UPD_TRADE then unat (mu_qty u) else 0) + traded ms"
  by (simp_all add: trades_def traded_def)

lemma mk_simps [simp]:
  "mu_type (mk_update t mo tk sd p q pr) = t" "mu_order_id (mk_update t mo tk sd p q pr) = mo"
  "mu_ticker_id (mk_update t mo tk sd p q pr) = tk" "mu_side (mk_update t mo tk sd p q pr) = sd"
  "mu_price (mk_update t mo tk sd p q pr) = p" "mu_qty (mk_update t mo tk sd p q pr) = q"
  "mu_priority (mk_update t mo tk sd p q pr) = pr"
  by (simp_all add: mk_update_def)

lemma fill_trades [simp]:
  "trades (fill_msgs i r f rem) =
     [mk_update UPD_TRADE OrderID_INVALID (in_ticker i) (in_side i) (o_price r) f Priority_INVALID]"
  "traded (fill_msgs i r f rem) = unat f"
  by (simp_all add: fill_msgs_def)

text \<open>A case analysis of one step of the matching, shared by the inductions below.\<close>

lemma match_spec_cases:
  assumes "match_spec i q (r # rs) = (q', rs', ms)"
  obtains (stop) "q = 0 \<or> worse (in_side i) (in_price i) (o_price r)" "q' = q" "rs' = r # rs" "ms = []"
  | (full) ms1 f where "f = o_qty r" "f \<le> q" "q \<noteq> 0" "\<not> worse (in_side i) (in_price i) (o_price r)"
      "match_spec i (q - f) rs = (q', rs', ms1)" "ms = fill_msgs i r f (q - f) @ ms1"
  | (part) "q < o_qty r" "q \<noteq> 0" "\<not> worse (in_side i) (in_price i) (o_price r)" "q' = 0"
      "rs' = r\<lparr>o_qty := o_qty r - q\<rparr> # rs" "ms = fill_msgs i r q 0"
proof (cases "q = 0 \<or> worse (in_side i) (in_price i) (o_price r)")
  case True
  then have "q' = q" "rs' = r # rs" "ms = []" using assms by auto
  then show ?thesis by (rule stop [OF True])
next
  case False
  show ?thesis
  proof (cases "o_qty r \<le> q")
    case True
    then have m: "min q (o_qty r) = o_qty r" by simp
    obtain rem rs1 ms1 where s: "match_spec i (q - o_qty r) rs = (rem, rs1, ms1)"
      by (cases "match_spec i (q - o_qty r) rs")
    then have "rem = q'" "rs1 = rs'" "ms = fill_msgs i r (o_qty r) (q - o_qty r) @ ms1"
      using assms False m by (simp_all add: Let_def)
    then show ?thesis using full [OF refl True] False s by blast
  next
    case gt: False
    then have m: "min q (o_qty r) = q" and ne: "o_qty r - q \<noteq> 0" by auto
    then have "q' = 0" "rs' = r\<lparr>o_qty := o_qty r - q\<rparr> # rs" "ms = fill_msgs i r q 0"
      using assms False by (simp_all add: Let_def m)
    then show ?thesis using part False gt by (simp add: not_le)
  qed
qed

lemma match_spec_induct [consumes 1, case_names Nil stop full part]:
  assumes "match_spec i q rs = (q', rs', ms)"
    and "\<And>q. P q [] q [] []"
    and "\<And>q r rs. q = 0 \<or> worse (in_side i) (in_price i) (o_price r) \<Longrightarrow> P q (r # rs) q (r # rs) []"
    and "\<And>q r rs q' rs' ms f. f = o_qty r \<Longrightarrow> f \<le> q \<Longrightarrow> q \<noteq> 0 \<Longrightarrow> \<not> worse (in_side i) (in_price i) (o_price r)
      \<Longrightarrow> match_spec i (q - f) rs = (q', rs', ms) \<Longrightarrow> P (q - f) rs q' rs' ms
      \<Longrightarrow> P q (r # rs) q' rs' (fill_msgs i r f (q - f) @ ms)"
    and "\<And>q r rs. q < o_qty r \<Longrightarrow> q \<noteq> 0 \<Longrightarrow> \<not> worse (in_side i) (in_price i) (o_price r)
      \<Longrightarrow> P q (r # rs) 0 (r\<lparr>o_qty := o_qty r - q\<rparr> # rs) (fill_msgs i r q 0)"
  shows "P q rs q' rs' ms"
  using assms(1)
proof (induction rs arbitrary: q q' rs' ms)
  case Nil
  then show ?case using assms(2) by simp
next
  case (Cons r rs)
  from Cons.prems show ?case
  proof (cases rule: match_spec_cases)
    case stop
    then show ?thesis using assms(3) by simp
  next
    case (full ms1 f)
    then show ?thesis using assms(4) [OF full(1-5) Cons.IH [OF full(5)]] by simp
  next
    case part
    then show ?thesis using assms(5) by simp
  qed
qed

text \<open>Nothing is created or lost: both sides give up what is traded.\<close>

lemma match_conserves:
  assumes "match_spec i q rs = (q', rs', ms)"
  shows "total_qty rs' + traded ms = total_qty rs \<and> unat q' + traded ms = unat q"
  using assms
proof (induction rule: match_spec_induct)
  case (full q r rs q' rs' ms f)
  then have "unat (q - f) = unat q - unat f" "unat f \<le> unat q" by (simp_all add: unat_sub word_le_nat_alt)
  then show ?case using full(1,6) by (simp add: total_qty_def) linarith
next
  case (part q r rs)
  then have "unat (o_qty r - q) = unat (o_qty r) - unat q" "unat q \<le> unat (o_qty r)"
    by (simp_all add: unat_sub word_le_nat_alt word_less_nat_alt)
  then show ?case by (simp add: total_qty_def)
qed (simp_all add: total_qty_def)

text \<open>
  Price-time priority: the orders traded with are a prefix of the queue, all but the last
  of them filled; every trade is at the resting order's price, and the limit allows it.
\<close>

lemma match_prefix:
  assumes "match_spec i q rs = (q', rs', ms)"
  shows "\<exists>n. map mu_price (trades ms) = map o_price (take n rs) \<and> n \<le> length rs
    \<and> (rs' = drop n rs \<or> (\<exists>r k. n \<noteq> 0 \<and> rs ! (n - 1) = r \<and> k < o_qty r \<and> k \<noteq> 0 \<and> q' = 0
          \<and> rs' = r\<lparr>o_qty := k\<rparr> # drop n rs))
    \<and> (\<forall>r \<in> set (take n rs). \<not> worse (in_side i) (in_price i) (o_price r))"
  using assms
proof (induction rule: match_spec_induct)
  case (full q r rs q' rs' ms f)
  then obtain n where n: "map mu_price (trades ms) = map o_price (take n rs)" "n \<le> length rs"
    "rs' = drop n rs \<or> (\<exists>r k. n \<noteq> 0 \<and> rs ! (n - 1) = r \<and> k < o_qty r \<and> k \<noteq> 0 \<and> q' = 0
          \<and> rs' = r\<lparr>o_qty := k\<rparr> # drop n rs)"
    "\<forall>r \<in> set (take n rs). \<not> worse (in_side i) (in_price i) (o_price r)" by blast
  show ?case using n full(4) by (intro exI [of _ "Suc n"]) (auto simp: nth_Cons')
next
  case (part q r rs)
  then have "unat q < unat (o_qty r)" "0 < unat q" by (simp_all add: word_less_nat_alt unat_gt_0)
  then have "o_qty r - q < o_qty r" "o_qty r - q \<noteq> 0"
    by (auto simp: word_less_nat_alt unat_sub word_le_nat_alt)
  then show ?case using part by (intro exI [of _ 1]) auto
qed (intro exI [of _ 0]; simp)+

subsection \<open>The invariant of trading\<close>

text \<open>No bid at or above an ask.\<close>

definition uncrossed :: "book_view \<Rightarrow> bool" where
  "uncrossed A \<longleftrightarrow> (\<forall>r \<in> set (A BUY). \<forall>s \<in> set (A SELL). sint (o_price r) < sint (o_price s))"

text \<open>First in, first out at each price: the priorities increase along the queue.\<close>

definition fifo_ok :: "ome_order list \<Rightarrow> bool" where
  "fifo_ok rs \<longleftrightarrow> sorted_wrt (\<lambda>r s. o_price r = o_price s \<longrightarrow> o_priority r < o_priority s) rs"

definition side_view_ok :: "order_id \<Rightarrow> side \<Rightarrow> ome_order list \<Rightarrow> bool" where
  "side_view_ok n sd rs \<longleftrightarrow> prioritised sd rs \<and> fifo_ok rs
     \<and> (\<forall>r \<in> set rs. o_side r = sd \<and> o_qty r \<noteq> 0 \<and> o_market_oid r < n)"

definition view_ok :: "order_id \<Rightarrow> book_view \<Rightarrow> bool" where
  "view_ok n A \<longleftrightarrow> side_view_ok n BUY (A BUY) \<and> side_view_ok n SELL (A SELL)
     \<and> distinct (map o_market_oid (all_resting A)) \<and> uncrossed A"

lemma view_ok_side: "view_ok n A \<Longrightarrow> is_side sd \<Longrightarrow> side_view_ok n sd (A sd)"
  by (auto simp: view_ok_def is_side_def)

lemma uncrossed_side:
  "is_side sd \<Longrightarrow> uncrossed A \<longleftrightarrow> (\<forall>r \<in> set (A sd). \<forall>s \<in> set (A (opposite sd)). worse sd (o_price r) (o_price s))"
  by (auto simp: uncrossed_def is_side_def worse_def)

lemma distinct_side:
  "is_side sd \<Longrightarrow> distinct (map o_market_oid (all_resting A))
    \<longleftrightarrow> distinct (map o_market_oid (A sd @ A (opposite sd)))"
  by (rule mset_eq_imp_distinct_iff) (auto simp: is_side_def all_resting_def)

definition noqty :: "ome_order \<Rightarrow> ome_order" where
  "noqty r = r\<lparr>o_qty := 0\<rparr>"

lemma noqty_simps [simp]:
  "noqty (r\<lparr>o_qty := k\<rparr>) = noqty r" "o_price (noqty r) = o_price r" "o_side (noqty r) = o_side r"
  "o_priority (noqty r) = o_priority r" "o_market_oid (noqty r) = o_market_oid r"
  "o_client (noqty r) = o_client r" "o_client_oid (noqty r) = o_client_oid r"
  by (simp_all add: noqty_def)

lemma match_suffix:
  assumes "match_spec i q rs = (q', rs', ms)"
  shows "\<exists>m. map noqty rs' = map noqty (drop m rs)"
    and "(\<forall>r \<in> set rs. o_qty r \<noteq> 0) \<Longrightarrow> (\<forall>r \<in> set rs'. o_qty r \<noteq> 0)"
proof -
  obtain n where n: "n \<le> length rs" "rs' = drop n rs \<or> (\<exists>r k. n \<noteq> 0 \<and> rs ! (n - 1) = r \<and> k < o_qty r \<and> k \<noteq> 0
      \<and> q' = 0 \<and> rs' = r\<lparr>o_qty := k\<rparr> # drop n rs)"
    using match_prefix [OF assms] by blast
  show "\<exists>m. map noqty rs' = map noqty (drop m rs)"
  proof (cases "rs' = drop n rs")
    case False
    then have "n \<noteq> 0" "map noqty rs' = noqty (rs ! (n - 1)) # map noqty (drop n rs)" using n(2) by auto
    moreover from this have "drop (n - 1) rs = rs ! (n - 1) # drop n rs"
      using n(1) Cons_nth_drop_Suc [of "n - 1" rs] by simp
    ultimately show ?thesis by (intro exI [of _ "n - 1"]) simp
  qed blast
  show "\<forall>r \<in> set rs'. o_qty r \<noteq> 0" if "\<forall>r \<in> set rs. o_qty r \<noteq> 0"
    using that n(2) by (auto dest!: in_set_dropD)
qed

lemma noqty_lists:
  assumes "map noqty rs' = map noqty ss"
  shows "prioritised sd rs' = prioritised sd ss" "fifo_ok rs' = fifo_ok ss"
    "map o_market_oid rs' = map o_market_oid ss" "map o_side rs' = map o_side ss"
    "o_price ` set rs' = o_price ` set ss"
proof -
  have "sorted_wrt (\<lambda>r s. \<not> worse sd (o_price r) (o_price s)) (map noqty rs')
      = sorted_wrt (\<lambda>r s. \<not> worse sd (o_price r) (o_price s)) (map noqty ss)" using assms by simp
  then show "prioritised sd rs' = prioritised sd ss" by (simp add: prioritised_def sorted_wrt_map)
  have "fifo_ok (map noqty rs') = fifo_ok (map noqty ss)" using assms by simp
  then show "fifo_ok rs' = fifo_ok ss" by (simp add: fifo_ok_def sorted_wrt_map)
  have "map o_market_oid (map noqty rs') = map o_market_oid (map noqty ss)"
    "map o_side (map noqty rs') = map o_side (map noqty ss)"
    "o_price ` set (map noqty rs') = o_price ` set (map noqty ss)" using assms by simp_all
  then show "map o_market_oid rs' = map o_market_oid ss" "map o_side rs' = map o_side ss"
    "o_price ` set rs' = o_price ` set ss"
    by (simp_all add: comp_def image_image)
qed

lemma side_view_ok_match:
  assumes "match_spec i q rs = (q', rs', ms)" "side_view_ok n sd rs"
  shows "side_view_ok n sd rs'"
proof -
  obtain m where m: "map noqty rs' = map noqty (drop m rs)" using match_suffix(1) [OF assms(1)] by blast
  note l = noqty_lists [OF m]
  have "\<forall>r \<in> set rs'. o_qty r \<noteq> 0" using match_suffix(2) [OF assms(1)] assms(2) by (simp add: side_view_ok_def)
  moreover have "o_side r = sd \<and> o_market_oid r < n" if "r \<in> set rs'" for r
  proof -
    have "o_side r \<in> o_side ` set (drop m rs)" "o_market_oid r \<in> o_market_oid ` set (drop m rs)"
      using that l(3,4) by (metis image_eqI list.set_map)+
    then show ?thesis using assms(2) set_drop_subset [of m rs] by (auto simp: side_view_ok_def)
  qed
  ultimately show ?thesis
    using assms(2) l(1,2) by (auto simp: side_view_ok_def prioritised_def fifo_ok_def sorted_wrt_drop)
qed

lemma sorted_wrt_insert:
  assumes "sorted_wrt P xs" "xs = ys @ zs" "\<And>y. y \<in> set ys \<Longrightarrow> P y x" "\<And>z. z \<in> set zs \<Longrightarrow> P x z"
  shows "sorted_wrt P (ys @ x # zs)"
  using assms by (auto simp: sorted_wrt_append)

lemma insert_prio_obtain:
  assumes "prioritised sd rs" "is_side sd"
  obtains ys zs where "rs = ys @ zs" "insert_prio sd o_price p x rs = ys @ x # zs"
    "\<And>y. y \<in> set ys \<Longrightarrow> \<not> worse sd (o_price y) p" "\<And>z. z \<in> set zs \<Longrightarrow> worse sd (o_price z) p"
proof
  let ?ys = "takeWhile (\<lambda>c. \<not> worse sd (o_price c) p) rs" and ?zs = "dropWhile (\<lambda>c. \<not> worse sd (o_price c) p) rs"
  show "rs = ?ys @ ?zs" "insert_prio sd o_price p x rs = ?ys @ x # ?zs" by (simp_all add: insert_prio_def)
  show "\<not> worse sd (o_price y) p" if "y \<in> set ?ys" for y using set_takeWhileD [OF that] by simp
  show "worse sd (o_price z) p" if z: "z \<in> set ?zs" for z
  proof -
    obtain h T where hT: "?zs = h # T" using z by (cases ?zs) auto
    then have h: "worse sd (o_price h) p" by (metis dropWhile_eq_Cons_conv)
    have "sorted_wrt (\<lambda>r s. \<not> worse sd (o_price r) (o_price s)) (?ys @ ?zs)"
      using assms(1) by (simp add: prioritised_def)
    then have "z = h \<or> \<not> worse sd (o_price h) (o_price z)" using z hT by (auto simp: sorted_wrt_append)
    then show ?thesis using h assms(2) by (auto simp: worse_def is_side_def)
  qed
qed

lemma next_priority_last:
  assumes "fifo_ok rs" "r \<in> set rs" "o_price r = p" "\<forall>s \<in> set rs. o_priority s \<noteq> -1"
  shows "o_priority r < next_priority_spec p rs"
proof -
  let ?ss = "filter (\<lambda>r. o_price r = p) rs"
  have r: "r \<in> set ?ss" using assms(2,3) by simp
  then have ne: "?ss \<noteq> []" by (metis empty_iff empty_set)
  have "sorted_wrt (\<lambda>r s. o_price r = o_price s \<longrightarrow> o_priority r < o_priority s) ?ss"
    using assms(1) by (simp add: fifo_ok_def sorted_wrt_filter)
  then have s: "sorted_wrt (\<lambda>r s. o_price r = o_price s \<longrightarrow> o_priority r < o_priority s) (butlast ?ss @ [last ?ss])"
    using ne by simp
  have "r = last ?ss \<or> r \<in> set (butlast ?ss)" using r ne by (metis append_butlast_last_id in_set_conv_decomp_last rotate1.simps(2) set_ConsD set_rotate1)
  moreover have lst: "last ?ss \<in> set ?ss" using ne by (rule last_in_set)
  ultimately have "o_priority r \<le> o_priority (last ?ss)"
    using s assms(3) by (fastforce simp: sorted_wrt_append)
  moreover have "o_priority (last ?ss) < o_priority (last ?ss) + 1"
    using lst assms(4) by (intro word_add_one) auto
  ultimately have "o_priority r < o_priority (last ?ss) + 1" by simp
  moreover have "next_priority_spec p rs = o_priority (last ?ss) + 1"
    using ne by (cases ?ss) (simp_all add: next_priority_spec_def del: filter.simps)
  ultimately show ?thesis by simp
qed

lemma side_view_ok_insert:
  assumes ok: "side_view_ok n sd rs" and sd: "is_side sd" and "o_price x = p" "o_side x = sd" "o_qty x \<noteq> 0"
    and pr: "o_priority x = next_priority_spec p rs" and nm: "\<forall>s \<in> set rs. o_priority s \<noteq> -1"
    and x: "o_market_oid x < m" and nm2: "n \<le> m"
  shows "side_view_ok m sd (insert_prio sd o_price p x rs)"
proof -
  have pri: "prioritised sd rs" and fifo: "fifo_ok rs" using ok by (simp_all add: side_view_ok_def)
  obtain ys zs where yz: "rs = ys @ zs" "insert_prio sd o_price p x rs = ys @ x # zs"
    "\<And>y. y \<in> set ys \<Longrightarrow> \<not> worse sd (o_price y) p" "\<And>z. z \<in> set zs \<Longrightarrow> worse sd (o_price z) p"
    using insert_prio_obtain [OF pri sd, of p x] by blast
  have "prioritised sd (ys @ x # zs)"
    unfolding prioritised_def
  proof (rule sorted_wrt_insert)
    show "sorted_wrt (\<lambda>r s. \<not> worse sd (o_price r) (o_price s)) rs" using pri by (simp add: prioritised_def)
    show "\<not> worse sd (o_price x) (o_price z)" if "z \<in> set zs" for z
      using yz(4) [OF that] assms(3) worse_trans worse_irrefl by blast
  qed (use yz assms(3) in auto)
  moreover have "fifo_ok (ys @ x # zs)"
    unfolding fifo_ok_def
  proof (rule sorted_wrt_insert)
    show "sorted_wrt (\<lambda>r s. o_price r = o_price s \<longrightarrow> o_priority r < o_priority s) rs"
      using fifo by (simp add: fifo_ok_def)
    show "o_price x = o_price z \<longrightarrow> o_priority x < o_priority z" if "z \<in> set zs" for z
      using yz(4) [OF that] assms(3) worse_irrefl by auto
    show "o_price y = o_price x \<longrightarrow> o_priority y < o_priority x" if "y \<in> set ys" for y
      using next_priority_last [OF fifo _ _ nm, of y p] that yz(1) assms(3) pr by auto
  qed (use yz in simp)
  moreover have "o_side r = sd \<and> o_qty r \<noteq> 0 \<and> o_market_oid r < m" if "r \<in> set (ys @ x # zs)" for r
    using that ok yz(1) x assms(4,5) nm2 by (auto simp: side_view_ok_def intro: less_le_trans)
  ultimately show ?thesis unfolding yz(2) by (simp add: side_view_ok_def)
qed

lemma view_ok_mono:
  assumes "view_ok n A" "n \<le> m"
  shows "view_ok m A"
proof -
  have "side_view_ok m s (A s)" if "side_view_ok n s (A s)" for s
    using that assms(2) by (auto simp: side_view_ok_def)
  then show ?thesis using assms(1) by (simp add: view_ok_def)
qed

text \<open>Matching keeps the invariant, and so does the order that rests after it.\<close>

lemma match_view_ok:
  assumes ok: "view_ok n A" and sd: "is_side (in_side i)"
    and m: "match_spec i q (A (opposite (in_side i))) = (rem, opp, ms)"
  shows "view_ok n (A(opposite (in_side i) := opp))"
proof -
  let ?sd = "in_side i" and ?op = "opposite (in_side i)"
  have oksd: "side_view_ok n ?sd (A ?sd)" and okop: "side_view_ok n ?op opp"
    using view_ok_side [OF ok] sd side_view_ok_match [OF m] by simp_all
  then have "side_view_ok n BUY ((A(?op := opp)) BUY)" "side_view_ok n SELL ((A(?op := opp)) SELL)"
    using sd by (auto simp: is_side_def)
  moreover obtain k where k: "map noqty opp = map noqty (drop k (A ?op))" using match_suffix(1) [OF m] by blast
  note l = noqty_lists [OF k]
  have "distinct (map o_market_oid (A ?sd @ A ?op))" using ok distinct_side [OF sd, of A] by (simp add: view_ok_def)
  then have "distinct (map o_market_oid (A ?sd @ drop k (A ?op)))"
    by (auto simp: distinct_drop drop_map [symmetric] dest!: in_set_dropD)
  then have "distinct (map o_market_oid (all_resting (A(?op := opp))))"
    unfolding distinct_side [OF sd] using l(3) by simp
  moreover have "worse ?sd (o_price r) (o_price s)" if "r \<in> set (A ?sd)" "s \<in> set opp" for r s
  proof -
    have "o_price s \<in> o_price ` set (A ?op)" using that(2) l(5) by (metis image_eqI image_mono set_drop_subset subsetD)
    then show ?thesis using ok uncrossed_side [OF sd, of A] that(1) by (auto simp: view_ok_def)
  qed
  then have "uncrossed (A(?op := opp))" unfolding uncrossed_side [OF sd] by simp
  ultimately show ?thesis by (simp add: view_ok_def)
qed

lemma insert_view_ok:
  assumes ok: "view_ok n A" and sd: "is_side sd" and x: "o_price x = p" "o_side x = sd" "o_qty x \<noteq> 0"
    "o_priority x = next_priority_spec p (A sd)" "o_market_oid x = n"
    and nm: "\<forall>s \<in> set (A sd). o_priority s \<noteq> -1" and n1: "n < m"
    and unc: "\<forall>r \<in> set (A (opposite sd)). worse sd p (o_price r)"
  shows "view_ok m (A(sd := insert_prio sd o_price p x (A sd)))"
proof -
  let ?A = "A(sd := insert_prio sd o_price p x (A sd))" and ?op = "opposite sd"
  have "side_view_ok m sd (insert_prio sd o_price p x (A sd))"
    using x n1 by (intro side_view_ok_insert [OF view_ok_side [OF ok sd] sd] nm) simp_all
  moreover have "side_view_ok m ?op (A ?op)"
    using view_ok_side [OF view_ok_mono [OF ok] is_side_opposite] n1 by simp
  ultimately have "side_view_ok m BUY (?A BUY)" "side_view_ok m SELL (?A SELL)"
    using sd by (auto simp: is_side_def)
  moreover have "distinct (map o_market_oid (all_resting ?A))"
  proof -
    have "mset (insert_prio sd o_price p x (A sd)) = add_mset x (mset (A sd))"
      unfolding insert_prio_def by (metis mset_append mset.simps(2) takeWhile_dropWhile_id union_mset_add_mset_right)
    then have "distinct (map o_market_oid (insert_prio sd o_price p x (A sd) @ A ?op))
        = distinct (map o_market_oid (x # A sd @ A ?op))"
      by (intro mset_eq_imp_distinct_iff) simp
    moreover have "o_market_oid r \<noteq> n" if "r \<in> set (A sd @ A ?op)" for r
      using that view_ok_side [OF ok sd] view_ok_side [OF ok is_side_opposite, of sd]
      unfolding side_view_ok_def by (metis Un_iff order.irrefl set_append)
    then have "o_market_oid x \<notin> set (map o_market_oid (A sd @ A ?op))"
      using x(5) by (metis imageE set_map)
    moreover have "distinct (map o_market_oid (A sd @ A ?op))"
      using ok distinct_side [OF sd, of A] by (simp add: view_ok_def)
    ultimately show ?thesis unfolding distinct_side [OF sd] by simp
  qed
  moreover have "uncrossed ?A"
    using ok unc x(1) unfolding view_ok_def uncrossed_side [OF sd] by simp
  ultimately show ?thesis by (simp add: view_ok_def)
qed

lemma add_spec_view_ok:
  assumes ok: "view_ok n A" and sd: "is_side (in_side i)" and i: "in_moid i = n" "n \<noteq> -1"
    and nm: "\<forall>s \<in> set (all_resting A). o_priority s \<noteq> -1"
  shows "view_ok (n + 1) (fst (add_spec i q A))"
proof -
  let ?sd = "in_side i" and ?op = "opposite (in_side i)" and ?p = "in_price i"
  obtain rem opp ms where m: "match_spec i q (A ?op) = (rem, opp, ms)" by (cases "match_spec i q (A ?op)")
  have n1: "n < n + 1" by (rule word_add_one [OF i(2)])
  note okm = match_view_ok [OF ok sd m]
  show ?thesis
  proof (cases "rem = 0")
    case True
    then show ?thesis using view_ok_mono [OF okm] n1 m by (simp add: add_spec_def Let_def)
  next
    case False
    have "\<forall>r \<in> set opp. worse ?sd ?p (o_price r)"
      using match_spec_leftover [OF m False sd] view_ok_side [OF ok is_side_opposite, of ?sd]
      by (simp add: side_view_ok_def)
    moreover have "\<forall>s \<in> set (A ?sd). o_priority s \<noteq> -1" using nm sd by (auto simp: all_resting_def is_side_def)
    ultimately show ?thesis
      using insert_view_ok [OF okm sd, of "new_order_spec i rem (next_priority_spec ?p (A ?sd))" ?p "n + 1"]
        i False n1 m by (simp add: add_spec_def Let_def new_order_spec_def)
  qed
qed

lemma cancel_spec_view_ok: "view_ok n A \<Longrightarrow> view_ok n (fst (cancel_spec c oid tk A))"
  by (auto simp: view_ok_def cancel_spec_def side_view_ok_def prioritised_def fifo_ok_def sorted_wrt_filter
      uncrossed_def all_resting_def distinct_map_filter split: option.splits)

subsection \<open>The market data stream\<close>

text \<open>
  A market-by-order picture: what a reader of the updates knows of the resting orders.
  \<open>mbo_apply\<close> is how a reader applies an update (\<open>TRADE\<close> changes nothing).
\<close>

type_synonym mbo = "order_id \<rightharpoonup> side \<times> price \<times> qty \<times> priority"

definition mbo_apply :: "ome_market_update \<Rightarrow> mbo \<Rightarrow> mbo" where
  "mbo_apply u m = (case mu_type u of
      UPD_ADD \<Rightarrow> m(mu_order_id u \<mapsto> (mu_side u, mu_price u, mu_qty u, mu_priority u))
    | UPD_MODIFY \<Rightarrow> m(mu_order_id u := map_option (\<lambda>(s, _, _, pr). (s, mu_price u, mu_qty u, pr)) (m (mu_order_id u)))
    | UPD_CANCEL \<Rightarrow> m(mu_order_id u := None)
    | _ \<Rightarrow> m)"

lemma mbo_apply_simps [simp]:
  "mbo_apply (mk_update UPD_TRADE mo tk sd p q pr) m = m"
  "mbo_apply (mk_update UPD_CANCEL mo tk sd p q pr) m = m(mo := None)"
  "mbo_apply (mk_update UPD_ADD mo tk sd p q pr) m = m(mo \<mapsto> (sd, p, q, pr))"
  "mbo_apply (mk_update UPD_MODIFY mo tk sd p q pr) m
     = m(mo := map_option (\<lambda>(s, _, _, pr). (s, p, q, pr)) (m mo))"
  by (simp_all add: mbo_apply_def)

definition mbo_of :: "ome_order list \<Rightarrow> mbo" where
  "mbo_of rs = map_of (map (\<lambda>r. (o_market_oid r, (o_side r, o_price r, o_qty r, o_priority r))) rs)"

lemma mbo_of_simps [simp]:
  "mbo_of [] = Map.empty"
  "mbo_of (r # rs) = (mbo_of rs)(o_market_oid r \<mapsto> (o_side r, o_price r, o_qty r, o_priority r))"
  by (simp_all add: mbo_of_def)

lemma dom_mbo_of [simp]: "dom (mbo_of rs) = o_market_oid ` set rs"
  by (simp add: mbo_of_def dom_map_of_conv_image_fst image_image)

lemma mbo_of_fresh: "n \<notin> o_market_oid ` set rs \<Longrightarrow> (mbo_of rs)(n := None) = mbo_of rs"
  by (metis dom_mbo_of domIff fun_upd_triv)

lemma mbo_of_mset:
  assumes "mset rs = mset ss" "distinct (map o_market_oid rs)"
  shows "mbo_of rs = mbo_of ss"
proof -
  have "distinct (map o_market_oid ss)"
    using assms mset_eq_imp_distinct_iff [of "map o_market_oid rs" "map o_market_oid ss"] by simp
  moreover have "set rs = set ss" by (rule mset_eq_setD [OF assms(1)])
  ultimately show ?thesis
    using assms(2) unfolding mbo_of_def by (subst map_of_inject_set) (simp_all add: comp_def)
qed

lemma match_replay:
  assumes "match_spec i q rs = (q', rs', ms)" "distinct (map o_market_oid (rs @ ss))"
  shows "fold mbo_apply (updates ms) (mbo_of (rs @ ss)) = mbo_of (rs' @ ss)"
  using assms
proof (induction rule: match_spec_induct)
  case (full q r rs q' rs' ms f)
  then have "o_market_oid r \<notin> o_market_oid ` set (rs @ ss)" by auto
  then have "(mbo_of (r # rs @ ss))(o_market_oid r := None) = mbo_of (rs @ ss)"
    using mbo_of_fresh by (simp del: set_append)
  then show ?case using full by (simp add: fill_msgs_def del: mbo_of_simps)
next
  case (part q r rs)
  then have "o_qty r - q \<noteq> 0" by auto
  then show ?case by (simp add: fill_msgs_def fun_eq_iff)
qed simp_all

definition book_mbo :: "book_view \<Rightarrow> mbo" where
  "book_mbo A = mbo_of (all_resting A)"

lemma book_mbo_side:
  assumes "is_side sd" "distinct (map o_market_oid (all_resting A))"
  shows "book_mbo A = mbo_of (A (opposite sd) @ A sd)"
  unfolding book_mbo_def
  by (rule mbo_of_mset [OF _ assms(2)]) (use assms(1) in \<open>auto simp: is_side_def all_resting_def\<close>)

lemma mset_insert_prio: "mset (insert_prio sd f p x rs) = add_mset x (mset rs)"
  unfolding insert_prio_def by (metis mset_append mset.simps(2) takeWhile_dropWhile_id union_mset_add_mset_right)

lemma add_spec_replay:
  assumes ok: "view_ok n A" and sd: "is_side (in_side i)" and i: "in_moid i = n" "n \<noteq> -1"
    and nm: "\<forall>s \<in> set (all_resting A). o_priority s \<noteq> -1"
  shows "fold mbo_apply (updates (snd (add_spec i q A))) (book_mbo A) = book_mbo (fst (add_spec i q A))"
proof -
  let ?sd = "in_side i" and ?op = "opposite (in_side i)" and ?p = "in_price i"
  obtain rem opp ms where m: "match_spec i q (A ?op) = (rem, opp, ms)" by (cases "match_spec i q (A ?op)")
  have ok': "view_ok (n + 1) (fst (add_spec i q A))" by (rule add_spec_view_ok [OF assms])
  have d: "distinct (map o_market_oid (A ?op @ A ?sd))"
    using ok distinct_side [OF is_side_opposite, of A ?sd] sd by (auto simp: view_ok_def is_side_def)
  have r: "fold mbo_apply (updates ms) (book_mbo A) = mbo_of (opp @ A ?sd)"
    using match_replay [OF m d] book_mbo_side [OF sd, of A] ok by (simp add: view_ok_def)
  have final: "book_mbo (fst (add_spec i q A)) = mbo_of (fst (add_spec i q A) ?op @ fst (add_spec i q A) ?sd)"
    by (rule book_mbo_side [OF sd]) (use ok' in \<open>simp add: view_ok_def\<close>)
  show ?thesis
  proof (cases "rem = 0")
    case True
    then show ?thesis using r m unfolding final by (simp add: add_spec_def Let_def)
  next
    case False
    let ?x = "new_order_spec i rem (next_priority_spec ?p (A ?sd))"
    have f: "fst (add_spec i q A) ?op = opp" "fst (add_spec i q A) ?sd = insert_prio ?sd o_price ?p ?x (A ?sd)"
      using m False by (simp_all add: add_spec_def Let_def)
    have "distinct (map o_market_oid (fst (add_spec i q A) ?op @ fst (add_spec i q A) ?sd))"
      using ok' distinct_side [OF is_side_opposite, of "fst (add_spec i q A)" ?sd] sd
      by (auto simp: view_ok_def is_side_def)
    then have "mbo_of (opp @ insert_prio ?sd o_price ?p ?x (A ?sd)) = mbo_of (?x # opp @ A ?sd)"
      unfolding f by (intro mbo_of_mset) (simp_all add: mset_insert_prio)
    moreover have "fold mbo_apply (updates (snd (add_spec i q A))) (book_mbo A) = mbo_of (?x # opp @ A ?sd)"
      using r m False by (simp add: add_spec_def Let_def new_order_spec_def)
    ultimately show ?thesis unfolding final f by simp
  qed
qed

lemma represents_unique:
  assumes "represents b A" "r \<in> set (all_resting A)" "s \<in> set (all_resting A)"
    and "is_order_of c oid r" "is_order_of c oid s"
  shows "r = s"
proof -
  obtain G where ok: "ome_ok b G" and A: "\<forall>s. is_side s \<longrightarrow> A s = side_view b G s"
    using assms(1) by (auto simp: represents_def)
  have "r \<in> (\<lambda>c. odata (ord b c)) ` all_orders G" "s \<in> (\<lambda>c. odata (ord b c)) ` all_orders G"
    using assms(2,3) resting_orders(1) [OF A] by simp_all
  then obtain x y where xy: "x \<in> all_orders G" "r = odata (ord b x)" "y \<in> all_orders G" "s = odata (ord b y)" by auto
  moreover have "o_client (odata z) = o_client z" "o_client_oid (odata z) = o_client_oid z" for z :: ome_order
    by (simp_all add: odata_def)
  ultimately have "y = x"
    using clients_unique [of b "all_orders G" x y] ok assms(4,5) by (auto simp: ome_ok_def is_order_of_def)
  then show ?thesis using xy by simp
qed

lemma cancel_spec_replay:
  assumes rep: "represents b A" and d: "distinct (map o_market_oid (all_resting A))"
  shows "fold mbo_apply (updates (snd (cancel_spec c oid tk A))) (book_mbo A) = book_mbo (fst (cancel_spec c oid tk A))"
proof (cases "find (is_order_of c oid) (all_resting A)")
  case None
  then show ?thesis by (simp add: cancel_spec_def all_resting_def)
next
  case (Some r)
  then have r: "r \<in> set (all_resting A)" "is_order_of c oid r" by (auto simp: find_Some_iff)
  let ?A = "\<lambda>s. filter (\<lambda>x. \<not> is_order_of c oid x) (A s)"
  have spec: "cancel_spec c oid tk A = (?A,
     [Upd (mk_update UPD_CANCEL (o_market_oid r) tk (o_side r) (o_price r) 0 (o_priority r)),
      Resp (mk_response RES_CANCELLED c tk oid (o_market_oid r) (o_side r) (o_price r) Qty_INVALID (o_qty r))])"
    using Some by (simp add: cancel_spec_def all_resting_def)
  have "is_order_of c oid x = (x = r)" if "x \<in> set (all_resting A)" for x
    using represents_unique [OF rep that r(1) _ r(2)] r(2) by auto
  then have "filter (\<lambda>x. \<not> is_order_of c oid x) (all_resting A) = filter (\<lambda>x. x \<noteq> r) (all_resting A)"
    by (intro filter_cong) simp_all
  then have A': "all_resting ?A = filter (\<lambda>x. x \<noteq> r) (all_resting A)" by (simp add: all_resting_def)
  obtain xs ys where xs: "all_resting A = xs @ r # ys" using r(1) by (meson split_list)
  have "distinct (r # xs @ ys)" "distinct (map o_market_oid (r # xs @ ys))" using d by (auto simp: xs distinct_map)
  then have "filter (\<lambda>x. x \<noteq> r) (all_resting A) = xs @ ys" "(mbo_of (r # xs @ ys))(o_market_oid r := None) = mbo_of (xs @ ys)"
    using mbo_of_fresh [of "o_market_oid r" "xs @ ys"] by (simp_all add: xs image_Un)
  moreover have "mbo_of (all_resting A) = mbo_of (r # xs @ ys)"
    by (rule mbo_of_mset [OF _ d]) (simp add: xs)
  ultimately show ?thesis by (simp add: spec book_mbo_def A' del: mbo_of_simps)
qed

subsection \<open>The properties of \<open>add\<close> and \<open>cancel\<close>\<close>

text \<open>A book with one resting order, for the witnesses.\<close>

definition demo_order :: ome_order where
  "demo_order = \<lparr>o_side = SELL, o_price = 101, o_qty = 5, o_priority = 1, o_prev = None, o_next = None,
     o_ticker = 0, o_client = 2, o_client_oid = 9, o_market_oid = 1\<rparr>"

definition demo_view :: book_view where
  "demo_view = (\<lambda>s. if s = SELL then [demo_order] else [])"

definition demo_in :: incoming where
  "demo_in = \<lparr>in_ticker = 0, in_client = 3, in_side = BUY, in_oid = 4, in_moid = 2, in_price = 102\<rparr>"

lemma demo_book: "\<exists>b. represents b demo_view \<and> next_market_oid b = 2"
proof -
  let ?b = "new_ome_book (\<lambda>_ _. None) 0"
  let ?i = "\<lparr>in_ticker = 0, in_client = 2, in_side = SELL, in_oid = 9, in_moid = 1, in_price = 101\<rparr> :: incoming"
  have rep: "represents ?b (\<lambda>_. [])" by (rule new_ome_book_ok) simp
  have "accepts (\<lambda>_. []) ?i"
    by (simp add: accepts_def in_range_def limit_defs all_resting_def view_prices_def)
  then obtain b where b: "represents b (fst (add_spec ?i 5 (\<lambda>_. [])))" "next_market_oid b = next_market_oid ?b + 1"
    using add_ok [OF rep, of ?i 5] by (auto simp: new_ome_book_def)
  have "fst (add_spec ?i 5 (\<lambda>_. [])) = demo_view"
    by (auto simp: add_spec_def demo_view_def demo_order_def new_order_spec_def next_priority_spec_def
        insert_prio_def Let_def fun_eq_iff)
  then show ?thesis using b by (auto simp: new_ome_book_def)
qed

lemma demo_accepts: "accepts demo_view demo_in"
  by (simp add: accepts_def demo_in_def demo_view_def demo_order_def in_range_def limit_defs all_resting_def
      view_prices_def is_order_of_def price_to_index_def)

lemma demo_view_ok: "view_ok 2 demo_view"
  by (simp add: view_ok_def side_view_ok_def prioritised_def fifo_ok_def demo_view_def demo_order_def
      all_resting_def uncrossed_def)

text \<open>
  C1. The exchange's \<open>add\<close> implements \<open>add_spec\<close>: for every book that represents the order
  lists \<open>A\<close> and every order within the limits of the code, it returns (no assertion, null
  pointer or endless loop), the new book represents the order lists the specification
  gives, and the messages sent are those of the specification, in that order.
\<close>

theorem add_implements_spec:
  assumes "represents b A" "accepts A i" "in_moid i = next_market_oid b"
  shows "\<exists>b'. add (in_client i) (in_oid i) (in_ticker i) (in_side i) (in_price i) q b = Inr b'
    \<and> represents b' (fst (add_spec i q A)) \<and> sent b' = sent b @ snd (add_spec i q A)
    \<and> next_market_oid b' = next_market_oid b + 1"
  using add_ok [OF assms, of q] unfolding add_order_def by blast

theorem add_implements_spec_witness:
  "\<exists>b b'. represents b demo_view \<and> add 3 4 0 BUY 102 8 b = Inr b'
    \<and> represents b' (fst (add_spec demo_in 8 demo_view))"
proof -
  obtain b where b: "represents b demo_view" "next_market_oid b = 2" using demo_book by blast
  have "in_moid demo_in = next_market_oid b" using b(2) by (simp add: demo_in_def)
  from add_implements_spec [OF b(1) demo_accepts this, of 8] show ?thesis
    using b(1) by (auto simp: demo_in_def)
qed

text \<open>
  C32. The exchange's \<open>cancel\<close> implements \<open>cancel_spec\<close>: it removes the client's order and
  reports it to the market and the client, or sends a rejection if the client has no such
  order, and it returns whenever the order id is inside the table.
\<close>

theorem cancel_implements_spec:
  assumes "represents b A" "unat c < MAX_N_CLIENTS \<longrightarrow> unat oid < MAX_ORDER_IDS"
  shows "\<exists>b'. cancel c oid tk b = Inr b' \<and> represents b' (fst (cancel_spec c oid tk A))
    \<and> sent b' = sent b @ snd (cancel_spec c oid tk A) \<and> next_market_oid b' = next_market_oid b"
  using cancel_ok [OF assms(1), of c oid tk] assms(2) by blast

theorem cancel_implements_spec_witness:
  "\<exists>b b'. represents b demo_view \<and> cancel 2 9 0 b = Inr b' \<and> represents b' (\<lambda>_. [])"
proof -
  obtain b where b: "represents b demo_view" using demo_book by blast
  have "fst (cancel_spec 2 9 0 demo_view) = (\<lambda>_. [])"
    by (auto simp: cancel_spec_def demo_view_def demo_order_def is_order_of_def)
  then show ?thesis
    using cancel_implements_spec [OF b, of 2 9 0] b by (auto simp: limit_defs)
qed

text \<open>
  C15. Matching conserves quantity: what the trades report is what the resting side lost and
  what the incoming order got, and the rest of the incoming order is on its own side.
\<close>

theorem add_conserves_quantity:
  assumes "represents b A" "accepts A i" "in_moid i = next_market_oid b"
  shows "\<exists>b' A' ms. add (in_client i) (in_oid i) (in_ticker i) (in_side i) (in_price i) q b = Inr b'
    \<and> represents b' A' \<and> sent b' = sent b @ ms
    \<and> total_qty (A' (opposite (in_side i))) + traded ms = total_qty (A (opposite (in_side i)))
    \<and> total_qty (A' (in_side i)) + traded ms = total_qty (A (in_side i)) + unat q"
proof -
  let ?sd = "in_side i" and ?op = "opposite (in_side i)"
  obtain rem opp ms where m: "match_spec i q (A ?op) = (rem, opp, ms)" by (cases "match_spec i q (A ?op)")
  note c = match_conserves [OF m]
  have tot: "total_qty (insert_prio ?sd o_price p x rs) = unat (o_qty x) + total_qty rs" for p x rs
  proof -
    have "total_qty xs = sum_mset (image_mset (\<lambda>r. unat (o_qty r)) (mset xs))" for xs
      by (simp add: total_qty_def sum_mset_sum_list flip: mset_map)
    then show ?thesis by (simp add: mset_insert_prio)
  qed
  have "total_qty (fst (add_spec i q A) ?op) = total_qty opp
    \<and> total_qty (fst (add_spec i q A) ?sd) = total_qty (A ?sd) + unat rem
    \<and> traded (snd (add_spec i q A)) = traded ms"
    using m by (cases "rem = 0") (simp_all add: add_spec_def Let_def tot new_order_spec_def)
  then show ?thesis
    using add_ok [OF assms, of q] c unfolding add_order_def
    by (elim exE conjE, intro exI [of _ "fst (add_spec i q A)"] exI [of _ "snd (add_spec i q A)"] exI conjI)
      (assumption | simp)+
qed

theorem add_conserves_quantity_witness:
  "\<exists>b b' A' ms. represents b demo_view \<and> add 3 4 0 BUY 102 8 b = Inr b' \<and> represents b' A'
    \<and> sent b' = sent b @ ms \<and> total_qty (A' SELL) + traded ms = 5 \<and> total_qty (A' BUY) + traded ms = 8"
proof -
  obtain b where b: "represents b demo_view" "next_market_oid b = 2" using demo_book by blast
  have "in_moid demo_in = next_market_oid b" using b(2) by (simp add: demo_in_def)
  from add_conserves_quantity [OF b(1) demo_accepts this, of 8] show ?thesis
    using b(1) by (auto simp: demo_in_def demo_view_def demo_order_def total_qty_def)
qed

text \<open>
  C11. Price-time priority: an incoming order trades with a prefix of the other side's queue
  (which is sorted by price, then by time), at the prices of the resting orders and never
  beyond its limit; every order of the prefix is filled and gone except possibly the last,
  which keeps its place with what is left of it, and then nothing is left of the incoming
  order. What is left of the incoming order rests only if nothing it could trade with is
  left.
\<close>

theorem add_price_time_priority:
  assumes "represents b A" "accepts A i" "in_moid i = next_market_oid b"
  shows "\<exists>b' A' ms n. add (in_client i) (in_oid i) (in_ticker i) (in_side i) (in_price i) q b = Inr b'
    \<and> represents b' A' \<and> sent b' = sent b @ ms
    \<and> prioritised (opposite (in_side i)) (A (opposite (in_side i)))
    \<and> map mu_price (trades ms) = map o_price (take n (A (opposite (in_side i))))
    \<and> list_all (\<lambda>u. \<not> worse (in_side i) (in_price i) (mu_price u)) (trades ms)
    \<and> (A' (opposite (in_side i)) = drop n (A (opposite (in_side i)))
       \<or> (\<exists>r k. 0 < n \<and> A (opposite (in_side i)) ! (n - 1) = r \<and> 0 < k \<and> k < o_qty r
            \<and> A' (opposite (in_side i)) = r\<lparr>o_qty := k\<rparr> # drop n (A (opposite (in_side i)))
            \<and> A' (in_side i) = A (in_side i)))
    \<and> (A' (in_side i) = A (in_side i)
       \<or> list_all (\<lambda>r. worse (in_side i) (in_price i) (o_price r)) (A' (opposite (in_side i))))"
proof -
  let ?sd = "in_side i" and ?op = "opposite (in_side i)"
  have sd: "is_side ?sd" using assms(2) by (simp add: accepts_def)
  obtain G where "ome_ok b G" "\<forall>s. is_side s \<longrightarrow> A s = side_view b G s" using assms(1) by (auto simp: represents_def)
  then have pri: "prioritised ?op (A ?op)"
    using view_prioritised [OF _ is_side_opposite] by (auto simp: ome_ok_def)
  obtain rem opp ms where m: "match_spec i q (A ?op) = (rem, opp, ms)" by (cases "match_spec i q (A ?op)")
  obtain n where n: "map mu_price (trades ms) = map o_price (take n (A ?op))" "n \<le> length (A ?op)"
    "opp = drop n (A ?op) \<or> (\<exists>r k. n \<noteq> 0 \<and> A ?op ! (n - 1) = r \<and> k < o_qty r \<and> k \<noteq> 0 \<and> rem = 0
          \<and> opp = r\<lparr>o_qty := k\<rparr> # drop n (A ?op))"
    "\<forall>r \<in> set (take n (A ?op)). \<not> worse ?sd (in_price i) (o_price r)"
    using match_prefix [OF m] by blast
  have "mu_price ` set (trades ms) = o_price ` set (take n (A ?op))" using n(1) by (metis list.set_map)
  then have lim: "\<not> worse ?sd (in_price i) (mu_price u)" if "u \<in> set (trades ms)" for u
    using that n(4) by (metis imageE image_eqI)
  have left: "rem \<noteq> 0 \<Longrightarrow> \<forall>r \<in> set opp. worse ?sd (in_price i) (o_price r)"
    by (rule match_spec_leftover [OF m _ sd pri])
  define A' where "A' = fst (add_spec i q A)"
  have A': "A' ?op = opp" "rem = 0 \<Longrightarrow> A' ?sd = A ?sd" "trades (snd (add_spec i q A)) = trades ms"
    using m by (cases "rem = 0"; simp add: A'_def add_spec_def Let_def)+
  have "A' ?op = drop n (A ?op) \<or> (\<exists>r k. 0 < n \<and> A ?op ! (n - 1) = r \<and> 0 < k \<and> k < o_qty r
      \<and> A' ?op = r\<lparr>o_qty := k\<rparr> # drop n (A ?op) \<and> A' ?sd = A ?sd)"
    using n(3) A'(1,2) by (auto simp: word_neq_0_conv)
  moreover have "A' ?sd = A ?sd \<or> list_all (\<lambda>r. worse ?sd (in_price i) (o_price r)) (A' ?op)"
    using left A' by (auto simp: list_all_iff)
  moreover obtain b' where b': "add (in_client i) (in_oid i) (in_ticker i) ?sd (in_price i) q b = Inr b'"
    "represents b' A'" "sent b' = sent b @ snd (add_spec i q A)"
    using add_ok [OF assms, of q] unfolding add_order_def A'_def by blast
  ultimately show ?thesis
    using pri n(1) lim A'(3)
    by (intro exI [of _ b'] exI [of _ A'] exI [of _ "snd (add_spec i q A)"] exI [of _ n])
      (simp add: list_all_iff)
qed

theorem add_price_time_priority_witness:
  "\<exists>b b' A' ms n. represents b demo_view \<and> add 3 4 0 BUY 102 8 b = Inr b' \<and> represents b' A'
    \<and> sent b' = sent b @ ms \<and> map mu_price (trades ms) = map o_price (take n [demo_order])"
proof -
  obtain b where b: "represents b demo_view" "next_market_oid b = 2" using demo_book by blast
  have "in_moid demo_in = next_market_oid b" using b(2) by (simp add: demo_in_def)
  from add_price_time_priority [OF b(1) demo_accepts this, of 8] show ?thesis
    using b(1) by (simp add: demo_in_def demo_view_def) blast
qed

text \<open>
  C16. The invariant of trading is kept by \<open>add\<close>: no crossed prices, both sides sorted by
  price and, at one price, by time, no empty order, each order on its side, market order
  ids unique and below the next one. (It needs the 64 bit counters not to be exhausted.)
\<close>

theorem add_keeps_view_ok:
  assumes "represents b A" "accepts A i" "in_moid i = next_market_oid b"
    and "view_ok (next_market_oid b) A" "next_market_oid b \<noteq> -1"
    and "list_all (\<lambda>s. o_priority s \<noteq> -1) (all_resting A)"
  shows "\<exists>b' A'. add (in_client i) (in_oid i) (in_ticker i) (in_side i) (in_price i) q b = Inr b'
    \<and> represents b' A' \<and> view_ok (next_market_oid b') A'"
proof -
  have "is_side (in_side i)" using assms(2) by (simp add: accepts_def)
  then have "view_ok (next_market_oid b + 1) (fst (add_spec i q A))"
    using assms(3-6) by (intro add_spec_view_ok) (simp_all add: list_all_iff)
  then show ?thesis using add_ok [OF assms(1-3), of q] unfolding add_order_def by metis
qed

theorem add_keeps_view_ok_witness:
  "\<exists>b b' A'. represents b demo_view \<and> add 3 4 0 BUY 102 8 b = Inr b' \<and> represents b' A'
    \<and> view_ok (next_market_oid b') A'"
proof -
  obtain b where b: "represents b demo_view" "next_market_oid b = 2" using demo_book by blast
  have "in_moid demo_in = next_market_oid b" using b(2) by (simp add: demo_in_def)
  from add_keeps_view_ok [OF b(1) demo_accepts this, of 8] show ?thesis
    using b demo_view_ok by (auto simp: demo_in_def demo_view_def demo_order_def all_resting_def)
qed

text \<open>
  C31. The market data of \<open>add\<close> is complete: a reader that knows the resting orders before,
  and applies the updates sent, knows the resting orders after.
\<close>

theorem add_updates_complete:
  assumes "represents b A" "accepts A i" "in_moid i = next_market_oid b"
    and "view_ok (next_market_oid b) A" "next_market_oid b \<noteq> -1"
    and "list_all (\<lambda>s. o_priority s \<noteq> -1) (all_resting A)"
  shows "\<exists>b' A' ms. add (in_client i) (in_oid i) (in_ticker i) (in_side i) (in_price i) q b = Inr b'
    \<and> represents b' A' \<and> sent b' = sent b @ ms \<and> fold mbo_apply (updates ms) (book_mbo A) = book_mbo A'"
proof -
  have "is_side (in_side i)" using assms(2) by (simp add: accepts_def)
  then have "fold mbo_apply (updates (snd (add_spec i q A))) (book_mbo A) = book_mbo (fst (add_spec i q A))"
    using assms(3-6) by (intro add_spec_replay) (simp_all add: list_all_iff)
  then show ?thesis using add_ok [OF assms(1-3), of q] unfolding add_order_def by metis
qed

theorem add_updates_complete_witness:
  "\<exists>b b' A' ms. represents b demo_view \<and> add 3 4 0 BUY 102 8 b = Inr b' \<and> represents b' A'
    \<and> sent b' = sent b @ ms \<and> fold mbo_apply (updates ms) [1 \<mapsto> (SELL, 101, 5, 1)] = book_mbo A'"
proof -
  obtain b where b: "represents b demo_view" "next_market_oid b = 2" using demo_book by blast
  have "in_moid demo_in = next_market_oid b" using b(2) by (simp add: demo_in_def)
  moreover have "book_mbo demo_view = [1 \<mapsto> (SELL, 101, 5, 1)]"
    by (simp add: book_mbo_def all_resting_def demo_view_def demo_order_def)
  ultimately show ?thesis
    using add_updates_complete [OF b(1) demo_accepts, of 8] b demo_view_ok
    by (auto simp: demo_in_def demo_view_def demo_order_def all_resting_def)
qed

end
