(* ===== verification/Matching_Engine.thy ===== *)
theory Matching_Engine
  imports Ome_Properties
begin

text \<open>
  \<open>exchange/orders/order_matching_engine.{h,cpp}\<close>: one order book per ticker, fed from
  the request queue, answering into the response queue and the market update queue. The
  worker loop \<open>run\<close> is the \<open>consume\<close> loop of \<open>LF_Queue\<close> over
  \<open>process_client_request\<close>, followed here until the request queue is empty (thread start
  and stop are in \<open>Lifecycle\<close>, the log is left out). The main theorem lifts the refinement of
  the books to whole runs: the books end up as \<open>run_spec\<close> says and both output queues hold
  exactly its messages in order; from it, the emitted updates of a ticker reconstruct its
  book.
\<close>

record matching_engine =
  order_book_for_ticker :: "ome_book list"
  tx_responses :: "ome_client_response lfqueue"
  tx_market_updates :: "ome_market_update lfqueue"

definition new_matching_engine :: "(nat \<Rightarrow> client_order_map) \<Rightarrow> ome_client_response lfqueue
    \<Rightarrow> ome_market_update lfqueue \<Rightarrow> matching_engine" where
  "new_matching_engine junk rq uq =
     \<lparr>order_book_for_ticker = map (\<lambda>t. new_ome_book (junk t) (of_nat t)) [0..<MAX_TICKERS],
      tx_responses = rq, tx_market_updates = uq\<rparr>"

definition send_client_response :: "ome_client_response \<Rightarrow> matching_engine \<Rightarrow> matching_engine" where
  "send_client_response r e = e\<lparr>tx_responses := enq r (tx_responses e)\<rparr>"

definition send_market_update :: "ome_market_update \<Rightarrow> matching_engine \<Rightarrow> matching_engine" where
  "send_market_update u e = e\<lparr>tx_market_updates := enq u (tx_market_updates e)\<rparr>"

text \<open>The book's calls back into the engine, performed in the order it made them.\<close>

definition dispatch :: "ome_msg list \<Rightarrow> matching_engine \<Rightarrow> matching_engine" where
  "dispatch ms e = fold (\<lambda>m. case m of Resp r \<Rightarrow> send_client_response r | Upd u \<Rightarrow> send_market_update u) ms e"

text \<open>\<open>order_book_for_ticker[t]->f(...)\<close>, the index unchecked.\<close>

definition on_book :: "ticker_id \<Rightarrow> (ome_book \<Rightarrow> ome_book res) \<Rightarrow> matching_engine \<Rightarrow> matching_engine res" where
  "on_book t f e =
     bindR (require Out_of_bounds (unat t < length (order_book_for_ticker e))) (\<lambda>_.
     bindR (f (order_book_for_ticker e ! unat t)) (\<lambda>b.
     Inr (dispatch (sent b)
       (e\<lparr>order_book_for_ticker := (order_book_for_ticker e)[unat t := b\<lparr>sent := []\<rparr>]\<rparr>))))"

definition process_client_request :: "ome_client_request \<Rightarrow> matching_engine \<Rightarrow> matching_engine res" where
  "process_client_request r e =
     (case rq_type r of
        REQ_NEW \<Rightarrow> on_book (rq_ticker_id r)
          (add (rq_client_id r) (rq_order_id r) (rq_ticker_id r) (rq_side r) (rq_price r) (rq_qty r)) e
      | REQ_CANCEL \<Rightarrow> on_book (rq_ticker_id r)
          (cancel (rq_client_id r) (rq_order_id r) (rq_ticker_id r)) e
      | REQ_INVALID \<Rightarrow> FATAL)"

text \<open>The worker loop until the request queue is empty.\<close>

definition run_engine :: "ome_client_request lfqueue \<Rightarrow> matching_engine
    \<Rightarrow> (ome_client_request lfqueue \<times> matching_engine) res" where
  "run_engine rx e = consume get_next_to_read increment_read_index (q_size rx)
     (\<lambda>e r. process_client_request r e) rx e"

subsection \<open>The specification of a run\<close>

type_synonym book_spec = "book_view \<times> order_id"

definition in_of :: "ome_client_request \<Rightarrow> order_id \<Rightarrow> incoming" where
  "in_of r n = \<lparr>in_ticker = rq_ticker_id r, in_client = rq_client_id r, in_side = rq_side r,
     in_oid = rq_order_id r, in_moid = n, in_price = rq_price r\<rparr>"

definition request_spec :: "ome_client_request \<Rightarrow> book_spec \<Rightarrow> book_spec \<times> ome_msg list" where
  "request_spec r S = (case S of (A, n) \<Rightarrow>
     if rq_type r = REQ_NEW
     then (case add_spec (in_of r n) (rq_qty r) A of (A', ms) \<Rightarrow> ((A', n + 1), ms))
     else (case cancel_spec (rq_client_id r) (rq_order_id r) (rq_ticker_id r) A of (A', ms) \<Rightarrow> ((A', n), ms)))"

definition valid_request :: "ome_client_request \<Rightarrow> book_spec \<Rightarrow> bool" where
  "valid_request r S \<longleftrightarrow> unat (rq_ticker_id r) < MAX_TICKERS \<and>
     (case rq_type r of
        REQ_NEW \<Rightarrow> accepts (fst S) (in_of r (snd S))
      | REQ_CANCEL \<Rightarrow> unat (rq_client_id r) < MAX_N_CLIENTS \<longrightarrow> unat (rq_order_id r) < MAX_ORDER_IDS
      | REQ_INVALID \<Rightarrow> False)"

fun run_spec :: "ome_client_request list \<Rightarrow> (nat \<Rightarrow> book_spec) \<Rightarrow> (nat \<Rightarrow> book_spec) \<times> ome_msg list" where
  "run_spec [] S = (S, [])"
| "run_spec (r # rs) S =
     (let t = unat (rq_ticker_id r) in
      case request_spec r (S t) of (B, ms) \<Rightarrow>
      case run_spec rs (S(t := B)) of (S', ms') \<Rightarrow> (S', ms @ ms'))"

fun valid_run :: "ome_client_request list \<Rightarrow> (nat \<Rightarrow> book_spec) \<Rightarrow> bool" where
  "valid_run [] S \<longleftrightarrow> True"
| "valid_run (r # rs) S \<longleftrightarrow>
     (let t = unat (rq_ticker_id r) in
      valid_request r (S t) \<and> valid_run rs (S(t := fst (request_spec r (S t)))))"

subsection \<open>The refinement\<close>

definition engine_ok :: "matching_engine \<Rightarrow> (nat \<Rightarrow> book_spec) \<Rightarrow> bool" where
  "engine_ok e S \<longleftrightarrow> length (order_book_for_ticker e) = MAX_TICKERS
     \<and> q_ok (tx_responses e) \<and> q_ok (tx_market_updates e)
     \<and> (\<forall>t < MAX_TICKERS. represents (order_book_for_ticker e ! t) (fst (S t))
          \<and> next_market_oid (order_book_for_ticker e ! t) = snd (S t)
          \<and> sent (order_book_for_ticker e ! t) = [])"

definition empty_books :: "nat \<Rightarrow> book_spec" where
  "empty_books = (\<lambda>_. (\<lambda>_. [], 1))"

lemma new_engine_ok:
  assumes "q_ok rq" "q_ok uq" "\<And>t c oid. in_range c oid \<Longrightarrow> junk t c oid = None"
  shows "engine_ok (new_matching_engine junk rq uq) empty_books"
  using assms
  by (auto simp: engine_ok_def new_matching_engine_def empty_books_def intro!: new_ome_book_ok)
    (simp_all add: new_ome_book_def)

text \<open>Room in both output queues for some messages.\<close>

definition has_room :: "matching_engine \<Rightarrow> ome_msg list \<Rightarrow> bool" where
  "has_room e ms \<longleftrightarrow> q_size (tx_responses e) + length (responses ms) \<le> q_cap (tx_responses e)
     \<and> q_size (tx_market_updates e) + length (updates ms) \<le> q_cap (tx_market_updates e)"

definition emitted :: "matching_engine \<Rightarrow> matching_engine \<Rightarrow> ome_msg list \<Rightarrow> bool" where
  "emitted e e' ms \<longleftrightarrow>
     q_list (tx_responses e') = q_list (tx_responses e) @ responses ms
   \<and> q_list (tx_market_updates e') = q_list (tx_market_updates e) @ updates ms
   \<and> q_cap (tx_responses e') = q_cap (tx_responses e)
   \<and> q_cap (tx_market_updates e') = q_cap (tx_market_updates e)"

lemma emitted_trans: "emitted e e1 ms \<Longrightarrow> emitted e1 e2 ns \<Longrightarrow> emitted e e2 (ms @ ns)"
  by (simp add: emitted_def)

lemma dispatch_queues:
  "tx_responses (dispatch ms e) = enq_all (responses ms) (tx_responses e)"
  "tx_market_updates (dispatch ms e) = enq_all (updates ms) (tx_market_updates e)"
  "order_book_for_ticker (dispatch ms e) = order_book_for_ticker e"
  by (induction ms arbitrary: e)
    (auto simp: dispatch_def enq_all_def send_client_response_def send_market_update_def split: ome_msg.splits)

lemma on_book_ok:
  assumes ok: "engine_ok e S" and t: "unat t < MAX_TICKERS" and room: "has_room e ms"
    and f: "\<And>b. represents b (fst (S (unat t))) \<Longrightarrow> next_market_oid b = snd (S (unat t)) \<Longrightarrow>
      \<exists>b'. f b = Inr b' \<and> represents b' A' \<and> sent b' = sent b @ ms \<and> next_market_oid b' = n'"
  shows "\<exists>e'. on_book t f e = Inr e' \<and> engine_ok e' (S(unat t := (A', n'))) \<and> emitted e e' ms"
proof -
  let ?t = "unat t" and ?b = "order_book_for_ticker e ! unat t"
  have b: "represents ?b (fst (S ?t))" "next_market_oid ?b = snd (S ?t)" "sent ?b = []"
    "length (order_book_for_ticker e) = MAX_TICKERS"
    using ok t by (simp_all add: engine_ok_def)
  obtain b' where b': "f ?b = Inr b'" "represents b' A'" "sent b' = ms" "next_market_oid b' = n'"
    using f [OF b(1,2)] b(3) by auto
  let ?b' = "b'\<lparr>sent := []\<rparr>"
  let ?e' = "dispatch ms (e\<lparr>order_book_for_ticker := (order_book_for_ticker e)[?t := ?b']\<rparr>)"
  obtain G where G: "ome_ok b' G" "\<forall>s. is_side s \<longrightarrow> A' s = side_view b' G s"
    using b'(2) by (auto simp: represents_def)
  have core: "same_core b' ?b'" by simp
  have "ome_ok ?b' G" using same_core_ome_ok [OF core] G(1) by simp
  moreover have "side_view ?b' G = side_view b' G"
    using same_coreD(7) [OF core] by (simp add: side_view_def fun_eq_iff)
  ultimately have rep: "represents ?b' A'" using G(2) by (auto simp: represents_def)
  have "on_book t f e = Inr ?e'" using b'(1,3) b(4) t by (simp add: on_book_def)
  moreover have q: "q_ok (tx_responses ?e') \<and> q_list (tx_responses ?e') = q_list (tx_responses e) @ responses ms
      \<and> q_cap (tx_responses ?e') = q_cap (tx_responses e)"
    "q_ok (tx_market_updates ?e') \<and> q_list (tx_market_updates ?e') = q_list (tx_market_updates e) @ updates ms
      \<and> q_cap (tx_market_updates ?e') = q_cap (tx_market_updates e)"
    using enq_all_ok [of "tx_responses e" "responses ms"] enq_all_ok [of "tx_market_updates e" "updates ms"]
      ok room by (simp_all add: dispatch_queues engine_ok_def has_room_def)
  moreover have "engine_ok ?e' (S(?t := (A', n')))"
    using ok q b(4) rep b'(4) by (auto simp: engine_ok_def dispatch_queues nth_list_update)
  ultimately show ?thesis by (auto simp: emitted_def)
qed

lemma process_ok:
  assumes ok: "engine_ok e S" and v: "valid_request r (S (unat (rq_ticker_id r)))"
    and spec: "request_spec r (S (unat (rq_ticker_id r))) = (B, ms)" and room: "has_room e ms"
  shows "\<exists>e'. process_client_request r e = Inr e' \<and> engine_ok e' (S(unat (rq_ticker_id r) := B))
    \<and> emitted e e' ms"
proof -
  let ?t = "unat (rq_ticker_id r)"
  obtain A n where S: "S ?t = (A, n)" by (cases "S ?t")
  have t: "?t < MAX_TICKERS" using v by (simp add: valid_request_def)
  show ?thesis
  proof (cases "rq_type r")
    case REQ_NEW
    then obtain A' where A': "add_spec (in_of r n) (rq_qty r) A = (A', ms)" "B = (A', n + 1)"
      using spec S by (auto simp: request_spec_def split: prod.splits)
    have acc: "accepts A (in_of r n)" using v REQ_NEW S by (simp add: valid_request_def)
    have "\<exists>b'. add (rq_client_id r) (rq_order_id r) (rq_ticker_id r) (rq_side r) (rq_price r) (rq_qty r) b = Inr b'
        \<and> represents b' A' \<and> sent b' = sent b @ ms \<and> next_market_oid b' = n + 1"
      if "represents b (fst (S ?t))" "next_market_oid b = snd (S ?t)" for b
    proof -
      have "represents b A" "in_moid (in_of r n) = next_market_oid b" using that S by (simp_all add: in_of_def)
      from add_ok [OF this(1) acc this(2), of "rq_qty r"] show ?thesis
        using A'(1) that(2) S by (auto simp: add_order_def in_of_def)
    qed
    from on_book_ok [OF ok t room this] show ?thesis
      using REQ_NEW A'(2) by (simp add: process_client_request_def)
  next
    case REQ_CANCEL
    then obtain A' where A': "cancel_spec (rq_client_id r) (rq_order_id r) (rq_ticker_id r) A = (A', ms)" "B = (A', n)"
      using spec S by (auto simp: request_spec_def split: prod.splits)
    have rng: "unat (rq_client_id r) < MAX_N_CLIENTS \<Longrightarrow> unat (rq_order_id r) < MAX_ORDER_IDS"
      using v REQ_CANCEL by (simp add: valid_request_def)
    have "\<exists>b'. cancel (rq_client_id r) (rq_order_id r) (rq_ticker_id r) b = Inr b'
        \<and> represents b' A' \<and> sent b' = sent b @ ms \<and> next_market_oid b' = n"
      if "represents b (fst (S ?t))" "next_market_oid b = snd (S ?t)" for b
      using cancel_ok [of b A "rq_client_id r" "rq_order_id r" "rq_ticker_id r"] rng A'(1) that S by auto
    from on_book_ok [OF ok t room this] show ?thesis
      using REQ_CANCEL A'(2) by (simp add: process_client_request_def)
  qed (use v in \<open>simp add: valid_request_def\<close>)
qed

text \<open>One request of a run, and what is left for the rest.\<close>

lemma run_step:
  assumes ok: "engine_ok e S" and v: "valid_run (r # rs) S" and spec: "run_spec (r # rs) S = (S', ms)"
    and room: "has_room e ms"
  obtains B ms1 ms2 e1 where "request_spec r (S (unat (rq_ticker_id r))) = (B, ms1)"
    "run_spec rs (S(unat (rq_ticker_id r) := B)) = (S', ms2)" "ms = ms1 @ ms2"
    "valid_request r (S (unat (rq_ticker_id r)))" "valid_run rs (S(unat (rq_ticker_id r) := B))"
    "process_client_request r e = Inr e1" "engine_ok e1 (S(unat (rq_ticker_id r) := B))" "emitted e e1 ms1"
    "has_room e1 ms2"
proof -
  let ?t = "unat (rq_ticker_id r)"
  obtain B ms1 where r: "request_spec r (S ?t) = (B, ms1)" by (cases "request_spec r (S ?t)")
  obtain ms2 where rest: "run_spec rs (S(?t := B)) = (S', ms2)" "ms = ms1 @ ms2"
    using spec r by (auto simp: Let_def split: prod.splits)
  have v': "valid_request r (S ?t)" "valid_run rs (S(?t := B))" using v r by (simp_all add: Let_def)
  have "has_room e ms1" using room rest(2) by (simp add: has_room_def)
  then obtain e1 where e1: "process_client_request r e = Inr e1" "engine_ok e1 (S(?t := B))" "emitted e e1 ms1"
    using process_ok [OF ok v'(1) r] by blast
  have "q_size (tx_responses e1) = q_size (tx_responses e) + length (responses ms1)"
    "q_size (tx_market_updates e1) = q_size (tx_market_updates e) + length (updates ms1)"
    using e1(3) length_q_list by (metis emitted_def length_append)+
  then have "has_room e1 ms2" using room rest(2) e1(3) by (simp add: has_room_def emitted_def)
  then show thesis by (rule that [OF r rest v' e1])
qed

lemma foldR_process_ok:
  assumes "engine_ok e S" "valid_run rs S" "run_spec rs S = (S', ms)" "has_room e ms"
  shows "\<exists>e'. foldR (\<lambda>e r. process_client_request r e) e rs = Inr e' \<and> engine_ok e' S' \<and> emitted e e' ms"
  using assms
proof (induction rs arbitrary: e S ms)
  case Nil
  then show ?case by (simp add: emitted_def)
next
  case (Cons r rs)
  let ?t = "unat (rq_ticker_id r)"
  obtain B ms1 ms2 e1 where r: "run_spec rs (S(?t := B)) = (S', ms2)" "ms = ms1 @ ms2"
    "valid_run rs (S(?t := B))" "process_client_request r e = Inr e1" "engine_ok e1 (S(?t := B))"
    "emitted e e1 ms1" "has_room e1 ms2"
    using run_step [OF Cons.prems] by metis
  obtain e2 where "foldR (\<lambda>e r. process_client_request r e) e1 rs = Inr e2" "engine_ok e2 S'" "emitted e1 e2 ms2"
    using Cons.IH [OF r(5,3,1,7)] by blast
  then show ?case using r(4) emitted_trans [OF r(6)] r(2) by auto
qed

text \<open>
  C3. A run of the matching engine over any sequence of requests the specification allows
  ends (no request stops the process and the loop does not spin), leaves the request queue
  empty, every book in the state the specification gives, and the two output queues with
  exactly the messages of the specification, in order.
\<close>

theorem run_engine_implements_spec:
  assumes "engine_ok e S" "q_ok rx" "valid_run (q_list rx) S" "run_spec (q_list rx) S = (S', ms)"
    and "has_room e ms"
  shows "\<exists>rx' e'. run_engine rx e = Inr (rx', e') \<and> q_list rx' = [] \<and> engine_ok e' S'
    \<and> q_list (tx_responses e') = q_list (tx_responses e) @ responses ms
    \<and> q_list (tx_market_updates e') = q_list (tx_market_updates e) @ updates ms"
proof -
  obtain e' where e': "foldR (\<lambda>e r. process_client_request r e) e (q_list rx) = Inr e'" "engine_ok e' S'"
    "emitted e e' ms" using foldR_process_ok [OF assms(1,3-5)] by blast
  then show ?thesis
    using lfq.consume_foldR [OF assms(2), of "q_size rx" "\<lambda>e r. process_client_request r e" e]
    by (auto simp: run_engine_def emitted_def)
qed

text \<open>The requests of the witnesses: a sell order and a buy order that takes part of it.\<close>

definition demo_requests :: "ome_client_request list" where
  "demo_requests =
    [\<lparr>rq_type = REQ_NEW, rq_client_id = 1, rq_ticker_id = 3, rq_order_id = 7, rq_side = SELL,
      rq_price = 101, rq_qty = 10\<rparr>,
     \<lparr>rq_type = REQ_NEW, rq_client_id = 2, rq_ticker_id = 3, rq_order_id = 8, rq_side = BUY,
      rq_price = 102, rq_qty = 4\<rparr>,
     \<lparr>rq_type = REQ_CANCEL, rq_client_id = 2, rq_ticker_id = 5, rq_order_id = 8, rq_side = BUY,
      rq_price = 102, rq_qty = 4\<rparr>]"

definition demo_rx :: "ome_client_request lfqueue" where
  "demo_rx = enq_all demo_requests (new_lfqueue 4 default_request)"

definition demo_engine :: matching_engine where
  "demo_engine = new_matching_engine (\<lambda>_ _ _. None) (new_lfqueue 8 default_response) (new_lfqueue 8 default_update)"

lemma demo_rx_ok: "q_ok demo_rx" "q_list demo_rx = demo_requests"
  using enq_all_ok [of "new_lfqueue 4 default_request" demo_requests]
  by (simp_all add: demo_rx_def demo_requests_def q_ok_new)

lemma demo_engine_ok: "engine_ok demo_engine empty_books"
  unfolding demo_engine_def by (rule new_engine_ok) (simp_all add: q_ok_new)

lemmas demo_run_simps = demo_requests_def empty_books_def request_spec_def in_of_def add_spec_def cancel_spec_def
  Let_def next_priority_spec_def new_order_spec_def insert_prio_def valid_request_def accepts_def
  in_range_def limit_defs all_resting_def view_prices_def is_order_of_def price_to_index_def fill_msgs_def
  worse_def

lemma demo_run:
  "valid_run demo_requests empty_books" "length (responses (snd (run_spec demo_requests empty_books))) = 5"
  "length (updates (snd (run_spec demo_requests empty_books))) = 3"
  "snd (fst (run_spec demo_requests empty_books) 3) = 3"
  by (simp_all add: demo_run_simps)

lemma demo_room: "has_room demo_engine (snd (run_spec demo_requests empty_books))"
  using demo_run by (simp add: has_room_def demo_engine_def new_matching_engine_def new_lfqueue_def q_cap_def)

theorem run_engine_implements_spec_witness:
  "\<exists>rx' e'. run_engine demo_rx demo_engine = Inr (rx', e') \<and> q_list rx' = []
    \<and> length (q_list (tx_responses e')) = 5 \<and> length (q_list (tx_market_updates e')) = 3"
proof -
  obtain S' ms where s: "run_spec demo_requests empty_books = (S', ms)" by (cases "run_spec demo_requests empty_books")
  from run_engine_implements_spec [OF demo_engine_ok demo_rx_ok(1), of S' ms] show ?thesis
    using demo_run demo_room s
    by (auto simp: demo_rx_ok(2) demo_engine_def new_matching_engine_def simp del: length_q_list)
qed

subsection \<open>The emitted market data\<close>

definition trading_ok :: "book_spec \<Rightarrow> bool" where
  "trading_ok S \<longleftrightarrow> (case S of (A, n) \<Rightarrow>
     view_ok n A \<and> 0 < n \<and> list_all (\<lambda>r. o_priority r < n) (all_resting A))"

lemma empty_trading_ok: "trading_ok (empty_books t)"
  by (simp add: trading_ok_def empty_books_def view_ok_def side_view_ok_def prioritised_def fifo_ok_def
      all_resting_def uncrossed_def)

lemma next_priority_le:
  assumes "list_all (\<lambda>r. o_priority r < n) rs" "0 < n"
  shows "next_priority_spec p rs \<le> n"
proof -
  have le: "x < n \<Longrightarrow> x + 1 \<le> n" for x :: priority
    by (metis inc_le)
  let ?ss = "filter (\<lambda>r. o_price r = p) rs"
  show ?thesis
  proof (cases "?ss = []")
    case True
    then have "next_priority_spec p rs = 1" unfolding next_priority_spec_def by simp
    then show ?thesis using le [of 0] assms(2) by simp
  next
    case False
    then have "next_priority_spec p rs = o_priority (last ?ss) + 1"
      unfolding next_priority_spec_def by (cases ?ss) simp_all
    moreover have "last ?ss \<in> set rs" using last_in_set [OF False] by simp
    ultimately show ?thesis using le assms(1) by (simp add: list_all_iff)
  qed
qed

lemma add_spec_trading_ok:
  assumes ok: "trading_ok (A, n)" and sd: "is_side (in_side i)" and i: "in_moid i = n" "n \<noteq> -1"
  shows "trading_ok (fst (add_spec i q A), n + 1)"
    and "fold mbo_apply (updates (snd (add_spec i q A))) (book_mbo A) = book_mbo (fst (add_spec i q A))"
proof -
  let ?sd = "in_side i" and ?op = "opposite (in_side i)" and ?p = "in_price i"
  have v: "view_ok n A" "0 < n" and pr: "\<forall>r \<in> set (all_resting A). o_priority r < n"
    using ok by (simp_all add: trading_ok_def list_all_iff)
  have nm: "\<forall>r \<in> set (all_resting A). o_priority r \<noteq> -1" using pr by (metis not_less word_order.extremum)
  show "fold mbo_apply (updates (snd (add_spec i q A))) (book_mbo A) = book_mbo (fst (add_spec i q A))"
    by (rule add_spec_replay [OF v(1) sd i nm])
  have v': "view_ok (n + 1) (fst (add_spec i q A))" by (rule add_spec_view_ok [OF v(1) sd i nm])
  obtain rem opp ms where m: "match_spec i q (A ?op) = (rem, opp, ms)" by (cases "match_spec i q (A ?op)")
  obtain k where k: "map noqty opp = map noqty (drop k (A ?op))" using match_suffix(1) [OF m] by blast
  have n1: "n < n + 1" "0 < n + 1" using word_add_one [OF i(2)] by (auto simp: word_less_nat_alt)
  have sub: "set (A s) \<subseteq> set (all_resting A)" if "is_side s" for s
    using that by (auto simp: all_resting_def is_side_def)
  have opp: "o_priority r < n" if "r \<in> set opp" for r
  proof -
    have "noqty r \<in> noqty ` set (drop k (A ?op))" using that k by (metis image_eqI list.set_map)
    then obtain s where s: "noqty r = noqty s" "s \<in> set (A ?op)" by (auto dest: in_set_dropD)
    then have "o_priority r = o_priority s" by (metis noqty_simps(4))
    then show ?thesis using s(2) pr sub [OF is_side_opposite] by auto
  qed
  have new: "next_priority_spec ?p (A ?sd) < n + 1"
  proof -
    have "list_all (\<lambda>r. o_priority r < n) (A ?sd)" using pr sub [OF sd] by (auto simp: list_all_iff)
    from next_priority_le [OF this v(2), of ?p] show ?thesis using n1(1) by (rule le_less_trans)
  qed
  have "o_priority r < n + 1" if "r \<in> set (all_resting (fst (add_spec i q A)))" for r
  proof -
    have "r \<in> set (fst (add_spec i q A) ?sd) \<or> r \<in> set (fst (add_spec i q A) ?op)"
      using that sd by (auto simp: all_resting_def is_side_def)
    then have "r \<in> set (A ?sd) \<or> r \<in> set opp \<or> r = new_order_spec i rem (next_priority_spec ?p (A ?sd))"
      using m by (cases "rem = 0") (auto simp: add_spec_def Let_def)
    then show ?thesis
      using new opp pr sub [OF sd] n1(1) by (auto simp: new_order_spec_def intro: less_trans)
  qed
  then show "trading_ok (fst (add_spec i q A), n + 1)"
    using v' n1(2) by (simp add: trading_ok_def list_all_iff)
qed

lemma cancel_spec_trading_ok: "trading_ok (A, n) \<Longrightarrow> trading_ok (fst (cancel_spec c oid tk A), n)"
  using cancel_spec_view_ok [of n A c oid tk]
  by (auto simp: trading_ok_def list_all_iff cancel_spec_def all_resting_def split: option.splits)

lemma match_spec_tickers: "match_spec i q rs = (q', rs', ms) \<Longrightarrow> \<forall>u \<in> set (updates ms). mu_ticker_id u = in_ticker i"
  by (induction rule: match_spec_induct) (auto simp: fill_msgs_def)

lemma request_spec_tickers:
  assumes "request_spec r S = (B, ms)" "u \<in> set (updates ms)"
  shows "mu_ticker_id u = rq_ticker_id r"
proof (cases "rq_type r = REQ_NEW")
  case True
  obtain A n where S: "S = (A, n)" by (cases S)
  obtain rem opp ms1 where m: "match_spec (in_of r n) (rq_qty r) (A (opposite (rq_side r))) = (rem, opp, ms1)"
    by (cases "match_spec (in_of r n) (rq_qty r) (A (opposite (rq_side r)))")
  then show ?thesis
    using assms True match_spec_tickers [OF m]
    by (cases "rem = 0") (auto simp: request_spec_def S add_spec_def in_of_def Let_def)
next
  case False
  then show ?thesis
    using assms by (auto simp: request_spec_def cancel_spec_def split: prod.splits option.splits)
qed

lemma process_replay:
  assumes ok: "engine_ok e S" and v: "valid_request r (S t)" and t: "t = unat (rq_ticker_id r)"
    and spec: "request_spec r (S t) = (B, ms)" and tr: "trading_ok (S t)"
    and bound: "Suc (unat (snd (S t))) < 2 ^ 64"
  shows "trading_ok B" "unat (snd B) \<le> Suc (unat (snd (S t)))"
    "fold mbo_apply (updates ms) (book_mbo (fst (S t))) = book_mbo (fst B)"
proof -
  obtain A n where S: "S t = (A, n)" by (cases "S t")
  have n: "n \<noteq> -1" using bound S by (auto simp: unsigned_minus_1_eq_mask mask_eq_exp_minus_1)
  have "represents (order_book_for_ticker e ! t) (fst (S t))"
    using ok v unfolding t engine_ok_def valid_request_def by blast
  then have rep: "represents (order_book_for_ticker e ! t) A" using S by simp
  have "trading_ok B \<and> unat (snd B) \<le> Suc (unat (snd (S t)))
    \<and> fold mbo_apply (updates ms) (book_mbo (fst (S t))) = book_mbo (fst B)"
  proof (cases "rq_type r = REQ_NEW")
    case True
    have sd: "is_side (in_side (in_of r n))" using v True S by (simp add: valid_request_def accepts_def)
    have "in_moid (in_of r n) = n" by (simp add: in_of_def)
    note add = add_spec_trading_ok [OF tr [unfolded S] sd this n, of "rq_qty r"]
    show ?thesis
      using add spec True S word_add_one(1) [OF n] by (auto simp: request_spec_def split: prod.splits)
  next
    case False
    have d: "distinct (map o_market_oid (all_resting A))" using tr S by (simp add: trading_ok_def view_ok_def)
    from cancel_spec_replay [OF rep d, of "rq_client_id r" "rq_order_id r" "rq_ticker_id r"]
      cancel_spec_trading_ok [OF tr [unfolded S], of "rq_client_id r" "rq_order_id r" "rq_ticker_id r"]
    show ?thesis using spec False S by (auto simp: request_spec_def split: prod.splits)
  qed
  then show "trading_ok B" "unat (snd B) \<le> Suc (unat (snd (S t)))"
    "fold mbo_apply (updates ms) (book_mbo (fst (S t))) = book_mbo (fst B)" by simp_all
qed

definition for_ticker :: "nat \<Rightarrow> ome_market_update list \<Rightarrow> ome_market_update list" where
  "for_ticker t us = filter (\<lambda>u. unat (mu_ticker_id u) = t) us"

lemma for_ticker_simps [simp]:
  "for_ticker t [] = []" "for_ticker t (us @ vs) = for_ticker t us @ for_ticker t vs"
  by (simp_all add: for_ticker_def)

lemma for_ticker_request:
  assumes "request_spec r S = (B, ms)"
  shows "for_ticker t (updates ms) = (if t = unat (rq_ticker_id r) then updates ms else [])"
  using request_spec_tickers [OF assms] by (auto simp: for_ticker_def filter_empty_conv intro: filter_True)

text \<open>The market order ids of the rest of a run stay below a bound that has room for them.\<close>

lemma run_bound_step:
  assumes "\<forall>t. trading_ok (S t) \<and> unat (snd (S t)) + length (r # rs) < N"
    and "trading_ok B" "unat (snd B) \<le> Suc (unat (snd (S t0)))"
  shows "\<forall>t. trading_ok ((S(t0 := B)) t) \<and> unat (snd ((S(t0 := B)) t)) + length rs < N"
proof
  fix t
  have b: "unat (snd (S t)) + Suc (length rs) < N" for t using assms(1) by simp
  have "unat (snd B) + length rs < N" "unat (snd (S t)) + length rs < N"
    using b [of t0] b [of t] assms(3) by linarith+
  then show "trading_ok ((S(t0 := B)) t) \<and> unat (snd ((S(t0 := B)) t)) + length rs < N"
    using assms(1,2) by simp
qed

lemma run_replay:
  assumes "engine_ok e S" "valid_run rs S" "run_spec rs S = (S', ms)" "has_room e ms"
    and "\<forall>t. trading_ok (S t) \<and> unat (snd (S t)) + length rs < 2 ^ 64"
  shows "\<forall>t. trading_ok (S' t)
    \<and> fold mbo_apply (for_ticker t (updates ms)) (book_mbo (fst (S t))) = book_mbo (fst (S' t))"
  using assms
proof (induction rs arbitrary: e S ms)
  case (Cons r rs)
  let ?t = "unat (rq_ticker_id r)"
  obtain B ms1 ms2 e1 where r: "request_spec r (S ?t) = (B, ms1)" and rest: "run_spec rs (S(?t := B)) = (S', ms2)"
    "ms = ms1 @ ms2" and v: "valid_request r (S ?t)" "valid_run rs (S(?t := B))"
    and e1: "engine_ok e1 (S(?t := B))" "has_room e1 ms2"
    using run_step [OF Cons.prems(1-4)] by metis
  have tr: "trading_ok (S ?t)" and bound: "unat (snd (S ?t)) + Suc (length rs) < 2 ^ 64"
    using spec [OF Cons.prems(5), of ?t] by simp_all
  have b1: "Suc (unat (snd (S ?t))) < 2 ^ 64" using bound by linarith
  note rep = process_replay [OF Cons.prems(1) v(1) refl r tr b1]
  note ih = Cons.IH [OF e1(1) v(2) rest(1) e1(2) run_bound_step [OF Cons.prems(5) rep(1,2)]]
  show ?case
  proof (intro allI conjI)
    fix t
    show "trading_ok (S' t)" using ih by blast
    have "fold mbo_apply (for_ticker t (updates ms)) (book_mbo (fst (S t)))
        = fold mbo_apply (for_ticker t (updates ms2)) (fold mbo_apply (for_ticker t (updates ms1)) (book_mbo (fst (S t))))"
      by (simp add: rest(2))
    also have "fold mbo_apply (for_ticker t (updates ms1)) (book_mbo (fst (S t))) = book_mbo (fst ((S(?t := B)) t))"
      using rep(3) by (simp add: for_ticker_request [OF r])
    finally show "fold mbo_apply (for_ticker t (updates ms)) (book_mbo (fst (S t))) = book_mbo (fst (S' t))"
      using ih by simp
  qed
qed simp

text \<open>
  C17. The market data stream of a run from empty books is complete and correct: for every
  ticker, a reader that starts with nothing and applies the updates of that ticker in the
  order they were queued knows exactly the resting orders of the book (each with its side,
  price, open quantity and priority), and the book is uncrossed, sorted and in time order.
\<close>

theorem run_engine_market_data:
  assumes "engine_ok e empty_books" "q_ok rx" "valid_run (q_list rx) empty_books"
    and "has_room e (snd (run_spec (q_list rx) empty_books))" "Suc (q_size rx) < 2 ^ 64"
    and "q_list (tx_market_updates e) = []" "t < MAX_TICKERS"
  shows "\<exists>rx' e' A. run_engine rx e = Inr (rx', e') \<and> represents (order_book_for_ticker e' ! t) A
    \<and> view_ok (next_market_oid (order_book_for_ticker e' ! t)) A
    \<and> fold mbo_apply (for_ticker t (q_list (tx_market_updates e'))) Map.empty = book_mbo A"
proof -
  obtain S' ms where s: "run_spec (q_list rx) empty_books = (S', ms)" by (cases "run_spec (q_list rx) empty_books")
  have room: "has_room e ms" using assms(4) s by simp
  obtain e' where e': "foldR (\<lambda>e r. process_client_request r e) e (q_list rx) = Inr e'" "engine_ok e' S'"
    "emitted e e' ms" using foldR_process_ok [OF assms(1,3) s room] by blast
  obtain rx' where run: "run_engine rx e = Inr (rx', e')"
    using lfq.consume_foldR [OF assms(2), of "q_size rx" "\<lambda>e r. process_client_request r e" e] e'(1)
    by (auto simp: run_engine_def)
  have "\<forall>t. trading_ok (empty_books t) \<and> unat (snd (empty_books t)) + length (q_list rx) < 2 ^ 64"
    using empty_trading_ok assms(5) by (simp add: empty_books_def)
  from run_replay [OF assms(1,3) s room this]
  have "trading_ok (S' t)" "fold mbo_apply (for_ticker t (updates ms)) Map.empty = book_mbo (fst (S' t))"
    by (simp_all add: empty_books_def book_mbo_def all_resting_def)
  moreover have "represents (order_book_for_ticker e' ! t) (fst (S' t))"
    "next_market_oid (order_book_for_ticker e' ! t) = snd (S' t)"
    using e'(2) assms(7) by (simp_all add: engine_ok_def)
  ultimately show ?thesis
    using run e'(3) assms(6)
    by (intro exI [of _ rx'] exI [of _ e'] exI [of _ "fst (S' t)"])
      (auto simp: emitted_def trading_ok_def)
qed

theorem run_engine_market_data_witness:
  "\<exists>rx' e' A. run_engine demo_rx demo_engine = Inr (rx', e') \<and> represents (order_book_for_ticker e' ! 3) A
    \<and> fold mbo_apply (for_ticker 3 (q_list (tx_market_updates e'))) Map.empty = book_mbo A"
proof -
  have "q_list (tx_market_updates demo_engine) = []" by (simp add: demo_engine_def new_matching_engine_def)
  moreover have "Suc (q_size demo_rx) < 2 ^ 64"
    using length_q_list [of demo_rx] demo_rx_ok(2) by (simp add: demo_requests_def)
  ultimately show ?thesis
    using run_engine_market_data [OF demo_engine_ok demo_rx_ok(1), of 3] demo_run(1) demo_room
    by (auto simp: demo_rx_ok(2) limit_defs)
qed

text \<open>
  A request of a client can stop the process of the exchange: an invalid type reaches
  \<open>FATAL\<close>, a ticker id beyond the limit indexes the array of books out of bounds, and a
  \<open>CANCEL\<close> with an order id beyond the limit of the client's table throws in a function that
  is \<open>noexcept\<close>, although it is meant to be rejected. Nothing before the engine checks these
  fields.
\<close>

theorem process_request_errors:
  "(rq_type r = REQ_INVALID \<longrightarrow> process_client_request r e = Inl Fatal)
   \<and> (rq_type r \<noteq> REQ_INVALID \<and> length (order_book_for_ticker e) \<le> unat (rq_ticker_id r)
       \<longrightarrow> process_client_request r e = Inl Out_of_bounds)
   \<and> (rq_type r = REQ_CANCEL \<and> unat (rq_ticker_id r) < length (order_book_for_ticker e)
        \<and> unat (rq_client_id r) < MAX_N_CLIENTS \<and> MAX_ORDER_IDS \<le> unat (rq_order_id r)
       \<longrightarrow> process_client_request r e = Inl Out_of_range)"
  by (cases "rq_type r") (auto simp: process_client_request_def on_book_def FATAL_def cancel_def)

theorem process_request_errors_witness:
  "process_client_request default_request demo_engine = Inl Fatal
   \<and> process_client_request (default_request\<lparr>rq_type := REQ_NEW, rq_ticker_id := 8\<rparr>) demo_engine = Inl Out_of_bounds
   \<and> process_client_request (default_request\<lparr>rq_type := REQ_CANCEL, rq_ticker_id := 3, rq_client_id := 1, rq_order_id := 2000000\<rparr>)
       demo_engine = Inl Out_of_range"
  using process_request_errors [of default_request demo_engine]
    process_request_errors [of "default_request\<lparr>rq_type := REQ_NEW, rq_ticker_id := 8\<rparr>" demo_engine]
    process_request_errors [of "default_request\<lparr>rq_type := REQ_CANCEL, rq_ticker_id := 3, rq_client_id := 1, rq_order_id := 2000000\<rparr>" demo_engine]
  by (simp add: default_request_def demo_engine_def new_matching_engine_def limit_defs)

end
