(* ===== verification/Te_Book.thy ===== *)
theory Te_Book
  imports Level_Orders Messages
begin

text \<open>
  The client's order book: \<open>client/orders/te_order.h\<close> and \<open>te_order_book.{h,cpp}\<close>. It is
  the level book of \<open>Price_Levels\<close> with orders found by their market order id, driven by
  the exchange's market updates, and with the best bid and offer (BBO) kept beside it. The
  calls into the trading engine (\<open>on_trade_update\<close>, \<open>on_order_book_update\<close>) are recorded
  in order in the field \<open>notified\<close>; \<open>Trading_Engine\<close> acts on them.
\<close>

subsection \<open>Orders, price levels and the BBO\<close>

record te_order = order_node +
  t_id :: order_id

definition default_te_order :: te_order where
  "default_te_order = \<lparr>o_side = SIDE_INVALID, o_price = Price_INVALID, o_qty = Qty_INVALID,
     o_priority = Priority_INVALID, o_prev = None, o_next = None, t_id = OrderID_INVALID\<rparr>"

record bbo =
  bbo_bid :: price
  bbo_ask :: price
  bbo_bid_qty :: qty
  bbo_ask_qty :: qty

definition default_bbo :: bbo where
  "default_bbo = \<lparr>bbo_bid = Price_INVALID, bbo_ask = Price_INVALID, bbo_bid_qty = Qty_INVALID,
     bbo_ask_qty = Qty_INVALID\<rparr>"

definition bbo_to_str :: "bbo \<Rightarrow> string" where
  "bbo_to_str o' = ''<BBO>[''
     @ numeric_to_str (bbo_bid_qty o') @ ''@'' @ price_to_str (bbo_bid o')
     @ '' x ''
     @ numeric_to_str (bbo_ask_qty o') @ ''@'' @ price_to_str (bbo_ask o')
     @ '']''"

subsection \<open>The book\<close>

datatype te_note = Trade_Update ome_market_update | Book_Update ticker_id price side

record te_book = "unit te_order_ext level_book" +
  tb_ticker :: ticker_id
  has_engine :: bool
  id_to_order :: "nat \<Rightarrow> ptr"
  book_bbo :: bbo
  notified :: "te_note list"

definition new_te_book :: "ticker_id \<Rightarrow> te_book" where
  "new_te_book t = \<lparr>orders_at_price_pool = new_pool MAX_PRICE_LEVELS default_level,
     bids_by_price = None, asks_by_price = None, map_price_to_price_level = (\<lambda>_. None),
     order_pool = new_pool MAX_ORDER_IDS default_te_order, tb_ticker = t, has_engine = False,
     id_to_order = (\<lambda>_. None), book_bbo = default_bbo, notified = []\<rparr>"

text \<open>The strings of an order and of a price level, their links read in the book.\<close>

definition te_order_to_str :: "te_book \<Rightarrow> addr \<Rightarrow> string" where
  "te_order_to_str b a = (let r = ord b a;
       id_of = (\<lambda>p. case p of None \<Rightarrow> OrderID_INVALID | Some c \<Rightarrow> t_id (ord b c)) in
     ''<TEOrder>'' @ ''['' @ ''id: '' @ numeric_to_str (t_id r)
     @ '', side: '' @ side_to_str (o_side r)
     @ '', price: '' @ price_to_str (o_price r)
     @ '', qty: '' @ numeric_to_str (o_qty r)
     @ '', priority: '' @ numeric_to_str (o_priority r)
     @ '', prev: '' @ numeric_to_str (id_of (o_prev r))
     @ '', next: '' @ numeric_to_str (id_of (o_next r)) @ '']'')"

definition te_level_to_str :: "te_book \<Rightarrow> addr \<Rightarrow> string" where
  "te_level_to_str b a = (let l = lev b a;
       price_of = (\<lambda>p. case p of None \<Rightarrow> Price_INVALID | Some c \<Rightarrow> l_price (lev b c)) in
     ''<TEOrdersAtPrice>['' @ ''side: '' @ side_to_str (l_side l)
     @ '', price: '' @ price_to_str (l_price l)
     @ '', order_0: '' @ (case l_order_0 l of Some c \<Rightarrow> te_order_to_str b c | None \<Rightarrow> ''NULL'')
     @ '', prev: '' @ price_to_str (price_of (l_prev l))
     @ '', next: '' @ price_to_str (price_of (l_next l)) @ '']'')"

definition set_trading_engine :: "bool \<Rightarrow> te_book \<Rightarrow> te_book" where
  "set_trading_engine e b = b\<lparr>has_engine := e\<rparr>"

definition notify :: "te_note \<Rightarrow> te_book \<Rightarrow> te_book" where
  "notify n b = (if has_engine b then b\<lparr>notified := notified b @ [n]\<rparr> else b)"

subsection \<open>Orders in and out of the book\<close>

text \<open>\<open>id_to_order.at(id)\<close>, read and written.\<close>

definition order_at :: "te_book \<Rightarrow> order_id \<Rightarrow> ptr res" where
  "order_at b oid = bindR (require Out_of_range (unat oid < MAX_ORDER_IDS)) (\<lambda>_.
     Inr (id_to_order b (unat oid)))"

definition set_order_at :: "order_id \<Rightarrow> ptr \<Rightarrow> te_book \<Rightarrow> te_book res" where
  "set_order_at oid p b = bindR (require Out_of_range (unat oid < MAX_ORDER_IDS)) (\<lambda>_.
     Inr (b\<lparr>id_to_order := (id_to_order b)(unat oid := p)\<rparr>))"

definition te_add_order :: "te_book \<Rightarrow> addr \<Rightarrow> te_book res" where
  "te_add_order b a = bindR (link_order b a) (\<lambda>b1. set_order_at (t_id (ord b1 a)) (Some a) b1)"

definition te_remove_order :: "te_book \<Rightarrow> addr \<Rightarrow> te_book res" where
  "te_remove_order b a =
     bindR (unlink_order b a) (\<lambda>b1.
     bindR (set_order_at (t_id (ord b1 a)) None b1) (\<lambda>b2.
     bindR (deallocate (order_pool b2) a) (\<lambda>op.
     Inr (b2\<lparr>order_pool := op\<rparr>))))"

subsection \<open>\<open>clear_entire_book\<close>\<close>

text \<open>The loop over the order table.\<close>

definition free_orders :: "ptr list \<Rightarrow> te_book \<Rightarrow> te_book res" where
  "free_orders ps b = foldR (\<lambda>b p. case p of None \<Rightarrow> Inr b
       | Some a \<Rightarrow> bindR (deallocate (order_pool b) a) (\<lambda>op. Inr (b\<lparr>order_pool := op\<rparr>))) b ps"

text \<open>
  The loop over a ring of price levels from \<open>best->next\<close> until it is back at \<open>best\<close>: a level
  is read after it has been given back to the pool. The fuel is the size of the pool.
\<close>

fun free_levels :: "nat \<Rightarrow> addr \<Rightarrow> ptr \<Rightarrow> te_book \<Rightarrow> te_book res" where
  "free_levels fuel best p b =
     (if p = Some best then Inr b
      else (case fuel of 0 \<Rightarrow> Inl Diverges
        | Suc f \<Rightarrow>
            bindR (deref p) (\<lambda>a.
            bindR (deallocate (orders_at_price_pool b) a) (\<lambda>lp.
            free_levels f best (l_next (lev b a)) (b\<lparr>orders_at_price_pool := lp\<rparr>)))))"

declare free_levels.simps [simp del]

definition free_side :: "ptr \<Rightarrow> te_book \<Rightarrow> te_book res" where
  "free_side best b = (case best of None \<Rightarrow> Inr b
     | Some l \<Rightarrow>
         bindR (free_levels (n_blocks (orders_at_price_pool b)) l (l_next (lev b l)) b) (\<lambda>b1.
         bindR (deallocate (orders_at_price_pool b1) l) (\<lambda>lp.
         Inr (b1\<lparr>orders_at_price_pool := lp\<rparr>))))"

definition clear_entire_book :: "te_book \<Rightarrow> te_book res" where
  "clear_entire_book b =
     bindR (free_orders (map (id_to_order b) [0..<MAX_ORDER_IDS]) b) (\<lambda>b1.
     let b2 = b1\<lparr>id_to_order := (\<lambda>_. None)\<rparr> in
     bindR (free_side (bids_by_price b2) b2) (\<lambda>b3.
     bindR (free_side (asks_by_price b3) b3) (\<lambda>b4.
     Inr (b4\<lparr>bids_by_price := None, asks_by_price := None\<rparr>))))"

subsection \<open>\<open>update_bbo\<close>\<close>

text \<open>
  The loop that adds up the quantities of a level, from \<open>order_0->next\<close> until it is back at
  \<open>order_0\<close>; the 32 bit sum wraps. The fuel is the size of the order pool.
\<close>

fun sum_level :: "nat \<Rightarrow> ('o, 'z) level_book_scheme \<Rightarrow> addr \<Rightarrow> ptr \<Rightarrow> qty \<Rightarrow> qty res" where
  "sum_level fuel b first p acc =
     (if p = Some first then Inr acc
      else (case fuel of 0 \<Rightarrow> Inl Diverges
        | Suc f \<Rightarrow> bindR (deref p) (\<lambda>a. sum_level f b first (o_next (ord b a)) (acc + o_qty (ord b a)))))"

declare sum_level.simps [simp del]

text \<open>The best price of a side and the quantity there.\<close>

definition best_offer :: "('o, 'z) level_book_scheme \<Rightarrow> ptr \<Rightarrow> (price \<times> qty) res" where
  "best_offer b best = (case best of
       None \<Rightarrow> Inr (Price_INVALID, Qty_INVALID)
     | Some l \<Rightarrow>
         bindR (deref (l_order_0 (lev b l))) (\<lambda>first.
         bindR (sum_level (n_blocks (order_pool b)) b first (o_next (ord b first)) (o_qty (ord b first)))
           (\<lambda>q. Inr (l_price (lev b l), q))))"

definition update_bbo :: "bool \<Rightarrow> bool \<Rightarrow> te_book \<Rightarrow> te_book res" where
  "update_bbo should_update_bid should_update_ask b =
     bindR (if should_update_bid
            then bindR (best_offer b (bids_by_price b)) (\<lambda>(p, q).
                 Inr (b\<lparr>book_bbo := (book_bbo b)\<lparr>bbo_bid := p, bbo_bid_qty := q\<rparr>\<rparr>))
            else Inr b) (\<lambda>b1.
     if should_update_ask
     then bindR (best_offer b1 (asks_by_price b1)) (\<lambda>(p, q).
          Inr (b1\<lparr>book_bbo := (book_bbo b1)\<lparr>bbo_ask := p, bbo_ask_qty := q\<rparr>\<rparr>))
     else Inr b1)"

subsection \<open>\<open>on_market_update\<close>\<close>

text \<open>The effect of the update on the orders (the \<open>switch\<close> but for \<open>TRADE\<close>).\<close>

definition te_apply :: "ome_market_update \<Rightarrow> te_book \<Rightarrow> te_book res" where
  "te_apply u b = (case mu_type u of
       UPD_ADD \<Rightarrow>
         bindR (allocate (order_pool b)
                  \<lparr>o_side = mu_side u, o_price = mu_price u, o_qty = mu_qty u,
                   o_priority = mu_priority u, o_prev = None, o_next = None, t_id = mu_order_id u\<rparr>) (\<lambda>(a, op).
         te_add_order (b\<lparr>order_pool := op\<rparr>) a)
     | UPD_MODIFY \<Rightarrow>
         bindR (order_at b (mu_order_id u)) (\<lambda>p.
         bindR (deref p) (\<lambda>a.
         Inr (set_order a (\<lambda>r. r\<lparr>o_qty := mu_qty u\<rparr>) b)))
     | UPD_CANCEL \<Rightarrow>
         bindR (order_at b (mu_order_id u)) (\<lambda>p.
         bindR (deref p) (\<lambda>a.
         te_remove_order b a))
     | UPD_CLEAR \<Rightarrow> clear_entire_book b
     | _ \<Rightarrow> Inr b)"

definition bid_is_updated :: "ome_market_update \<Rightarrow> te_book \<Rightarrow> bool" where
  "bid_is_updated u b = (case bids_by_price b of None \<Rightarrow> False
     | Some l \<Rightarrow> mu_side u = BUY \<and> sint (l_price (lev b l)) \<le> sint (mu_price u))"

definition ask_is_updated :: "ome_market_update \<Rightarrow> te_book \<Rightarrow> bool" where
  "ask_is_updated u b = (case asks_by_price b of None \<Rightarrow> False
     | Some l \<Rightarrow> mu_side u = SELL \<and> sint (mu_price u) \<le> sint (l_price (lev b l)))"

definition te_on_market_update :: "ome_market_update \<Rightarrow> te_book \<Rightarrow> te_book res" where
  "te_on_market_update u b =
     (if mu_type u = UPD_TRADE then Inr (notify (Trade_Update u) b)
      else
        bindR (te_apply u b) (\<lambda>b1.
        bindR (update_bbo (bid_is_updated u b) (ask_is_updated u b) b1) (\<lambda>b2.
        Inr (notify (Book_Update (mu_ticker_id u) (mu_price u) (mu_side u)) b2))))"

end
