(* ===== verification/Te_Refinement.thy ===== *)
theory Te_Refinement
  imports Te_Book
begin

text \<open>
  The client's book against an abstract one: each side is the list of its orders in
  price-time priority, and a market update has the obvious effect on the lists
  (\<open>te_apply_spec\<close>). \<open>te_ok b G\<close> is the invariant of the pointer-level book with ghost
  description \<open>G\<close>, \<open>te_represents b A\<close> says that it stands for the lists \<open>A\<close>. The lemmas
  show that \<open>te_apply\<close> and \<open>update_bbo\<close> return and do what the lists say, under the limits
  \<open>te_accepts\<close> collects.
\<close>

subsection \<open>The invariant\<close>

definition ids_ok :: "te_book \<Rightarrow> addr set \<Rightarrow> bool" where
  "ids_ok b S \<longleftrightarrow> (\<forall>a \<in> S. unat (t_id (ord b a)) < MAX_ORDER_IDS)
     \<and> (\<forall>i a. id_to_order b i = Some a \<longleftrightarrow> a \<in> S \<and> unat (t_id (ord b a)) = i)"

definition te_ok :: "te_book \<Rightarrow> ghost \<Rightarrow> bool" where
  "te_ok b G \<longleftrightarrow> book_ok b G {} {} \<and> ids_ok b (all_orders G)
     \<and> n_blocks (orders_at_price_pool b) = MAX_PRICE_LEVELS
     \<and> n_blocks (order_pool b) = MAX_ORDER_IDS"

type_synonym te_view = "side \<Rightarrow> te_order list"

definition te_side_view :: "te_book \<Rightarrow> ghost \<Rightarrow> te_view" where
  "te_side_view b G sd = map (\<lambda>a. odata (ord b a)) (queue (G sd))"

definition te_represents :: "te_book \<Rightarrow> te_view \<Rightarrow> bool" where
  "te_represents b A \<longleftrightarrow> (\<exists>G. te_ok b G \<and> (\<forall>s. is_side s \<longrightarrow> A s = te_side_view b G s))"

definition te_resting :: "te_view \<Rightarrow> te_order list" where
  "te_resting A = A BUY @ A SELL"

subsection \<open>The specification\<close>

definition te_of_update :: "ome_market_update \<Rightarrow> te_order" where
  "te_of_update u = \<lparr>o_side = mu_side u, o_price = mu_price u, o_qty = mu_qty u,
     o_priority = mu_priority u, o_prev = None, o_next = None, t_id = mu_order_id u\<rparr>"

definition te_apply_spec :: "ome_market_update \<Rightarrow> te_view \<Rightarrow> te_view" where
  "te_apply_spec u A = (case mu_type u of
       UPD_ADD \<Rightarrow> A(mu_side u := insert_prio (mu_side u) o_price (mu_price u) (te_of_update u) (A (mu_side u)))
     | UPD_MODIFY \<Rightarrow> (\<lambda>s. map (\<lambda>r. if t_id r = mu_order_id u then r\<lparr>o_qty := mu_qty u\<rparr> else r) (A s))
     | UPD_CANCEL \<Rightarrow> (\<lambda>s. filter (\<lambda>r. t_id r \<noteq> mu_order_id u) (A s))
     | UPD_CLEAR \<Rightarrow> (\<lambda>_. [])
     | _ \<Rightarrow> A)"

text \<open>
  The updates the code can take: an order to add has a real side, an unused id inside the
  table, no order of another price or side in the slot of its price and room in both pools; an
  order to change or cancel is in the book. \<open>CLEAR\<close> is taken only by an empty book.
\<close>

definition te_accepts :: "te_view \<Rightarrow> ome_market_update \<Rightarrow> bool" where
  "te_accepts A u \<longleftrightarrow> (case mu_type u of
       UPD_ADD \<Rightarrow> is_side (mu_side u) \<and> unat (mu_order_id u) < MAX_ORDER_IDS
         \<and> list_all (\<lambda>r. t_id r \<noteq> mu_order_id u) (te_resting A)
         \<and> list_all (\<lambda>r. price_to_index (o_price r) = price_to_index (mu_price u) \<longrightarrow>
               o_price r = mu_price u \<and> o_side r = mu_side u) (te_resting A)
         \<and> (mu_price u \<in> o_price ` set (te_resting A)
             \<or> Suc (card (o_price ` set (te_resting A))) < MAX_PRICE_LEVELS)
         \<and> Suc (length (te_resting A)) < MAX_ORDER_IDS
     | UPD_MODIFY \<Rightarrow> mu_order_id u \<in> t_id ` set (te_resting A)
     | UPD_CANCEL \<Rightarrow> mu_order_id u \<in> t_id ` set (te_resting A)
     | UPD_CLEAR \<Rightarrow> te_resting A = []
     | _ \<Rightarrow> True)"

subsection \<open>Frame rules\<close>

definition te_same :: "te_book \<Rightarrow> te_book \<Rightarrow> bool" where
  "te_same b b' \<longleftrightarrow> level_book.truncate b' = level_book.truncate b"

lemma te_sameD:
  assumes "te_same b b'"
  shows "orders_at_price_pool b' = orders_at_price_pool b" "order_pool b' = order_pool b"
    "bids_by_price b' = bids_by_price b" "asks_by_price b' = asks_by_price b"
    "map_price_to_price_level b' = map_price_to_price_level b"
    "lev b' = lev b" "ord b' = ord b" "best_levels s b' = best_levels s b"
proof -
  show "orders_at_price_pool b' = orders_at_price_pool b" "order_pool b' = order_pool b"
    "bids_by_price b' = bids_by_price b" "asks_by_price b' = asks_by_price b"
    "map_price_to_price_level b' = map_price_to_price_level b"
    using assms by (simp_all add: te_same_def level_book.truncate_def)
  then show "lev b' = lev b" "ord b' = ord b" "best_levels s b' = best_levels s b"
    by (simp_all add: lev_def ord_def best_levels_def fun_eq_iff)
qed

lemma te_same_updates [simp]:
  "te_same b (b\<lparr>id_to_order := m\<rparr>)" "te_same b (b\<lparr>book_bbo := o'\<rparr>)" "te_same b (b\<lparr>notified := ns\<rparr>)"
  "te_same b (notify n b)" "te_same b b"
  by (simp_all add: te_same_def level_book.truncate_def notify_def)

lemma te_same_book_ok:
  assumes "te_same b b'"
  shows "book_ok b' G X Y = book_ok b G X Y"
proof (cases "book_ok b G X Y")
  case True
  have "book_ok b' G X Y"
    by (rule book_ok_frame [OF True]) (use True te_sameD [OF assms] in \<open>auto simp: book_ok_def\<close>)
  then show ?thesis using True by simp
next
  case False
  have s: "te_same b' b" using assms by (simp add: te_same_def)
  have "\<not> book_ok b' G X Y"
  proof
    assume ok: "book_ok b' G X Y"
    have "book_ok b G X Y"
      by (rule book_ok_frame [OF ok]) (use ok te_sameD [OF s] in \<open>auto simp: book_ok_def\<close>)
    then show False using False by simp
  qed
  then show ?thesis using False by simp
qed

lemma te_same_ok: "te_same b b' \<Longrightarrow> id_to_order b' = id_to_order b \<Longrightarrow> te_ok b' G = te_ok b G"
  using te_sameD te_same_book_ok by (simp add: te_ok_def ids_ok_def)

lemma te_same_represents:
  assumes "te_same b b'" "id_to_order b' = id_to_order b"
  shows "te_represents b' A = te_represents b A"
  using te_same_ok [OF assms] te_sameD(7) [OF assms(1)] by (simp add: te_represents_def te_side_view_def)

lemma te_more:
  assumes "level_book.more b' = level_book.more (b::te_book)"
  shows "id_to_order b' = id_to_order b" "book_bbo b' = book_bbo b" "notified b' = notified b"
    "has_engine b' = has_engine b" "tb_ticker b' = tb_ticker b"
  using assms by (cases b; cases b'; simp)+

lemma te_order_more: "odata r = odata (s::te_order) \<Longrightarrow> t_id r = t_id s"
  using odata_eqD(5) [of r s] by (cases r; cases s; simp)

lemma t_id_odata [simp]: "t_id (odata r) = t_id r"
  by (simp add: odata_def)

definition te_rest :: "te_book \<Rightarrow> te_book \<Rightarrow> bool" where
  "te_rest b b' \<longleftrightarrow> book_bbo b' = book_bbo b \<and> notified b' = notified b
     \<and> has_engine b' = has_engine b \<and> tb_ticker b' = tb_ticker b"

lemma te_resting_orders:
  assumes "\<forall>s. is_side s \<longrightarrow> A s = te_side_view b G s"
  shows "set (te_resting A) = (\<lambda>c. odata (ord b c)) ` all_orders G"
    and "o_price ` set (te_resting A) = prices_of b G"
  using assms
  by (simp_all add: te_resting_def prices_of_def te_side_view_def all_orders_def image_Un image_image)

lemma te_resting_length:
  assumes "book_ok b G X Y" "\<forall>s. is_side s \<longrightarrow> A s = te_side_view b G s"
  shows "length (te_resting A) = card (all_orders G)"
proof -
  have "length (queue (G s)) = card (orders_of (G s))" if "is_side s" for s
    using distinct_queue [OF book_ok_side [OF assms(1) that]] distinct_card by (metis set_queue)
  moreover have "orders_of (G BUY) \<inter> orders_of (G SELL) = {}"
    using sides_disjoint(2) [OF book_ok_side [OF assms(1), of BUY] book_ok_side [OF assms(1), of "opposite BUY"]] by simp
  ultimately show ?thesis
    using assms(2) by (simp add: te_resting_def te_side_view_def all_orders_def card_Un_disjoint flip: set_queue)
qed

lemma ids_unique:
  assumes "ids_ok b S" "a \<in> S" "c \<in> S" "t_id (ord b c) = t_id (ord b a)"
  shows "c = a"
  using assms unfolding ids_ok_def by (metis option.inject)

subsection \<open>Adding an order\<close>

lemma te_alloc_ok:
  assumes ok: "te_ok b G" and room: "Suc (card (all_orders G)) < MAX_ORDER_IDS"
  shows "\<exists>a op. allocate (order_pool b) r = Inr (a, op) \<and> a \<notin> all_orders G
    \<and> book_ok (b\<lparr>order_pool := op\<rparr>) G {a} {}
    \<and> ord (b\<lparr>order_pool := op\<rparr>) = (ord b)(a := r) \<and> n_blocks op = MAX_ORDER_IDS"
proof -
  have "book_ok b G {} {}" "Suc (card (all_orders G)) < n_blocks (order_pool b)"
    using ok room by (simp_all add: te_ok_def)
  then obtain a op where "allocate (order_pool b) r = Inr (a, op)" "a \<notin> all_orders G"
    "book_ok (b\<lparr>order_pool := op\<rparr>) G {a} {}" "ord (b\<lparr>order_pool := op\<rparr>) = (ord b)(a := r)"
    "n_blocks op = n_blocks (order_pool b)" by (rule alloc_order)
  then show ?thesis using ok by (auto simp: te_ok_def)
qed

lemma ids_ok_insert:
  assumes "ids_ok b S" "a \<notin> S" "unat (t_id r) < MAX_ORDER_IDS"
    and "\<And>c. c \<in> S \<Longrightarrow> t_id (ord b c) \<noteq> t_id r"
    and "\<And>c. t_id (ord b' c) = t_id (if c = a then r else ord b c)"
    and "id_to_order b' = (id_to_order b)(unat (t_id r) := Some a)"
  shows "ids_ok b' (insert a S)"
proof -
  have fresh: "unat (t_id (ord b c)) \<noteq> unat (t_id r)" if "c \<in> S" for c
    using assms(4) [OF that] by (metis unsigned_word_eqI)
  show ?thesis
    unfolding ids_ok_def
  proof (intro conjI ballI allI)
    show "unat (t_id (ord b' c)) < MAX_ORDER_IDS" if "c \<in> insert a S" for c
      using that assms(1,3,5) by (auto simp: ids_ok_def)
    show "id_to_order b' i = Some c \<longleftrightarrow> c \<in> insert a S \<and> unat (t_id (ord b' c)) = i" for i c
      using assms(1,2) fresh by (auto simp: ids_ok_def assms(5,6) split: if_splits)
  qed
qed

text \<open>Allocating and linking the order of an \<open>ADD\<close>.\<close>

lemma te_link_new:
  assumes ok: "te_ok b G" and A: "\<forall>s. is_side s \<longrightarrow> A s = te_side_view b G s"
    and acc: "te_accepts A u" and u: "mu_type u = UPD_ADD"
  obtains a op b1 L' where "allocate (order_pool b) (te_of_update u) = Inr (a, op)" "a \<notin> all_orders G" "n_blocks op = MAX_ORDER_IDS"
    "link_order (b\<lparr>order_pool := op\<rparr>) a = Inr b1" "book_ok b1 (G(mu_side u := L')) {} {}" "book_frame (b\<lparr>order_pool := op\<rparr>) b1"
    "\<And>c. odata (ord b1 c) = odata (((ord b)(a := te_of_update u)) c)"
    "queue L' = insert_prio (mu_side u) (\<lambda>c. o_price (((ord b)(a := te_of_update u)) c)) (mu_price u) a (queue (G (mu_side u)))"
proof -
  let ?sd = "mu_side u" and ?p = "mu_price u" and ?r = "te_of_update u"
  have bok: "book_ok b G {} {}" using ok by (simp add: te_ok_def)
  have acc': "is_side ?sd"
    "list_all (\<lambda>r. price_to_index (o_price r) = price_to_index ?p \<longrightarrow> o_price r = ?p \<and> o_side r = ?sd) (te_resting A)"
    "?p \<in> o_price ` set (te_resting A) \<or> Suc (card (o_price ` set (te_resting A))) < MAX_PRICE_LEVELS"
    "Suc (length (te_resting A)) < MAX_ORDER_IDS"
    using acc u by (simp_all add: te_accepts_def)
  note rest = te_resting_orders [OF A]
  have "Suc (card (all_orders G)) < MAX_ORDER_IDS" using acc'(4) te_resting_length [OF bok A] by simp
  then obtain a op where op: "allocate (order_pool b) ?r = Inr (a, op)" "a \<notin> all_orders G"
    "book_ok (b\<lparr>order_pool := op\<rparr>) G {a} {}" "ord (b\<lparr>order_pool := op\<rparr>) = (ord b)(a := ?r)"
    "n_blocks op = MAX_ORDER_IDS" using te_alloc_ok [OF ok] by blast
  let ?b = "b\<lparr>order_pool := op\<rparr>"
  have r: "o_side ?r = ?sd" "o_price ?r = ?p" by (simp_all add: te_of_update_def)
  have ordG: "ord ?b c = ord b c" if "c \<in> all_orders G" for c using that op(2,4) by auto
  have "\<exists>b1 L'. link_order ?b a = Inr b1 \<and> book_ok b1 (G(?sd := L')) {} {} \<and> book_frame ?b b1
    \<and> queue L' = insert_prio ?sd (\<lambda>c. o_price (ord ?b c)) (o_price (ord ?b a)) a (queue (G ?sd))"
  proof (rule link_order_ok)
    show "book_ok ?b G {a} {}" by (rule op(3))
    show "o_side (ord ?b a) = ?sd" using op(4) r by simp
    have pr: "prices_of ?b G = prices_of b G" unfolding prices_of_def by (rule image_cong [OF refl]) (simp add: ordG)
    show "Suc (card (prices_of ?b G)) < n_blocks (orders_at_price_pool ?b)" if "o_price (ord ?b a) \<notin> prices_of ?b G"
      using acc'(3) that ok op(4) r unfolding rest(2) pr by (simp add: te_ok_def)
    show "o_side (ord ?b c) = ?sd \<and> o_price (ord ?b c) = o_price (ord ?b a)"
      if "c \<in> all_orders G" "price_to_index (o_price (ord ?b c)) = price_to_index (o_price (ord ?b a))" for c
      using acc'(2) that op(2,4) r unfolding list_all_iff rest(1) by auto
  qed (use acc'(1) in simp_all)
  then obtain b1 L' where "link_order ?b a = Inr b1" "book_ok b1 (G(?sd := L')) {} {}" "book_frame ?b b1"
    "queue L' = insert_prio ?sd (\<lambda>c. o_price (ord ?b c)) (o_price (ord ?b a)) a (queue (G ?sd))" by blast
  then show thesis using that [OF op(1,2,5), of b1 L'] op(4) r by (simp add: book_frame_def)
qed

text \<open>The view of the new book.\<close>

lemma te_insert_view:
  assumes A: "\<forall>s. is_side s \<longrightarrow> A s = te_side_view b G s" and a: "a \<notin> all_orders G" and u: "mu_type u = UPD_ADD"
    and q: "queue L' = insert_prio (mu_side u) (\<lambda>c. o_price (((ord b)(a := te_of_update u)) c)) (mu_price u) a (queue (G (mu_side u)))"
    and data: "\<And>c. odata (ord b2 c) = odata (((ord b)(a := te_of_update u)) c)" and s: "is_side s"
  shows "te_apply_spec u A s = te_side_view b2 (G(mu_side u := L')) s"
proof (cases "s = mu_side u")
  case False
  have "c \<noteq> a" if "c \<in> orders_of (G s)" for c using that a all_orders_side [OF s, of G] by auto
  then show ?thesis using False A s u data by (simp add: te_apply_spec_def te_side_view_def)
next
  case True
  let ?r = "te_of_update u" and ?p = "mu_price u"
  have r: "o_price ?r = ?p" "odata ?r = ?r" by (simp_all add: te_of_update_def odata_def)
  have old: "((ord b)(a := ?r)) c = ord b c" if "c \<in> set (queue (G s))" for c
    using that a all_orders_side [OF s, of G] by auto
  have "te_side_view b2 (G(mu_side u := L')) s = map (\<lambda>c. odata (((ord b)(a := ?r)) c))
      (insert_prio s (\<lambda>c. o_price (((ord b)(a := ?r)) c)) ?p a (queue (G s)))"
    using True q data by (simp add: te_side_view_def)
  also have "\<dots> = insert_prio s o_price ?p ?r (map (\<lambda>c. odata (((ord b)(a := ?r)) c)) (queue (G s)))"
    using r by (subst map_insert_prio [where g = o_price]) simp_all
  also have "map (\<lambda>c. odata (((ord b)(a := ?r)) c)) (queue (G s)) = A s"
    using A s old by (auto simp: te_side_view_def)
  finally show ?thesis using True u by (simp add: te_apply_spec_def fun_upd_def)
qed

lemma te_add_ok:
  assumes rep: "te_represents b A" and acc: "te_accepts A u" and u: "mu_type u = UPD_ADD"
  shows "\<exists>b'. te_apply u b = Inr b' \<and> te_represents b' (te_apply_spec u A) \<and> te_rest b b'"
proof -
  obtain G where ok: "te_ok b G" and A: "\<forall>s. is_side s \<longrightarrow> A s = te_side_view b G s"
    using rep by (auto simp: te_represents_def)
  let ?sd = "mu_side u" and ?r = "te_of_update u"
  have acc': "is_side ?sd" "unat (mu_order_id u) < MAX_ORDER_IDS" "list_all (\<lambda>r. t_id r \<noteq> mu_order_id u) (te_resting A)"
    using acc u by (simp_all add: te_accepts_def)
  have fresh: "t_id (ord b c) \<noteq> mu_order_id u" if "c \<in> all_orders G" for c
    using acc'(3) that unfolding list_all_iff te_resting_orders(1) [OF A] by auto
  obtain a op b1 L' where new: "allocate (order_pool b) ?r = Inr (a, op)" "a \<notin> all_orders G" "n_blocks op = MAX_ORDER_IDS"
    "link_order (b\<lparr>order_pool := op\<rparr>) a = Inr b1" "book_ok b1 (G(?sd := L')) {} {}" "book_frame (b\<lparr>order_pool := op\<rparr>) b1"
    and data: "\<And>c. odata (ord b1 c) = odata (((ord b)(a := ?r)) c)"
    and q: "queue L' = insert_prio ?sd (\<lambda>c. o_price (((ord b)(a := ?r)) c)) (mu_price u) a (queue (G ?sd))"
    using te_link_new [OF ok A acc u] by blast
  let ?G = "G(?sd := L')"
  have r: "t_id ?r = mu_order_id u" by (simp add: te_of_update_def)
  have more1: "level_book.more b1 = level_book.more b" using new(6) by (simp add: book_frame_def)
  note fields1 = te_more [OF more1]
  have id1: "t_id (ord b1 c) = t_id (((ord b)(a := ?r)) c)" for c using te_order_more [OF data] by simp
  define b2 where "b2 = b1\<lparr>id_to_order := (id_to_order b)(unat (mu_order_id u) := Some a)\<rparr>"
  have core: "te_same b1 b2" by (simp add: b2_def)
  note ord2 = te_sameD(7) [OF core]
  have "te_add_order (b\<lparr>order_pool := op\<rparr>) a = Inr b2"
    using new(4) id1 [of a] r acc'(2) fields1 by (simp add: te_add_order_def set_order_at_def b2_def)
  then have run: "te_apply u b = Inr b2" using new(1) u by (simp add: te_apply_def te_of_update_def)
  have "orders_of L' = insert a (orders_of (G ?sd))" unfolding set_queue [symmetric] q by (simp del: set_queue)
  then have ordsG: "all_orders ?G = insert a (all_orders G)"
    using all_orders_upd [OF acc'(1), of G] all_orders_side [OF acc'(1), of G] by auto
  have "ids_ok b (all_orders G)" using ok by (simp add: te_ok_def)
  then have "ids_ok b2 (all_orders ?G)"
    unfolding ordsG by (rule ids_ok_insert [OF _ new(2), of _ ?r]) (use acc'(2) fresh r id1 ord2 in \<open>simp_all add: b2_def\<close>)
  moreover have "book_ok b2 ?G {} {}" using new(5) te_same_book_ok [OF core] by simp
  moreover have "n_blocks (orders_at_price_pool b2) = MAX_PRICE_LEVELS" "n_blocks (order_pool b2) = MAX_ORDER_IDS"
    using new(3,6) ok by (simp_all add: b2_def book_frame_def te_ok_def)
  ultimately have "te_ok b2 ?G" by (simp add: te_ok_def)
  moreover have "te_apply_spec u A s = te_side_view b2 ?G s" if "is_side s" for s
    by (rule te_insert_view [OF A new(2) u q _ that]) (simp add: data ord2)
  ultimately have "te_represents b2 (te_apply_spec u A)" by (auto simp: te_represents_def)
  moreover have "te_rest b b2" using fields1 by (simp add: te_rest_def b2_def)
  ultimately show ?thesis using run by blast
qed

subsection \<open>Changing and cancelling an order\<close>

text \<open>An order the update names is found in the table.\<close>

lemma te_lookup:
  assumes ok: "te_ok b G" and A: "\<forall>s. is_side s \<longrightarrow> A s = te_side_view b G s"
    and "oid \<in> t_id ` set (te_resting A)"
  obtains a where "a \<in> all_orders G" "t_id (ord b a) = oid" "order_at b oid = Inr (Some a)"
proof -
  have iok: "ids_ok b (all_orders G)" using ok by (simp add: te_ok_def)
  obtain a where a: "a \<in> all_orders G" "t_id (ord b a) = oid"
    using assms(3) unfolding te_resting_orders(1) [OF A] by auto
  then have "unat oid < MAX_ORDER_IDS" "id_to_order b (unat oid) = Some a"
    using iok by (auto simp: ids_ok_def)
  then show ?thesis using a that by (simp add: order_at_def)
qed

lemma te_modify_ok:
  assumes rep: "te_represents b A" and acc: "te_accepts A u" and u: "mu_type u = UPD_MODIFY"
  shows "\<exists>b'. te_apply u b = Inr b' \<and> te_represents b' (te_apply_spec u A) \<and> te_rest b b'"
proof -
  obtain G where ok: "te_ok b G" and A: "\<forall>s. is_side s \<longrightarrow> A s = te_side_view b G s"
    using rep by (auto simp: te_represents_def)
  have iok: "ids_ok b (all_orders G)" using ok by (simp add: te_ok_def)
  have "mu_order_id u \<in> t_id ` set (te_resting A)" using acc u by (simp add: te_accepts_def)
  then obtain a where a: "a \<in> all_orders G" "t_id (ord b a) = mu_order_id u"
    "order_at b (mu_order_id u) = Inr (Some a)" by (rule te_lookup [OF ok A])
  let ?b = "set_order a (\<lambda>r. r\<lparr>o_qty := mu_qty u\<rparr>) b"
  have "book_ok ?b G {} {} = book_ok b G {} {}" by (rule set_order_book_ok) simp_all
  moreover have more: "level_book.more ?b = level_book.more b" by (simp add: more_writes)
  note fields = te_more [OF more]
  moreover have "ids_ok ?b (all_orders G)" using iok fields by (simp add: ids_ok_def book_simps)
  ultimately have ok': "te_ok ?b G" using ok by (simp add: te_ok_def book_simps)
  have upd: "odata (ord ?b c) = (if t_id (odata (ord b c)) = mu_order_id u
      then (odata (ord b c))\<lparr>o_qty := mu_qty u\<rparr> else odata (ord b c))" if "c \<in> all_orders G" for c
  proof (cases "c = a")
    case False
    then have "t_id (ord b c) \<noteq> mu_order_id u" using ids_unique [OF iok a(1) that] a(2) by metis
    then show ?thesis using False by (simp add: book_simps)
  qed (use a(2) in \<open>simp add: book_simps odata_def\<close>)
  have "te_apply_spec u A s = te_side_view ?b G s" if s: "is_side s" for s
  proof -
    have "c \<in> all_orders G" if "c \<in> set (queue (G s))" for c using that all_orders_side [OF s, of G] by simp
    then show ?thesis using A s u upd by (simp add: te_apply_spec_def te_side_view_def cong: map_cong)
  qed
  then have "te_represents ?b (te_apply_spec u A)" using ok' by (auto simp: te_represents_def)
  moreover have "te_apply u b = Inr ?b" using a(3) u by (simp add: te_apply_def)
  ultimately show ?thesis using fields by (auto simp: te_rest_def)
qed

lemma ids_ok_remove:
  assumes "ids_ok b S" "a \<in> S" "\<And>c. t_id (ord b' c) = t_id (ord b c)"
    and "id_to_order b' = (id_to_order b)(unat (t_id (ord b a)) := None)"
  shows "ids_ok b' (S - {a})"
proof -
  have "unat (t_id (ord b c)) = unat (t_id (ord b a)) \<Longrightarrow> c \<in> S \<Longrightarrow> c = a" for c
    using ids_unique [OF assms(1,2), of c] by (metis unsigned_word_eqI)
  then show ?thesis using assms(1,2) by (auto simp: ids_ok_def assms(3,4) split: if_splits)
qed

lemma te_remove_ok:
  assumes ok: "te_ok b G" and sd: "is_side sd" and a: "a \<in> orders_of (G sd)"
  shows "\<exists>b' G'. te_remove_order b a = Inr b' \<and> te_ok b' G' \<and> te_rest b b'
    \<and> (\<forall>c. odata (ord b' c) = odata (ord b c))
    \<and> (\<forall>s. is_side s \<longrightarrow> queue (G' s) = filter (\<lambda>c. c \<noteq> a) (queue (G s)))"
proof -
  have bok: "book_ok b G {} {}" and iok: "ids_ok b (all_orders G)" using ok by (simp_all add: te_ok_def)
  obtain b1 G1 where b1: "unlink_order b a = Inr b1" "book_ok b1 G1 {a} {}" "book_frame b b1"
    "all_orders G1 = all_orders G - {a}"
    "\<And>s. is_side s \<Longrightarrow> queue (G1 s) = filter (\<lambda>c. c \<noteq> a) (queue (G s))"
    using unlink_order_sides [OF bok sd a] by blast
  have data1: "odata (ord b1 c) = odata (ord b c)" for c using b1(3) by (simp add: book_frame_def)
  have "level_book.more b1 = level_book.more b" using b1(3) by (simp add: book_frame_def)
  note fields1 = te_more [OF this]
  have aG: "a \<in> all_orders G" using a all_orders_side [OF sd, of G] by simp
  define b2 where "b2 = b1\<lparr>id_to_order := (id_to_order b)(unat (t_id (ord b a)) := None)\<rparr>"
  have run2: "set_order_at (t_id (ord b1 a)) None b1 = Inr b2"
    using iok aG te_order_more [OF data1] fields1 by (simp add: set_order_at_def ids_ok_def b2_def)
  have core2: "te_same b1 b2" by (simp add: b2_def)
  have "book_ok b2 G1 {a} {}" using b1(2) te_same_book_ok [OF core2] by simp
  then obtain op where op: "deallocate (order_pool b2) a = Inr op" "book_ok (b2\<lparr>order_pool := op\<rparr>) G1 {} {}"
    "ord (b2\<lparr>order_pool := op\<rparr>) = ord b2" "n_blocks op = n_blocks (order_pool b2)" by (rule free_order)
  let ?b = "b2\<lparr>order_pool := op\<rparr>"
  have data: "odata (ord ?b c) = odata (ord b c)" for c using data1 te_sameD(7) [OF core2] op(3) by simp
  have "ids_ok ?b (all_orders G1)"
    unfolding b1(4) by (rule ids_ok_remove [OF iok aG te_order_more [OF data]]) (simp add: b2_def)
  then have "te_ok ?b G1" using ok op(2,4) b1(3) by (simp add: te_ok_def b2_def book_frame_def)
  moreover have "te_rest b ?b" using fields1 by (simp add: te_rest_def b2_def)
  moreover have "te_remove_order b a = Inr ?b"
    using b1(1) run2 op(1) by (simp add: te_remove_order_def)
  ultimately show ?thesis using b1(5) data by blast
qed

lemma te_cancel_ok:
  assumes rep: "te_represents b A" and acc: "te_accepts A u" and u: "mu_type u = UPD_CANCEL"
  shows "\<exists>b'. te_apply u b = Inr b' \<and> te_represents b' (te_apply_spec u A) \<and> te_rest b b'"
proof -
  obtain G where ok: "te_ok b G" and A: "\<forall>s. is_side s \<longrightarrow> A s = te_side_view b G s"
    using rep by (auto simp: te_represents_def)
  have iok: "ids_ok b (all_orders G)" using ok by (simp add: te_ok_def)
  have "mu_order_id u \<in> t_id ` set (te_resting A)" using acc u by (simp add: te_accepts_def)
  then obtain a where a: "a \<in> all_orders G" "t_id (ord b a) = mu_order_id u"
    "order_at b (mu_order_id u) = Inr (Some a)" by (rule te_lookup [OF ok A])
  obtain sd where sd: "is_side sd" "a \<in> orders_of (G sd)" using a(1) is_side_simps(1,2) unfolding all_orders_def by blast
  obtain b' G' where b': "te_remove_order b a = Inr b'" "te_ok b' G'" "te_rest b b'"
    "\<And>c. odata (ord b' c) = odata (ord b c)"
    "\<And>s. is_side s \<Longrightarrow> queue (G' s) = filter (\<lambda>c. c \<noteq> a) (queue (G s))"
    using te_remove_ok [OF ok sd] by blast
  have "te_apply_spec u A s = te_side_view b' G' s" if s: "is_side s" for s
  proof -
    have "(c \<noteq> a) = (t_id (odata (ord b c)) \<noteq> mu_order_id u)" if "c \<in> set (queue (G s))" for c
      using that ids_unique [OF iok a(1), of c] a(2) all_orders_side [OF s, of G] by auto
    then have "filter (\<lambda>c. c \<noteq> a) (queue (G s)) = filter (\<lambda>c. t_id (odata (ord b c)) \<noteq> mu_order_id u) (queue (G s))"
      by (rule filter_cong [OF refl])
    then show ?thesis using A s u b'(4,5) by (simp add: te_apply_spec_def te_side_view_def filter_map comp_def)
  qed
  then have "te_represents b' (te_apply_spec u A)" using b'(2) by (auto simp: te_represents_def)
  moreover have "te_apply u b = Inr b'" using a(3) b'(1) u by (simp add: te_apply_def)
  ultimately show ?thesis using b'(3) by blast
qed

subsection \<open>The best bid and offer\<close>

lemma dring_next_of:
  assumes "dring nx pv (P @ c # S)" "P \<noteq> []"
  shows "nx c = Some (hd (S @ [hd P]))"
proof (cases S)
  case Nil
  then show ?thesis using assms by (simp add: dring_iff)
next
  case (Cons d T)
  then show ?thesis using dring_next [of nx pv P c d T] assms(1) by simp
qed

lemma sum_level_walk:
  assumes "dring (onx b) (opv b) (P @ S)" "P \<noteq> []" "length S \<le> fuel"
  shows "sum_level fuel b (hd P) (Some (hd (S @ [hd P]))) acc
    = Inr (acc + sum_list (map (\<lambda>c. o_qty (ord b c)) S))"
  using assms
proof (induction S arbitrary: P fuel acc)
  case Nil
  then show ?case by (simp add: sum_level.simps)
next
  case (Cons c S)
  obtain f where f: "fuel = Suc f" using Cons.prems(3) by (cases fuel) auto
  have "distinct (P @ c # S)" by (rule dring_distinct [OF Cons.prems(1)])
  then have "c \<noteq> hd P" using Cons.prems(2) by (cases P) auto
  moreover have "onx b c = Some (hd (S @ [hd P]))"
    by (rule dring_next_of [OF Cons.prems(1,2)])
  moreover have "sum_level f b (hd (P @ [c])) (Some (hd (S @ [hd (P @ [c])]))) (acc + o_qty (ord b c))
      = Inr (acc + o_qty (ord b c) + sum_list (map (\<lambda>c. o_qty (ord b c)) S))"
    by (rule Cons.IH) (use Cons.prems f in auto)
  ultimately show ?case
    using Cons.prems(2) f by (simp add: sum_level.simps [of "Suc f"] onx_def add.assoc)
qed

definition best_of :: "te_order list \<Rightarrow> price \<times> qty" where
  "best_of rs = (case rs of
       [] \<Rightarrow> (Price_INVALID, Qty_INVALID)
     | r # _ \<Rightarrow> (o_price r, sum_list (map o_qty (filter (\<lambda>x. o_price x = o_price r) rs))))"

lemma best_offer_ok:
  assumes ok: "te_ok b G" and sd: "is_side sd"
  shows "best_offer b (best_levels sd b) = Inr (best_of (te_side_view b G sd))"
proof (cases "G sd")
  case Nil
  have "side_ok b sd (G sd)" using ok book_ok_side [OF _ sd] by (auto simp: te_ok_def)
  then show ?thesis using Nil by (simp add: side_ok_def best_offer_def te_side_view_def best_of_def)
next
  case (Cons e L)
  have bok: "book_ok b G {} {}" using ok by (simp add: te_ok_def)
  have sok: "side_ok b sd (e # L)" using book_ok_side [OF bok sd] Cons by simp
  then have lv: "level_ok b sd e" and best: "best_levels sd b = Some (fst e)" by (simp_all add: side_ok_def)
  then obtain a os where os: "snd e = a # os" by (cases "snd e") (auto simp: level_ok_def)
  have ring: "dring (onx b) (opv b) ([a] @ os)" and first: "l_order_0 (lev b (fst e)) = Some a"
    using lv os by (simp_all add: level_ok_def)
  have price: "o_price (ord b c) = lpr b (fst e)" if "c \<in> set (a # os)" for c
    using lv os that by (auto simp: level_ok_def order_ok_def)
  have rest: "o_price (ord b c) \<noteq> lpr b (fst e)" if c: "c \<in> orders_of L" for c
  proof -
    obtain f where f: "f \<in> set L" "c \<in> set (snd f)" using c by (auto simp: orders_of_def)
    then have "o_price (ord b c) = lpr b (fst f)" using side_ok_order_price [OF sok] by simp
    moreover have "worse sd (lpr b (fst f)) (lpr b (fst e))" using sok f(1) by (simp add: side_ok_def)
    ultimately show ?thesis by (metis worse_irrefl)
  qed
  have "set (a # os) \<subseteq> used (order_pool b)"
    using bok Cons os all_orders_side [OF sd, of G] by (auto simp: book_ok_def)
  then have "card (set (a # os)) \<le> card (used (order_pool b))" by (intro card_mono) simp_all
  then have len: "length os \<le> n_blocks (order_pool b)"
    using pool_card [of "order_pool b"] bok dring_distinct [OF ring] distinct_card [of "a # os"]
    by (simp add: book_ok_def)
  have next_a: "o_next (ord b a) = Some (hd (os @ [a]))"
    using ring dring_next_hd [of "onx b" "opv b" a] by (cases os) (auto simp: onx_def)
  have "sum_level (n_blocks (order_pool b)) b a (o_next (ord b a)) (o_qty (ord b a))
      = Inr (o_qty (ord b a) + sum_list (map (\<lambda>c. o_qty (ord b c)) os))"
    using sum_level_walk [OF ring _ len] next_a by simp
  moreover have "best_of (te_side_view b G sd) = (lpr b (fst e), o_qty (ord b a) + sum_list (map (\<lambda>c. o_qty (ord b c)) os))"
  proof -
    let ?view = "\<lambda>cs. map (\<lambda>c. odata (ord b c)) cs" and ?P = "\<lambda>x. o_price x = lpr b (fst e)"
    have split: "te_side_view b G sd = ?view (a # os) @ ?view (queue L)" using Cons os by (simp add: te_side_view_def)
    have "filter ?P (?view (queue L)) = []" using rest by (auto simp: filter_empty_conv)
    moreover have "filter ?P (?view (a # os)) = ?view (a # os)" using price by (intro filter_True) auto
    ultimately have "filter ?P (te_side_view b G sd) = ?view (a # os)"
      unfolding split by (simp del: filter.simps list.map)
    moreover have "\<exists>rs. te_side_view b G sd = odata (ord b a) # rs" using split by simp
    ultimately show ?thesis using price [of a] by (auto simp: best_of_def comp_def simp del: filter.simps)
  qed
  ultimately show ?thesis by (simp add: best_offer_def best first lpr_def)
qed

definition with_bbo :: "bool \<Rightarrow> bool \<Rightarrow> te_view \<Rightarrow> bbo \<Rightarrow> bbo" where
  "with_bbo bid ask A o' =
     (let o1 = (if bid then o'\<lparr>bbo_bid := fst (best_of (A BUY)), bbo_bid_qty := snd (best_of (A BUY))\<rparr> else o')
      in if ask then o1\<lparr>bbo_ask := fst (best_of (A SELL)), bbo_ask_qty := snd (best_of (A SELL))\<rparr> else o1)"

lemma update_bbo_ok:
  assumes "te_represents b A"
  shows "update_bbo bid ask b = Inr (b\<lparr>book_bbo := with_bbo bid ask A (book_bbo b)\<rparr>)"
proof -
  obtain G where ok: "te_ok b G" and A: "\<forall>s. is_side s \<longrightarrow> A s = te_side_view b G s"
    using assms by (auto simp: te_represents_def)
  have bid: "best_offer b (bids_by_price b) = Inr (best_of (A BUY))"
    using best_offer_ok [OF ok, of BUY] A by (simp add: best_levels_def)
  have ask: "best_offer (b\<lparr>book_bbo := o'\<rparr>) (asks_by_price b) = Inr (best_of (A SELL))" for o'
  proof -
    let ?b = "b\<lparr>book_bbo := o'\<rparr>"
    have "te_ok ?b G" using te_same_ok [of b "?b"] ok by simp
    moreover have "te_side_view ?b G = te_side_view b G"
      using te_sameD(7) [of b "?b"] by (simp add: te_side_view_def fun_eq_iff)
    ultimately show ?thesis using best_offer_ok [of "?b" G SELL] A by (simp add: best_levels_def)
  qed
  have "b\<lparr>book_bbo := book_bbo b\<rparr> = b" by simp
  with ask [of "book_bbo b"] have ask': "best_offer b (asks_by_price b) = Inr (best_of (A SELL))" by simp
  show ?thesis
    by (cases bid; cases ask) (simp_all add: update_bbo_def with_bbo_def bid ask ask' split_beta Let_def)
qed

subsection \<open>Clearing the book\<close>

text \<open>Giving back a set of blocks leaves their contents and the next free block alone.\<close>

definition freed :: "'a pool \<Rightarrow> addr set \<Rightarrow> 'a pool \<Rightarrow> bool" where
  "freed p S p' \<longleftrightarrow> pool_ok p' \<and> blk p' = blk p \<and> used p' = used p - S
     \<and> n_blocks p' = n_blocks p \<and> i_next_free p' = i_next_free p"

lemma freed_refl: "pool_ok p \<Longrightarrow> freed p {} p"
  by (simp add: freed_def)

lemma freed_trans: "freed p S q \<Longrightarrow> freed q T r \<Longrightarrow> freed p (S \<union> T) r"
  by (auto simp: freed_def)

lemma deallocate_freed:
  assumes "pool_ok p" "a \<in> used p"
  obtains p' where "deallocate p a = Inr p'" "freed p {a} p'"
  using deallocate_ok [OF assms] that unfolding freed_def by blast

fun somes :: "ptr list \<Rightarrow> addr list" where
  "somes [] = []"
| "somes (None # ps) = somes ps"
| "somes (Some a # ps) = a # somes ps"

lemma set_somes: "a \<in> set (somes ps) \<longleftrightarrow> Some a \<in> set ps"
  by (induction ps rule: somes.induct) auto

lemma free_orders_ok:
  assumes "pool_ok (order_pool b)" "set (somes ps) \<subseteq> used (order_pool b)" "distinct (somes ps)"
  shows "\<exists>op. free_orders ps b = Inr (b\<lparr>order_pool := op\<rparr>) \<and> freed (order_pool b) (set (somes ps)) op"
  using assms
proof (induction ps arbitrary: b rule: somes.induct)
  case 1
  then show ?case
    using freed_refl by (intro exI [of _ "order_pool b"]) (simp add: free_orders_def)
next
  case (2 ps)
  then show ?case by (simp add: free_orders_def)
next
  case (3 a ps)
  then have "pool_ok (order_pool b)" "a \<in> used (order_pool b)" by simp_all
  then obtain op where op: "deallocate (order_pool b) a = Inr op" "freed (order_pool b) {a} op"
    by (rule deallocate_freed)
  let ?b = "b\<lparr>order_pool := op\<rparr>"
  have "pool_ok op" "set (somes ps) \<subseteq> used op" using 3(2-4) op(2) by (auto simp: freed_def)
  then obtain oq where "free_orders ps ?b = Inr (?b\<lparr>order_pool := oq\<rparr>)" "freed op (set (somes ps)) oq"
    using 3(1) [of ?b] 3(4) by auto
  then show ?case using op(1) freed_trans [OF op(2)] by (auto simp: free_orders_def)
qed

lemma free_levels_walk:
  assumes "dring (lnx b) (lpv b) (P @ S)" "P \<noteq> []" "length S \<le> fuel"
    and "pool_ok (orders_at_price_pool b)" "set S \<subseteq> used (orders_at_price_pool b)"
  shows "\<exists>lp. free_levels fuel (hd P) (Some (hd (S @ [hd P]))) b = Inr (b\<lparr>orders_at_price_pool := lp\<rparr>)
    \<and> freed (orders_at_price_pool b) (set S) lp"
  using assms
proof (induction S arbitrary: P fuel b)
  case Nil
  then show ?case
    using freed_refl by (intro exI [of _ "orders_at_price_pool b"]) (simp add: free_levels.simps)
next
  case (Cons c S)
  obtain f where f: "fuel = Suc f" using Cons.prems(3) by (cases fuel) auto
  have d: "distinct (P @ c # S)" by (rule dring_distinct [OF Cons.prems(1)])
  then have ne: "c \<noteq> hd P" using Cons.prems(2) by (cases P) auto
  have nx: "lnx b c = Some (hd (S @ [hd P]))" by (rule dring_next_of [OF Cons.prems(1,2)])
  obtain lp where lp: "deallocate (orders_at_price_pool b) c = Inr lp" "freed (orders_at_price_pool b) {c} lp"
    using Cons.prems(4,5) deallocate_freed by auto
  let ?b = "b\<lparr>orders_at_price_pool := lp\<rparr>"
  have lev: "lev ?b = lev b" using lp(2) by (simp add: freed_def lev_def fun_eq_iff)
  have "\<exists>lq. free_levels f (hd (P @ [c])) (Some (hd (S @ [hd (P @ [c])]))) ?b = Inr (?b\<lparr>orders_at_price_pool := lq\<rparr>)
    \<and> freed (orders_at_price_pool ?b) (set S) lq"
  proof (rule Cons.IH)
    have "lnx ?b = lnx b" "lpv ?b = lpv b" by (simp_all add: lnx_def lpv_def lev fun_eq_iff)
    then show "dring (lnx ?b) (lpv ?b) ((P @ [c]) @ S)" using Cons.prems(1) by simp
    show "pool_ok (orders_at_price_pool ?b)" using lp(2) by (simp add: freed_def)
    show "set S \<subseteq> used (orders_at_price_pool ?b)" using lp(2) d Cons.prems(5) by (auto simp: freed_def)
  qed (use Cons.prems f in auto)
  then show ?case
    using Cons.prems(2) f ne nx lp freed_trans [OF lp(2)]
    by (auto simp: free_levels.simps [of "Suc f"] lnx_def)
qed

lemma free_side_ok:
  assumes sok: "side_ok b sd L" and "pool_ok (orders_at_price_pool b)"
    and u: "levels_of L \<subseteq> used (orders_at_price_pool b)"
  shows "\<exists>lp. free_side (best_levels sd b) b = Inr (b\<lparr>orders_at_price_pool := lp\<rparr>)
    \<and> freed (orders_at_price_pool b) (levels_of L) lp"
proof (cases L)
  case Nil
  then show ?thesis
    using sok freed_refl [OF assms(2)]
    by (intro exI [of _ "orders_at_price_pool b"]) (simp add: side_ok_def free_side_def)
next
  case (Cons e M)
  let ?l = "fst e" and ?S = "map fst M" and ?p = "orders_at_price_pool b"
  have best: "best_levels sd b = Some ?l" and ring: "dring (lnx b) (lpv b) ([?l] @ ?S)"
    using sok Cons by (simp_all add: side_ok_def)
  have uS: "set ?S \<subseteq> used ?p" "?l \<in> used ?p" "?l \<notin> set ?S"
    using u Cons dring_distinct [OF ring] by (auto simp: levels_of_def)
  have "card (set ([?l] @ ?S)) \<le> card (used ?p)" using uS by (intro card_mono) auto
  then have len: "length ?S \<le> n_blocks ?p"
    using pool_card [OF assms(2)] distinct_card [OF dring_distinct [OF ring]] by simp
  have nx: "l_next (lev b ?l) = Some (hd (?S @ [?l]))"
    using ring dring_next_hd [of "lnx b" "lpv b" ?l] by (cases ?S) (auto simp: lnx_def)
  obtain lp where lp: "free_levels (n_blocks ?p) ?l (Some (hd (?S @ [?l]))) b = Inr (b\<lparr>orders_at_price_pool := lp\<rparr>)"
    "freed ?p (set ?S) lp"
    using free_levels_walk [OF ring _ len assms(2) uS(1)] by auto
  have "pool_ok lp" "?l \<in> used lp" using lp(2) uS by (auto simp: freed_def)
  then obtain lq where lq: "deallocate lp ?l = Inr lq" "freed lp {?l} lq" by (rule deallocate_freed)
  have "set ?S \<union> {?l} = levels_of L" using Cons by (auto simp: levels_of_def)
  then have "freed ?p (levels_of L) lq" using freed_trans [OF lp(2) lq(2)] by simp
  then show ?thesis using lp(1) lq(1) nx by (auto simp: free_side_def best)
qed

text \<open>The table holds every order of the book, once.\<close>

lemma somes_ids:
  assumes "ids_ok b S"
  shows "set (somes (map (id_to_order b) [0..<MAX_ORDER_IDS])) = S"
proof (intro equalityI subsetI)
  fix a assume "a \<in> set (somes (map (id_to_order b) [0..<MAX_ORDER_IDS]))"
  then have "\<exists>i. id_to_order b i = Some a" by (auto simp: set_somes)
  then show "a \<in> S" using assms by (auto simp: ids_ok_def)
next
  fix a assume a: "a \<in> S"
  then have "unat (t_id (ord b a)) < MAX_ORDER_IDS" "id_to_order b (unat (t_id (ord b a))) = Some a"
    using assms by (auto simp: ids_ok_def)
  then have "Some a \<in> set (map (id_to_order b) [0..<MAX_ORDER_IDS])"
    by (metis image_eqI list.set_map atLeastLessThan_iff atLeast_upt set_upt zero_le)
  then show "a \<in> set (somes (map (id_to_order b) [0..<MAX_ORDER_IDS]))" unfolding set_somes .
qed

lemma distinct_somes_ids:
  assumes "ids_ok b S" "distinct is"
  shows "distinct (somes (map (id_to_order b) is))"
  using assms(2)
proof (induction "is")
  case (Cons i "is")
  then have IH: "distinct (somes (map (id_to_order b) is))" by simp
  show ?case
  proof (cases "id_to_order b i")
    case (Some a)
    have "Some a \<notin> set (map (id_to_order b) is)"
    proof
      assume "Some a \<in> set (map (id_to_order b) is)"
      then obtain j where "j \<in> set is" "id_to_order b j = Some a" by auto
      moreover from this have "i = j" using assms(1) Some unfolding ids_ok_def by metis
      ultimately show False using Cons.prems by simp
    qed
    then show ?thesis using Some IH by (simp add: set_somes del: set_map)
  qed (use IH in simp)
qed simp

text \<open>Both sides of the level pool.\<close>

lemma free_both_sides:
  assumes sides: "side_ok b BUY L" "side_ok b SELL M" and pool: "pool_ok (orders_at_price_pool b)"
    and used: "used (orders_at_price_pool b) = levels_of L \<union> levels_of M"
  obtains lp lq where "free_side (bids_by_price b) b = Inr (b\<lparr>orders_at_price_pool := lp\<rparr>)"
    "free_side (asks_by_price b) (b\<lparr>orders_at_price_pool := lp\<rparr>) = Inr (b\<lparr>orders_at_price_pool := lq\<rparr>)"
    "freed (orders_at_price_pool b) (levels_of L \<union> levels_of M) lq"
proof -
  obtain lp where lp: "free_side (best_levels BUY b) b = Inr (b\<lparr>orders_at_price_pool := lp\<rparr>)"
    "freed (orders_at_price_pool b) (levels_of L) lp"
    using free_side_ok [OF sides(1) pool] used by auto
  let ?b = "b\<lparr>orders_at_price_pool := lp\<rparr>"
  have "lev ?b = lev b" using lp(2) by (simp add: lev_def freed_def fun_eq_iff)
  then have side: "side_ok ?b SELL M"
    using sides(2) by (subst side_ok_frame [of _ _ b]) (simp_all add: ord_def best_levels_def)
  have "levels_of L \<inter> levels_of M = {}" using sides_disjoint(1) [OF sides(1), of M] sides(2) by simp
  then have "pool_ok lp" "levels_of M \<subseteq> used lp" using lp(2) used by (auto simp: freed_def)
  then obtain lq where lq: "free_side (best_levels SELL ?b) ?b = Inr (?b\<lparr>orders_at_price_pool := lq\<rparr>)"
    "freed lp (levels_of M) lq"
    using free_side_ok [OF side] by auto
  show thesis
    by (rule that [of lp lq]) (use lp lq freed_trans [OF lp(2) lq(2)] in \<open>simp_all add: best_levels_def\<close>)
qed

lemma clear_ok:
  assumes ok: "te_ok b G"
  shows "\<exists>op lp. clear_entire_book b = Inr (b\<lparr>order_pool := op, orders_at_price_pool := lp,
      id_to_order := \<lambda>_. None, bids_by_price := None, asks_by_price := None\<rparr>)
    \<and> freed (order_pool b) (all_orders G) op \<and> freed (orders_at_price_pool b) (all_levels G) lp"
proof -
  have bok: "book_ok b G {} {}" and iok: "ids_ok b (all_orders G)" using ok by (simp_all add: te_ok_def)
  let ?ps = "map (id_to_order b) [0..<MAX_ORDER_IDS]"
  note somes = somes_ids [OF iok] and dist = distinct_somes_ids [OF iok distinct_upt]
  have "pool_ok (order_pool b)" "set (somes ?ps) \<subseteq> used (order_pool b)"
    using bok unfolding somes by (simp_all add: book_ok_def)
  from free_orders_ok [OF this dist] obtain op where
    op: "free_orders ?ps b = Inr (b\<lparr>order_pool := op\<rparr>)" "freed (order_pool b) (all_orders G) op"
    unfolding somes by auto
  let ?b = "b\<lparr>order_pool := op, id_to_order := \<lambda>_. None\<rparr>"
  have "lev ?b = lev b" "ord ?b = ord b"
    using op(2) by (simp_all add: lev_def ord_def freed_def fun_eq_iff)
  then have side: "side_ok ?b s (G s)" if "is_side s" for s
    using book_ok_side [OF bok that] by (subst side_ok_frame [of _ _ b]) (simp_all add: best_levels_def)
  have pool: "pool_ok (orders_at_price_pool ?b)"
    "used (orders_at_price_pool ?b) = levels_of (G BUY) \<union> levels_of (G SELL)"
    using bok by (simp_all add: book_ok_def all_levels_def)
  obtain lp lq where lq: "free_side (bids_by_price ?b) ?b = Inr (?b\<lparr>orders_at_price_pool := lp\<rparr>)"
    "free_side (asks_by_price ?b) (?b\<lparr>orders_at_price_pool := lp\<rparr>) = Inr (?b\<lparr>orders_at_price_pool := lq\<rparr>)"
    "freed (orders_at_price_pool ?b) (levels_of (G BUY) \<union> levels_of (G SELL)) lq"
    by (rule free_both_sides [OF side side pool]) simp_all
  then have "clear_entire_book b = Inr (b\<lparr>order_pool := op, orders_at_price_pool := lq,
      id_to_order := \<lambda>_. None, bids_by_price := None, asks_by_price := None\<rparr>)"
    using op(1) by (simp add: clear_entire_book_def)
  then show ?thesis using op(2) lq(3) by (auto simp: all_levels_def)
qed

end
