(* ===== verification/Te_Properties.thy ===== *)
theory Te_Properties
  imports Te_Refinement
begin

text \<open>
  What the client's order book promises: every update the code can take has its effect on
  the orders (\<open>te_update_implements_spec\<close>), the best bid and offer follows the book
  (\<open>te_bbo_follows\<close>) but for the first order of an empty side (\<open>te_first_order_bbo_stale\<close>),
  and after a \<open>CLEAR\<close> of a book that held an order the price of that order is lost
  (\<open>te_clear_loses_level\<close>), since \<open>clear_entire_book\<close> leaves the table of price levels as
  it was.
\<close>

subsection \<open>\<open>on_market_update\<close>\<close>

lemma te_ok_side: "te_ok b G \<Longrightarrow> is_side sd \<Longrightarrow> side_ok b sd (G sd)"
  using book_ok_side by (auto simp: te_ok_def)

lemma te_view_sides:
  assumes "te_represents b A" "is_side sd" "r \<in> set (A sd)"
  shows "o_side r = sd"
proof -
  obtain G where ok: "te_ok b G" and A: "A sd = te_side_view b G sd"
    using assms(1,2) by (auto simp: te_represents_def)
  then have "side_ok b sd (G sd)" using te_ok_side [OF _ assms(2)] by blast
  then show ?thesis using side_ok_order assms(3) A by (auto simp: te_side_view_def)
qed

lemma te_view_sorted:
  assumes "te_represents b A" "is_side sd"
  shows "sorted_wrt (\<lambda>r s. \<not> worse sd (o_price r) (o_price s)) (A sd)"
proof -
  obtain G where ok: "te_ok b G" and A: "A sd = te_side_view b G sd"
    using assms by (auto simp: te_represents_def)
  then have "side_ok b sd (G sd)" using te_ok_side [OF _ assms(2)] by blast
  then show ?thesis using queue_sorted A by (auto simp: te_side_view_def sorted_wrt_map)
qed

lemma te_clear_empty:
  assumes rep: "te_represents b A" and "te_resting A = []"
  shows "\<exists>b'. clear_entire_book b = Inr b' \<and> te_represents b' (\<lambda>_. []) \<and> te_rest b b'"
proof -
  obtain G where ok: "te_ok b G" and A: "\<forall>s. is_side s \<longrightarrow> A s = te_side_view b G s"
    using rep by (auto simp: te_represents_def)
  have bok: "book_ok b G {} {}" and iok: "ids_ok b (all_orders G)" using ok by (simp_all add: te_ok_def)
  have none: "all_orders G = {}" using te_resting_orders(1) [OF A] assms(2) by simp
  then have lev: "all_levels G = {}" using prices_levels(1) [OF bok] by (auto simp: prices_of_def)
  obtain op lp where b': "clear_entire_book b = Inr (b\<lparr>order_pool := op, orders_at_price_pool := lp,
      id_to_order := \<lambda>_. None, bids_by_price := None, asks_by_price := None\<rparr>)"
    "freed (order_pool b) {} op" "freed (orders_at_price_pool b) {} lp"
    using clear_ok [OF ok] none lev by auto
  let ?b = "b\<lparr>order_pool := op, orders_at_price_pool := lp, id_to_order := \<lambda>_. None,
    bids_by_price := None, asks_by_price := None\<rparr>" and ?G = "\<lambda>_. []"
  have "all_levels ?G = {}" "all_orders ?G = {}" by (simp_all add: all_levels_def all_orders_def)
  moreover have "map_price_to_price_level b i = None" for i
    using bok lev unfolding book_ok_def table_ok_def by (metis empty_iff not_None_eq)
  ultimately have "te_ok ?b ?G"
    using b'(2,3) bok none lev ok
    by (simp add: te_ok_def book_ok_def side_ok_def table_ok_def ids_ok_def freed_def best_levels_def)
  then have "te_represents ?b (\<lambda>_. [])" by (auto simp: te_represents_def te_side_view_def)
  then show ?thesis using b'(1) by (auto simp: te_rest_def)
qed

lemma te_apply_ok:
  assumes "te_represents b A" "te_accepts A u"
  shows "\<exists>b'. te_apply u b = Inr b' \<and> te_represents b' (te_apply_spec u A) \<and> te_rest b b'"
proof (cases "mu_type u")
  case UPD_CLEAR
  then have "te_resting A = []" using assms(2) by (simp add: te_accepts_def)
  then show ?thesis using te_clear_empty [OF assms(1)] UPD_CLEAR by (simp add: te_apply_def te_apply_spec_def)
qed (use assms te_add_ok te_modify_ok te_cancel_ok in
    \<open>auto simp: te_apply_def te_apply_spec_def te_rest_def\<close>)

definition note_of :: "ome_market_update \<Rightarrow> te_note" where
  "note_of u = (if mu_type u = UPD_TRADE then Trade_Update u
     else Book_Update (mu_ticker_id u) (mu_price u) (mu_side u))"

definition bbo_after :: "ome_market_update \<Rightarrow> te_book \<Rightarrow> te_view \<Rightarrow> bbo" where
  "bbo_after u b A = (if mu_type u = UPD_TRADE then book_bbo b
     else with_bbo (bid_is_updated u b) (ask_is_updated u b) (te_apply_spec u A) (book_bbo b))"

lemma te_update_ok:
  assumes "te_represents b A" "te_accepts A u"
  shows "\<exists>b'. te_on_market_update u b = Inr b' \<and> te_represents b' (te_apply_spec u A)
    \<and> notified b' = notified b @ (if has_engine b then [note_of u] else [])
    \<and> book_bbo b' = bbo_after u b A \<and> has_engine b' = has_engine b \<and> tb_ticker b' = tb_ticker b"
proof (cases "mu_type u = UPD_TRADE")
  case True
  let ?b = "notify (Trade_Update u) b"
  have "te_represents ?b A" using te_same_represents [of b ?b] assms(1) by (simp add: notify_def)
  then show ?thesis using True by (simp add: te_on_market_update_def te_apply_spec_def note_of_def bbo_after_def notify_def)
next
  case False
  obtain b1 where b1: "te_apply u b = Inr b1" "te_represents b1 (te_apply_spec u A)" "te_rest b b1"
    using te_apply_ok [OF assms] by blast
  let ?A = "te_apply_spec u A" and ?n = "Book_Update (mu_ticker_id u) (mu_price u) (mu_side u)"
  let ?b2 = "b1\<lparr>book_bbo := with_bbo (bid_is_updated u b) (ask_is_updated u b) ?A (book_bbo b1)\<rparr>"
  have "te_on_market_update u b = Inr (notify ?n ?b2)"
    using False b1(1) update_bbo_ok [OF b1(2)] by (simp add: te_on_market_update_def)
  moreover have "te_represents ?b2 ?A" using te_same_represents [of b1 ?b2] b1(2) by simp
  moreover from this have "te_represents (notify ?n ?b2) ?A"
    using te_same_represents [of ?b2 "notify ?n ?b2"] by (simp add: notify_def)
  ultimately show ?thesis
    using False b1(3) by (simp add: te_rest_def notify_def note_of_def bbo_after_def)
qed

lemma new_te_book_ok: "te_represents (new_te_book t) (\<lambda>_. [])"
proof -
  let ?b = "new_te_book t" and ?G = "\<lambda>_. []"
  have "all_levels ?G = {}" "all_orders ?G = {}" by (simp_all add: all_levels_def all_orders_def)
  then have "te_ok ?b ?G"
    by (auto simp: te_ok_def book_ok_def side_ok_def table_ok_def ids_ok_def new_te_book_def best_levels_def
        pool_ok_new limit_defs)
  then show ?thesis by (auto simp: te_represents_def te_side_view_def)
qed

subsection \<open>The best bid and offer\<close>

definition bbo_side :: "side \<Rightarrow> bbo \<Rightarrow> price \<times> qty" where
  "bbo_side sd o' = (if sd = BUY then (bbo_bid o', bbo_bid_qty o') else (bbo_ask o', bbo_ask_qty o'))"

definition bbo_exact :: "te_book \<Rightarrow> te_view \<Rightarrow> bool" where
  "bbo_exact b A \<longleftrightarrow> bbo_side BUY (book_bbo b) = best_of (A BUY) \<and> bbo_side SELL (book_bbo b) = best_of (A SELL)"

text \<open>A change or cancel names the side and price of its order, as the exchange's do.\<close>

definition names_order :: "te_view \<Rightarrow> ome_market_update \<Rightarrow> bool" where
  "names_order A u \<longleftrightarrow> list_all (\<lambda>r. t_id r = mu_order_id u \<longrightarrow> o_side r = mu_side u \<and> o_price r = mu_price u)
     (te_resting A)"

definition side_updated :: "side \<Rightarrow> ome_market_update \<Rightarrow> te_order list \<Rightarrow> bool" where
  "side_updated sd u rs \<longleftrightarrow> rs \<noteq> [] \<and> mu_side u = sd \<and> \<not> worse sd (mu_price u) (o_price (hd rs))"

lemma side_updated_ok:
  assumes "te_represents b A"
  shows "bid_is_updated u b = side_updated BUY u (A BUY)" "ask_is_updated u b = side_updated SELL u (A SELL)"
proof -
  obtain G where ok: "te_ok b G" and A: "\<forall>s. is_side s \<longrightarrow> A s = te_side_view b G s"
    using assms by (auto simp: te_represents_def)
  have best: "(best_levels s b = None \<and> A s = [])
    \<or> (\<exists>l. best_levels s b = Some l \<and> A s \<noteq> [] \<and> l_price (lev b l) = o_price (hd (A s)))" if s: "is_side s" for s
  proof (cases "G s")
    case Nil
    moreover note te_ok_side [OF ok s]
    ultimately show ?thesis using A s by (simp add: side_ok_def te_side_view_def)
  next
    case (Cons e L)
    have sok: "side_ok b s (e # L)" using te_ok_side [OF ok s] Cons by simp
    then obtain a os where os: "snd e = a # os" by (cases "snd e") (auto simp: side_ok_def level_ok_def)
    then have "o_price (ord b a) = lpr b (fst e)" using side_ok_order_price [OF sok, of e a] by simp
    moreover have "A s = odata (ord b a) # map (\<lambda>c. odata (ord b c)) (os @ queue L)"
      using A s Cons os by (simp add: te_side_view_def)
    ultimately show ?thesis using sok by (simp add: side_ok_def lpr_def)
  qed
  show "bid_is_updated u b = side_updated BUY u (A BUY)"
    using best [of BUY] by (auto simp: best_levels_def bid_is_updated_def side_updated_def worse_def)
  show "ask_is_updated u b = side_updated SELL u (A SELL)"
    using best [of SELL] by (auto simp: best_levels_def ask_is_updated_def side_updated_def worse_def)
qed

lemma best_of_cong:
  assumes "rs = [] \<longleftrightarrow> rs' = []" "rs \<noteq> [] \<Longrightarrow> o_price (hd rs') = o_price (hd rs)"
    and "rs \<noteq> [] \<Longrightarrow> filter (\<lambda>x. o_price x = o_price (hd rs)) rs' = filter (\<lambda>x. o_price x = o_price (hd rs)) rs"
  shows "best_of rs' = best_of rs"
  using assms by (cases rs; cases rs') (auto simp: best_of_def simp del: filter.simps)

text \<open>Orders other than those at the best price do not matter.\<close>

lemma best_of_insert:
  assumes "rs \<noteq> []" "worse sd p (o_price (hd rs))" "o_price x = p"
  shows "best_of (insert_prio sd o_price p x rs) = best_of rs"
proof (rule best_of_cong)
  let ?P = "\<lambda>c. \<not> worse sd (o_price c) p"
  have hd: "?P (hd rs)" using assms(2) worse_trans worse_irrefl by blast
  obtain r rs' where rs: "rs = r # rs'" using assms(1) by (cases rs) auto
  show "rs = [] \<longleftrightarrow> insert_prio sd o_price p x rs = []" using assms(1) by (simp add: insert_prio_def)
  show "o_price (hd (insert_prio sd o_price p x rs)) = o_price (hd rs)" using rs hd by (simp add: insert_prio_def)
  have ne: "o_price x \<noteq> o_price (hd rs)" using assms(2,3) by (metis worse_irrefl)
  have "filter Q (takeWhile ?P rs) @ filter Q (dropWhile ?P rs) = filter Q rs" for Q
    by (metis filter_append takeWhile_dropWhile_id)
  then show "filter (\<lambda>y. o_price y = o_price (hd rs)) (insert_prio sd o_price p x rs)
      = filter (\<lambda>y. o_price y = o_price (hd rs)) rs"
    using ne by (simp add: insert_prio_def)
qed

lemma best_of_filter:
  assumes "rs \<noteq> []" "\<And>r. r \<in> set rs \<Longrightarrow> \<not> P r \<Longrightarrow> o_price r \<noteq> o_price (hd rs)"
  shows "best_of (filter P rs) = best_of rs"
proof (rule best_of_cong)
  obtain r rs' where rs: "rs = r # rs'" using assms(1) by (cases rs) auto
  then have "P r" using assms(2) [of r] by auto
  then show "rs = [] \<longleftrightarrow> filter P rs = []" "o_price (hd (filter P rs)) = o_price (hd rs)" using rs by simp_all
  show "filter (\<lambda>x. o_price x = o_price (hd rs)) (filter P rs) = filter (\<lambda>x. o_price x = o_price (hd rs)) rs"
    unfolding filter_filter by (rule filter_cong [OF refl]) (use assms(2) in auto)
qed

lemma best_of_map:
  assumes "rs \<noteq> []" "\<And>r. r \<in> set rs \<Longrightarrow> o_price (f r) = o_price r"
    and "\<And>r. r \<in> set rs \<Longrightarrow> o_price r = o_price (hd rs) \<Longrightarrow> f r = r"
  shows "best_of (map f rs) = best_of rs"
proof (rule best_of_cong)
  show "rs = [] \<longleftrightarrow> map f rs = []" "o_price (hd (map f rs)) = o_price (hd rs)"
    using assms(1,2) by (cases rs; simp)+
  have "filter (\<lambda>x. o_price x = o_price (hd rs)) (map f ss) = filter (\<lambda>x. o_price x = o_price (hd rs)) ss"
    if "set ss \<subseteq> set rs" for ss
    using that by (induction ss) (use assms(2,3) in auto)
  then show "filter (\<lambda>x. o_price x = o_price (hd rs)) (map f rs) = filter (\<lambda>x. o_price x = o_price (hd rs)) rs"
    by simp
qed

lemma best_unaffected:
  assumes rep: "te_represents b A" and sd: "is_side sd" and "te_accepts A u" "names_order A u"
    and upd: "\<not> side_updated sd u (A sd)" and add: "\<not> (mu_type u = UPD_ADD \<and> mu_side u = sd \<and> A sd = [])"
  shows "best_of (te_apply_spec u A sd) = best_of (A sd)"
proof (cases "A sd = []")
  case True
  then show ?thesis using add by (auto simp: te_apply_spec_def split: update_type.splits)
next
  case False
  have sub: "r \<in> set (te_resting A)" if "r \<in> set (A sd)" for r
    using that sd by (auto simp: te_resting_def is_side_def)
  have named: "mu_side u = sd \<and> o_price r = mu_price u" if "r \<in> set (A sd)" "t_id r = mu_order_id u" for r
    using assms(4) sub [OF that(1)] that(2) te_view_sides [OF rep sd that(1)] by (auto simp: names_order_def list_all_iff)
  have away: "o_price r \<noteq> o_price (hd (A sd))" if "r \<in> set (A sd)" "t_id r = mu_order_id u" for r
    using named [OF that] upd False by (auto simp: side_updated_def)
  show ?thesis
  proof (cases "mu_type u")
    case UPD_ADD
    show ?thesis
    proof (cases "mu_side u = sd")
      case True
      then have "worse sd (mu_price u) (o_price (hd (A sd)))" using upd False by (simp add: side_updated_def)
      then show ?thesis
        using UPD_ADD True best_of_insert [OF False] by (simp add: te_apply_spec_def te_of_update_def)
    qed (use UPD_ADD in \<open>simp add: te_apply_spec_def\<close>)
  next
    case UPD_MODIFY
    have "best_of (map (\<lambda>r. if t_id r = mu_order_id u then r\<lparr>o_qty := mu_qty u\<rparr> else r) (A sd)) = best_of (A sd)"
      by (rule best_of_map [OF False]) (use away in auto)
    then show ?thesis using UPD_MODIFY by (simp add: te_apply_spec_def)
  next
    case UPD_CANCEL
    have "best_of (filter (\<lambda>r. t_id r \<noteq> mu_order_id u) (A sd)) = best_of (A sd)"
      by (rule best_of_filter [OF False]) (use away in auto)
    then show ?thesis using UPD_CANCEL by (simp add: te_apply_spec_def)
  next
    case UPD_CLEAR
    then show ?thesis using assms(3) False sub by (fastforce simp: te_accepts_def neq_Nil_conv)
  qed (simp_all add: te_apply_spec_def)
qed

lemma bbo_side_after:
  assumes rep: "te_represents b A" and sd: "is_side sd" and "mu_type u \<noteq> UPD_TRADE"
  shows "bbo_side sd (bbo_after u b A)
    = (if side_updated sd u (A sd) then best_of (te_apply_spec u A sd) else bbo_side sd (book_bbo b))"
  using sd assms(3) side_updated_ok [OF rep, of u]
  by (auto simp: is_side_def bbo_after_def with_bbo_def bbo_side_def Let_def)

subsection \<open>The properties of the client's book\<close>

text \<open>A book with one order, for the witnesses.\<close>

definition demo_add :: ome_market_update where
  "demo_add = \<lparr>mu_type = UPD_ADD, mu_order_id = 1, mu_ticker_id = 0, mu_side = SELL, mu_price = 101,
     mu_qty = 5, mu_priority = 1\<rparr>"

definition demo_te_view :: te_view where
  "demo_te_view = (\<lambda>s. if s = SELL then [te_of_update demo_add] else [])"

lemma demo_first: "te_apply_spec demo_add (\<lambda>_. []) = demo_te_view" "te_accepts (\<lambda>_. []) demo_add"
  by (auto simp: te_apply_spec_def demo_te_view_def insert_prio_def fun_eq_iff te_accepts_def
      te_resting_def limit_defs demo_add_def)

lemma demo_te_book: "\<exists>b. te_represents b demo_te_view"
  using te_update_ok [OF new_te_book_ok demo_first(2)] demo_first(1) by metis

definition demo_more :: ome_market_update where
  "demo_more = demo_add\<lparr>mu_order_id := 2, mu_price := 100, mu_qty := 7\<rparr>"

lemma demo_more_ok: "te_accepts demo_te_view demo_more"
  by (simp add: te_accepts_def demo_te_view_def demo_more_def demo_add_def te_resting_def limit_defs
      te_of_update_def price_to_index_def)

text \<open>
  C12. The client's \<open>on_market_update\<close> has the effect of the update on the order lists: for
  every book that represents the lists \<open>A\<close> and every update within the limits of the code it
  returns, the new book represents the lists with the order added behind those of its
  priority, changed or taken out, and the trading engine is told once.
\<close>

theorem te_update_implements_spec:
  assumes "te_represents b A" "te_accepts A u"
  shows "\<exists>b'. te_on_market_update u b = Inr b' \<and> te_represents b' (te_apply_spec u A)
    \<and> notified b' = notified b @ (if has_engine b then [note_of u] else [])"
  using te_update_ok [OF assms] by blast

theorem te_update_implements_spec_witness:
  "\<exists>b b'. te_represents b demo_te_view \<and> te_on_market_update demo_more b = Inr b'
    \<and> te_represents b' (te_apply_spec demo_more demo_te_view)"
  using demo_te_book te_update_implements_spec [OF _ demo_more_ok] by blast

lemma bbo_kept:
  assumes "te_represents b A" "te_accepts A u" "names_order A u" "bbo_exact b A"
    and b': "te_represents b' (te_apply_spec u A)" "book_bbo b' = bbo_after u b A"
    and "mu_type u = UPD_ADD \<longrightarrow> A (mu_side u) \<noteq> []"
  shows "bbo_exact b' (te_apply_spec u A)"
proof -
  have "bbo_side sd (book_bbo b') = best_of (te_apply_spec u A sd)" if sd: "is_side sd" for sd
  proof (cases "mu_type u = UPD_TRADE")
    case True
    then show ?thesis
      using assms(4) b'(2) sd by (auto simp: bbo_after_def te_apply_spec_def bbo_exact_def is_side_def)
  next
    case False
    have "bbo_side sd (book_bbo b) = best_of (A sd)" using assms(4) sd by (auto simp: bbo_exact_def is_side_def)
    moreover have "best_of (te_apply_spec u A sd) = best_of (A sd)" if "\<not> side_updated sd u (A sd)"
      using best_unaffected [OF assms(1) sd assms(2,3) that] assms(7) by auto
    ultimately show ?thesis using bbo_side_after [OF assms(1) sd False] b'(2) by auto
  qed
  then show ?thesis by (simp add: bbo_exact_def)
qed

lemma te_first_order_unseen:
  assumes "te_represents b A" "mu_type u = UPD_ADD" "A (mu_side u) = []"
  shows "bbo_after u b A = book_bbo b"
proof -
  have "\<not> bid_is_updated u b" "\<not> ask_is_updated u b"
    using assms(3) side_updated_ok [OF assms(1), of u] by (auto simp: side_updated_def)
  then show ?thesis using assms(2) by (simp add: bbo_after_def with_bbo_def)
qed

text \<open>
  C23. When the best bid and offer shows the best price of either side and the (32 bit) sum of the
  quantities there, and the book takes an update (\<open>te_accepts\<close>: of a \<open>CLEAR\<close> this asks that the book
  be empty) that names the side and price of its order, as the exchange's do, then it shows them
  afterwards exactly if the update is not the first order of an empty side; that order stays
  unseen, unless it carries the very numbers that stand for no order.
\<close>

theorem te_bbo_follows:
  assumes "te_represents b A" "te_accepts A u" "names_order A u" "bbo_exact b A"
  shows "\<exists>b'. te_on_market_update u b = Inr b' \<and> te_represents b' (te_apply_spec u A)
    \<and> (bbo_exact b' (te_apply_spec u A) \<longleftrightarrow>
         \<not> (mu_type u = UPD_ADD \<and> A (mu_side u) = [] \<and> (mu_price u, mu_qty u) \<noteq> (Price_INVALID, Qty_INVALID)))"
proof -
  obtain b' where b': "te_on_market_update u b = Inr b'" "te_represents b' (te_apply_spec u A)"
    "book_bbo b' = bbo_after u b A"
    using te_update_ok [OF assms(1,2)] by blast
  have "bbo_exact b' (te_apply_spec u A) \<longleftrightarrow>
      \<not> (mu_type u = UPD_ADD \<and> A (mu_side u) = [] \<and> (mu_price u, mu_qty u) \<noteq> (Price_INVALID, Qty_INVALID))"
  proof (cases "mu_type u = UPD_ADD \<and> A (mu_side u) = []")
    case True
    then have sd: "is_side (mu_side u)" using assms(2) by (simp add: te_accepts_def)
    have "book_bbo b' = book_bbo b"
      using True te_first_order_unseen [OF assms(1), of u] b'(3) by simp
    moreover have "te_apply_spec u A = A(mu_side u := [te_of_update u])"
      using True by (simp add: te_apply_spec_def insert_prio_def)
    ultimately show ?thesis
      using True sd assms(4) by (auto simp: bbo_exact_def is_side_def best_of_def te_of_update_def bbo_side_def)
  next
    case False
    then show ?thesis using bbo_kept [OF assms(1-4) b'(2,3)] by auto
  qed
  then show ?thesis using b'(1,2) by blast
qed

text \<open>
  The first order of an empty side does not reach the best bid and offer: the flag is
  computed before the order is added, and an empty side never sets it.
\<close>

theorem te_first_order_bbo_stale:
  assumes "te_represents b A" "te_accepts A u" "mu_type u = UPD_ADD" "A (mu_side u) = []"
  shows "\<exists>b'. te_on_market_update u b = Inr b' \<and> book_bbo b' = book_bbo b
    \<and> te_represents b' (A(mu_side u := [te_of_update u]))"
proof -
  have "bbo_after u b A = book_bbo b" by (rule te_first_order_unseen [of b A u]) (use assms in simp_all)
  moreover have "te_apply_spec u A = A(mu_side u := [te_of_update u])"
    using assms(3,4) by (simp add: te_apply_spec_def insert_prio_def)
  ultimately show ?thesis using te_update_ok [OF assms(1,2)] by metis
qed

theorem te_first_order_bbo_stale_witness:
  "\<exists>b. te_on_market_update demo_add (new_te_book 0) = Inr b \<and> book_bbo b = default_bbo
    \<and> te_represents b demo_te_view"
proof -
  have "(\<lambda>_. [])(mu_side demo_add := [te_of_update demo_add]) = demo_te_view"
    by (auto simp: demo_te_view_def demo_add_def)
  then show ?thesis
    using te_first_order_bbo_stale [OF new_te_book_ok demo_first(2), of 0]
    by (simp add: demo_add_def new_te_book_def)
qed

theorem te_bbo_follows_witness:
  "\<exists>b b'. te_represents b demo_te_view \<and> te_on_market_update demo_more b = Inr b'
    \<and> bbo_exact b' (te_apply_spec demo_more demo_te_view)"
proof -
  obtain b where b: "te_represents b demo_te_view" using demo_te_book by blast
  let ?b = "b\<lparr>book_bbo := with_bbo True True demo_te_view default_bbo\<rparr>"
  have r: "te_represents ?b demo_te_view" using te_same_represents [of b ?b] b by simp
  have "bbo_exact ?b demo_te_view" by (simp add: bbo_exact_def bbo_side_def with_bbo_def Let_def)
  moreover have "names_order demo_te_view demo_more" "demo_te_view (mu_side demo_more) \<noteq> []"
    by (simp_all add: names_order_def demo_te_view_def te_resting_def demo_more_def demo_add_def te_of_update_def)
  ultimately show ?thesis using r te_bbo_follows [OF r demo_more_ok] by blast
qed

text \<open>\<open>CLEAR\<close> frees the orders and levels, and leaves the table of the levels alone.\<close>

lemma te_clear_update:
  assumes ok: "te_ok b G" and c: "mu_type c = UPD_CLEAR"
  obtains op lp b0 where "te_on_market_update c b = Inr b0"
    "te_same (b\<lparr>order_pool := op, orders_at_price_pool := lp, id_to_order := \<lambda>_. None, bids_by_price := None, asks_by_price := None\<rparr>) b0"
    "freed (order_pool b) (all_orders G) op" "freed (orders_at_price_pool b) (all_levels G) lp"
proof -
  obtain op lp where clr: "clear_entire_book b = Inr (b\<lparr>order_pool := op, orders_at_price_pool := lp,
      id_to_order := \<lambda>_. None, bids_by_price := None, asks_by_price := None\<rparr>)"
    "freed (order_pool b) (all_orders G) op" "freed (orders_at_price_pool b) (all_levels G) lp"
    using clear_ok [OF ok] by blast
  let ?b0 = "b\<lparr>order_pool := op, orders_at_price_pool := lp, id_to_order := \<lambda>_. None,
    bids_by_price := None, asks_by_price := None\<rparr>"
  have "update_bbo x y ?b0 = Inr (?b0\<lparr>book_bbo := (let o1 = if x then (book_bbo b)\<lparr>bbo_bid := Price_INVALID, bbo_bid_qty := Qty_INVALID\<rparr> else book_bbo b
      in if y then o1\<lparr>bbo_ask := Price_INVALID, bbo_ask_qty := Qty_INVALID\<rparr> else o1)\<rparr>)" for x y
    by (cases x; cases y) (simp_all add: update_bbo_def best_offer_def)
  then have "te_on_market_update c b = Inr (notify (Book_Update (mu_ticker_id c) (mu_price c) (mu_side c))
      (?b0\<lparr>book_bbo := (let o1 = if bid_is_updated c b then (book_bbo b)\<lparr>bbo_bid := Price_INVALID, bbo_bid_qty := Qty_INVALID\<rparr> else book_bbo b
      in if ask_is_updated c b then o1\<lparr>bbo_ask := Price_INVALID, bbo_ask_qty := Qty_INVALID\<rparr> else o1)\<rparr>))"
    using c clr(1) by (simp add: te_on_market_update_def te_apply_def)
  then show thesis by (rule that [OF _ _ clr(2,3)]) (simp add: te_same_def level_book.truncate_def notify_def)
qed

text \<open>An order at the price of a level the table still has is linked into that level, on neither side.\<close>

lemma te_add_to_stale_level:
  assumes "pool_ok (order_pool b)" "Suc (card (used (order_pool b))) < n_blocks (order_pool b)"
    and "bids_by_price b = None" "asks_by_price b = None" "get_level_for_price b (mu_price u) = Some l"
    and "l_order_0 (lev b l) = Some f" "o_prev (ord b f) = Some t" "i_next_free (order_pool b) \<noteq> f"
    and u: "mu_type u = UPD_ADD" "unat (mu_order_id u) < MAX_ORDER_IDS"
  shows "\<exists>b2 a. te_on_market_update u b = Inr b2 \<and> order_at b2 (mu_order_id u) = Inr (Some a)
    \<and> bids_by_price b2 = None \<and> asks_by_price b2 = None"
proof -
  obtain oq a where oq: "allocate (order_pool b) (te_of_update u) = Inr (a, oq)"
    "blk oq = (blk (order_pool b))(a := te_of_update u)" "a = i_next_free (order_pool b)"
    using allocate_ok [OF assms(1,2)] by metis
  let ?b1 = "b\<lparr>order_pool := oq\<rparr>"
  have ord1: "ord ?b1 = (ord b)(a := te_of_update u)" using oq(2) by (auto simp: ord_def fun_eq_iff)
  have "lev ?b1 = lev b" "get_level_for_price ?b1 (mu_price u) = Some l" "best_levels sd ?b1 = None" for sd
    using assms(3-5) by (simp_all add: pool_update_reads get_level_for_price_def best_levels_def)
  then obtain b2 where b2: "link_order ?b1 a = Inr b2" "t_id (ord b2 a) = mu_order_id u"
    "best_levels BUY b2 = None" "best_levels SELL b2 = None"
    using assms(6-8) oq(3) ord1 by (auto simp: link_order_def te_of_update_def book_simps Let_def)
  let ?b3 = "b2\<lparr>id_to_order := (id_to_order b2)(unat (mu_order_id u) := Some a)\<rparr>"
  have "te_apply u b = Inr ?b3"
    using u oq(1) b2 by (simp add: te_apply_def te_add_order_def set_order_at_def flip: te_of_update_def)
  moreover have "\<not> bid_is_updated u b" "\<not> ask_is_updated u b"
    by (simp_all add: bid_is_updated_def ask_is_updated_def assms(3,4))
  ultimately have "te_on_market_update u b = Inr (notify (Book_Update (mu_ticker_id u) (mu_price u) (mu_side u)) ?b3)"
    using u(1) by (simp add: te_on_market_update_def update_bbo_def)
  moreover have "bids_by_price b2 = None" "asks_by_price b2 = None" using b2(3,4) by (simp_all add: best_levels_def)
  ultimately show ?thesis using u(2) by (auto simp: notify_def order_at_def)
qed

text \<open>
  \<open>CLEAR\<close> loses prices: \<open>clear_entire_book\<close> frees the levels but leaves them in the
  table, so the next order at such a price is linked into a freed level: it is in the order
  table, but both sides of the book stay empty.
\<close>

theorem te_clear_loses_level:
  assumes "te_represents b A" "r \<in> set (te_resting A)" "mu_type c = UPD_CLEAR" "mu_type u = UPD_ADD"
    and "price_to_index (mu_price u) = price_to_index (o_price r)" "unat (mu_order_id u) < MAX_ORDER_IDS"
  shows "\<exists>b1 b2 a. te_on_market_update c b = Inr b1 \<and> te_on_market_update u b1 = Inr b2
    \<and> order_at b2 (mu_order_id u) = Inr (Some a) \<and> bids_by_price b2 = None \<and> asks_by_price b2 = None"
proof -
  obtain G where ok: "te_ok b G" and A: "\<forall>s. is_side s \<longrightarrow> A s = te_side_view b G s"
    using assms(1) by (auto simp: te_represents_def)
  have bok: "book_ok b G {} {}" using ok by (simp add: te_ok_def)
  have "o_price r \<in> prices_of b G" using assms(2) te_resting_orders(2) [OF A] by auto
  then obtain l where l: "l \<in> all_levels G" "lpr b l = o_price r" using prices_levels(1) [OF bok] by auto
  obtain f t where f: "l_order_0 (lev b l) = Some f" "o_prev (ord b f) = Some t" "f \<in> all_orders G"
    using level_first [OF bok l(1)] by metis
  have "f \<in> used (order_pool b)" using f(3) bok by (auto simp: book_ok_def)
  then have fresh: "i_next_free (order_pool b) \<noteq> f" using bok by (auto simp: book_ok_def pool_ok_def used_def)
  obtain op lp b0 where b0: "te_on_market_update c b = Inr b0"
    "te_same (b\<lparr>order_pool := op, orders_at_price_pool := lp, id_to_order := \<lambda>_. None, bids_by_price := None, asks_by_price := None\<rparr>) b0"
    "freed (order_pool b) (all_orders G) op" "freed (orders_at_price_pool b) (all_levels G) lp"
    using te_clear_update [OF ok assms(3)] by metis
  note core = te_sameD [OF b0(2)]
  have reads: "ord b0 = ord b" "lev b0 = lev b" using b0(3,4) by (simp_all add: core ord_def lev_def freed_def fun_eq_iff)
  have links: "l_order_0 (lev b0 l) = Some f" "o_prev (ord b0 f) = Some t" unfolding reads by (fact f)+
  have "used op = {}" "n_blocks op = MAX_ORDER_IDS" "pool_ok op" "i_next_free op = i_next_free (order_pool b)"
    using b0(3) bok ok by (auto simp: freed_def book_ok_def te_ok_def)
  moreover have "get_level_for_price b0 (mu_price u) = Some l"
    using bok l assms(5) by (auto simp: book_ok_def table_ok_def get_level_for_price_def core)
  ultimately have "\<exists>b2 a. te_on_market_update u b0 = Inr b2 \<and> order_at b2 (mu_order_id u) = Inr (Some a)
    \<and> bids_by_price b2 = None \<and> asks_by_price b2 = None"
    using fresh by (intro te_add_to_stale_level [OF _ _ _ _ _ links _ assms(4,6)]) (simp_all add: core limit_defs)
  then show ?thesis using b0(1) by blast
qed

theorem te_clear_loses_level_witness:
  "\<exists>b b1 b2 a. te_represents b demo_te_view
    \<and> te_on_market_update (demo_add\<lparr>mu_type := UPD_CLEAR\<rparr>) b = Inr b1 \<and> te_on_market_update demo_add b1 = Inr b2
    \<and> order_at b2 1 = Inr (Some a) \<and> bids_by_price b2 = None \<and> asks_by_price b2 = None"
proof -
  obtain b where b: "te_represents b demo_te_view" using demo_te_book by blast
  have "te_of_update demo_add \<in> set (te_resting demo_te_view)" by (simp add: te_resting_def demo_te_view_def)
  from te_clear_loses_level [OF b this, of "demo_add\<lparr>mu_type := UPD_CLEAR\<rparr>" demo_add] show ?thesis
    using b by (auto simp: demo_add_def te_of_update_def limit_defs)
qed

end
