(* ===== verification/Replication.thy ===== *)
theory Replication
  imports Matching_Engine Te_Properties
begin

text \<open>
  The exchange's book and the client's: the updates of an operation of the exchange's book,
  applied one by one to a client's book that shows the same orders, are all accepted and
  lead to a client's book that again shows the same orders, in the same price-time order
  (\<open>client_follows_add\<close>, \<open>client_follows_run\<close>). The one limit that is the client's own is
  the size of its order table, which is indexed by the exchange's market order id.
\<close>

definition te_of_ome :: "ome_order \<Rightarrow> te_order" where
  "te_of_ome r = \<lparr>o_side = o_side r, o_price = o_price r, o_qty = o_qty r, o_priority = o_priority r,
     o_prev = None, o_next = None, t_id = o_market_oid r\<rparr>"

lemma te_of_ome_simps [simp]:
  "o_side (te_of_ome r) = o_side r" "o_price (te_of_ome r) = o_price r" "o_qty (te_of_ome r) = o_qty r"
  "t_id (te_of_ome r) = o_market_oid r" "te_of_ome (r\<lparr>o_qty := q\<rparr>) = (te_of_ome r)\<lparr>o_qty := q\<rparr>"
  by (simp_all add: te_of_ome_def)

definition shows_book :: "te_view \<Rightarrow> book_view \<Rightarrow> bool" where
  "shows_book B A \<longleftrightarrow> (\<forall>s. is_side s \<longrightarrow> B s = map te_of_ome (A s))"

lemma shows_book_side: "shows_book B A \<Longrightarrow> is_side s \<Longrightarrow> B s = map te_of_ome (A s)"
  by (simp add: shows_book_def)

lemma shows_book_resting:
  assumes "shows_book B A"
  shows "te_resting B = map te_of_ome (all_resting A)"
  using assms by (simp add: shows_book_def te_resting_def all_resting_def)

lemma shows_book_sides:
  assumes "is_side sd" "B sd = map te_of_ome (A sd)" "B (opposite sd) = map te_of_ome (A (opposite sd))"
  shows "shows_book B A"
  unfolding shows_book_def using assms is_side_cases [OF assms(1)] by metis

text \<open>
  A list of updates, each acceptable where it arrives and genuine: a change or a
  cancellation carries the side and the price of the order it is about.
\<close>

definition te_genuine :: "te_view \<Rightarrow> ome_market_update \<Rightarrow> bool" where
  "te_genuine B u \<longleftrightarrow> mu_type u \<in> {UPD_ADD, UPD_MODIFY, UPD_CANCEL, UPD_TRADE}
     \<and> (mu_type u \<in> {UPD_MODIFY, UPD_CANCEL} \<longrightarrow>
          list_all (\<lambda>r. t_id r = mu_order_id u \<longrightarrow> o_side r = mu_side u \<and> o_price r = mu_price u) (te_resting B))"

fun accepts_run :: "ome_market_update list \<Rightarrow> te_view \<Rightarrow> bool" where
  "accepts_run [] B \<longleftrightarrow> True"
| "accepts_run (u # us) B \<longleftrightarrow> te_accepts B u \<and> te_genuine B u \<and> accepts_run us (te_apply_spec u B)"

lemma accepts_run_append:
  "accepts_run (us @ vs) B \<longleftrightarrow> accepts_run us B \<and> accepts_run vs (fold te_apply_spec us B)"
  by (induction us arbitrary: B) auto

definition te_run :: "ome_market_update list \<Rightarrow> te_book \<Rightarrow> te_book res" where
  "te_run us c = foldR (\<lambda>c u. te_on_market_update u c) c us"

lemma te_run_ok:
  assumes "te_represents c B" "accepts_run us B"
  shows "\<exists>c'. te_run us c = Inr c' \<and> te_represents c' (fold te_apply_spec us B)"
  using assms
proof (induction us arbitrary: c B)
  case (Cons u us)
  then obtain c1 where c1: "te_on_market_update u c = Inr c1" "te_represents c1 (te_apply_spec u B)"
    using te_update_ok [of c B u] by auto
  then show ?case using Cons.IH [of c1 "te_apply_spec u B"] Cons.prems(2) by (auto simp: te_run_def)
qed (simp add: te_run_def)

lemma te_run_append: "te_run (us @ vs) c = bindR (te_run us c) (te_run vs)"
  by (simp add: te_run_def [abs_def] foldR_append)

lemma other_ids:
  assumes "n \<notin> o_market_oid ` set xs"
  shows "filter (\<lambda>x. t_id x \<noteq> n) (map te_of_ome xs) = map te_of_ome xs"
    and "map (\<lambda>x. if t_id x = n then f x else x) (map te_of_ome xs) = map te_of_ome xs"
  using assms by (induction xs) auto

subsection \<open>Matching\<close>

text \<open>The orders of the client's book with the id of a resting order are that order.\<close>

lemma genuine_about:
  assumes "distinct (map o_market_oid (xs @ ys))" "set (te_resting B) = te_of_ome ` set (xs @ ys)" "r \<in> set (xs @ ys)"
    and "mu_type u \<in> {UPD_MODIFY, UPD_CANCEL}" "mu_order_id u = o_market_oid r" "mu_side u = o_side r" "mu_price u = o_price r"
  shows "te_genuine B u"
proof -
  have "x = r" if "x \<in> set (xs @ ys)" "o_market_oid x = o_market_oid r" for x
    using assms(1,3) that unfolding distinct_map inj_on_def by blast
  then show ?thesis using assms(2,4-7) unfolding te_genuine_def list_all_iff by auto
qed

lemma match_follow:
  assumes "match_spec i q rs = (q', rs', ms)" "is_side sd"
    and "distinct (map o_market_oid (rs @ ss))"
    and "B (opposite sd) = map te_of_ome rs" "B sd = map te_of_ome ss"
  shows "accepts_run (updates ms) B \<and> fold te_apply_spec (updates ms) B (opposite sd) = map te_of_ome rs'
    \<and> fold te_apply_spec (updates ms) B sd = map te_of_ome ss"
  using assms
proof (induction arbitrary: B rule: match_spec_induct)
  case (full q r rs q' rs' ms f)
  let ?u = "mk_update UPD_CANCEL (o_market_oid r) (in_ticker i) (o_side r) (o_price r) (o_qty r) Priority_INVALID"
  let ?t = "mk_update UPD_TRADE OrderID_INVALID (in_ticker i) (in_side i) (o_price r) f Priority_INVALID"
  let ?B = "te_apply_spec ?u B"
  have us: "updates (fill_msgs i r f (q - f) @ ms) = ?t # ?u # updates ms"
    using full(1) by (simp add: fill_msgs_def)
  have t: "te_apply_spec ?t B = B" "te_accepts B ?t" "te_genuine B ?t"
    by (simp_all add: te_apply_spec_def te_accepts_def te_genuine_def)
  have "r \<in> set (r # rs)" by simp
  then have "te_of_ome r \<in> set (te_resting B)"
    using full.prems(1,3) by (auto simp: te_resting_def is_side_def)
  then have "te_accepts B ?u" by (force simp: te_accepts_def)
  moreover have "set (te_resting B) = te_of_ome ` set ((r # rs) @ ss)"
    using full.prems(1,3,4) by (auto simp: te_resting_def is_side_def)
  then have "te_genuine B ?u" by (rule genuine_about [OF full.prems(2)]) simp_all
  moreover have "?B (opposite sd) = map te_of_ome rs" "?B sd = map te_of_ome ss"
    using full.prems(2-4) other_ids(1) [of "o_market_oid r" rs] other_ids(1) [of "o_market_oid r" ss]
    by (simp_all add: te_apply_spec_def)
  moreover have "distinct (map o_market_oid (rs @ ss))" using full.prems(2) by simp
  ultimately show ?case using full(6) [of ?B] full.prems(1) t unfolding us by simp
next
  case (part q r rs)
  let ?u = "mk_update UPD_MODIFY (o_market_oid r) (in_ticker i) (o_side r) (o_price r) (o_qty r - q) (o_priority r)"
  let ?t = "mk_update UPD_TRADE OrderID_INVALID (in_ticker i) (in_side i) (o_price r) q Priority_INVALID"
  have "o_qty r - q \<noteq> 0" using part(1) by auto
  then have us: "updates (fill_msgs i r q 0) = [?t, ?u]" by (simp add: fill_msgs_def)
  have t: "te_apply_spec ?t B = B" "te_accepts B ?t" "te_genuine B ?t"
    by (simp_all add: te_apply_spec_def te_accepts_def te_genuine_def)
  have "te_of_ome r \<in> set (te_resting B)" using part.prems(1,3) by (auto simp: te_resting_def is_side_def)
  then have "te_accepts B ?u" by (force simp: te_accepts_def)
  moreover have "set (te_resting B) = te_of_ome ` set ((r # rs) @ ss)"
    using part.prems(1,3,4) by (auto simp: te_resting_def is_side_def)
  then have "te_genuine B ?u" by (rule genuine_about [OF part.prems(2)]) simp_all
  moreover have "te_apply_spec ?u B (opposite sd) = map te_of_ome (r\<lparr>o_qty := o_qty r - q\<rparr> # rs)"
    "te_apply_spec ?u B sd = map te_of_ome ss"
    using part.prems(2-4) other_ids(2) [of "o_market_oid r" rs] other_ids(2) [of "o_market_oid r" ss]
    by (simp_all add: te_apply_spec_def)
  ultimately show ?case using t unfolding us by simp
qed simp_all

subsection \<open>\<open>add\<close> and \<open>cancel\<close>\<close>

text \<open>The book once the incoming order has matched.\<close>

lemma add_last_accepted:
  assumes B: "shows_book B (A(opposite sd := opp))" and acc: "accepts A i" and sd: "sd = in_side i"
    and m: "match_spec i q (A (opposite sd)) = (rem, opp, ms)" and rem: "rem \<noteq> 0"
    and v: "view_ok (in_moid i) A" and oid: "unat (in_moid i) < MAX_ORDER_IDS"
    and lim: "card (view_prices A) < MAX_PRICE_LEVELS"
  shows "te_accepts B (mk_update UPD_ADD (in_moid i) tk sd (in_price i) rem pr)"
proof -
  let ?A = "A(opposite sd := opp)" and ?p = "in_price i"
  have isd: "is_side sd" using acc sd by (simp add: accepts_def)
  note m' = m [unfolded sd]
  have rest: "te_resting B = map te_of_ome (all_resting ?A)" by (rule shows_book_resting [OF B])
  have pri: "prioritised (opposite (in_side i)) (A (opposite (in_side i)))"
    using view_ok_side [OF v is_side_opposite] by (simp add: side_view_ok_def)
  have one: "o_market_oid r \<noteq> in_moid i" "price_to_index (o_price r) = price_to_index ?p \<Longrightarrow> o_price r = ?p \<and> o_side r = sd"
    if r: "r \<in> set (all_resting ?A)" for r
  proof -
    have r': "r \<in> set (all_resting (A(opposite (in_side i) := opp)))" "is_side (in_side i)"
      using r isd unfolding sd by blast+
    obtain s n where "s \<in> set (all_resting A)" "r = s\<lparr>o_qty := n\<rparr>"
      by (rule match_resting [of i q A, OF m' r'(2,1)])
    then show "o_market_oid r \<noteq> in_moid i" using v by (auto simp: view_ok_def side_view_ok_def all_resting_def)
    assume "price_to_index (o_price r) = price_to_index ?p"
    then show "o_price r = ?p \<and> o_side r = sd"
      using match_clears_slot [OF acc m' rem pri] r view_ok_side [OF v isd] unfolding sd by (simp add: side_view_ok_def)
  qed
  have "?p \<in> view_prices ?A \<or> Suc (card (view_prices ?A)) < MAX_PRICE_LEVELS"
    using match_keeps_levels [OF acc m' _ lim] unfolding sd by blast
  moreover have "o_price ` set (te_resting B) = view_prices ?A"
    unfolding rest view_prices_def by (simp add: image_image)
  moreover have "Suc (length (te_resting B)) < MAX_ORDER_IDS"
    using match_keeps_length [OF acc m'] unfolding rest sd by simp
  moreover have "list_all (\<lambda>r. t_id r \<noteq> in_moid i) (te_resting B)"
    "list_all (\<lambda>r. price_to_index (o_price r) = price_to_index ?p \<longrightarrow> o_price r = ?p \<and> o_side r = sd) (te_resting B)"
    using one unfolding rest list_all_iff by auto
  ultimately show ?thesis
    using isd oid unfolding te_accepts_def by simp
qed

lemma add_follow:
  assumes B: "shows_book B A" and acc: "accepts A i" and v: "view_ok (in_moid i) A"
    and oid: "unat (in_moid i) < MAX_ORDER_IDS" and lim: "card (view_prices A) < MAX_PRICE_LEVELS"
  shows "accepts_run (updates (snd (add_spec i q A))) B
    \<and> shows_book (fold te_apply_spec (updates (snd (add_spec i q A))) B) (fst (add_spec i q A))"
proof -
  let ?sd = "in_side i" and ?op = "opposite (in_side i)" and ?p = "in_price i"
  have sd: "is_side ?sd" using acc by (simp add: accepts_def)
  obtain rem opp ms where m: "match_spec i q (A ?op) = (rem, opp, ms)" by (cases "match_spec i q (A ?op)")
  have "distinct (map o_market_oid (A ?op @ A ?sd))"
    using v sd distinct_side [OF is_side_opposite, of A ?sd] by (auto simp: view_ok_def is_side_def)
  from match_follow [OF m sd this shows_book_side [OF B is_side_opposite] shows_book_side [OF B sd]]
  have f: "accepts_run (updates ms) B" "fold te_apply_spec (updates ms) B ?op = map te_of_ome opp"
    "fold te_apply_spec (updates ms) B ?sd = map te_of_ome (A ?sd)" by blast+
  let ?B = "fold te_apply_spec (updates ms) B"
  have B1: "shows_book ?B (A(?op := opp))" by (rule shows_book_sides [OF sd]) (use f in auto)
  show ?thesis
  proof (cases "rem = 0")
    case True
    then show ?thesis using m f(1) B1 by (simp add: add_spec_def Let_def)
  next
    case False
    let ?pr = "next_priority_spec ?p (A ?sd)"
    let ?x = "new_order_spec i rem ?pr" and ?u = "mk_update UPD_ADD (in_moid i) (in_ticker i) ?sd ?p rem ?pr"
    have spec: "add_spec i q A = ((A(?op := opp))(?sd := insert_prio ?sd o_price ?p ?x (A ?sd)),
        Resp (mk_response RES_ACCEPTED (in_client i) (in_ticker i) (in_oid i) (in_moid i) ?sd ?p 0 q) # ms @ [Upd ?u])"
      using m False by (simp add: add_spec_def Let_def)
    have "te_accepts ?B ?u" by (rule add_last_accepted [OF B1 acc refl m False v oid lim])
    moreover have "te_genuine ?B ?u" by (simp add: te_genuine_def)
    moreover have "te_of_update ?u = te_of_ome ?x"
      by (simp add: te_of_update_def te_of_ome_def new_order_spec_def mk_update_def)
    then have "te_apply_spec ?u ?B ?sd = map te_of_ome (insert_prio ?sd o_price ?p ?x (A ?sd))"
      using f(3) map_insert_prio [of "A ?sd" o_price te_of_ome o_price ?sd ?p ?x] by (simp add: te_apply_spec_def)
    moreover have "te_apply_spec ?u ?B ?op = map te_of_ome opp" using f(2) by (simp add: te_apply_spec_def)
    ultimately show ?thesis
      using f(1) unfolding spec by (simp add: accepts_run_append shows_book_sides [OF sd])
  qed
qed

lemma cancel_follow:
  assumes B: "shows_book B A" and u: "\<And>x y. x \<in> set (all_resting A) \<Longrightarrow> y \<in> set (all_resting A)
      \<Longrightarrow> is_order_of c oid x \<Longrightarrow> is_order_of c oid y \<Longrightarrow> x = y"
    and d: "distinct (map o_market_oid (all_resting A))"
  shows "accepts_run (updates (snd (cancel_spec c oid tk A))) B
    \<and> shows_book (fold te_apply_spec (updates (snd (cancel_spec c oid tk A))) B) (fst (cancel_spec c oid tk A))"
proof (cases "find (is_order_of c oid) (all_resting A)")
  case None
  then show ?thesis using B by (simp add: cancel_spec_def all_resting_def)
next
  case (Some r)
  then have r: "r \<in> set (all_resting A)" "is_order_of c oid r" by (auto simp: find_Some_iff)
  let ?u = "mk_update UPD_CANCEL (o_market_oid r) tk (o_side r) (o_price r) 0 (o_priority r)"
  have spec: "updates (snd (cancel_spec c oid tk A)) = [?u]"
    "fst (cancel_spec c oid tk A) = (\<lambda>s. filter (\<lambda>x. \<not> is_order_of c oid x) (A s))"
    using Some by (simp_all add: cancel_spec_def all_resting_def)
  have same: "is_order_of c oid x \<longleftrightarrow> o_market_oid x = o_market_oid r" if "x \<in> set (all_resting A)" for x
  proof
    assume "is_order_of c oid x"
    then show "o_market_oid x = o_market_oid r" using u [OF that r(1)] r(2) by simp
  next
    assume "o_market_oid x = o_market_oid r"
    then have "x = r" using d that r(1) by (auto simp: distinct_map inj_on_def)
    then show "is_order_of c oid x" using r(2) by simp
  qed
  have "te_accepts B ?u" using r(1) by (force simp: te_accepts_def shows_book_resting [OF B])
  moreover have "te_genuine B ?u"
    by (rule genuine_about [OF d [unfolded all_resting_def] _ r(1) [unfolded all_resting_def]]) (simp_all add: shows_book_resting [OF B] all_resting_def image_Un)
  moreover have "te_apply_spec ?u B s = map te_of_ome (filter (\<lambda>x. \<not> is_order_of c oid x) (A s))" if s: "is_side s" for s
  proof -
    have "filter (\<lambda>x. \<not> is_order_of c oid x) (A s) = filter (\<lambda>x. o_market_oid x \<noteq> o_market_oid r) (A s)"
      by (rule filter_cong [OF refl]) (use same s in \<open>auto simp: all_resting_def is_side_def\<close>)
    then show ?thesis
      using shows_book_side [OF B s] by (simp add: te_apply_spec_def filter_map comp_def)
  qed
  ultimately show ?thesis unfolding spec by (simp add: shows_book_def)
qed

lemma represents_prices:
  assumes "represents b A"
  shows "card (view_prices A) < MAX_PRICE_LEVELS"
proof -
  obtain G where ok: "ome_ok b G" and A: "\<forall>s. is_side s \<longrightarrow> A s = side_view b G s"
    using assms by (auto simp: represents_def)
  then have bok: "book_ok b G {} {}" by (simp add: ome_ok_def)
  show ?thesis
    using pool_card [of "orders_at_price_pool b"] ok card_levels [OF bok] resting_orders(2) [OF A]
    by (simp add: ome_ok_def book_ok_def)
qed

subsection \<open>Runs of the exchange\<close>

lemma process_follow:
  assumes ok: "engine_ok e S" and v: "valid_request r (S t)" and t: "t = unat (rq_ticker_id r)"
    and spec: "request_spec r (S t) = (B', ms)" and tr: "trading_ok (S t)"
    and bound: "unat (snd (S t)) < MAX_ORDER_IDS" and B: "shows_book B (fst (S t))"
  shows "accepts_run (updates ms) B \<and> shows_book (fold te_apply_spec (updates ms) B) (fst B')"
proof -
  obtain A n where S: "S t = (A, n)" by (cases "S t")
  have "represents (order_book_for_ticker e ! t) (fst (S t))"
    using ok v unfolding t engine_ok_def valid_request_def by blast
  then have rep: "represents (order_book_for_ticker e ! t) A" using S by simp
  have vok: "view_ok n A" using tr S by (simp add: trading_ok_def)
  show ?thesis
  proof (cases "rq_type r = REQ_NEW")
    case True
    have acc: "accepts A (in_of r n)" using v True S by (simp add: valid_request_def)
    have "view_ok (in_moid (in_of r n)) A" "unat (in_moid (in_of r n)) < MAX_ORDER_IDS" "shows_book B A"
      using vok bound B S by (simp_all add: in_of_def)
    from add_follow [OF this(3) acc this(1,2) represents_prices [OF rep], of "rq_qty r"]
    show ?thesis using spec True S by (auto simp: request_spec_def split: prod.splits)
  next
    case False
    have "shows_book B A" "distinct (map o_market_oid (all_resting A))" using B S vok by (simp_all add: view_ok_def)
    then have "accepts_run (updates (snd (cancel_spec c oid tk A))) B
      \<and> shows_book (fold te_apply_spec (updates (snd (cancel_spec c oid tk A))) B) (fst (cancel_spec c oid tk A))" for c oid tk
      using represents_unique [OF rep] by (intro cancel_follow) blast+
    from this [of "rq_client_id r" "rq_order_id r" "rq_ticker_id r"] show ?thesis using spec False S by (auto simp: request_spec_def split: prod.splits)
  qed
qed

lemma run_follow:
  assumes "engine_ok e S" "valid_run rs S" "run_spec rs S = (S', ms)" "has_room e ms"
    and "\<forall>t. trading_ok (S t) \<and> unat (snd (S t)) + length rs < MAX_ORDER_IDS"
    and "\<forall>t. shows_book (B t) (fst (S t))"
  shows "\<forall>t. accepts_run (for_ticker t (updates ms)) (B t)
    \<and> shows_book (fold te_apply_spec (for_ticker t (updates ms)) (B t)) (fst (S' t))"
  using assms
proof (induction rs arbitrary: e S ms B)
  case (Cons r rs)
  let ?t = "unat (rq_ticker_id r)"
  obtain S1 ms1 ms2 e1 where r: "request_spec r (S ?t) = (S1, ms1)" and rest: "run_spec rs (S(?t := S1)) = (S', ms2)"
    "ms = ms1 @ ms2" and v: "valid_request r (S ?t)" "valid_run rs (S(?t := S1))"
    and e1: "engine_ok e1 (S(?t := S1))" "has_room e1 ms2"
    using run_step [OF Cons.prems(1-4)] by metis
  have tr: "trading_ok (S ?t)" and bound: "unat (snd (S ?t)) + Suc (length rs) < MAX_ORDER_IDS"
    using spec [OF Cons.prems(5), of ?t] by simp_all
  have b1: "Suc (unat (snd (S ?t))) < 2 ^ 64" "unat (snd (S ?t)) < MAX_ORDER_IDS"
    using bound by (simp_all add: limit_defs)
  note rep = process_replay(1,2) [OF Cons.prems(1) v(1) refl r tr b1(1)]
  have step: "accepts_run (updates ms1) (B ?t)" "shows_book (fold te_apply_spec (updates ms1) (B ?t)) (fst S1)"
    using process_follow [OF Cons.prems(1) v(1) refl r tr b1(2)] Cons.prems(6) by auto
  let ?B = "B(?t := fold te_apply_spec (updates ms1) (B ?t))"
  have shows1: "\<forall>t. shows_book (?B t) (fst ((S(?t := S1)) t))" using step(2) Cons.prems(6) by auto
  note ih = Cons.IH [OF e1(1) v(2) rest(1) e1(2) run_bound_step [OF Cons.prems(5) rep] shows1]
  show ?case
  proof
    fix t
    show "accepts_run (for_ticker t (updates ms)) (B t)
        \<and> shows_book (fold te_apply_spec (for_ticker t (updates ms)) (B t)) (fst (S' t))"
      using spec [OF ih, of t] step(1)
      by (cases "t = ?t") (simp_all add: rest(2) for_ticker_request [OF r] accepts_run_append)
  qed
qed simp

text \<open>An engine with room for whatever messages.\<close>

lemma roomy_engine: "\<exists>e. engine_ok e empty_books \<and> has_room e ms"
proof -
  let ?e = "new_matching_engine (\<lambda>_ _ _. None) (new_lfqueue (Suc (length ms)) default_response)
    (new_lfqueue (Suc (length ms)) default_update)"
  have "engine_ok ?e empty_books" by (rule new_engine_ok) (simp_all add: q_ok_new)
  moreover have "length (responses ms) \<le> length ms" "length (updates ms) \<le> length ms"
    by (induction ms) (auto simp: responses_def updates_def split: ome_msg.splits)
  then have "has_room ?e ms" by (simp add: has_room_def new_matching_engine_def)
  ultimately show ?thesis by blast
qed

lemma run_clients:
  assumes v: "valid_run rs empty_books" and s: "run_spec rs empty_books = (S, ms)" and len: "Suc (length rs) < MAX_ORDER_IDS"
  shows "\<exists>c B. te_run (for_ticker t (updates ms)) (new_te_book (of_nat t)) = Inr c \<and> te_represents c B
    \<and> B BUY = map te_of_ome (fst (S t) BUY) \<and> B SELL = map te_of_ome (fst (S t) SELL)"
proof -
  obtain e where e: "engine_ok e empty_books" "has_room e ms" using roomy_engine by blast
  have "\<forall>t. trading_ok (empty_books t) \<and> unat (snd (empty_books t)) + length rs < MAX_ORDER_IDS"
    using empty_trading_ok len by (simp add: empty_books_def)
  moreover have "\<forall>t. shows_book (\<lambda>_. []) (fst (empty_books t))" by (simp add: shows_book_def empty_books_def)
  ultimately have f: "accepts_run (for_ticker t (updates ms)) (\<lambda>_. [])"
    "shows_book (fold te_apply_spec (for_ticker t (updates ms)) (\<lambda>_. [])) (fst (S t))"
    using run_follow [OF e(1) v s e(2), of "\<lambda>_ _. []"] by blast+
  obtain c where c: "te_run (for_ticker t (updates ms)) (new_te_book (of_nat t)) = Inr c"
    "te_represents c (fold te_apply_spec (for_ticker t (updates ms)) (\<lambda>_. []))"
    using te_run_ok [OF new_te_book_ok f(1)] by blast
  then show ?thesis using f(2) is_side_simps(1,2) unfolding shows_book_def by metis
qed

text \<open>
  The client's book follows the exchange's. Whatever requests a fresh exchange has
  processed, the client's book of a ticker, fed with the published updates of the ticker in
  order, returns on every one of them and then shows exactly the resting orders of the
  exchange's book of that ticker: the same orders, with the same price, open quantity and
  priority, in the same order on each side. (The market order ids have to fit the client's
  order table.)
\<close>

theorem client_follows_run:
  assumes "engine_ok e empty_books" "q_ok rx" "valid_run (q_list rx) empty_books"
    and "has_room e (snd (run_spec (q_list rx) empty_books))" "Suc (q_size rx) < MAX_ORDER_IDS"
    and "q_list (tx_market_updates e) = []" "t < MAX_TICKERS"
  shows "\<exists>rx' e' A c' B. run_engine rx e = Inr (rx', e') \<and> represents (order_book_for_ticker e' ! t) A
    \<and> te_run (for_ticker t (q_list (tx_market_updates e'))) (new_te_book (of_nat t)) = Inr c'
    \<and> te_represents c' B \<and> B BUY = map te_of_ome (A BUY) \<and> B SELL = map te_of_ome (A SELL)"
proof -
  obtain S' ms where s: "run_spec (q_list rx) empty_books = (S', ms)" by (cases "run_spec (q_list rx) empty_books")
  have room: "has_room e ms" using assms(4) s by simp
  obtain e' where e': "foldR (\<lambda>e r. process_client_request r e) e (q_list rx) = Inr e'" "engine_ok e' S'"
    "emitted e e' ms" using foldR_process_ok [OF assms(1,3) s room] by blast
  obtain rx' where run: "run_engine rx e = Inr (rx', e')"
    using lfq.consume_foldR [OF assms(2), of "q_size rx" "\<lambda>e r. process_client_request r e" e] e'(1)
    by (auto simp: run_engine_def)
  have "represents (order_book_for_ticker e' ! t) (fst (S' t))" using e'(2) assms(7) by (simp add: engine_ok_def)
  moreover have "q_list (tx_market_updates e') = updates ms" using e'(3) assms(6) by (simp add: emitted_def)
  ultimately show ?thesis using run run_clients [OF assms(3) s, of t] assms(5) by (metis length_q_list)
qed

theorem client_follows_run_witness:
  "\<exists>rx' e' A c' B. run_engine demo_rx demo_engine = Inr (rx', e') \<and> represents (order_book_for_ticker e' ! 3) A
    \<and> te_run (for_ticker 3 (q_list (tx_market_updates e'))) (new_te_book (of_nat 3)) = Inr c'
    \<and> te_represents c' B \<and> B BUY = map te_of_ome (A BUY) \<and> B SELL = map te_of_ome (A SELL)"
proof -
  have "q_list (tx_market_updates demo_engine) = []" by (simp add: demo_engine_def new_matching_engine_def)
  moreover have "Suc (q_size demo_rx) < MAX_ORDER_IDS"
    using length_q_list [of demo_rx] demo_rx_ok(2) by (simp add: demo_requests_def limit_defs)
  ultimately show ?thesis
    by (intro client_follows_run [OF demo_engine_ok demo_rx_ok(1)])
      (use demo_run(1) demo_room in \<open>simp_all add: demo_rx_ok(2) limit_defs\<close>)
qed

end
