(* ===== verification/Wire_Format.thy ===== *)
theory Wire_Format
  imports Messages
begin

text \<open>
  The bytes of the packed message structs (\<open>#pragma pack(push, 1)\<close> in \<open>exchange/data/\<close>) as
  they are copied into and read back from the socket buffers, on a little-endian machine:
  the fields in declaration order with no padding, integers at their width, enumerations as
  one byte (a byte that is no enumerator's value is read as \<open>INVALID\<close>). \<open>wire_format\<close> is the
  contract of such an encoding; the lemmas of the locale show that cutting a byte stream
  into messages does not depend on how the stream arrives.
\<close>

type_synonym byte = "8 word"

type_synonym bytes = "byte list"

subsection \<open>Little-endian integers\<close>

fun le_enc :: "nat \<Rightarrow> nat \<Rightarrow> bytes" where
  "le_enc 0 x = []"
| "le_enc (Suc n) x = of_nat (x mod 256) # le_enc n (x div 256)"

fun le_dec :: "bytes \<Rightarrow> nat" where
  "le_dec [] = 0"
| "le_dec (b # bs) = unat b + 256 * le_dec bs"

lemma length_le_enc [simp]: "length (le_enc n x) = n"
  by (induction n arbitrary: x) auto

lemma le_dec_enc: "le_dec (le_enc n x) = x mod 256 ^ n"
proof (induction n arbitrary: x)
  case (Suc n)
  have "unat (of_nat (x mod 256) :: byte) = x mod 256" by (simp add: unat_of_nat)
  then show ?case using Suc by (simp add: mod_mult2_eq)
qed simp

definition put_word :: "'w::len word \<Rightarrow> bytes" where
  "put_word w = le_enc (LENGTH('w) div 8) (unat w)"

definition get_word :: "bytes \<Rightarrow> 'w::len word" where
  "get_word bs = of_nat (le_dec bs)"

lemma get_put_word [simp]:
  assumes "8 dvd LENGTH('w::len)"
  shows "get_word (put_word (w::'w word)) = w"
proof -
  have "(256::nat) ^ (LENGTH('w) div 8) = (2 ^ 8) ^ (LENGTH('w) div 8)" by simp
  also have "\<dots> = 2 ^ LENGTH('w)" using assms by (simp only: dvd_mult_div_cancel flip: power_mult)
  finally show ?thesis
    using unsigned_less [of w] by (simp add: get_word_def put_word_def le_dec_enc)
qed

lemma length_put_word [simp]: "length (put_word (w::'w::len word)) = LENGTH('w) div 8"
  by (simp add: put_word_def)

subsection \<open>Enumerations\<close>

fun put_side :: "side \<Rightarrow> byte" where
  "put_side SIDE_INVALID = 0"
| "put_side BUY = 1"
| "put_side SELL = -1"
| "put_side SIDE_MAX = 2"

definition get_side :: "byte \<Rightarrow> side" where
  "get_side b = (if b = 1 then BUY else if b = -1 then SELL else if b = 2 then SIDE_MAX else SIDE_INVALID)"

fun put_request_type :: "request_type \<Rightarrow> byte" where
  "put_request_type REQ_INVALID = 0"
| "put_request_type REQ_NEW = 1"
| "put_request_type REQ_CANCEL = 2"

definition get_request_type :: "byte \<Rightarrow> request_type" where
  "get_request_type b = (if b = 1 then REQ_NEW else if b = 2 then REQ_CANCEL else REQ_INVALID)"

fun put_response_type :: "response_type \<Rightarrow> byte" where
  "put_response_type RES_INVALID = 0"
| "put_response_type RES_ACCEPTED = 1"
| "put_response_type RES_CANCELLED = 2"
| "put_response_type RES_FILLED = 3"
| "put_response_type RES_CANCEL_REJECTED = 4"

definition get_response_type :: "byte \<Rightarrow> response_type" where
  "get_response_type b = (if b = 1 then RES_ACCEPTED else if b = 2 then RES_CANCELLED
     else if b = 3 then RES_FILLED else if b = 4 then RES_CANCEL_REJECTED else RES_INVALID)"

fun put_update_type :: "update_type \<Rightarrow> byte" where
  "put_update_type UPD_INVALID = 0"
| "put_update_type UPD_CLEAR = 1"
| "put_update_type UPD_ADD = 2"
| "put_update_type UPD_MODIFY = 3"
| "put_update_type UPD_CANCEL = 4"
| "put_update_type UPD_TRADE = 5"
| "put_update_type UPD_SNAPSHOT_START = 6"
| "put_update_type UPD_SNAPSHOT_END = 7"

definition get_update_type :: "byte \<Rightarrow> update_type" where
  "get_update_type b = (if b = 1 then UPD_CLEAR else if b = 2 then UPD_ADD else if b = 3 then UPD_MODIFY
     else if b = 4 then UPD_CANCEL else if b = 5 then UPD_TRADE else if b = 6 then UPD_SNAPSHOT_START
     else if b = 7 then UPD_SNAPSHOT_END else UPD_INVALID)"

lemma get_put_side [simp]: "get_side (put_side sd) = sd"
  by (cases sd) (simp_all add: get_side_def)

lemma get_put_request_type [simp]: "get_request_type (put_request_type t) = t"
  by (cases t) (simp_all add: get_request_type_def)

lemma get_put_response_type [simp]: "get_response_type (put_response_type t) = t"
  by (cases t) (simp_all add: get_response_type_def)

lemma get_put_update_type [simp]: "get_update_type (put_update_type t) = t"
  by (cases t) (simp_all add: get_update_type_def)

subsection \<open>The structs\<close>

text \<open>\<open>size\<close> bytes from an offset.\<close>

definition field :: "nat \<Rightarrow> nat \<Rightarrow> bytes \<Rightarrow> bytes" where
  "field off n bs = take n (drop off bs)"

definition put_request :: "ome_client_request \<Rightarrow> bytes" where
  "put_request r = put_request_type (rq_type r) # put_word (rq_client_id r) @ put_word (rq_ticker_id r)
     @ put_word (rq_order_id r) @ put_side (rq_side r) # put_word (rq_price r) @ put_word (rq_qty r)"

definition get_request :: "bytes \<Rightarrow> ome_client_request" where
  "get_request bs = \<lparr>rq_type = get_request_type (bs ! 0), rq_client_id = get_word (field 1 4 bs),
     rq_ticker_id = get_word (field 5 4 bs), rq_order_id = get_word (field 9 8 bs),
     rq_side = get_side (bs ! 17), rq_price = get_word (field 18 8 bs), rq_qty = get_word (field 26 4 bs)\<rparr>"

definition put_response :: "ome_client_response \<Rightarrow> bytes" where
  "put_response r = put_response_type (rs_type r) # put_word (rs_client_id r) @ put_word (rs_ticker_id r)
     @ put_word (rs_client_order_id r) @ put_word (rs_market_order_id r) @ put_side (rs_side r)
     # put_word (rs_price r) @ put_word (rs_qty_exec r) @ put_word (rs_qty_remain r)"

definition get_response :: "bytes \<Rightarrow> ome_client_response" where
  "get_response bs = \<lparr>rs_type = get_response_type (bs ! 0), rs_client_id = get_word (field 1 4 bs),
     rs_ticker_id = get_word (field 5 4 bs), rs_client_order_id = get_word (field 9 8 bs),
     rs_market_order_id = get_word (field 17 8 bs), rs_side = get_side (bs ! 25),
     rs_price = get_word (field 26 8 bs), rs_qty_exec = get_word (field 34 4 bs),
     rs_qty_remain = get_word (field 38 4 bs)\<rparr>"

definition put_update :: "ome_market_update \<Rightarrow> bytes" where
  "put_update u = put_update_type (mu_type u) # put_word (mu_order_id u) @ put_word (mu_ticker_id u)
     @ put_side (mu_side u) # put_word (mu_price u) @ put_word (mu_qty u) @ put_word (mu_priority u)"

definition get_update :: "bytes \<Rightarrow> ome_market_update" where
  "get_update bs = \<lparr>mu_type = get_update_type (bs ! 0), mu_order_id = get_word (field 1 8 bs),
     mu_ticker_id = get_word (field 9 4 bs), mu_side = get_side (bs ! 13),
     mu_price = get_word (field 14 8 bs), mu_qty = get_word (field 22 4 bs),
     mu_priority = get_word (field 26 8 bs)\<rparr>"

lemma length_put [simp]:
  "length (put_request r) = 30" "length (put_response s) = 42" "length (put_update u) = 34"
  by (simp_all add: put_request_def put_response_def put_update_def)

lemma get_put_request [simp]: "get_request (put_request r) = r"
  by (simp add: get_request_def put_request_def field_def nth_append)

lemma get_put_response [simp]: "get_response (put_response s) = s"
  by (simp add: get_response_def put_response_def field_def nth_append)

lemma get_put_update [simp]: "get_update (put_update u) = u"
  by (simp add: get_update_def put_update_def field_def nth_append)

text \<open>The structs of the network: a sequence number (\<open>size_t\<close>) before the message.\<close>

definition put_ogs_request :: "ogs_client_request \<Rightarrow> bytes" where
  "put_ogs_request m = put_word (oq_n_seq m) @ put_request (oq_request m)"

definition get_ogs_request :: "bytes \<Rightarrow> ogs_client_request" where
  "get_ogs_request bs = \<lparr>oq_n_seq = get_word (take 8 bs), oq_request = get_request (drop 8 bs)\<rparr>"

definition put_ogs_response :: "ogs_client_response \<Rightarrow> bytes" where
  "put_ogs_response m = put_word (os_n_seq m) @ put_response (os_response m)"

definition get_ogs_response :: "bytes \<Rightarrow> ogs_client_response" where
  "get_ogs_response bs = \<lparr>os_n_seq = get_word (take 8 bs), os_response = get_response (drop 8 bs)\<rparr>"

definition put_mdp_update :: "mdp_market_update \<Rightarrow> bytes" where
  "put_mdp_update m = put_word (md_n_seq m) @ put_update (md_update m)"

definition get_mdp_update :: "bytes \<Rightarrow> mdp_market_update" where
  "get_mdp_update bs = \<lparr>md_n_seq = get_word (take 8 bs), md_update = get_update (drop 8 bs)\<rparr>"

subsection \<open>Cutting a stream into messages\<close>

text \<open>
  The loop all three \<open>rx_callback\<close>s share: as long as a whole message of \<open>n\<close> bytes is in
  the buffer it is read off; what is left moves to the front of the buffer.
\<close>

function frames :: "nat \<Rightarrow> (bytes \<Rightarrow> 'm) \<Rightarrow> bytes \<Rightarrow> 'm list \<times> bytes" where
  "frames n dec buf =
     (if n = 0 \<or> length buf < n then ([], buf)
      else (case frames n dec (drop n buf) of (ms, r) \<Rightarrow> (dec (take n buf) # ms, r)))"
  by auto

termination by (relation "measure (\<lambda>(n, dec, buf). length buf)") auto

declare frames.simps [simp del]

text \<open>One arrival after another.\<close>

fun feed :: "nat \<Rightarrow> (bytes \<Rightarrow> 'm) \<Rightarrow> bytes \<Rightarrow> bytes list \<Rightarrow> 'm list \<times> bytes" where
  "feed n dec buf [] = ([], buf)"
| "feed n dec buf (seg # segs) =
     (case frames n dec (buf @ seg) of (ms, r) \<Rightarrow>
      case feed n dec r segs of (ms', r') \<Rightarrow> (ms @ ms', r'))"

lemma frames_append:
  assumes "frames n dec xs = (ms, r)" "frames n dec (r @ ys) = (ms', r')"
  shows "frames n dec (xs @ ys) = (ms @ ms', r')"
  using assms
proof (induction n dec xs arbitrary: ms r rule: frames.induct)
  case (1 n dec xs)
  show ?case
  proof (cases "n = 0 \<or> length xs < n")
    case True
    then show ?thesis using "1.prems" by (simp add: frames.simps [of n dec xs])
  next
    case False
    obtain ms1 where ms1: "frames n dec (drop n xs) = (ms1, r)" "ms = dec (take n xs) # ms1"
      using False "1.prems"(1) by (auto simp: frames.simps [of n dec xs] split: prod.splits)
    have "frames n dec (drop n xs @ ys) = (ms1 @ ms', r')"
      by (rule "1.IH" [OF False ms1(1) "1.prems"(2)])
    then show ?thesis using False ms1(2) by (simp add: frames.simps [of n dec "xs @ ys"])
  qed
qed

locale wire_format =
  fixes size :: nat and enc :: "'m \<Rightarrow> bytes" and dec :: "bytes \<Rightarrow> 'm"
  assumes size_pos: "0 < size"
    and length_enc: "length (enc m) = size"
    and dec_enc: "dec (enc m) = m"
begin

lemma frames_enc:
  assumes "length rest < size"
  shows "frames size dec (concat (map enc ms) @ rest) = (ms, rest)"
proof (induction ms)
  case Nil
  then show ?case using assms by (simp add: frames.simps)
next
  case (Cons m ms)
  then show ?case
    using length_enc [of m] size_pos dec_enc by (simp add: frames.simps [of size dec "enc m @ _"])
qed

text \<open>However the bytes of the messages arrive, the messages come out, and nothing is left.\<close>

lemma feed_frames:
  "length buf < size \<Longrightarrow> feed size dec buf segs = frames size dec (buf @ concat segs)"
proof (induction segs arbitrary: buf)
  case Nil
  then show ?case by (simp add: frames.simps)
next
  case (Cons seg segs)
  obtain ms r where f: "frames size dec (buf @ seg) = (ms, r)" by (cases "frames size dec (buf @ seg)")
  have short: "frames size dec xs = (ns, t) \<Longrightarrow> length t < size" for xs ns t
  proof (induction "length xs" arbitrary: xs ns rule: less_induct)
    case less
    show ?case
    proof (cases "length xs < size")
      case True
      then show ?thesis using less.prems by (simp add: frames.simps)
    next
      case False
      then obtain ns1 where "frames size dec (drop size xs) = (ns1, t)"
        using less.prems size_pos by (auto simp: frames.simps [of size dec xs] split: prod.splits)
      then show ?thesis using less.hyps [of "drop size xs"] False size_pos by simp
    qed
  qed
  obtain ms' r' where f': "frames size dec (r @ concat segs) = (ms', r')"
    by (cases "frames size dec (r @ concat segs)")
  have "frames size dec ((buf @ seg) @ concat segs) = (ms @ ms', r')" by (rule frames_append [OF f f'])
  then show ?case using f f' Cons.IH [OF short [OF f]] by simp
qed

lemma stream_reassembled:
  assumes "concat segs = concat (map enc ms)"
  shows "feed size dec [] segs = (ms, [])"
  using assms frames_enc [of "[]" ms] size_pos by (simp add: feed_frames)

end

interpretation request_wire: wire_format 38 put_ogs_request get_ogs_request
  by unfold_locales (simp_all add: put_ogs_request_def get_ogs_request_def)

interpretation response_wire: wire_format 50 put_ogs_response get_ogs_response
  by unfold_locales (simp_all add: put_ogs_response_def get_ogs_response_def)

interpretation update_wire: wire_format 42 put_mdp_update get_mdp_update
  by unfold_locales (simp_all add: put_mdp_update_def get_mdp_update_def)

end
