(* ===== verification/Net_Sockets.thy ===== *)
theory Net_Sockets
  imports Wire_Format "HOL-Library.Monad_Syntax"
begin

text \<open>
  The sockets of \<open>llbase\<close>: \<open>sockets.h\<close> (options and creation of a socket),
  \<open>tcp_socket.{h,cpp}\<close> and \<open>mcast_socket.{h,cpp}\<close> (a transmit and a receive buffer over a
  non-blocking socket) and \<open>tcp_server.{h,cpp}\<close> (the connections of a listening socket).
  The kernel is the environment: what \<open>recv\<close>, \<open>accept\<close>, \<open>epoll_wait\<close> and the option calls
  return are arguments of the definitions, what is handed to \<open>send\<close> is part of the result.
  The callbacks are functions on the state \<open>'w\<close> of the component that owns the socket,
  which is read and written in that state through \<open>get\<close> and \<open>put\<close>.
\<close>

subsection \<open>Socket options\<close>

text \<open>\<open>O_NONBLOCK\<close> of Linux. The result is the value given to \<open>fcntl(F_SETFL)\<close>, if it is called.\<close>

definition O_NONBLOCK :: "32 word" where "O_NONBLOCK = 2048"

definition set_non_blocking :: "32 word \<Rightarrow> 32 word option" where
  "set_non_blocking flags = (if and flags O_NONBLOCK \<noteq> 0 then None else Some (or flags O_NONBLOCK))"

text \<open>\<open>flags & !O_NONBLOCK\<close>: the logical negation of a non-zero constant is \<open>0\<close>.\<close>

definition set_blocking :: "32 word \<Rightarrow> 32 word option" where
  "set_blocking flags = (if and flags O_NONBLOCK = 0 then None
     else Some (and flags (if O_NONBLOCK = 0 then 1 else 0)))"

text \<open>
  The other options are one \<open>setsockopt\<close> each, an argument that takes the file descriptor,
  the level, the option and the value; the numbers are those of Linux.
\<close>

datatype sock_level = SOL_SOCKET | IPPROTO_IP | IPPROTO_TCP

datatype sock_option = SO_TIMESTAMP | TCP_NODELAY | IP_TTL | IP_MULTICAST_TTL | IP_ADD_MEMBERSHIP

datatype sock_value = Int_value int | Mreq string

type_synonym setsockopt_call = "int \<Rightarrow> sock_level \<Rightarrow> sock_option \<Rightarrow> sock_value \<Rightarrow> int"

definition set_no_delay :: "setsockopt_call \<Rightarrow> int \<Rightarrow> bool" where
  "set_no_delay setsockopt fd = (setsockopt fd IPPROTO_TCP TCP_NODELAY (Int_value 1) \<noteq> -1)"

definition set_software_timestamps :: "setsockopt_call \<Rightarrow> int \<Rightarrow> bool" where
  "set_software_timestamps setsockopt fd = (setsockopt fd SOL_SOCKET SO_TIMESTAMP (Int_value 1) \<noteq> -1)"

definition set_ttl :: "setsockopt_call \<Rightarrow> int \<Rightarrow> int \<Rightarrow> bool" where
  "set_ttl setsockopt fd ttl = (setsockopt fd IPPROTO_IP IP_TTL (Int_value ttl) \<noteq> -1)"

definition set_ttl_multicast :: "setsockopt_call \<Rightarrow> int \<Rightarrow> int \<Rightarrow> bool" where
  "set_ttl_multicast setsockopt fd ttl = (setsockopt fd IPPROTO_IP IP_MULTICAST_TTL (Int_value ttl) \<noteq> -1)"

text \<open>The group's address, to be joined on any interface.\<close>

definition mcast_group_join :: "setsockopt_call \<Rightarrow> int \<Rightarrow> string \<Rightarrow> bool" where
  "mcast_group_join setsockopt fd ip = (setsockopt fd IPPROTO_IP IP_ADD_MEMBERSHIP (Mreq ip) \<noteq> -1)"

definition EWOULDBLOCK :: int where "EWOULDBLOCK = 11"
definition EINPROGRESS :: int where "EINPROGRESS = 115"

definition get_would_block :: "int \<Rightarrow> bool" where
  "get_would_block errno \<longleftrightarrow> errno = EWOULDBLOCK \<or> errno = EINPROGRESS"

text \<open>
  An interface as \<open>getifaddrs\<close> lists it: the family of its address if it has one, its name,
  and the numeric host \<open>getnameinfo\<close> writes for it. \<open>None\<close> is the failure of \<open>getifaddrs\<close>.
\<close>

definition AF_INET :: int where "AF_INET = 2"

record ifaddr =
  ifa_family :: "int option"
  ifa_name :: string
  ifa_host :: string

definition get_iface_ip :: "ifaddr list option \<Rightarrow> string \<Rightarrow> string" where
  "get_iface_ip getifaddrs iface =
     (case getifaddrs of None \<Rightarrow> []
      | Some if_address \<Rightarrow>
          (case find (\<lambda>ifa. ifa_family ifa = Some AF_INET \<and> ifa_name ifa = iface) if_address of
             None \<Rightarrow> [] | Some ifa \<Rightarrow> ifa_host ifa))"

record socket_config =
  cf_ip :: string
  cf_iface :: string
  cf_port :: int
  cf_is_udp :: bool
  cf_is_listening :: bool
  cf_has_software_timestamp :: bool

definition bool_str :: "bool \<Rightarrow> string" where
  "bool_str b = (if b then ''1'' else ''0'')"

definition config_to_str :: "socket_config \<Rightarrow> string" where
  "config_to_str c = ''SocketConfig: { ip: '' @ cf_ip c
     @ '', iface: '' @ cf_iface c
     @ '', port: '' @ int_to_str (cf_port c)
     @ '', is_udp: '' @ bool_str (cf_is_udp c)
     @ '', is_listening: '' @ bool_str (cf_is_listening c)
     @ '', has_software_timestamp: '' @ bool_str (cf_has_software_timestamp c) @ '' }'' @ [CHR 0x0A]"

text \<open>
  What the system calls return, per address that \<open>getaddrinfo\<close> found: integers as the calls
  return them, booleans for the wrappers of \<open>sockets.h\<close>.
\<close>

record addr_calls =
  ac_socket :: int
  ac_non_blocking :: bool
  ac_no_delay :: bool
  ac_connect :: int
  ac_reuseaddr :: int
  ac_bind :: int
  ac_listen :: int
  ac_timestamps :: bool

definition open_address :: "socket_config \<Rightarrow> addr_calls \<Rightarrow> int res" where
  "open_address c k =
     bindR (ASSERT (ac_socket k \<noteq> -1)) (\<lambda>_.
     bindR (ASSERT (ac_non_blocking k)) (\<lambda>_.
     bindR (if \<not> cf_is_udp c then ASSERT (ac_no_delay k) else Inr ()) (\<lambda>_.
     bindR (if \<not> cf_is_listening c then ASSERT (ac_connect k \<noteq> 1)
            else bindR (ASSERT (ac_reuseaddr k \<noteq> -1)) (\<lambda>_. ASSERT (0 \<le> ac_bind k))) (\<lambda>_.
     bindR (if \<not> cf_is_udp c \<and> cf_is_listening c then ASSERT (ac_listen k = 0) else Inr ()) (\<lambda>_.
     bindR (if cf_has_software_timestamp c then ASSERT (ac_timestamps k) else Inr ()) (\<lambda>_.
     Inr (ac_socket k)))))))"

text \<open>The address given, or that of the interface; \<open>getaddrinfo\<close> returns a status and a list.\<close>

type_synonym getaddrinfo_call = "string \<Rightarrow> int \<Rightarrow> int \<times> addr_calls list"

definition create_socket :: "ifaddr list option \<Rightarrow> getaddrinfo_call \<Rightarrow> socket_config \<Rightarrow> int res" where
  "create_socket getifaddrs getaddrinfo c =
     (let ip = (if cf_ip c = [] then get_iface_ip getifaddrs (cf_iface c) else cf_ip c) in
      case getaddrinfo ip (cf_port c) of (status, result) \<Rightarrow>
        bindR (ASSERT (status = 0)) (\<lambda>_. foldR (\<lambda>fd k. open_address c k) (-1) result))"

subsection \<open>Buffers\<close>

text \<open>\<open>rx_buffer\<close> and \<open>tx_buffer\<close> up to \<open>i_rx_next\<close> and \<open>i_tx_next\<close>.\<close>

record net_socket =
  sock_fd :: int
  tx_buffer :: bytes
  rx_buffer :: bytes

definition new_socket :: "int \<Rightarrow> net_socket" where
  "new_socket fd = \<lparr>sock_fd = fd, tx_buffer = [], rx_buffer = []\<rparr>"

text \<open>A TCP socket asks for software timestamps, a multicast socket is a UDP socket.\<close>

definition tcp_connect :: "ifaddr list option \<Rightarrow> getaddrinfo_call \<Rightarrow> string \<Rightarrow> string \<Rightarrow> int \<Rightarrow> bool
    \<Rightarrow> net_socket \<Rightarrow> (net_socket \<times> int) res" where
  "tcp_connect getifaddrs getaddrinfo ip iface port is_listening s =
     bindR (create_socket getifaddrs getaddrinfo \<lparr>cf_ip = ip, cf_iface = iface, cf_port = port, cf_is_udp = False,
              cf_is_listening = is_listening, cf_has_software_timestamp = True\<rparr>) (\<lambda>fd.
     Inr (s\<lparr>sock_fd := fd\<rparr>, fd))"

definition mcast_init :: "ifaddr list option \<Rightarrow> getaddrinfo_call \<Rightarrow> string \<Rightarrow> string \<Rightarrow> int \<Rightarrow> bool
    \<Rightarrow> net_socket \<Rightarrow> (net_socket \<times> int) res" where
  "mcast_init getifaddrs getaddrinfo ip iface port is_listening s =
     bindR (create_socket getifaddrs getaddrinfo \<lparr>cf_ip = ip, cf_iface = iface, cf_port = port, cf_is_udp = True,
              cf_is_listening = is_listening, cf_has_software_timestamp = False\<rparr>) (\<lambda>fd.
     Inr (s\<lparr>sock_fd := fd\<rparr>, fd))"

definition mcast_join_group :: "setsockopt_call \<Rightarrow> string \<Rightarrow> net_socket \<Rightarrow> bool" where
  "mcast_join_group setsockopt ip s = mcast_group_join setsockopt (sock_fd s) ip"

definition TCP_BUFFER_SIZE :: nat where "TCP_BUFFER_SIZE = 64 * 1024 * 1024"
definition MCAST_BUFFER_SIZE :: nat where "MCAST_BUFFER_SIZE = 64 * 1024 * 1024"

text \<open>\<open>load_tx\<close> copies first (past the end of the buffer if the data do not fit), then asserts.\<close>

definition tcp_load_tx :: "bytes \<Rightarrow> net_socket \<Rightarrow> net_socket res" where
  "tcp_load_tx data s =
     bindR (require Out_of_bounds (length (tx_buffer s) + length data \<le> TCP_BUFFER_SIZE)) (\<lambda>_.
     let s1 = s\<lparr>tx_buffer := tx_buffer s @ data\<rparr> in
     bindR (ASSERT (length (tx_buffer s1) < TCP_BUFFER_SIZE)) (\<lambda>_. Inr s1))"

definition mcast_load_tx :: "bytes \<Rightarrow> net_socket \<Rightarrow> net_socket res" where
  "mcast_load_tx data s =
     bindR (require Out_of_bounds (length (tx_buffer s) + length data \<le> MCAST_BUFFER_SIZE)) (\<lambda>_.
     let s1 = s\<lparr>tx_buffer := tx_buffer s @ data\<rparr> in
     bindR (ASSERT (length (tx_buffer s1) < MCAST_BUFFER_SIZE)) (\<lambda>_. Inr s1))"

text \<open>
  \<open>tx_and_rx\<close>. \<open>rx\<close> is what the kernel has to give, cut to the space left in the buffer; the
  callback runs when something arrived. Everything in the transmit buffer is then given to
  \<open>send\<close> once and the buffer is emptied, whatever \<open>send\<close> returns. The results are the bytes
  given to \<open>send\<close> and whether data were read.
\<close>

definition tcp_tx_and_rx :: "('w \<Rightarrow> net_socket) \<Rightarrow> (net_socket \<Rightarrow> 'w \<Rightarrow> 'w) \<Rightarrow> (int \<Rightarrow> 'w \<Rightarrow> 'w res)
    \<Rightarrow> bytes \<times> int \<Rightarrow> 'w \<Rightarrow> ('w \<times> bytes \<times> bool) res" where
  "tcp_tx_and_rx get put rx_callback rx w =
     (let s = get w;
          got = take (TCP_BUFFER_SIZE - length (rx_buffer s)) (fst rx)
      in bindR (if got \<noteq> []
                then rx_callback (snd rx) (put (s\<lparr>rx_buffer := rx_buffer s @ got\<rparr>) w)
                else Inr w) (\<lambda>w1.
         let s1 = get w1 in Inr (put (s1\<lparr>tx_buffer := []\<rparr>) w1, tx_buffer s1, got \<noteq> [])))"

text \<open>The callback of a multicast socket may be unset: calling it ends the process.\<close>

definition mcast_tx_and_rx :: "('w \<Rightarrow> net_socket) \<Rightarrow> (net_socket \<Rightarrow> 'w \<Rightarrow> 'w) \<Rightarrow> ('w \<Rightarrow> 'w res) option
    \<Rightarrow> bytes \<Rightarrow> 'w \<Rightarrow> ('w \<times> bytes \<times> bool) res" where
  "mcast_tx_and_rx get put rx_callback rx w =
     (let s = get w;
          got = take (MCAST_BUFFER_SIZE - length (rx_buffer s)) rx
      in bindR (if got \<noteq> []
                then (case rx_callback of None \<Rightarrow> Inl Fatal
                      | Some f \<Rightarrow> f (put (s\<lparr>rx_buffer := rx_buffer s @ got\<rparr>) w))
                else Inr w) (\<lambda>w1.
         let s1 = get w1 in Inr (put (s1\<lparr>tx_buffer := []\<rparr>) w1, tx_buffer s1, got \<noteq> [])))"

definition mcast_leave_group :: "net_socket \<Rightarrow> net_socket" where
  "mcast_leave_group s = s\<lparr>sock_fd := -1\<rparr>"

subsection \<open>The TCP server\<close>

text \<open>
  The sockets the server created, a socket's address being its index and \<open>0\<close> the
  listener's, and the three lists of the server.
\<close>

record tcp_server =
  socks :: "net_socket list"
  rx_sockets :: "nat list"
  tx_sockets :: "nat list"
  dx_sockets :: "nat list"

definition new_tcp_server :: "int \<Rightarrow> tcp_server" where
  "new_tcp_server fd = \<lparr>socks = [new_socket fd], rx_sockets = [], tx_sockets = [], dx_sockets = []\<rparr>"

text \<open>\<open>listen\<close>: the status of \<open>epoll_create\<close>, \<open>connect\<close> and \<open>epoll_add\<close>.\<close>

definition tcp_listen :: "int \<Rightarrow> int res \<Rightarrow> int \<Rightarrow> tcp_server res" where
  "tcp_listen fd_epoll connect_fd epoll_status =
     bindR (ASSERT (0 \<le> fd_epoll)) (\<lambda>_.
     bindR connect_fd (\<lambda>fd.
     bindR (ASSERT (0 \<le> fd)) (\<lambda>_.
     bindR (ASSERT (epoll_status \<noteq> -1)) (\<lambda>_.
     Inr (new_tcp_server fd)))))"

definition element_does_not_exist :: "'a list \<Rightarrow> 'a \<Rightarrow> bool" where
  "element_does_not_exist v e \<longleftrightarrow> find (\<lambda>x. x = e) v = None"

definition add_new :: "'a list \<Rightarrow> 'a \<Rightarrow> 'a list" where
  "add_new v e = (if element_does_not_exist v e then v @ [e] else v)"

record poll_event =
  ev_socket :: nat
  ev_in :: bool
  ev_out :: bool
  ev_err :: bool

definition on_poll_event :: "poll_event \<Rightarrow> tcp_server \<times> bool \<Rightarrow> tcp_server \<times> bool" where
  "on_poll_event e sb = (case sb of (s, has_new) \<Rightarrow>
     if ev_in e \<and> ev_socket e = 0 then (s, True)
     else
       let s1 = (if ev_in e then s\<lparr>rx_sockets := add_new (rx_sockets s) (ev_socket e)\<rparr> else s);
           s2 = (if ev_out e then s1\<lparr>tx_sockets := add_new (tx_sockets s1) (ev_socket e)\<rparr> else s1);
           s3 = (if ev_err e then s2\<lparr>dx_sockets := add_new (dx_sockets s2) (ev_socket e)\<rparr> else s2)
       in (s3, has_new))"

text \<open>
  A connection that \<open>accept\<close> returns, with the results of \<open>set_non_blocking\<close>,
  \<open>set_no_delay\<close> and \<open>epoll_add\<close>.
\<close>

record connection =
  cn_fd :: int
  cn_non_blocking :: bool
  cn_no_delay :: bool
  cn_epoll :: int

definition accept_connection :: "tcp_server \<Rightarrow> connection \<Rightarrow> tcp_server res" where
  "accept_connection s c =
     bindR (ASSERT (cn_non_blocking c)) (\<lambda>_.
     bindR (ASSERT (cn_no_delay c)) (\<lambda>_.
     let i = length (socks s);
         s1 = s\<lparr>socks := socks s @ [new_socket (cn_fd c)]\<rparr>
     in bindR (ASSERT (cn_epoll c \<noteq> -1)) (\<lambda>_.
     Inr (s1\<lparr>rx_sockets := add_new (rx_sockets s1) i\<rparr>))))"

definition tcp_poll :: "poll_event list \<Rightarrow> connection list \<Rightarrow> tcp_server \<Rightarrow> tcp_server res" where
  "tcp_poll events pending s =
     (case fold on_poll_event events (s, False) of (s1, has_new_connection) \<Rightarrow>
        if has_new_connection then foldR accept_connection s1 pending else Inr s1)"

text \<open>
  \<open>tx_and_rx\<close> of the server, in the state \<open>'w\<close> of its owner: \<open>rx k\<close> is what the kernel gives
  to the \<open>k\<close>-th socket of a loop. The bytes sent are collected with their sockets.
\<close>

definition server_socket :: "('w \<Rightarrow> tcp_server) \<Rightarrow> nat \<Rightarrow> 'w \<Rightarrow> net_socket" where
  "server_socket get i w = socks (get w) ! i"

definition set_server_socket :: "('w \<Rightarrow> tcp_server) \<Rightarrow> (tcp_server \<Rightarrow> 'w \<Rightarrow> 'w) \<Rightarrow> nat \<Rightarrow> net_socket \<Rightarrow> 'w \<Rightarrow> 'w" where
  "set_server_socket get put i s w = put ((get w)\<lparr>socks := (socks (get w))[i := s]\<rparr>) w"

definition server_loop :: "('w \<Rightarrow> tcp_server) \<Rightarrow> (tcp_server \<Rightarrow> 'w \<Rightarrow> 'w) \<Rightarrow> (nat \<Rightarrow> int \<Rightarrow> 'w \<Rightarrow> 'w res)
    \<Rightarrow> (nat \<Rightarrow> bytes \<times> int) \<Rightarrow> nat list \<Rightarrow> 'w \<Rightarrow> ('w \<times> (nat \<times> bytes) list \<times> bool) res" where
  "server_loop get put rx_callback rx is w =
     foldR (\<lambda>(w, sent, receiving) (k, i).
         bindR (tcp_tx_and_rx (server_socket get i) (set_server_socket get put i) (rx_callback i) (rx k) w)
           (\<lambda>(w', bs, r). Inr (w', sent @ [(i, bs)], receiving \<or> r)))
       (w, [], False) (enumerate 0 is)"

definition server_tx_and_rx :: "('w \<Rightarrow> tcp_server) \<Rightarrow> (tcp_server \<Rightarrow> 'w \<Rightarrow> 'w) \<Rightarrow> (nat \<Rightarrow> int \<Rightarrow> 'w \<Rightarrow> 'w res)
    \<Rightarrow> ('w \<Rightarrow> 'w res) \<Rightarrow> (nat \<Rightarrow> bytes \<times> int) \<Rightarrow> (nat \<Rightarrow> bytes \<times> int) \<Rightarrow> 'w
    \<Rightarrow> ('w \<times> (nat \<times> bytes) list) res" where
  "server_tx_and_rx get put rx_callback rx_done_callback rx rx' w =
     bindR (server_loop get put rx_callback rx (rx_sockets (get w)) w) (\<lambda>(w1, sent1, receiving).
     bindR (if receiving then rx_done_callback w1 else Inr w1) (\<lambda>w2.
     bindR (server_loop get put rx_callback rx' (tx_sockets (get w2)) w2) (\<lambda>(w3, sent2, _).
     Inr (w3, sent1 @ sent2))))"

subsection \<open>Lemmas\<close>

lemma element_does_not_exist_iff: "element_does_not_exist v e \<longleftrightarrow> e \<notin> set v"
  by (auto simp: element_does_not_exist_def find_None_iff)

lemma set_add_new [simp]: "set (add_new v e) = insert e (set v)"
  by (auto simp: add_new_def element_does_not_exist_iff)

lemma distinct_add_new [simp]: "distinct (add_new v e) = distinct v"
  by (auto simp: add_new_def element_does_not_exist_iff)

lemma load_tx_ok:
  "length (tx_buffer s) + length data < TCP_BUFFER_SIZE \<Longrightarrow>
     tcp_load_tx data s = Inr (s\<lparr>tx_buffer := tx_buffer s @ data\<rparr>)"
  "length (tx_buffer s) + length data < MCAST_BUFFER_SIZE \<Longrightarrow>
     mcast_load_tx data s = Inr (s\<lparr>tx_buffer := tx_buffer s @ data\<rparr>)"
  by (simp_all add: tcp_load_tx_def mcast_load_tx_def)

text \<open>The server's lists: sockets it has, each at most once; the listener is not receiving.\<close>

definition server_ok :: "tcp_server \<Rightarrow> bool" where
  "server_ok s \<longleftrightarrow> socks s \<noteq> [] \<and> distinct (rx_sockets s) \<and> distinct (tx_sockets s) \<and> distinct (dx_sockets s)
     \<and> (\<forall>i \<in> set (rx_sockets s) \<union> set (tx_sockets s) \<union> set (dx_sockets s). i < length (socks s))
     \<and> 0 \<notin> set (rx_sockets s)"

lemma on_poll_event_ok:
  assumes "server_ok s" "ev_socket e < length (socks s)"
  shows "server_ok (fst (on_poll_event e (s, n))) \<and> socks (fst (on_poll_event e (s, n))) = socks s
    \<and> set (rx_sockets s) \<subseteq> set (rx_sockets (fst (on_poll_event e (s, n))))"
  using assms by (auto simp: on_poll_event_def server_ok_def Let_def)

lemma fold_poll_event_ok:
  assumes "server_ok s" "\<forall>e \<in> set es. ev_socket e < length (socks s)"
  shows "server_ok (fst (fold on_poll_event es (s, n))) \<and> socks (fst (fold on_poll_event es (s, n))) = socks s
    \<and> set (rx_sockets s) \<subseteq> set (rx_sockets (fst (fold on_poll_event es (s, n))))"
  using assms
proof (induction es arbitrary: s n)
  case (Cons e es)
  obtain s1 n1 where s1: "on_poll_event e (s, n) = (s1, n1)" by (cases "on_poll_event e (s, n)")
  then have ok: "server_ok s1" "socks s1 = socks s" "set (rx_sockets s) \<subseteq> set (rx_sockets s1)"
    using on_poll_event_ok [of s e n] Cons.prems by simp_all
  then show ?case using Cons.IH [of s1 n1] Cons.prems(2) s1 by auto
qed simp

lemma fold_poll_event_new:
  "snd (fold on_poll_event es (s, n)) \<longleftrightarrow> n \<or> (\<exists>e \<in> set es. ev_in e \<and> ev_socket e = 0)"
proof (induction es arbitrary: s n)
  case (Cons e es)
  obtain s1 n1 where s1: "on_poll_event e (s, n) = (s1, n1)" by (cases "on_poll_event e (s, n)")
  then have "n1 \<longleftrightarrow> n \<or> ev_in e \<and> ev_socket e = 0"
    by (auto simp: on_poll_event_def Let_def split: if_splits)
  then show ?case using Cons.IH [of s1 n1] s1 by auto
qed simp

definition accepted :: "connection \<Rightarrow> bool" where
  "accepted c \<longleftrightarrow> cn_non_blocking c \<and> cn_no_delay c \<and> cn_epoll c \<noteq> -1"

lemma accept_all_ok:
  assumes "server_ok s" "list_all accepted cs"
  shows "\<exists>s'. foldR accept_connection s cs = Inr s' \<and> server_ok s'
    \<and> socks s' = socks s @ map (\<lambda>c. new_socket (cn_fd c)) cs
    \<and> rx_sockets s' = rx_sockets s @ [length (socks s)..<length (socks s) + length cs]"
  using assms
proof (induction cs arbitrary: s)
  case (Cons c cs)
  let ?i = "length (socks s)"
  let ?s1 = "s\<lparr>socks := socks s @ [new_socket (cn_fd c)], rx_sockets := rx_sockets s @ [?i]\<rparr>"
  have new: "?i \<notin> set (rx_sockets s)" using Cons.prems(1) by (auto simp: server_ok_def)
  then have run: "accept_connection s c = Inr ?s1"
    using Cons.prems(2) by (simp add: accept_connection_def accepted_def add_new_def element_does_not_exist_iff)
  have "server_ok ?s1" using Cons.prems(1) new by (auto simp: server_ok_def less_Suc_eq)
  from Cons.IH [OF this] Cons.prems(2) obtain s' where s': "foldR accept_connection ?s1 cs = Inr s'" "server_ok s'"
    "socks s' = socks ?s1 @ map (\<lambda>c. new_socket (cn_fd c)) cs"
    "rx_sockets s' = rx_sockets ?s1 @ [length (socks ?s1)..<length (socks ?s1) + length cs]" by auto
  then show ?case using run by (simp add: upt_conv_Cons del: upt_Suc)
qed simp

text \<open>
  C40. The lists of the TCP server stay sound: polling any events of known sockets and
  accepting any number of connections leaves every list without duplicates and only sockets
  that exist, never registers the listener for reading, keeps every connection registered
  and registers each new one exactly once, in order.
\<close>

theorem tcp_poll_registers:
  assumes "server_ok s" "list_all (\<lambda>e. ev_socket e < length (socks s)) es" "list_all accepted cs"
  shows "\<exists>s'. tcp_poll es cs s = Inr s' \<and> server_ok s' \<and> set (rx_sockets s) \<subseteq> set (rx_sockets s')
    \<and> (if list_ex (\<lambda>e. ev_in e \<and> ev_socket e = 0) es
       then socks s' = socks s @ map (\<lambda>c. new_socket (cn_fd c)) cs
            \<and> {length (socks s)..<length (socks s')} \<subseteq> set (rx_sockets s')
       else socks s' = socks s)"
proof -
  obtain s1 n1 where s1: "fold on_poll_event es (s, False) = (s1, n1)" by (cases "fold on_poll_event es (s, False)")
  have ok: "server_ok s1" "socks s1 = socks s" "set (rx_sockets s) \<subseteq> set (rx_sockets s1)"
    using fold_poll_event_ok [OF assms(1), of es False] assms(2) s1 by (auto simp: list_all_iff)
  have n1: "n1 \<longleftrightarrow> list_ex (\<lambda>e. ev_in e \<and> ev_socket e = 0) es"
    using fold_poll_event_new [of es s False] s1 by (simp add: list_ex_iff)
  show ?thesis
  proof (cases n1)
    case True
    then show ?thesis
      using accept_all_ok [OF ok(1) assms(3)] ok n1 s1 by (auto simp: tcp_poll_def)
  next
    case False
    then show ?thesis using ok n1 s1 by (auto simp: tcp_poll_def)
  qed
qed

theorem tcp_poll_registers_witness:
  "\<exists>s'. tcp_poll [\<lparr>ev_socket = 0, ev_in = True, ev_out = False, ev_err = False\<rparr>]
      [\<lparr>cn_fd = 9, cn_non_blocking = True, cn_no_delay = True, cn_epoll = 0\<rparr>] (new_tcp_server 3) = Inr s'
    \<and> server_ok s' \<and> length (socks s') = 2"
  using tcp_poll_registers [of "new_tcp_server 3" "[\<lparr>ev_socket = 0, ev_in = True, ev_out = False, ev_err = False\<rparr>]"
      "[\<lparr>cn_fd = 9, cn_non_blocking = True, cn_no_delay = True, cn_epoll = 0\<rparr>]"]
  by (auto simp: new_tcp_server_def server_ok_def accepted_def)

text \<open>
  Two slips in the socket options: switching a socket back to blocking mode clears every
  one of its flags, not only \<open>O_NONBLOCK\<close>, and a connection that fails (\<open>connect\<close> returns
  \<open>-1\<close>) passes the assertion, which compares with \<open>1\<close>: a client socket is returned.
\<close>

theorem socket_option_slips:
  assumes "and flags O_NONBLOCK \<noteq> 0" "ac_connect k = -1" "\<not> cf_is_listening c" "cf_is_udp c"
    and "ac_socket k \<noteq> -1" "ac_non_blocking k" "\<not> cf_has_software_timestamp c"
  shows "set_blocking flags = Some 0 \<and> open_address c k = Inr (ac_socket k)"
  using assms by (simp add: set_blocking_def open_address_def O_NONBLOCK_def)

theorem socket_option_slips_witness:
  "set_blocking 2050 = Some 0 \<and> open_address
     \<lparr>cf_ip = ''10.0.0.1'', cf_iface = ''lo'', cf_port = 80, cf_is_udp = True, cf_is_listening = False,
      cf_has_software_timestamp = False\<rparr>
     \<lparr>ac_socket = 7, ac_non_blocking = True, ac_no_delay = True, ac_connect = -1, ac_reuseaddr = 0,
      ac_bind = 0, ac_listen = 0, ac_timestamps = True\<rparr> = Inr 7"
  using socket_option_slips [of 2050
      "\<lparr>ac_socket = 7, ac_non_blocking = True, ac_no_delay = True, ac_connect = -1, ac_reuseaddr = 0,
      ac_bind = 0, ac_listen = 0, ac_timestamps = True\<rparr>"
      "\<lparr>cf_ip = ''10.0.0.1'', cf_iface = ''lo'', cf_port = 80, cf_is_udp = True, cf_is_listening = False,
      cf_has_software_timestamp = False\<rparr>"]
  by (simp add: O_NONBLOCK_def)

text \<open>
  An interface that is not there gives the empty address, which \<open>create_socket\<close> passes on;
  otherwise the first interface of that name with an IPv4 address decides.
\<close>

lemma get_iface_ip_first:
  assumes "\<forall>x \<in> set xs. ifa_family x = Some AF_INET \<longrightarrow> ifa_name x \<noteq> iface"
  shows "get_iface_ip (Some xs) iface = []"
    "ifa_family y = Some AF_INET \<Longrightarrow> ifa_name y = iface \<Longrightarrow> get_iface_ip (Some (xs @ y # ys)) iface = ifa_host y"
  using assms by (induction xs) (auto simp: get_iface_ip_def split: option.splits)

lemma mcast_join_group_needs_fd:
  "mcast_join_group setsockopt ip (mcast_leave_group s) = (setsockopt (-1) IPPROTO_IP IP_ADD_MEMBERSHIP (Mreq ip) \<noteq> -1)"
  by (simp add: mcast_join_group_def mcast_leave_group_def mcast_group_join_def)

text \<open>A client connection: the socket of the only address, whatever \<open>connect\<close> returns but \<open>1\<close>.\<close>

lemma tcp_connect_client:
  assumes "getaddrinfo ip port = (0, [k])" "ip \<noteq> []" "ac_socket k \<noteq> -1" "ac_non_blocking k" "ac_no_delay k"
    "ac_timestamps k" "ac_connect k \<noteq> 1"
  shows "tcp_connect getifaddrs getaddrinfo ip iface port False s = Inr (s\<lparr>sock_fd := ac_socket k\<rparr>, ac_socket k)"
  using assms by (simp add: tcp_connect_def create_socket_def open_address_def)

end
