(* ===== verification/Gateway_Streams.thy ===== *)
theory Gateway_Streams
  imports Net_Sockets
begin

text \<open>
  What the receiving side of every connection has in common: bytes arrive in pieces, each
  with a time; whole messages are cut off the front of the buffer and given to a handler,
  the rest stays. The locale \<open>stream_receiver\<close> is the contract of such a receiver; its
  lemma shows that a stream of encoded messages reaches the handler message by message, in
  order, however it was cut into pieces.
\<close>

lemma foldR_commute:
  assumes "\<And>w m. ok w \<Longrightarrow> body (f w) m = map_sum id f (body w m)"
    and "\<And>w m w'. ok w \<Longrightarrow> body w m = Inr w' \<Longrightarrow> ok w'" and "ok w"
  shows "foldR body (f w) ms = map_sum id f (foldR body w ms)"
  using assms(3)
proof (induction ms arbitrary: w)
  case (Cons m ms)
  show ?case
  proof (cases "body w m")
    case (Inr w')
    then show ?thesis
      using Cons.IH [of w'] assms(2) [OF Cons.prems Inr] assms(1) [OF Cons.prems, of m] by simp
  qed (use assms(1) [OF Cons.prems, of m] in simp)
qed simp

text \<open>The messages with the times of the pieces that complete them.\<close>

fun feed_timed :: "nat \<Rightarrow> (bytes \<Rightarrow> 'm) \<Rightarrow> bytes \<Rightarrow> (bytes \<times> int) list \<Rightarrow> (int \<times> 'm) list \<times> bytes" where
  "feed_timed n dec buf [] = ([], buf)"
| "feed_timed n dec buf ((seg, t) # segs) =
     (case frames n dec (buf @ seg) of (ms, r) \<Rightarrow>
      case feed_timed n dec r segs of (tms, r') \<Rightarrow> (map (Pair t) ms @ tms, r'))"

lemma feed_timed_feed:
  "feed n dec buf (map fst segs)
    = (map snd (fst (feed_timed n dec buf segs)), snd (feed_timed n dec buf segs))"
  by (induction segs arbitrary: buf) (auto split: prod.splits simp: comp_def)

lemma feed_timed_times: "set (map fst (fst (feed_timed n dec buf segs))) \<subseteq> set (map snd segs)"
proof (induction segs arbitrary: buf)
  case (Cons x segs)
  obtain seg t where x: "x = (seg, t)" by (cases x)
  obtain ms r where f: "frames n dec (buf @ seg) = (ms, r)" by (cases "frames n dec (buf @ seg)")
  obtain tms r' where g: "feed_timed n dec r segs = (tms, r')" by (cases "feed_timed n dec r segs")
  have "set (map fst (map (Pair t) ms)) \<subseteq> {t}" by auto
  then show ?case using Cons.IH [of r] x f g by auto
qed simp

lemma feed_timed_sorted:
  "sorted (map snd segs) \<Longrightarrow> sorted (map fst (fst (feed_timed n dec buf segs)))"
proof (induction segs arbitrary: buf)
  case (Cons x segs)
  obtain seg t where x: "x = (seg, t)" by (cases x)
  obtain ms r where f: "frames n dec (buf @ seg) = (ms, r)" by (cases "frames n dec (buf @ seg)")
  obtain tms r' where g: "feed_timed n dec r segs = (tms, r')" by (cases "feed_timed n dec r segs")
  have "set (map fst tms) \<subseteq> set (map snd segs)" using feed_timed_times [of n dec r segs] g by simp
  moreover have "sorted (map fst tms)" using Cons.IH [of r] Cons.prems g x by simp
  moreover have "sorted (map fst (map (Pair t) ms))" by (induction ms) auto
  moreover have "\<forall>u \<in> set (map fst tms). t \<le> u" using calculation(1) Cons.prems x by (fastforce simp: subset_iff)
  ultimately show ?case using f g x by (auto simp: sorted_append)
qed simp

locale stream_receiver = wire_format size enc dec
  for size :: nat and enc :: "'m \<Rightarrow> bytes" and dec :: "bytes \<Rightarrow> 'm" +
  fixes ok :: "'w \<Rightarrow> bool"
    and buf :: "'w \<Rightarrow> bytes"
    and set_buf :: "bytes \<Rightarrow> 'w \<Rightarrow> 'w"
    and handle :: "int \<Rightarrow> 'w \<Rightarrow> 'm \<Rightarrow> 'w res"
    and arrive :: "'w \<Rightarrow> bytes \<times> int \<Rightarrow> 'w res"
    and cap :: nat
  assumes arrive: "ok w \<Longrightarrow> length (buf w) < size \<Longrightarrow> length seg + size \<le> cap \<Longrightarrow>
      arrive w (seg, t) = (case frames size dec (buf w @ seg) of (ms, r) \<Rightarrow>
        map_sum id (set_buf r) (foldR (handle t) w ms))"
    and handle_set: "ok w \<Longrightarrow> handle t (set_buf b w) m = map_sum id (set_buf b) (handle t w m)"
    and handle_ok: "ok w \<Longrightarrow> handle t w m = Inr w' \<Longrightarrow> ok w'"
    and set_ok: "ok w \<Longrightarrow> ok (set_buf b w)"
    and buf_set: "ok w \<Longrightarrow> buf (set_buf b w) = b"
    and set_set: "set_buf b (set_buf c w) = set_buf b w"
begin

lemma frames_short: "frames size dec xs = (ns, t) \<Longrightarrow> length t < size"
proof (induction "length xs" arbitrary: xs ns rule: less_induct)
  case less
  show ?case
  proof (cases "length xs < size")
    case True
    then show ?thesis using less.prems by (simp add: frames.simps)
  next
    case False
    then obtain ns1 where "frames size dec (drop size xs) = (ns1, t)"
      using less.prems size_pos by (auto simp: frames.simps [of size dec xs] split: prod.splits)
    then show ?thesis using less.hyps [of "drop size xs"] False size_pos by simp
  qed
qed

lemma length_stream: "length (concat (map enc ms)) = size * length ms"
  by (induction ms) (simp_all add: length_enc)

lemma handle_all_ok: "ok w \<Longrightarrow> foldR (handle t) w ms = Inr w' \<Longrightarrow> ok w'"
  by (rule foldR_invariant [of ok ms "handle t" w]) (use handle_ok in blast)+

text \<open>All the pieces, one after another: the handler on the messages of the whole stream.\<close>

lemma arrive_all:
  assumes "ok w" "length (buf w) < size" "\<forall>x \<in> set segs. length (fst x) + size \<le> cap"
    and "set_buf (buf w) w = w"
  shows "foldR arrive w segs = map_sum id (set_buf (snd (feed_timed size dec (buf w) segs)))
     (foldR (\<lambda>w (t, m). handle t w m) w (fst (feed_timed size dec (buf w) segs)))"
  using assms
proof (induction segs arbitrary: w)
  case (Cons x segs)
  let ?h = "\<lambda>w (t, m). handle t w m"
  obtain seg t where x: "x = (seg, t)" by (cases x)
  obtain ms r where f: "frames size dec (buf w @ seg) = (ms, r)" by (cases "frames size dec (buf w @ seg)")
  have tag: "foldR ?h w (map (Pair t) ms) = foldR (handle t) w ms" for w
    by (induction ms arbitrary: w) (simp_all add: bindR_def split: sum.splits)
  have a: "arrive w x = map_sum id (set_buf r) (foldR (handle t) w ms)"
    using arrive [OF Cons.prems(1,2), of seg t] Cons.prems(3) x f by simp
  show ?case
  proof (cases "foldR (handle t) w ms")
    case (Inl e)
    then show ?thesis using a x f tag by (simp add: foldR_append split: prod.splits)
  next
    case (Inr w1)
    have ok1: "ok w1" by (rule handle_all_ok [OF Cons.prems(1) Inr])
    obtain tms r' where g: "feed_timed size dec r segs = (tms, r')" by (cases "feed_timed size dec r segs")
    have "foldR arrive (set_buf r w1) segs = map_sum id (set_buf r') (foldR ?h (set_buf r w1) tms)"
      using Cons.IH [of "set_buf r w1"] ok1 set_ok buf_set set_set frames_short [OF f] g Cons.prems(3) by (simp add: id_def)
    also have "foldR ?h (set_buf r w1) tms = map_sum id (set_buf r) (foldR ?h w1 tms)"
      by (rule foldR_commute [of ok]) (use handle_set handle_ok ok1 in auto)
    finally have rest: "foldR arrive (set_buf r w1) segs = map_sum id (set_buf r') (foldR ?h w1 tms)"
      by (cases "foldR ?h w1 tms") (simp_all add: set_set)
    show ?thesis using a x f Inr tag g rest by (simp add: foldR_append id_def)
  qed
qed (simp add: assms(4))

lemma stream_handled:
  assumes "ok w" "buf w = []" "set_buf [] w = w" "\<forall>x \<in> set segs. length (fst x) + size \<le> cap"
    and "concat (map fst segs) = concat (map enc ms)"
  shows "\<exists>ts. length ts = length ms \<and> set ts \<subseteq> set (map snd segs) \<and> (sorted (map snd segs) \<longrightarrow> sorted ts)
    \<and> foldR arrive w segs = map_sum id (set_buf []) (foldR (\<lambda>w (t, m). handle t w m) w (zip ts ms))"
proof -
  obtain tms r where f: "feed_timed size dec [] segs = (tms, r)" by (cases "feed_timed size dec [] segs")
  have "map snd tms = ms" "r = []"
    using stream_reassembled [OF assms(5)] feed_timed_feed [of size dec "[]" segs] f by simp_all
  moreover have "zip (map fst tms) (map snd tms) = tms" by (rule zip_map_fst_snd)
  moreover have "length (map fst tms) = length (map snd tms)" by simp
  ultimately show ?thesis
    using arrive_all [OF assms(1) _ assms(4)] assms(2,3) f size_pos
      feed_timed_times [of size dec "[]" segs] feed_timed_sorted [of segs size dec "[]"]
    by (intro exI [of _ "map fst tms"]) simp
qed

end

text \<open>Numbering a sequence of messages.\<close>

fun numbered :: "64 word \<Rightarrow> 'a list \<Rightarrow> (64 word \<times> 'a) list" where
  "numbered k [] = []"
| "numbered k (x # xs) = (k, x) # numbered (k + 1) xs"

lemma length_numbered [simp]: "length (numbered k xs) = length xs"
  by (induction xs arbitrary: k) simp_all

lemma numbered_append: "numbered k (xs @ ys) = numbered k xs @ numbered (k + of_nat (length xs)) ys"
  by (induction xs arbitrary: k) (simp_all add: algebra_simps)

lemma map_snd_numbered [simp]: "map snd (numbered k xs) = xs"
  by (induction xs arbitrary: k) simp_all

end
