(* ===== verification/Time_Keeping.thy ===== *)
theory Time_Keeping
  imports Prelude
begin

text \<open>
  \<open>llbase/timekeeping.h\<close>: units of time and the time as a string. What the clock shows, and the
  text \<open>ctime\<close> makes of it, are arguments. \<open>ctime\<close> writes its text into one static buffer and
  returns a pointer to it, so \<open>get_time_str\<close> is two accesses to that buffer.
\<close>

definition NANOS_TO_MICROS :: int where "NANOS_TO_MICROS = 1000"

definition MICROS_TO_MILLIS :: int where "MICROS_TO_MILLIS = 1000"

definition MILLIS_TO_SECS :: int where "MILLIS_TO_SECS = 1000"

definition NANOS_TO_MILLIS :: int where "NANOS_TO_MILLIS = NANOS_TO_MICROS * MICROS_TO_MILLIS"

definition NANOS_TO_SECS :: int where "NANOS_TO_SECS = NANOS_TO_MILLIS * MILLIS_TO_SECS"

lemmas nanos_defs = NANOS_TO_MICROS_def MICROS_TO_MILLIS_def MILLIS_TO_SECS_def NANOS_TO_MILLIS_def NANOS_TO_SECS_def

lemma NANOS_TO_SECS_value: "NANOS_TO_SECS = 10 ^ 9"
  by (simp add: nanos_defs)

subsection \<open>\<open>get_time_str\<close>\<close>

definition ctime_call :: "(int \<Rightarrow> string) \<Rightarrow> int \<Rightarrow> string \<Rightarrow> string" where
  "ctime_call fmt now buffer = fmt now"

text \<open>\<open>assign\<close> copies the buffer; the last character, the newline of \<open>ctime\<close>, becomes a NUL.\<close>

definition assign_time_str :: "string \<Rightarrow> string" where
  "assign_time_str buffer = (if buffer \<noteq> [] then buffer[length buffer - 1 := CHR 0x00] else buffer)"

definition get_time_str :: "(int \<Rightarrow> string) \<Rightarrow> int \<Rightarrow> string \<Rightarrow> string" where
  "get_time_str fmt now buffer = assign_time_str (ctime_call fmt now buffer)"

lemma get_time_str_line:
  "fmt now = s @ [CHR 0x0A] \<Longrightarrow> get_time_str fmt now buffer = s @ [CHR 0x00]"
  by (simp add: get_time_str_def ctime_call_def assign_time_str_def)

text \<open>
  Threads share the static buffer: when another thread calls \<open>ctime\<close> between the two accesses of
  this one, this one gets the other one's time.
\<close>

lemma get_time_str_races:
  "assign_time_str (ctime_call fmt theirs (ctime_call fmt mine buffer)) = get_time_str fmt theirs buffer"
  by (simp add: get_time_str_def ctime_call_def)

end
