(* ===== verification/Snapshot_Synthesizer.thy ===== *)
theory Snapshot_Synthesizer
  imports Mem_Pool LF_Queue Gateway_Streams Time_Keeping
begin

text \<open>
  \<open>exchange/data/snapshot_synthesizer.{h,cpp}\<close>: the component that keeps the live orders of
  all tickers from the numbered updates of the publisher and sends a snapshot of them at
  intervals. Orders are objects of a memory pool found through \<open>map_ticker_to_order\<close>; the
  array has no initialiser in the code, and the model starts with null pointers. The
  refinement shows that a synthesizer holds the map from ticker and order id to the last
  state of the order, and that the snapshot it sends lists this map.
\<close>

record snapshot_synthesizer =
  ss_tx_updates :: "mdp_market_update lfqueue"
  ss_socket :: net_socket
  map_ticker_to_order :: "nat \<Rightarrow> nat \<Rightarrow> ptr"
  n_seq_last :: "64 word"
  t_last_snapshot :: int
  update_pool :: "ome_market_update pool"

definition new_snapshot_synthesizer :: "mdp_market_update lfqueue \<Rightarrow> int \<Rightarrow> snapshot_synthesizer" where
  "new_snapshot_synthesizer q fd = \<lparr>ss_tx_updates = q, ss_socket = new_socket fd,
     map_ticker_to_order = (\<lambda>_ _. None), n_seq_last = 0, t_last_snapshot = 0,
     update_pool = new_pool MAX_ORDER_IDS default_update\<rparr>"

subsection \<open>\<open>add_to_snapshot\<close>\<close>

text \<open>\<open>map_ticker_to_order.at(t).at(oid)\<close>, read and written.\<close>

definition orders_at :: "nat \<Rightarrow> order_id \<Rightarrow> snapshot_synthesizer \<Rightarrow> ptr res" where
  "orders_at t oid w =
     bindR (require Out_of_range (t < MAX_TICKERS)) (\<lambda>_.
     bindR (require Out_of_range (unat oid < MAX_ORDER_IDS)) (\<lambda>_.
     Inr (map_ticker_to_order w t (unat oid))))"

definition set_orders_at :: "nat \<Rightarrow> order_id \<Rightarrow> ptr \<Rightarrow> snapshot_synthesizer \<Rightarrow> snapshot_synthesizer" where
  "set_orders_at t oid p w = w\<lparr>map_ticker_to_order := (map_ticker_to_order w)
     (t := (map_ticker_to_order w t)(unat oid := p))\<rparr>"

definition ss_add :: "ome_market_update \<Rightarrow> snapshot_synthesizer \<Rightarrow> snapshot_synthesizer res" where
  "ss_add u w = (let t = unat (mu_ticker_id u) in
     bindR (orders_at t (mu_order_id u) w) (\<lambda>order.
     bindR (ASSERT (order = None)) (\<lambda>_.
     bindR (allocate (update_pool w) u) (\<lambda>(a, p).
     Inr (set_orders_at t (mu_order_id u) (Some a) (w\<lparr>update_pool := p\<rparr>))))))"

text \<open>The checks \<open>MODIFY\<close> and \<open>CANCEL\<close> share.\<close>

definition ss_existing :: "ome_market_update \<Rightarrow> snapshot_synthesizer \<Rightarrow> addr res" where
  "ss_existing u w =
     bindR (orders_at (unat (mu_ticker_id u)) (mu_order_id u) w) (\<lambda>order.
     bindR (ASSERT (order \<noteq> None)) (\<lambda>_.
     bindR (deref order) (\<lambda>a.
     bindR (ASSERT (mu_order_id (blk (update_pool w) a) = mu_order_id u)) (\<lambda>_.
     bindR (ASSERT (mu_side (blk (update_pool w) a) = mu_side u)) (\<lambda>_.
     Inr a)))))"

definition ss_modify :: "ome_market_update \<Rightarrow> snapshot_synthesizer \<Rightarrow> snapshot_synthesizer res" where
  "ss_modify u w =
     bindR (ss_existing u w) (\<lambda>a.
     Inr (w\<lparr>update_pool := poke (update_pool w) a (\<lambda>o'. o'\<lparr>mu_qty := mu_qty u, mu_price := mu_price u\<rparr>)\<rparr>))"

definition ss_cancel :: "ome_market_update \<Rightarrow> snapshot_synthesizer \<Rightarrow> snapshot_synthesizer res" where
  "ss_cancel u w =
     bindR (ss_existing u w) (\<lambda>a.
     bindR (deallocate (update_pool w) a) (\<lambda>p.
     Inr (set_orders_at (unat (mu_ticker_id u)) (mu_order_id u) None (w\<lparr>update_pool := p\<rparr>))))"

definition add_to_snapshot :: "mdp_market_update \<Rightarrow> snapshot_synthesizer \<Rightarrow> snapshot_synthesizer res" where
  "add_to_snapshot m w = (let u = md_update m in
     bindR (require Out_of_range (unat (mu_ticker_id u) < MAX_TICKERS)) (\<lambda>_.
     bindR (case mu_type u of
         UPD_ADD \<Rightarrow> ss_add u w
       | UPD_MODIFY \<Rightarrow> ss_modify u w
       | UPD_CANCEL \<Rightarrow> ss_cancel u w
       | _ \<Rightarrow> Inr w) (\<lambda>w1.
     bindR (ASSERT (md_n_seq m = n_seq_last w1 + 1)) (\<lambda>_.
     Inr (w1\<lparr>n_seq_last := md_n_seq m\<rparr>)))))"

subsection \<open>\<open>publish_snapshot\<close>\<close>

text \<open>
  The local state of the function: the counter \<open>size_snapshot\<close> and the bytes given to
  \<open>send\<close> so far. \<open>rx n\<close> is what the socket has to read when the counter is \<open>n\<close>; the socket
  has no callback.
\<close>

type_synonym publishing = "snapshot_synthesizer \<times> 64 word \<times> bytes"

abbreviation ss_put_socket :: "net_socket \<Rightarrow> snapshot_synthesizer \<Rightarrow> snapshot_synthesizer" where
  "ss_put_socket s w \<equiv> w\<lparr>ss_socket := s\<rparr>"

definition ss_emit :: "ome_market_update \<Rightarrow> publishing \<Rightarrow> publishing res" where
  "ss_emit u s = (case s of (w, n, sent) \<Rightarrow>
     bindR (mcast_load_tx (put_mdp_update \<lparr>md_n_seq = n, md_update = u\<rparr>) (ss_socket w)) (\<lambda>k.
     Inr (w\<lparr>ss_socket := k\<rparr>, n + 1, sent)))"

definition ss_flush :: "(64 word \<Rightarrow> bytes) \<Rightarrow> publishing \<Rightarrow> publishing res" where
  "ss_flush rx s = (case s of (w, n, sent) \<Rightarrow>
     bindR (mcast_tx_and_rx ss_socket ss_put_socket None (rx n) w) (\<lambda>(w', bs, _).
     Inr (w', n, sent @ bs)))"

definition snapshot_mark :: "update_type \<Rightarrow> 64 word \<Rightarrow> ome_market_update" where
  "snapshot_mark ty n = default_update\<lparr>mu_type := ty, mu_order_id := n\<rparr>"

definition clear_ticker :: "nat \<Rightarrow> ome_market_update" where
  "clear_ticker t = default_update\<lparr>mu_type := UPD_CLEAR, mu_ticker_id := of_nat t\<rparr>"

definition publish_order :: "(64 word \<Rightarrow> bytes) \<Rightarrow> nat \<Rightarrow> publishing \<Rightarrow> nat \<Rightarrow> publishing res" where
  "publish_order rx t s oid =
     (case map_ticker_to_order (fst s) t oid of None \<Rightarrow> Inr s
      | Some a \<Rightarrow> bindR (ss_emit (blk (update_pool (fst s)) a) s) (ss_flush rx))"

definition publish_ticker :: "(64 word \<Rightarrow> bytes) \<Rightarrow> publishing \<Rightarrow> nat \<Rightarrow> publishing res" where
  "publish_ticker rx s t =
     bindR (ss_emit (clear_ticker t) s) (\<lambda>s1. foldR (publish_order rx t) s1 [0..<MAX_ORDER_IDS])"

definition publish_snapshot :: "(64 word \<Rightarrow> bytes) \<Rightarrow> snapshot_synthesizer \<Rightarrow> publishing res" where
  "publish_snapshot rx w =
     bindR (ss_emit (snapshot_mark UPD_SNAPSHOT_START (n_seq_last w)) (w, 0, [])) (\<lambda>s1.
     bindR (foldR (publish_ticker rx) s1 [0..<MAX_TICKERS]) (\<lambda>s2.
     bindR (ss_emit (snapshot_mark UPD_SNAPSHOT_END (n_seq_last (fst s2))) s2) (ss_flush rx)))"

subsection \<open>\<open>run\<close>\<close>

definition SECONDS_BETWEEN_SNAPSHOTS :: int where "SECONDS_BETWEEN_SNAPSHOTS = 60"

text \<open>One round; \<open>now\<close> and \<open>now'\<close> are the two readings of the clock.\<close>

definition ss_run :: "int \<Rightarrow> int \<Rightarrow> (64 word \<Rightarrow> bytes) \<Rightarrow> snapshot_synthesizer \<Rightarrow> (snapshot_synthesizer \<times> bytes) res" where
  "ss_run now now' rx w =
     bindR (consume get_next_to_read increment_read_index (q_size (ss_tx_updates w))
              (\<lambda>w m. add_to_snapshot m w) (ss_tx_updates w) w) (\<lambda>(q, w1).
     let w2 = w1\<lparr>ss_tx_updates := q\<rparr> in
     if SECONDS_BETWEEN_SNAPSHOTS * NANOS_TO_SECS < now - t_last_snapshot w2
     then bindR (publish_snapshot rx (w2\<lparr>t_last_snapshot := now'\<rparr>)) (\<lambda>(w3, _, sent). Inr (w3, sent))
     else Inr (w2, []))"

subsection \<open>The map of live orders\<close>

type_synonym market = "nat \<Rightarrow> nat \<Rightarrow> ome_market_update option"

text \<open>What an update does to the market, \<open>CLEAR\<close> included (for those who read snapshots).\<close>

definition market_apply :: "ome_market_update \<Rightarrow> market \<Rightarrow> market" where
  "market_apply u A = (let t = unat (mu_ticker_id u); oid = unat (mu_order_id u) in
     case mu_type u of
       UPD_ADD \<Rightarrow> A(t := (A t)(oid := Some u))
     | UPD_MODIFY \<Rightarrow> A(t := (A t)(oid := map_option (\<lambda>v. v\<lparr>mu_qty := mu_qty u, mu_price := mu_price u\<rparr>) (A t oid)))
     | UPD_CANCEL \<Rightarrow> A(t := (A t)(oid := None))
     | UPD_CLEAR \<Rightarrow> A(t := (\<lambda>_. None))
     | _ \<Rightarrow> A)"

definition live :: "market \<Rightarrow> (nat \<times> nat) set" where
  "live A = {(t, oid). A t oid \<noteq> None}"

definition market_accepts :: "market \<Rightarrow> ome_market_update \<Rightarrow> bool" where
  "market_accepts A u \<longleftrightarrow> (let t = unat (mu_ticker_id u); oid = unat (mu_order_id u) in
     t < MAX_TICKERS \<and>
     (case mu_type u of
       UPD_ADD \<Rightarrow> oid < MAX_ORDER_IDS \<and> A t oid = None \<and> Suc (card (live A)) < MAX_ORDER_IDS
     | UPD_MODIFY \<Rightarrow> oid < MAX_ORDER_IDS \<and> (case A t oid of None \<Rightarrow> False
           | Some v \<Rightarrow> mu_order_id v = mu_order_id u \<and> mu_side v = mu_side u)
     | UPD_CANCEL \<Rightarrow> oid < MAX_ORDER_IDS \<and> (case A t oid of None \<Rightarrow> False
           | Some v \<Rightarrow> mu_order_id v = mu_order_id u \<and> mu_side v = mu_side u)
     | UPD_CLEAR \<Rightarrow> False
     | _ \<Rightarrow> True))"

definition holds :: "snapshot_synthesizer \<Rightarrow> market \<Rightarrow> bool" where
  "holds w A \<longleftrightarrow> pool_ok (update_pool w) \<and> n_blocks (update_pool w) = MAX_ORDER_IDS
     \<and> used (update_pool w) = {a. \<exists>t oid. map_ticker_to_order w t oid = Some a}
     \<and> (\<forall>t oid t' oid' a. map_ticker_to_order w t oid = Some a \<and> map_ticker_to_order w t' oid' = Some a
          \<longrightarrow> t = t' \<and> oid = oid')
     \<and> (\<forall>t oid. A t oid = map_option (blk (update_pool w)) (map_ticker_to_order w t oid))"

lemma holds_used: "holds w A \<Longrightarrow> a \<in> used (update_pool w) \<longleftrightarrow> (\<exists>t oid. map_ticker_to_order w t oid = Some a)"
  by (simp add: holds_def)

lemma holds_inj:
  "holds w A \<Longrightarrow> map_ticker_to_order w t oid = Some a \<Longrightarrow> map_ticker_to_order w t' oid' = Some a
     \<Longrightarrow> t = t' \<and> oid = oid'"
  unfolding holds_def by blast

lemma holds_at: "holds w A \<Longrightarrow> A t oid = map_option (blk (update_pool w)) (map_ticker_to_order w t oid)"
  by (simp add: holds_def)

lemma holds_blocks: "holds w A \<Longrightarrow> n_blocks (update_pool w) = MAX_ORDER_IDS"
  by (simp add: holds_def)

lemma holdsI:
  assumes "pool_ok (update_pool w)" "n_blocks (update_pool w) = MAX_ORDER_IDS"
    and "used (update_pool w) = {a. \<exists>t oid. map_ticker_to_order w t oid = Some a}"
    and "\<And>t oid t' oid' a. map_ticker_to_order w t oid = Some a \<Longrightarrow> map_ticker_to_order w t' oid' = Some a
           \<Longrightarrow> t = t' \<and> oid = oid'"
    and "\<And>t oid. A t oid = map_option (blk (update_pool w)) (map_ticker_to_order w t oid)"
  shows "holds w A"
  unfolding holds_def
proof (intro conjI allI impI)
  fix t oid t' oid' a
  assume "map_ticker_to_order w t oid = Some a \<and> map_ticker_to_order w t' oid' = Some a"
  then show "t = t'" "oid = oid'" using assms(4) by blast+
qed (fact assms)+

lemma holds_new: "holds (new_snapshot_synthesizer q fd) (\<lambda>_ _. None)"
  by (simp add: holds_def new_snapshot_synthesizer_def pool_ok_new limit_defs)

lemma holds_bij:
  assumes "holds w A"
  shows "bij_betw (\<lambda>(t, oid). the (map_ticker_to_order w t oid)) (live A) (used (update_pool w))"
proof (rule bij_betwI')
  let ?m = "map_ticker_to_order w"
  fix x y assume "x \<in> live A" "y \<in> live A"
  then show "((\<lambda>(t, oid). the (?m t oid)) x = (\<lambda>(t, oid). the (?m t oid)) y) = (x = y)"
    using holds_inj [OF assms] by (cases x; cases y) (auto simp: holds_at [OF assms] live_def)
qed (use assms in \<open>force simp: holds_def live_def\<close>)+

lemma holds_card: "holds w A \<Longrightarrow> card (live A) = card (used (update_pool w))"
  by (rule bij_betw_same_card [OF holds_bij])

lemma holds_finite: "holds w A \<Longrightarrow> finite (live A)"
  using bij_betw_finite [OF holds_bij] by simp

lemma ss_existing_ok:
  assumes "holds w A" "unat (mu_ticker_id u) < MAX_TICKERS" "unat (mu_order_id u) < MAX_ORDER_IDS"
    and "A (unat (mu_ticker_id u)) (unat (mu_order_id u)) = Some v"
    and "mu_order_id v = mu_order_id u" "mu_side v = mu_side u"
  obtains a where "ss_existing u w = Inr a" "map_ticker_to_order w (unat (mu_ticker_id u)) (unat (mu_order_id u)) = Some a"
    "blk (update_pool w) a = v" "a \<in> used (update_pool w)"
proof -
  obtain a where a: "map_ticker_to_order w (unat (mu_ticker_id u)) (unat (mu_order_id u)) = Some a" "blk (update_pool w) a = v"
    using assms(1,4) by (auto simp: holds_def)
  moreover have "a \<in> used (update_pool w)" using assms(1) a(1) by (auto simp: holds_def)
  ultimately show thesis
    using that [of a] assms(2,3,5,6) by (simp add: ss_existing_def orders_at_def)
qed

lemma ss_add_ok:
  assumes h: "holds w A" and acc: "market_accepts A u" and ty: "mu_type u = UPD_ADD"
  shows "\<exists>w'. ss_add u w = Inr w' \<and> holds w' (market_apply u A) \<and> n_seq_last w' = n_seq_last w"
proof -
  let ?t = "unat (mu_ticker_id u)" and ?o = "unat (mu_order_id u)" and ?m = "map_ticker_to_order w"
  have new: "?t < MAX_TICKERS" "?o < MAX_ORDER_IDS" "?m ?t ?o = None" "Suc (card (used (update_pool w))) < n_blocks (update_pool w)"
    using acc ty h holds_card [OF h] by (auto simp: market_accepts_def holds_def Let_def)
  obtain a p where p: "allocate (update_pool w) u = Inr (a, p)" "pool_ok p" "a \<notin> used (update_pool w)"
    "used p = insert a (used (update_pool w))" "blk p = (blk (update_pool w))(a := u)" "n_blocks p = n_blocks (update_pool w)"
    using mem_pool.alloc_law [of "update_pool w" u] h new(4) by (auto simp: holds_def)
  have fresh: "?m t oid \<noteq> Some a" for t oid using h p(3) by (auto simp: holds_def)
  let ?w = "set_orders_at ?t (mu_order_id u) (Some a) (w\<lparr>update_pool := p\<rparr>)"
  have m: "map_ticker_to_order ?w t oid = (if t = ?t \<and> oid = ?o then Some a else ?m t oid)" for t oid
    by (simp add: set_orders_at_def)
  have pw: "update_pool ?w = p" by (simp add: set_orders_at_def)
  have "used p = {b. \<exists>t oid. map_ticker_to_order ?w t oid = Some b}"
  proof (rule set_eqI)
    fix b
    have "(\<exists>t oid. map_ticker_to_order ?w t oid = Some b) \<longleftrightarrow> b = a \<or> (\<exists>t oid. ?m t oid = Some b)"
      unfolding m using new(3) by (metis option.inject option.distinct(1))
    then show "b \<in> used p \<longleftrightarrow> b \<in> {b. \<exists>t oid. map_ticker_to_order ?w t oid = Some b}"
      using p(4) holds_used [OF h] by simp
  qed
  moreover have "t = t' \<and> oid = oid'" if "map_ticker_to_order ?w t oid = Some b" "map_ticker_to_order ?w t' oid' = Some b"
    for t oid t' oid' b
    using that fresh holds_inj [OF h, of t oid b t' oid'] unfolding m by (auto split: if_splits)
  moreover have "market_apply u A t oid = map_option (blk p) (map_ticker_to_order ?w t oid)" for t oid
    using ty fresh [of t oid] holds_at [OF h, of t oid] unfolding m p(5)
    by (cases "?m t oid") (auto simp: market_apply_def Let_def)
  ultimately have "holds ?w (market_apply u A)"
    using p(2,6) holds_blocks [OF h] by (intro holdsI) (simp_all only: pw)
  moreover have "ss_add u w = Inr ?w" using new p(1) by (simp add: ss_add_def orders_at_def Let_def)
  ultimately show ?thesis by (intro exI [of _ ?w]) (simp add: set_orders_at_def)
qed

lemma ss_modify_ok:
  assumes h: "holds w A" and acc: "market_accepts A u" and ty: "mu_type u = UPD_MODIFY"
  shows "\<exists>w'. ss_modify u w = Inr w' \<and> holds w' (market_apply u A) \<and> n_seq_last w' = n_seq_last w"
proof -
  let ?t = "unat (mu_ticker_id u)" and ?o = "unat (mu_order_id u)" and ?m = "map_ticker_to_order w"
  obtain v where v: "?t < MAX_TICKERS" "?o < MAX_ORDER_IDS" "A ?t ?o = Some v"
    "mu_order_id v = mu_order_id u" "mu_side v = mu_side u"
    using acc ty by (auto simp: market_accepts_def Let_def split: option.splits)
  obtain a where a: "ss_existing u w = Inr a" "?m ?t ?o = Some a" "blk (update_pool w) a = v"
    using ss_existing_ok [OF h v] by metis
  let ?w = "w\<lparr>update_pool := poke (update_pool w) a (\<lambda>o'. o'\<lparr>mu_qty := mu_qty u, mu_price := mu_price u\<rparr>)\<rparr>"
  have one: "?m t oid = Some a \<Longrightarrow> t = ?t \<and> oid = ?o" for t oid using h a(2) unfolding holds_def by blast
  have "market_apply u A t oid = map_option (blk (update_pool ?w)) (?m t oid)" for t oid
  proof (cases "?m t oid")
    case None
    then have "\<not> (t = ?t \<and> oid = ?o)" using a(2) by auto
    then show ?thesis using None h ty by (auto simp: market_apply_def Let_def holds_def)
  next
    case (Some b)
    then show ?thesis
      using one [of t oid] h ty a v(3) by (cases "b = a") (auto simp: market_apply_def Let_def holds_def)
  qed
  then have "holds ?w (market_apply u A)" using h by (simp add: holds_def)
  then show ?thesis using a(1) by (simp add: ss_modify_def)
qed

lemma ss_cancel_ok:
  assumes h: "holds w A" and acc: "market_accepts A u" and ty: "mu_type u = UPD_CANCEL"
  shows "\<exists>w'. ss_cancel u w = Inr w' \<and> holds w' (market_apply u A) \<and> n_seq_last w' = n_seq_last w"
proof -
  let ?t = "unat (mu_ticker_id u)" and ?o = "unat (mu_order_id u)" and ?m = "map_ticker_to_order w"
  obtain v where v: "?t < MAX_TICKERS" "?o < MAX_ORDER_IDS" "A ?t ?o = Some v"
    "mu_order_id v = mu_order_id u" "mu_side v = mu_side u"
    using acc ty by (auto simp: market_accepts_def Let_def split: option.splits)
  obtain a where a: "ss_existing u w = Inr a" "?m ?t ?o = Some a" "a \<in> used (update_pool w)"
    using ss_existing_ok [OF h v] by metis
  obtain p where p: "deallocate (update_pool w) a = Inr p" "pool_ok p" "used p = used (update_pool w) - {a}"
    "blk p = blk (update_pool w)" "n_blocks p = n_blocks (update_pool w)"
    using mem_pool.free_law [of "update_pool w" a] h a(3) by (auto simp: holds_def)
  let ?w = "set_orders_at ?t (mu_order_id u) None (w\<lparr>update_pool := p\<rparr>)"
  have m: "map_ticker_to_order ?w t oid = (if t = ?t \<and> oid = ?o then None else ?m t oid)" for t oid
    by (simp add: set_orders_at_def)
  have pw: "update_pool ?w = p" by (simp add: set_orders_at_def)
  have one: "?m t oid = Some a \<Longrightarrow> t = ?t \<and> oid = ?o" for t oid using h a(2) unfolding holds_def by blast
  have "used p = {b. \<exists>t oid. map_ticker_to_order ?w t oid = Some b}"
  proof (rule set_eqI)
    fix b
    have "(\<exists>t oid. map_ticker_to_order ?w t oid = Some b) \<longleftrightarrow> b \<noteq> a \<and> (\<exists>t oid. ?m t oid = Some b)"
      unfolding m using one a(2) by (metis option.inject option.distinct(1))
    then show "b \<in> used p \<longleftrightarrow> b \<in> {b. \<exists>t oid. map_ticker_to_order ?w t oid = Some b}"
      using p(3) holds_used [OF h] by auto
  qed
  moreover have "t = t' \<and> oid = oid'" if "map_ticker_to_order ?w t oid = Some b" "map_ticker_to_order ?w t' oid' = Some b"
    for t oid t' oid' b
    using that holds_inj [OF h, of t oid b t' oid'] unfolding m by (auto split: if_splits)
  moreover have "market_apply u A t oid = map_option (blk p) (map_ticker_to_order ?w t oid)" for t oid
    using ty holds_at [OF h, of t oid] unfolding m p(4) by (auto simp: market_apply_def Let_def)
  ultimately have "holds ?w (market_apply u A)"
    using p(2,5) holds_blocks [OF h] by (intro holdsI) (simp_all only: pw)
  moreover have "ss_cancel u w = Inr ?w" using a(1) p(1) by (simp add: ss_cancel_def)
  ultimately show ?thesis by (intro exI [of _ ?w]) (simp add: set_orders_at_def)
qed

lemma add_to_snapshot_ok:
  assumes "holds w A" "market_accepts A (md_update m)" "md_n_seq m = n_seq_last w + 1"
  shows "\<exists>w'. add_to_snapshot m w = Inr w' \<and> holds w' (market_apply (md_update m) A) \<and> n_seq_last w' = md_n_seq m"
proof -
  let ?u = "md_update m"
  have t: "unat (mu_ticker_id ?u) < MAX_TICKERS" using assms(2) by (simp add: market_accepts_def Let_def)
  have "\<exists>w'. (case mu_type ?u of UPD_ADD \<Rightarrow> ss_add ?u w | UPD_MODIFY \<Rightarrow> ss_modify ?u w | UPD_CANCEL \<Rightarrow> ss_cancel ?u w
       | _ \<Rightarrow> Inr w) = Inr w' \<and> holds w' (market_apply ?u A) \<and> n_seq_last w' = n_seq_last w"
    using ss_add_ok [OF assms(1,2)] ss_modify_ok [OF assms(1,2)] ss_cancel_ok [OF assms(1,2)] assms(1,2)
    by (cases "mu_type ?u") (simp_all add: market_apply_def market_accepts_def Let_def)
  then obtain w1 where "(case mu_type ?u of UPD_ADD \<Rightarrow> ss_add ?u w | UPD_MODIFY \<Rightarrow> ss_modify ?u w | UPD_CANCEL \<Rightarrow> ss_cancel ?u w
       | _ \<Rightarrow> Inr w) = Inr w1" "holds w1 (market_apply ?u A)" "n_seq_last w1 = n_seq_last w" by blast
  moreover from this(2) have "holds (w1\<lparr>n_seq_last := md_n_seq m\<rparr>) (market_apply ?u A)" by (simp add: holds_def)
  ultimately show ?thesis using t assms(3) by (simp add: add_to_snapshot_def Let_def)
qed

subsection \<open>The snapshot\<close>

definition mdp_stream :: "64 word \<Rightarrow> ome_market_update list \<Rightarrow> mdp_market_update list" where
  "mdp_stream k us = map (\<lambda>(n, u). \<lparr>md_n_seq = n, md_update = u\<rparr>) (numbered k us)"

lemma mdp_stream_simps [simp]:
  "mdp_stream k [] = []"
  "mdp_stream k (u # us) = \<lparr>md_n_seq = k, md_update = u\<rparr> # mdp_stream (k + 1) us"
  by (simp_all add: mdp_stream_def)

lemma mdp_stream_append: "mdp_stream k (us @ vs) = mdp_stream k us @ mdp_stream (k + of_nat (length us)) vs"
  by (simp add: mdp_stream_def numbered_append)

lemma length_mdp_stream [simp]: "length (mdp_stream k us) = length us"
  by (simp add: mdp_stream_def)

text \<open>The orders of a ticker in the order of their ids, and the messages of a snapshot.\<close>

definition listed :: "market \<Rightarrow> nat \<Rightarrow> nat list \<Rightarrow> ome_market_update list" where
  "listed A t oids = map (\<lambda>oid. the (A t oid)) (filter (\<lambda>oid. A t oid \<noteq> None) oids)"

lemma listed_simps [simp]:
  "listed A t [] = []"
  "listed A t (oid # oids) = (case A t oid of None \<Rightarrow> [] | Some u \<Rightarrow> [u]) @ listed A t oids"
  by (auto simp: listed_def split: option.splits)

definition snapshot_body :: "market \<Rightarrow> ome_market_update list" where
  "snapshot_body A = concat (map (\<lambda>t. clear_ticker t # listed A t [0..<MAX_ORDER_IDS]) [0..<MAX_TICKERS])"

definition snapshot_messages :: "market \<Rightarrow> 64 word \<Rightarrow> ome_market_update list" where
  "snapshot_messages A n =
     snapshot_mark UPD_SNAPSHOT_START n # snapshot_body A @ [snapshot_mark UPD_SNAPSHOT_END n]"

lemma listed_total:
  assumes "finite (live A)"
  shows "length (concat (map (\<lambda>t. listed A t [0..<MAX_ORDER_IDS]) [0..<MAX_TICKERS])) \<le> card (live A)"
proof -
  let ?at = "\<lambda>t. filter (\<lambda>oid. A t oid \<noteq> None) [0..<MAX_ORDER_IDS]"
  let ?all = "concat (map (\<lambda>t. map (Pair t) (?at t)) [0..<MAX_TICKERS])"
  have "distinct (concat (map (\<lambda>t. map (Pair t) (filter (P t) xs)) ts))"
    if "distinct ts" "distinct xs" for P :: "nat \<Rightarrow> nat \<Rightarrow> bool" and xs ts
    using that by (induction ts) (auto simp: distinct_map intro: inj_onI)
  then have "distinct ?all" by simp
  then have "length ?all = card (set ?all)" by (rule distinct_card [symmetric])
  also have "\<dots> \<le> card (live A)" by (rule card_mono [OF assms]) (auto simp: live_def)
  also have "length ?all = length (concat (map (\<lambda>t. listed A t [0..<MAX_ORDER_IDS]) [0..<MAX_TICKERS]))"
    by (simp add: length_concat listed_def comp_def)
  finally show ?thesis .
qed

text \<open>Where a publication stands: the messages so far are on their way or still in the buffer.\<close>

definition published_so_far :: "snapshot_synthesizer \<Rightarrow> ome_market_update list \<Rightarrow> publishing \<Rightarrow> bool" where
  "published_so_far w us s \<longleftrightarrow> (\<exists>k sent. s = (w\<lparr>ss_socket := k\<rparr>, of_nat (length us), sent)
     \<and> sent @ tx_buffer k = concat (map put_mdp_update (mdp_stream 0 us)))"

lemma mdp_stream_bytes: "length (concat (map put_mdp_update (mdp_stream k us))) = 42 * length us"
  by (induction us arbitrary: k) (simp_all add: update_wire.length_enc)

lemma ss_emit_ok:
  assumes "published_so_far w us s" "42 * Suc (length us) < MCAST_BUFFER_SIZE"
  shows "\<exists>s'. ss_emit u s = Inr s' \<and> published_so_far w (us @ [u]) s'"
proof -
  obtain k sent where s: "s = (w\<lparr>ss_socket := k\<rparr>, of_nat (length us), sent)"
    "sent @ tx_buffer k = concat (map put_mdp_update (mdp_stream 0 us))"
    using assms(1) by (auto simp: published_so_far_def)
  let ?b = "put_mdp_update \<lparr>md_n_seq = of_nat (length us), md_update = u\<rparr>"
  have "length (sent @ tx_buffer k) = 42 * length us" unfolding s(2) by (rule mdp_stream_bytes)
  then have room: "length (tx_buffer k) + length ?b < MCAST_BUFFER_SIZE"
    using assms(2) by (simp add: update_wire.length_enc)
  have "sent @ tx_buffer k @ ?b = concat (map put_mdp_update (mdp_stream 0 (us @ [u])))"
    using s(2) by (simp add: mdp_stream_append flip: append_assoc)
  then show ?thesis
    using load_tx_ok(2) [OF room] s(1)
    by (auto simp: ss_emit_def published_so_far_def intro!: exI [of _ "k\<lparr>tx_buffer := tx_buffer k @ ?b\<rparr>"])
qed

lemma ss_flush_ok:
  assumes "published_so_far w us s" "\<forall>n. rx n = []"
  shows "\<exists>s'. ss_flush rx s = Inr s' \<and> published_so_far w us s' \<and> tx_buffer (ss_socket (fst s')) = []"
proof -
  obtain k sent where s: "s = (w\<lparr>ss_socket := k\<rparr>, of_nat (length us), sent)"
    "sent @ tx_buffer k = concat (map put_mdp_update (mdp_stream 0 us))"
    using assms(1) by (auto simp: published_so_far_def)
  let ?s = "(w\<lparr>ss_socket := k\<lparr>tx_buffer := []\<rparr>\<rparr>, of_nat (length us), sent @ tx_buffer k) :: publishing"
  have "ss_flush rx s = Inr ?s" using assms(2) s(1) by (simp add: ss_flush_def mcast_tx_and_rx_def Let_def)
  moreover have "published_so_far w us ?s"
    using s(2) by (auto simp: published_so_far_def intro!: exI [of _ "k\<lparr>tx_buffer := []\<rparr>"])
  ultimately show ?thesis by auto
qed

lemma publish_orders_ok:
  assumes "holds w A" "\<forall>n. rx n = []" "published_so_far w us s"
    and "42 * (length us + length (listed A t oids)) < MCAST_BUFFER_SIZE"
  shows "\<exists>s'. foldR (publish_order rx t) s oids = Inr s' \<and> published_so_far w (us @ listed A t oids) s'"
  using assms(3,4)
proof (induction oids arbitrary: us s)
  case (Cons oid oids)
  have fields: "map_ticker_to_order (fst s) = map_ticker_to_order w" "update_pool (fst s) = update_pool w"
    using Cons.prems(1) by (auto simp: published_so_far_def)
  show ?case
  proof (cases "map_ticker_to_order w t oid")
    case None
    then show ?thesis
      using Cons holds_at [OF assms(1), of t oid] fields by (simp add: publish_order_def)
  next
    case (Some a)
    then have u: "A t oid = Some (blk (update_pool w) a)" using holds_at [OF assms(1), of t oid] by simp
    let ?u = "blk (update_pool w) a"
    have "42 * Suc (length us) < MCAST_BUFFER_SIZE" using Cons.prems(2) u by simp
    from ss_emit_ok [OF Cons.prems(1) this, of ?u]
    obtain s1 where s1: "ss_emit ?u s = Inr s1" "published_so_far w (us @ [?u]) s1" by blast
    obtain s2 where s2: "ss_flush rx s1 = Inr s2" "published_so_far w (us @ [?u]) s2"
      using ss_flush_ok [OF s1(2) assms(2)] by blast
    have "publish_order rx t s oid = Inr s2" using Some fields s1(1) s2(1) by (simp add: publish_order_def)
    then show ?thesis using Cons.IH [OF s2(2)] Cons.prems(2) u by simp
  qed
qed simp

lemma publish_tickers_ok:
  assumes "holds w A" "\<forall>n. rx n = []" "published_so_far w us s"
    and "42 * (length us + length (concat (map (\<lambda>t. clear_ticker t # listed A t [0..<MAX_ORDER_IDS]) ts))) < MCAST_BUFFER_SIZE"
  shows "\<exists>s'. foldR (publish_ticker rx) s ts = Inr s'
    \<and> published_so_far w (us @ concat (map (\<lambda>t. clear_ticker t # listed A t [0..<MAX_ORDER_IDS]) ts)) s'"
  using assms(3,4)
proof (induction ts arbitrary: us s)
  case (Cons t ts)
  let ?os = "listed A t [0..<MAX_ORDER_IDS]"
  have "42 * Suc (length us) < MCAST_BUFFER_SIZE" using Cons.prems(2) by simp
  from ss_emit_ok [OF Cons.prems(1) this, of "clear_ticker t"]
  obtain s1 where s1: "ss_emit (clear_ticker t) s = Inr s1" "published_so_far w (us @ [clear_ticker t]) s1" by blast
  have "42 * (length (us @ [clear_ticker t]) + length ?os) < MCAST_BUFFER_SIZE" using Cons.prems(2) by simp
  from publish_orders_ok [OF assms(1,2) s1(2) this]
  obtain s2 where s2: "foldR (publish_order rx t) s1 [0..<MAX_ORDER_IDS] = Inr s2"
    "published_so_far w ((us @ [clear_ticker t]) @ ?os) s2" by blast
  have "publish_ticker rx s t = Inr s2" using s1(1) s2(1) by (simp add: publish_ticker_def)
  then show ?case using Cons.IH [OF s2(2)] Cons.prems(2) by simp
qed simp

lemma publish_snapshot_ok:
  assumes h: "holds w A" and rx: "\<forall>n. rx n = []" and tx: "tx_buffer (ss_socket w) = []"
  shows "\<exists>w' n. publish_snapshot rx w
      = Inr (w', n, concat (map put_mdp_update (mdp_stream 0 (snapshot_messages A (n_seq_last w)))))
    \<and> holds w' A \<and> n_seq_last w' = n_seq_last w \<and> tx_buffer (ss_socket w') = []
    \<and> 42 * length (snapshot_messages A (n_seq_last w)) < MCAST_BUFFER_SIZE"
proof -
  have live: "finite (live A)" "card (live A) < MAX_ORDER_IDS"
    using holds_finite [OF h] holds_card [OF h] pool_card [of "update_pool w"] h by (simp_all add: holds_def)
  have bodylen: "length (snapshot_body A) = MAX_TICKERS + length (concat (map (\<lambda>t. listed A t [0..<MAX_ORDER_IDS]) [0..<MAX_TICKERS]))"
  proof -
    have "length (concat (map (\<lambda>t. clear_ticker t # f t) ts)) = length ts + length (concat (map f ts))"
      for f :: "nat \<Rightarrow> ome_market_update list" and ts
      by (induction ts) simp_all
    then show ?thesis by (simp add: snapshot_body_def)
  qed
  have room: "42 * Suc (Suc (length (snapshot_body A))) < MCAST_BUFFER_SIZE"
    using listed_total [OF live(1)] live(2) unfolding bodylen by (simp add: MCAST_BUFFER_SIZE_def limit_defs)
  let ?start = "snapshot_mark UPD_SNAPSHOT_START (n_seq_last w)" and ?stop = "snapshot_mark UPD_SNAPSHOT_END (n_seq_last w)"
  have "published_so_far w [] (w, 0, [])"
    using tx by (auto simp: published_so_far_def intro!: exI [of _ "ss_socket w"])
  from ss_emit_ok [OF this, of ?start]
  obtain s1 where s1: "ss_emit ?start (w, 0, []) = Inr s1" "published_so_far w ([] @ [?start]) s1"
    using room by fastforce
  have "42 * (length ([] @ [?start]) + length (concat (map (\<lambda>t. clear_ticker t # listed A t [0..<MAX_ORDER_IDS]) [0..<MAX_TICKERS])))
      < MCAST_BUFFER_SIZE" using room by (simp add: snapshot_body_def)
  from publish_tickers_ok [OF h rx s1(2) this]
  obtain s2 where s2: "foldR (publish_ticker rx) s1 [0..<MAX_TICKERS] = Inr s2" "published_so_far w (?start # snapshot_body A) s2"
    unfolding snapshot_body_def by auto
  have last: "n_seq_last (fst s2) = n_seq_last w" using s2(2) by (auto simp: published_so_far_def)
  have "42 * Suc (length (?start # snapshot_body A)) < MCAST_BUFFER_SIZE" using room by simp
  from ss_emit_ok [OF s2(2) this, of ?stop]
  obtain s3 where s3: "ss_emit ?stop s2 = Inr s3" "published_so_far w ((?start # snapshot_body A) @ [?stop]) s3" by blast
  have "(?start # snapshot_body A) @ [?stop] = snapshot_messages A (n_seq_last w)" by (simp add: snapshot_messages_def)
  with ss_flush_ok [OF s3(2) rx]
  obtain s4 where s4: "ss_flush rx s3 = Inr s4" "published_so_far w (snapshot_messages A (n_seq_last w)) s4"
    "tx_buffer (ss_socket (fst s4)) = []" by metis
  have run: "publish_snapshot rx w = Inr s4" using s1(1) s2(1) s3(1) s4(1) last by (simp add: publish_snapshot_def)
  obtain k n sent where k: "s4 = (w\<lparr>ss_socket := k\<rparr>, n, sent)"
    "sent @ tx_buffer k = concat (map put_mdp_update (mdp_stream 0 (snapshot_messages A (n_seq_last w))))"
    using s4(2) by (auto simp: published_so_far_def)
  have "holds (w\<lparr>ss_socket := k\<rparr>) A" using h by (simp add: holds_def)
  moreover have "42 * length (snapshot_messages A (n_seq_last w)) < MCAST_BUFFER_SIZE"
    using room by (simp add: snapshot_messages_def)
  ultimately show ?thesis using run k s4(3) by auto
qed

subsection \<open>Reading a snapshot\<close>

text \<open>Every live order is stored under its own ticker and id, as the \<open>ADD\<close> that brought it.\<close>

definition market_ok :: "market \<Rightarrow> bool" where
  "market_ok A \<longleftrightarrow> (\<forall>t oid u. A t oid = Some u \<longrightarrow> t < MAX_TICKERS \<and> oid < MAX_ORDER_IDS
     \<and> mu_type u = UPD_ADD \<and> unat (mu_ticker_id u) = t \<and> unat (mu_order_id u) = oid)"

lemma market_ok_empty [simp]: "market_ok (\<lambda>_ _. None)"
  by (simp add: market_ok_def)

lemma market_ok_apply: "market_ok A \<Longrightarrow> market_accepts A u \<Longrightarrow> market_ok (market_apply u A)"
  by (cases "mu_type u")
    (auto simp: market_ok_def market_apply_def market_accepts_def Let_def split: if_splits option.splits)

lemma apply_listed:
  assumes "market_ok A" "distinct oids"
  shows "fold market_apply (listed A t oids) B =
    (\<lambda>t' oid. if t' = t \<and> oid \<in> set oids \<and> A t oid \<noteq> None then A t oid else B t' oid)"
  using assms(2)
proof (induction oids arbitrary: B)
  case (Cons oid oids)
  show ?case
  proof (cases "A t oid")
    case None
    then show ?thesis using Cons by (auto simp: fun_eq_iff)
  next
    case (Some u)
    then have "market_apply u B = B(t := (B t)(oid := Some u))"
      using assms(1) by (auto simp: market_apply_def market_ok_def Let_def)
    then show ?thesis using Cons Some by (auto simp: fun_eq_iff)
  qed
qed simp

lemma apply_ticker:
  assumes "market_ok A" "t < MAX_TICKERS"
  shows "fold market_apply (clear_ticker t # listed A t [0..<MAX_ORDER_IDS]) B = B(t := A t)"
proof -
  have "unat (of_nat t :: ticker_id) = t" using assms(2) by (simp add: unat_of_nat limit_defs)
  then have "market_apply (clear_ticker t) B = B(t := (\<lambda>_. None))"
    by (simp add: market_apply_def clear_ticker_def default_update_def)
  moreover have "A t oid = None" if "\<not> oid < MAX_ORDER_IDS" for oid
    using assms(1) that by (cases "A t oid") (auto simp: market_ok_def)
  ultimately show ?thesis using apply_listed [OF assms(1), of "[0..<MAX_ORDER_IDS]" t] by (auto simp: fun_eq_iff)
qed

lemma apply_snapshot_body:
  assumes "market_ok A"
  shows "fold market_apply (snapshot_body A) B = (\<lambda>t. if t < MAX_TICKERS then A t else B t)"
proof -
  have "fold market_apply (concat (map (\<lambda>t. clear_ticker t # listed A t [0..<MAX_ORDER_IDS]) ts)) B
      = (\<lambda>t. if t \<in> set ts then A t else B t)" if "\<forall>t \<in> set ts. t < MAX_TICKERS" for ts B
    using that
  proof (induction ts arbitrary: B)
    case (Cons t ts)
    have "fold market_apply (clear_ticker t # listed A t [0..<MAX_ORDER_IDS]) B = B(t := A t)"
      using apply_ticker [OF assms] Cons.prems by simp
    then show ?case using Cons by (auto simp: fun_eq_iff)
  qed simp
  from this [of "[0..<MAX_TICKERS]"] show ?thesis by (simp add: snapshot_body_def)
qed

end
