(* ===== verification/Market_Data_Publisher.thy ===== *)
theory Market_Data_Publisher
  imports Snapshot_Synthesizer
begin

text \<open>
  \<open>exchange/data/market_data_publisher.{h,cpp}\<close>: the updates of the matching engine are
  numbered, sent on the incremental stream and passed on to the snapshot synthesizer. The
  pointer \<open>u\<close> is read a last time after its block was given back to the producer
  (\<open>increment_read_index\<close>); sequentially the block still holds the update.
\<close>

record market_data_publisher =
  ome_market_updates :: "ome_market_update lfqueue"
  n_seq_next :: "64 word"
  tx_snapshot_updates :: "mdp_market_update lfqueue"
  mdp_socket :: net_socket

definition new_market_data_publisher :: "ome_market_update lfqueue \<Rightarrow> int \<Rightarrow> market_data_publisher" where
  "new_market_data_publisher q fd = \<lparr>ome_market_updates = q, n_seq_next = 1,
     tx_snapshot_updates = new_lfqueue MAX_MARKET_UPDATES \<lparr>md_n_seq = 0, md_update = default_update\<rparr>,
     mdp_socket = new_socket fd\<rparr>"

definition mdp_on_update :: "market_data_publisher \<Rightarrow> ome_market_update \<Rightarrow> market_data_publisher res" where
  "mdp_on_update p u =
     bindR (mcast_load_tx (put_word (n_seq_next p)) (mdp_socket p)) (\<lambda>s1.
     bindR (mcast_load_tx (put_update u) s1) (\<lambda>s2.
     Inr (p\<lparr>mdp_socket := s2,
            tx_snapshot_updates := enq \<lparr>md_n_seq = n_seq_next p, md_update = u\<rparr> (tx_snapshot_updates p),
            n_seq_next := n_seq_next p + 1\<rparr>)))"

text \<open>One round of \<open>run\<close>; the bytes given to \<open>send\<close> are the second result.\<close>

definition mdp_run :: "bytes \<Rightarrow> market_data_publisher \<Rightarrow> (market_data_publisher \<times> bytes) res" where
  "mdp_run rx p =
     bindR (consume get_next_to_read increment_read_index (q_size (ome_market_updates p)) mdp_on_update
              (ome_market_updates p) p) (\<lambda>(q, p1).
     bindR (mcast_tx_and_rx mdp_socket (\<lambda>s p. p\<lparr>mdp_socket := s\<rparr>) None rx (p1\<lparr>ome_market_updates := q\<rparr>))
       (\<lambda>(p2, sent, _). Inr (p2, sent)))"

lemma mdp_on_updates_ok:
  assumes "length (tx_buffer (mdp_socket p)) + 42 * length us < MCAST_BUFFER_SIZE"
  shows "foldR mdp_on_update p us = Inr (p\<lparr>
      mdp_socket := (mdp_socket p)\<lparr>tx_buffer := tx_buffer (mdp_socket p)
        @ concat (map put_mdp_update (mdp_stream (n_seq_next p) us))\<rparr>,
      tx_snapshot_updates := enq_all (mdp_stream (n_seq_next p) us) (tx_snapshot_updates p),
      n_seq_next := n_seq_next p + of_nat (length us)\<rparr>)"
  using assms
proof (induction us arbitrary: p)
  case (Cons u us)
  let ?m = "\<lparr>md_n_seq = n_seq_next p, md_update = u\<rparr>"
  let ?p = "p\<lparr>mdp_socket := (mdp_socket p)\<lparr>tx_buffer := tx_buffer (mdp_socket p) @ put_mdp_update ?m\<rparr>,
    tx_snapshot_updates := enq ?m (tx_snapshot_updates p), n_seq_next := n_seq_next p + 1\<rparr>"
  have "mdp_on_update p u = Inr ?p"
    using Cons.prems by (simp add: mdp_on_update_def load_tx_ok put_mdp_update_def)
  moreover have "length (put_mdp_update ?m) = 42" by (rule update_wire.length_enc)
  ultimately show ?case using Cons.IH [of ?p] Cons.prems by (simp add: enq_all_def algebra_simps)
qed (simp add: enq_all_def)

lemma mdp_run_ok:
  assumes "q_ok (ome_market_updates p)" "q_ok (tx_snapshot_updates p)"
    and "q_size (tx_snapshot_updates p) + q_size (ome_market_updates p) \<le> q_cap (tx_snapshot_updates p)"
    and "tx_buffer (mdp_socket p) = []" "42 * q_size (ome_market_updates p) < MCAST_BUFFER_SIZE"
  shows "\<exists>p'. mdp_run [] p = Inr (p', concat (map put_mdp_update (mdp_stream (n_seq_next p) (q_list (ome_market_updates p)))))
    \<and> q_list (ome_market_updates p') = [] \<and> q_ok (tx_snapshot_updates p')
    \<and> q_list (tx_snapshot_updates p')
      = q_list (tx_snapshot_updates p) @ mdp_stream (n_seq_next p) (q_list (ome_market_updates p))
    \<and> n_seq_next p' = n_seq_next p + of_nat (q_size (ome_market_updates p))
    \<and> tx_buffer (mdp_socket p') = [] \<and> q_ok (ome_market_updates p')"
proof -
  let ?us = "q_list (ome_market_updates p)"
  have "q_size (tx_snapshot_updates p) + length (mdp_stream (n_seq_next p) ?us) \<le> q_cap (tx_snapshot_updates p)"
    using assms(3) by simp
  note q = enq_all_ok [OF assms(2) this]
  have "length (tx_buffer (mdp_socket p)) + 42 * length ?us < MCAST_BUFFER_SIZE" using assms(4,5) by simp
  note f = mdp_on_updates_ok [OF this]
  let ?p = "p\<lparr>mdp_socket := (mdp_socket p)\<lparr>tx_buffer := concat (map put_mdp_update (mdp_stream (n_seq_next p) ?us))\<rparr>,
    tx_snapshot_updates := enq_all (mdp_stream (n_seq_next p) ?us) (tx_snapshot_updates p),
    n_seq_next := n_seq_next p + of_nat (length ?us)\<rparr>"
  have "foldR mdp_on_update p ?us = Inr ?p" using f assms(4) by simp
  from lfq.foldR_consume [OF this assms(1), of "q_size (ome_market_updates p)"] obtain q' where
    "consume get_next_to_read increment_read_index (q_size (ome_market_updates p)) mdp_on_update
      (ome_market_updates p) p = Inr (q', ?p)" "q_list q' = []" "q_ok q'" by auto
  then show ?thesis
    using q by (simp add: mdp_run_def mcast_tx_and_rx_def Let_def)
qed

subsection \<open>Publisher and synthesizer\<close>

fun market_accepts_run :: "ome_market_update list \<Rightarrow> market \<Rightarrow> bool" where
  "market_accepts_run [] A \<longleftrightarrow> True"
| "market_accepts_run (u # us) A \<longleftrightarrow> market_accepts A u \<and> market_accepts_run us (market_apply u A)"

lemma market_accepts_run_append:
  "market_accepts_run (us @ vs) A \<longleftrightarrow> market_accepts_run us A \<and> market_accepts_run vs (fold market_apply us A)"
  by (induction us arbitrary: A) auto

lemma market_ok_run: "market_ok A \<Longrightarrow> market_accepts_run us A \<Longrightarrow> market_ok (fold market_apply us A)"
  by (induction us arbitrary: A) (auto simp: market_ok_apply)

lemma snapshot_run_ok:
  assumes "holds w A" "market_accepts_run us A"
  shows "\<exists>w'. foldR (\<lambda>w m. add_to_snapshot m w) w (mdp_stream (n_seq_last w + 1) us) = Inr w'
    \<and> holds w' (fold market_apply us A) \<and> n_seq_last w' = n_seq_last w + of_nat (length us)"
  using assms
proof (induction us arbitrary: w A)
  case (Cons u us)
  let ?m = "\<lparr>md_n_seq = n_seq_last w + 1, md_update = u\<rparr>"
  obtain w1 where w1: "add_to_snapshot ?m w = Inr w1" "holds w1 (market_apply u A)" "n_seq_last w1 = n_seq_last w + 1"
    using add_to_snapshot_ok [OF Cons.prems(1), of ?m] Cons.prems(2) by auto
  show ?case using Cons.IH [OF w1(2)] Cons.prems(2) w1(1,3) by (auto simp: algebra_simps)
qed simp

subsection \<open>A round of the synthesizer\<close>

definition ss_kept :: "snapshot_synthesizer \<Rightarrow> snapshot_synthesizer \<Rightarrow> bool" where
  "ss_kept w v \<longleftrightarrow> ss_tx_updates v = ss_tx_updates w \<and> ss_socket v = ss_socket w"

lemma add_to_snapshot_kept: "add_to_snapshot m v = Inr v' \<Longrightarrow> ss_kept w v \<Longrightarrow> ss_kept w v'"
  by (cases "mu_type (md_update m)")
    (auto simp: ss_kept_def add_to_snapshot_def Let_def bindR_eq_Inr ss_add_def ss_modify_def ss_cancel_def
      set_orders_at_def split: prod.splits)

lemma publish_snapshot_queue:
  assumes "publish_snapshot rx w = Inr (w', n, out)"
  shows "ss_tx_updates w' = ss_tx_updates w"
proof -
  let ?P = "\<lambda>s :: publishing. ss_tx_updates (fst s) = ss_tx_updates w"
  have emit: "?P s'" if "?P s" "ss_emit u s = Inr s'" for u s s'
    using that by (auto simp: ss_emit_def bindR_eq_Inr split: prod.splits)
  have flush: "?P s'" if "?P s" "ss_flush rx s = Inr s'" for s s'
    using that by (auto simp: ss_flush_def mcast_tx_and_rx_def Let_def bindR_eq_Inr split: prod.splits if_splits)
  have order: "?P s'" if s: "?P s" and o: "publish_order rx t s oid = Inr s'" for t oid s s'
  proof (cases "map_ticker_to_order (fst s) t oid")
    case (Some a)
    then obtain s1 where s1: "ss_emit (blk (update_pool (fst s)) a) s = Inr s1" "ss_flush rx s1 = Inr s'"
      using o by (auto simp: publish_order_def bindR_eq_Inr)
    show ?thesis by (rule flush [OF emit [OF s s1(1)] s1(2)])
  qed (use s o in \<open>simp add: publish_order_def\<close>)
  have ticker: "?P s'" if s: "?P s" and t: "publish_ticker rx s t = Inr s'" for t s s'
  proof -
    obtain s1 where s1: "ss_emit (clear_ticker t) s = Inr s1" "foldR (publish_order rx t) s1 [0..<MAX_ORDER_IDS] = Inr s'"
      using t by (auto simp: publish_ticker_def bindR_eq_Inr)
    show ?thesis by (rule foldR_invariant [where P = ?P, OF order emit [OF s s1(1)] s1(2)])
  qed
  obtain s1 s2 s3 where s: "ss_emit (snapshot_mark UPD_SNAPSHOT_START (n_seq_last w)) (w, 0, []) = Inr s1"
    "foldR (publish_ticker rx) s1 [0..<MAX_TICKERS] = Inr s2"
    "ss_emit (snapshot_mark UPD_SNAPSHOT_END (n_seq_last (fst s2))) s2 = Inr s3" "ss_flush rx s3 = Inr (w', n, out)"
    using assms by (auto simp: publish_snapshot_def bindR_eq_Inr)
  have "?P s1" by (rule emit [OF _ s(1)]) simp
  from foldR_invariant [where P = ?P, OF ticker this s(2)] have "?P s3" by (rule emit [OF _ s(3)])
  then show ?thesis using flush [OF _ s(4)] by simp
qed

lemma ss_run_ok:
  assumes q: "q_ok (ss_tx_updates w)" "q_list (ss_tx_updates w) = mdp_stream (n_seq_last w + 1) us"
    and h: "holds w A" "market_accepts_run us A" and tx: "tx_buffer (ss_socket w) = []"
  shows "\<exists>w' out. ss_run now now' (\<lambda>_. []) w = Inr (w', out) \<and> holds w' (fold market_apply us A)
    \<and> n_seq_last w' = n_seq_last w + of_nat (length us) \<and> tx_buffer (ss_socket w') = []
    \<and> q_ok (ss_tx_updates w') \<and> q_list (ss_tx_updates w') = [] \<and> q_cap (ss_tx_updates w') = q_cap (ss_tx_updates w)"
proof -
  obtain w1 where w1: "foldR (\<lambda>w m. add_to_snapshot m w) w (mdp_stream (n_seq_last w + 1) us) = Inr w1"
    "holds w1 (fold market_apply us A)" "n_seq_last w1 = n_seq_last w + of_nat (length us)"
    using snapshot_run_ok [OF h] by auto
  have keep: "ss_kept w w1"
    by (rule foldR_invariant [where P = "ss_kept w", OF add_to_snapshot_kept _ w1(1)]) (simp_all add: ss_kept_def)
  have f: "foldR (\<lambda>w m. add_to_snapshot m w) w (q_list (ss_tx_updates w)) = Inr w1" using w1(1) q(2) by simp
  obtain q' where q': "consume get_next_to_read increment_read_index (q_size (ss_tx_updates w)) (\<lambda>w m. add_to_snapshot m w)
      (ss_tx_updates w) w = Inr (q', w1)" "q_ok q'" "q_list q' = []" "q_cap q' = q_cap (ss_tx_updates w)"
    using lfq.foldR_consume [OF f q(1), of "q_size (ss_tx_updates w)"] by auto
  let ?w2 = "w1\<lparr>ss_tx_updates := q'\<rparr>" and ?w3 = "w1\<lparr>ss_tx_updates := q', t_last_snapshot := now'\<rparr>"
  have h2: "holds ?w2 (fold market_apply us A)" "holds ?w3 (fold market_apply us A)" using w1(2) by (simp_all add: holds_def)
  show ?thesis
  proof (cases "SECONDS_BETWEEN_SNAPSHOTS * NANOS_TO_SECS < now - t_last_snapshot w1")
    case True
    obtain w' n out where p: "publish_snapshot (\<lambda>_. []) ?w3 = Inr (w', n, out)" "holds w' (fold market_apply us A)"
      "n_seq_last w' = n_seq_last ?w3" "tx_buffer (ss_socket w') = []"
      using publish_snapshot_ok [OF h2(2), of "\<lambda>_. []"] keep tx by (auto simp: ss_kept_def)
    then show ?thesis
      using True q' w1(3) publish_snapshot_queue [OF p(1)] by (simp add: ss_run_def Let_def)
  next
    case False
    then show ?thesis using q' w1(3) h2(1) keep tx by (simp add: ss_run_def Let_def ss_kept_def)
  qed
qed

text \<open>
  The publisher and the synthesizer agree on every update: whatever updates the market
  can take, the publisher sends them on the incremental stream, numbered without a gap from
  its counter on, and the synthesizer, fed through the queue between them, accepts every one
  (its check of the sequence never fails) and then holds exactly the market these updates
  lead to. (The queue and the buffer need room.)
\<close>

theorem published_updates_reach_snapshot:
  assumes "q_ok (ome_market_updates p)" "q_ok (tx_snapshot_updates p)" "q_list (tx_snapshot_updates p) = []"
    and "q_size (ome_market_updates p) \<le> q_cap (tx_snapshot_updates p)"
    and "tx_buffer (mdp_socket p) = []" "42 * q_size (ome_market_updates p) < MCAST_BUFFER_SIZE"
    and "holds w A" "n_seq_next p = n_seq_last w + 1"
    and "market_accepts_run (q_list (ome_market_updates p)) A"
    and "tx_buffer (ss_socket w) = []"
  shows "\<exists>p' w' out. mdp_run [] p = Inr (p', concat (map put_mdp_update (mdp_stream (n_seq_next p) (q_list (ome_market_updates p)))))
    \<and> ss_run now now' (\<lambda>_. []) (w\<lparr>ss_tx_updates := tx_snapshot_updates p'\<rparr>) = Inr (w', out)
    \<and> holds w' (fold market_apply (q_list (ome_market_updates p)) A)
    \<and> q_list (ss_tx_updates w') = [] \<and> n_seq_next p' = n_seq_last w' + 1"
proof -
  let ?us = "q_list (ome_market_updates p)"
  have z: "q_size (tx_snapshot_updates p) = 0" using length_q_list [of "tx_snapshot_updates p"] assms(3) by simp
  then have room: "q_size (tx_snapshot_updates p) + q_size (ome_market_updates p) \<le> q_cap (tx_snapshot_updates p)"
    using assms(4) by simp
  obtain p' where p': "mdp_run [] p = Inr (p', concat (map put_mdp_update (mdp_stream (n_seq_next p) ?us)))"
    "q_ok (tx_snapshot_updates p')" "q_list (tx_snapshot_updates p') = mdp_stream (n_seq_last w + 1) ?us"
    "n_seq_next p' = n_seq_next p + of_nat (length ?us)"
    using mdp_run_ok [OF assms(1,2) room assms(5,6)] assms(3,8) by auto
  let ?w = "w\<lparr>ss_tx_updates := tx_snapshot_updates p'\<rparr>"
  have w: "q_ok (ss_tx_updates ?w)" "q_list (ss_tx_updates ?w) = mdp_stream (n_seq_last ?w + 1) ?us" "holds ?w A"
    "tx_buffer (ss_socket ?w) = []"
    using p'(2,3) assms(7,10) by (simp_all add: holds_def)
  obtain w' out where "ss_run now now' (\<lambda>_. []) ?w = Inr (w', out)" "holds w' (fold market_apply ?us A)"
    "n_seq_last w' = n_seq_last w + of_nat (length ?us)" "q_list (ss_tx_updates w') = []"
    using ss_run_ok [OF w(1-3) assms(9) w(4), of now now'] by auto
  then show ?thesis using p' assms(8) by (intro exI [of _ p'] exI [of _ w'] exI [of _ out]) simp
qed

definition demo_updates :: "ome_market_update list" where
  "demo_updates = [default_update\<lparr>mu_type := UPD_ADD, mu_ticker_id := 3, mu_order_id := 7, mu_side := BUY, mu_price := 100, mu_qty := 5\<rparr>,
     default_update\<lparr>mu_type := UPD_MODIFY, mu_ticker_id := 3, mu_order_id := 7, mu_side := BUY, mu_price := 100, mu_qty := 2\<rparr>]"

lemma demo_updates_accepted: "market_accepts_run demo_updates (\<lambda>_ _. None)"
  by (simp add: demo_updates_def market_accepts_def market_apply_def default_update_def live_def limit_defs)

theorem published_updates_reach_snapshot_witness:
  "\<exists>p' sent w' out. mdp_run [] (new_market_data_publisher (enq_all demo_updates (new_lfqueue 4 default_update)) 5) = Inr (p', sent)
    \<and> ss_run 10 11 (\<lambda>_. []) ((new_snapshot_synthesizer (new_lfqueue 4 \<lparr>md_n_seq = 0, md_update = default_update\<rparr>) 6)
        \<lparr>ss_tx_updates := tx_snapshot_updates p'\<rparr>) = Inr (w', out)
    \<and> holds w' (fold market_apply demo_updates (\<lambda>_ _. None))"
proof -
  let ?q = "enq_all demo_updates (new_lfqueue 4 default_update)"
  let ?p = "new_market_data_publisher ?q 5"
  let ?w = "new_snapshot_synthesizer (new_lfqueue 4 \<lparr>md_n_seq = 0, md_update = default_update\<rparr>) 6"
  have q: "q_ok ?q" "q_list ?q = demo_updates"
    using enq_all_ok [of "new_lfqueue 4 default_update" demo_updates] by (simp_all add: q_ok_new demo_updates_def)
  then have sz: "q_size ?q = 2" using length_q_list [of ?q] by (simp add: demo_updates_def)
  have p: "ome_market_updates ?p = ?q" "n_seq_next ?p = 1" "tx_buffer (mdp_socket ?p) = []"
    "tx_snapshot_updates ?p = new_lfqueue MAX_MARKET_UPDATES \<lparr>md_n_seq = 0, md_update = default_update\<rparr>"
    by (simp_all add: new_market_data_publisher_def new_socket_def)
  have w: "n_seq_last ?w = 0" "tx_buffer (ss_socket ?w) = []" by (simp_all add: new_snapshot_synthesizer_def new_socket_def)
  have "\<exists>p' w' out. mdp_run [] ?p = Inr (p', concat (map put_mdp_update (mdp_stream (n_seq_next ?p) (q_list (ome_market_updates ?p)))))
    \<and> ss_run 10 11 (\<lambda>_. []) (?w\<lparr>ss_tx_updates := tx_snapshot_updates p'\<rparr>) = Inr (w', out)
    \<and> holds w' (fold market_apply (q_list (ome_market_updates ?p)) (\<lambda>_ _. None))
    \<and> q_list (ss_tx_updates w') = [] \<and> n_seq_next p' = n_seq_last w' + 1"
    by (rule published_updates_reach_snapshot [OF _ _ _ _ _ _ holds_new])
      (simp_all add: p w q sz q_ok_new demo_updates_accepted limit_defs MCAST_BUFFER_SIZE_def)
  then show ?thesis unfolding p(1) q(2) by blast
qed

end
