(* ===== verification/Market_View.thy ===== *)
theory Market_View
  imports Replication Market_Data_Publisher
begin

text \<open>
  The exchange seen from its own market data: the updates a run of the matching engine
  publishes are all accepted by the snapshot synthesizer, which then holds exactly the
  resting orders of the engine's books, under their tickers and market order ids.
\<close>

definition update_of :: "nat \<Rightarrow> te_order \<Rightarrow> ome_market_update" where
  "update_of t r = mk_update UPD_ADD (t_id r) (of_nat t) (o_side r) (o_price r) (o_qty r) (o_priority r)"

definition market_of :: "(nat \<Rightarrow> te_view) \<Rightarrow> market" where
  "market_of B t oid = (if t < MAX_TICKERS
     then map_option (update_of t) (find (\<lambda>r. unat (t_id r) = oid) (te_resting (B t))) else None)"

text \<open>Orders with ids of their own, stored under their sides.\<close>

definition te_view_ok :: "te_view \<Rightarrow> bool" where
  "te_view_ok B \<longleftrightarrow> distinct (map t_id (te_resting B))"

lemma te_ids:
  assumes "te_view_ok B" "r \<in> set (te_resting B)"
  shows "find (\<lambda>x. unat (t_id x) = unat (t_id r)) (te_resting B) = Some r"
proof (rule find_unique [OF assms(2)])
  fix y assume "y \<in> set (te_resting B)" "unat (t_id y) = unat (t_id r)"
  then show "y = r" using assms by (auto simp: te_view_ok_def distinct_map inj_on_def word_unat_eq_iff)
qed simp

lemma find_cong_set:
  assumes "\<And>x y. x \<in> set ys \<Longrightarrow> y \<in> set ys \<Longrightarrow> P x \<Longrightarrow> P y \<Longrightarrow> x = y" "set xs = set ys"
  shows "find P xs = find P ys"
proof (cases "\<exists>x \<in> set ys. P x")
  case True
  then obtain x where x: "x \<in> set ys" "P x" by blast
  have "find P ys = Some x" by (rule find_unique [of x ys P]) (use assms(1) x in blast)+
  moreover have "find P xs = Some x"
  proof (rule find_unique)
    show "x \<in> set xs" using assms(2) x(1) by simp
  qed (use assms x in blast)+
  ultimately show ?thesis by simp
next
  case False
  then show ?thesis using assms(2) by (metis find_None_iff)
qed

lemma te_resting_add:
  assumes "mu_type u = UPD_ADD" "te_accepts B u" "te_view_ok B"
  shows "set (te_resting (te_apply_spec u B)) = insert (te_of_update u) (set (te_resting B))"
    and "te_view_ok (te_apply_spec u B)"
proof -
  have sd: "is_side (mu_side u)" using assms(1,2) by (simp add: te_accepts_def)
  have split: "mset (takeWhile P xs) + mset (dropWhile P xs) = mset xs" for P and xs :: "te_order list"
    by (simp flip: mset_append)
  have m: "mset (te_resting (te_apply_spec u B)) = add_mset (te_of_update u) (mset (te_resting B))"
    using sd assms(1) by (auto simp: te_resting_def te_apply_spec_def is_side_def insert_prio_def split)
  then show "set (te_resting (te_apply_spec u B)) = insert (te_of_update u) (set (te_resting B))"
    by (metis set_mset_add_mset_insert set_mset_mset)
  have "mset (map t_id (te_resting (te_apply_spec u B))) = mset (mu_order_id u # map t_id (te_resting B))"
    using m by (simp add: te_of_update_def)
  moreover have "distinct (mu_order_id u # map t_id (te_resting B))"
    using assms by (auto simp: te_accepts_def te_view_ok_def list_all_iff)
  ultimately show "te_view_ok (te_apply_spec u B)"
    unfolding te_view_ok_def by (metis mset_eq_imp_distinct_iff)
qed

text \<open>One update: the market takes it and goes on as the views of the books do.\<close>

definition follows_update :: "(nat \<Rightarrow> te_view) \<Rightarrow> nat \<Rightarrow> ome_market_update \<Rightarrow> bool" where
  "follows_update B t u \<longleftrightarrow> market_accepts (market_of B) u
    \<and> market_apply u (market_of B) = market_of (B(t := te_apply_spec u (B t)))
    \<and> te_view_ok (te_apply_spec u (B t))
    \<and> (\<forall>r \<in> set (te_resting (te_apply_spec u (B t))). unat (t_id r) < MAX_ORDER_IDS)"

lemma market_follow_add:
  assumes acc: "te_accepts (B t) u" "te_genuine (B t) u" and ok: "te_view_ok (B t)"
    and t: "unat (mu_ticker_id u) = t" "t < MAX_TICKERS" and room: "Suc (card (live (market_of B))) < MAX_ORDER_IDS"
    and small: "\<forall>r \<in> set (te_resting (B t)). unat (t_id r) < MAX_ORDER_IDS"
    and add: "mu_type u = UPD_ADD"
  shows "follows_update B t u"
proof -
  let ?o = "mu_order_id u" and ?C = "te_apply_spec u (B t)"
  have tick: "mu_ticker_id u = of_nat t" using t(1) by auto
  have fresh: "find (\<lambda>r. unat (t_id r) = unat ?o) (te_resting (B t)) = None"
    using acc(1) add by (auto simp: te_accepts_def find_None_iff list_all_iff word_unat_eq_iff)
  have oid: "unat ?o < MAX_ORDER_IDS" using acc(1) add by (simp add: te_accepts_def)
  note C = te_resting_add [OF add acc(1) ok]
  have "update_of t (te_of_update u) = u"
    using add tick by (cases u) (simp add: update_of_def te_of_update_def mk_update_def)
  moreover have "find (\<lambda>r. unat (t_id r) = oid) (te_resting ?C)
      = (if oid = unat ?o then Some (te_of_update u) else find (\<lambda>r. unat (t_id r) = oid) (te_resting (B t)))" for oid
  proof -
    have "find (\<lambda>r. unat (t_id r) = oid) (te_resting ?C) = find (\<lambda>r. unat (t_id r) = oid) (te_of_update u # te_resting (B t))"
    proof (rule find_cong_set)
      fix x y
      assume "x \<in> set (te_of_update u # te_resting (B t))" "y \<in> set (te_of_update u # te_resting (B t))"
        "unat (t_id x) = oid" "unat (t_id y) = oid"
      then show "x = y" using C by (auto simp: te_view_ok_def distinct_map inj_on_def word_unat_eq_iff)
    qed (use C in simp)
    then show ?thesis by (simp add: te_of_update_def)
  qed
  ultimately have "market_apply u (market_of B) = market_of (B(t := ?C))"
    using add t by (auto simp: market_apply_def market_of_def fun_eq_iff Let_def)
  then show ?thesis unfolding follows_update_def
    using add t fresh oid room C small by (auto simp: market_accepts_def market_of_def te_of_update_def)
qed

lemma market_follow_modify:
  assumes acc: "te_accepts (B t) u" "te_genuine (B t) u" and ok: "te_view_ok (B t)"
    and t: "unat (mu_ticker_id u) = t" "t < MAX_TICKERS" and room: "Suc (card (live (market_of B))) < MAX_ORDER_IDS"
    and small: "\<forall>r \<in> set (te_resting (B t)). unat (t_id r) < MAX_ORDER_IDS"
    and modify: "mu_type u = UPD_MODIFY"
  shows "follows_update B t u"
proof -
  let ?o = "mu_order_id u" and ?C = "te_apply_spec u (B t)"
  obtain r where r: "r \<in> set (te_resting (B t))" "t_id r = ?o"
    using acc(1) modify by (auto simp: te_accepts_def)
  have g: "o_side r = mu_side u" "o_price r = mu_price u"
    using acc(2) modify r by (auto simp: te_genuine_def list_all_iff)
  let ?f = "\<lambda>x. if t_id x = ?o then x\<lparr>o_qty := mu_qty u\<rparr> else x"
  have C: "te_resting ?C = map ?f (te_resting (B t))" using modify by (simp add: te_resting_def te_apply_spec_def)
  have ids: "map t_id (te_resting ?C) = map t_id (te_resting (B t))" unfolding C by simp
  have fd: "find (\<lambda>x. unat (t_id x) = oid) (te_resting ?C) = map_option ?f (find (\<lambda>x. unat (t_id x) = oid) (te_resting (B t)))" for oid
  proof -
    have "find (\<lambda>x. unat (t_id x) = oid) (map ?f xs) = map_option ?f (find (\<lambda>x. unat (t_id x) = oid) xs)" for xs
      by (induction xs) auto
    then show ?thesis unfolding C .
  qed
  have self: "find (\<lambda>x. unat (t_id x) = unat ?o) (te_resting (B t)) = Some r" using te_ids [OF ok r(1)] r(2) by simp
  have "find (\<lambda>x. unat (t_id x) = oid) (te_resting (B t)) = Some x \<Longrightarrow> t_id x = ?o \<longleftrightarrow> oid = unat ?o" for x oid
    by (auto simp: find_Some_iff word_unat_eq_iff)
  then have "market_apply u (market_of B) = market_of (B(t := ?C))"
    using modify t self fd g r(2)
    by (auto simp: market_apply_def market_of_def fun_eq_iff Let_def update_of_def mk_update_def option.map_comp
        split: option.splits intro!: option.map_cong)
  moreover have "\<forall>r \<in> set (te_resting ?C). unat (t_id r) < MAX_ORDER_IDS" using small unfolding C by auto
  moreover have "unat ?o < MAX_ORDER_IDS" using small r by fastforce
  ultimately show ?thesis unfolding follows_update_def
    using modify t self g r small ok ids
    by (simp add: market_accepts_def market_of_def update_of_def mk_update_def te_view_ok_def)
qed

lemma market_follow_cancel:
  assumes acc: "te_accepts (B t) u" "te_genuine (B t) u" and ok: "te_view_ok (B t)"
    and t: "unat (mu_ticker_id u) = t" "t < MAX_TICKERS" and room: "Suc (card (live (market_of B))) < MAX_ORDER_IDS"
    and small: "\<forall>r \<in> set (te_resting (B t)). unat (t_id r) < MAX_ORDER_IDS"
    and cancel: "mu_type u = UPD_CANCEL"
  shows "follows_update B t u"
proof -
  let ?o = "mu_order_id u" and ?C = "te_apply_spec u (B t)"
  obtain r where r: "r \<in> set (te_resting (B t))" "t_id r = ?o"
    using acc(1) cancel by (auto simp: te_accepts_def)
  have g: "o_side r = mu_side u" using acc(2) cancel r by (auto simp: te_genuine_def list_all_iff)
  have C: "te_resting ?C = filter (\<lambda>x. t_id x \<noteq> ?o) (te_resting (B t))" using cancel by (simp add: te_resting_def te_apply_spec_def)
  have fd: "find (\<lambda>x. unat (t_id x) = oid) (te_resting ?C)
      = (if oid = unat ?o then None else find (\<lambda>x. unat (t_id x) = oid) (te_resting (B t)))" for oid
  proof -
    have "find (\<lambda>x. unat (t_id x) = oid) (filter (\<lambda>x. t_id x \<noteq> ?o) xs)
        = (if oid = unat ?o then None else find (\<lambda>x. unat (t_id x) = oid) xs)" for xs
      by (induction xs) (auto simp: word_unat_eq_iff)
    then show ?thesis unfolding C .
  qed
  have self: "find (\<lambda>x. unat (t_id x) = unat ?o) (te_resting (B t)) = Some r" using te_ids [OF ok r(1)] r(2) by simp
  have "market_apply u (market_of B) = market_of (B(t := ?C))"
    using cancel t fd by (auto simp: market_apply_def market_of_def fun_eq_iff Let_def)
  moreover have "te_view_ok ?C" using ok unfolding te_view_ok_def C by (simp add: distinct_map_filter)
  ultimately show ?thesis unfolding follows_update_def
    using cancel t self g r small unfolding C
    by (auto simp: market_accepts_def market_of_def update_of_def mk_update_def)
qed

lemma market_follow_update:
  assumes acc: "te_accepts (B t) u" "te_genuine (B t) u" and ok: "te_view_ok (B t)"
    and t: "unat (mu_ticker_id u) = t" "t < MAX_TICKERS" and room: "Suc (card (live (market_of B))) < MAX_ORDER_IDS"
    and small: "\<forall>r \<in> set (te_resting (B t)). unat (t_id r) < MAX_ORDER_IDS"
  shows "market_accepts (market_of B) u
    \<and> market_apply u (market_of B) = market_of (B(t := te_apply_spec u (B t)))
    \<and> te_view_ok (te_apply_spec u (B t))
    \<and> (\<forall>r \<in> set (te_resting (te_apply_spec u (B t))). unat (t_id r) < MAX_ORDER_IDS)"
proof -
  consider (add) "mu_type u = UPD_ADD" | (modify) "mu_type u = UPD_MODIFY" | (cancel) "mu_type u = UPD_CANCEL"
    | (trade) "mu_type u = UPD_TRADE"
    using acc(2) by (auto simp: te_genuine_def)
  then have "follows_update B t u"
  proof cases
    case trade
    then have "te_apply_spec u (B t) = B t" by (simp add: te_apply_spec_def)
    then show ?thesis unfolding follows_update_def using trade t ok small by (simp add: market_accepts_def market_apply_def Let_def)
  qed (use market_follow_add [OF assms] market_follow_modify [OF assms] market_follow_cancel [OF assms] in blast)+
  then show ?thesis by (simp add: follows_update_def)
qed

text \<open>A run of updates over all tickers.\<close>

fun books_run :: "ome_market_update list \<Rightarrow> (nat \<Rightarrow> te_view) \<Rightarrow> (nat \<Rightarrow> te_view)" where
  "books_run [] B = B"
| "books_run (u # us) B = (let t = unat (mu_ticker_id u) in books_run us (B(t := te_apply_spec u (B t))))"

lemma books_run_at: "books_run us B t = fold te_apply_spec (for_ticker t us) (B t)"
  by (induction us arbitrary: B) (auto simp: for_ticker_def Let_def)

lemma live_apply: "card (live (market_apply u A)) \<le> Suc (card (live A)) \<and> finite (live (market_apply u A))"
  if "finite (live A)"
proof -
  have "live (market_apply u A) \<subseteq> insert (unat (mu_ticker_id u), unat (mu_order_id u)) (live A)"
    by (cases "mu_type u") (auto simp: live_def market_apply_def Let_def split: if_splits)
  then show ?thesis
    using that card_mono [of "insert (unat (mu_ticker_id u), unat (mu_order_id u)) (live A)"] card_insert_le_m1
    by (metis card_insert_if finite_insert finite_subset le_SucI)
qed

lemma market_follow_run:
  assumes "\<forall>t. accepts_run (for_ticker t us) (B t)" "\<forall>u \<in> set us. unat (mu_ticker_id u) < MAX_TICKERS"
    and "\<forall>t. te_view_ok (B t) \<and> (\<forall>r \<in> set (te_resting (B t)). unat (t_id r) < MAX_ORDER_IDS)"
    and "finite (live (market_of B))" "card (live (market_of B)) + length us < MAX_ORDER_IDS"
  shows "market_accepts_run us (market_of B) \<and> fold market_apply us (market_of B) = market_of (books_run us B)"
  using assms
proof (induction us arbitrary: B)
  case (Cons u us)
  let ?t = "unat (mu_ticker_id u)"
  let ?B = "B(?t := te_apply_spec u (B ?t))"
  have a: "te_accepts (B ?t) u" "te_genuine (B ?t) u" "accepts_run (for_ticker ?t us) (te_apply_spec u (B ?t))"
    using Cons.prems(1) [rule_format, of ?t] by (simp_all add: for_ticker_def)
  have step: "market_accepts (market_of B) u" "market_apply u (market_of B) = market_of ?B"
    "te_view_ok (te_apply_spec u (B ?t))" "\<forall>r \<in> set (te_resting (te_apply_spec u (B ?t))). unat (t_id r) < MAX_ORDER_IDS"
    using market_follow_update [of B ?t u] a Cons.prems(2,3,5) by auto
  have "accepts_run (for_ticker t us) (?B t)" for t
    using Cons.prems(1) [rule_format, of t] a(3) by (cases "t = ?t") (simp_all add: for_ticker_def)
  moreover have "card (live (market_of ?B)) + length us < MAX_ORDER_IDS" "finite (live (market_of ?B))"
    using live_apply [OF Cons.prems(4), of u] Cons.prems(5) step(2) by simp_all
  moreover have "\<forall>t. te_view_ok (?B t) \<and> (\<forall>r \<in> set (te_resting (?B t)). unat (t_id r) < MAX_ORDER_IDS)"
    using Cons.prems(3) step(3,4) by simp
  moreover have "\<forall>u \<in> set us. unat (mu_ticker_id u) < MAX_TICKERS" using Cons.prems(2) by simp
  ultimately have "market_accepts_run us (market_of ?B) \<and> fold market_apply us (market_of ?B) = market_of (books_run us ?B)"
    by (intro Cons.IH) blast+
  then show ?case using step(1,2) by (simp add: Let_def)
qed simp

subsection \<open>The exchange's own market\<close>

definition market_of_books :: "(nat \<Rightarrow> book_view) \<Rightarrow> market" where
  "market_of_books A = market_of (\<lambda>t s. map te_of_ome (A t s))"

lemma run_updates_tickers:
  assumes "valid_run rs S" "run_spec rs S = (S', ms)" "u \<in> set (updates ms)"
  shows "unat (mu_ticker_id u) < MAX_TICKERS"
  using assms
proof (induction rs arbitrary: S ms)
  case (Cons r rs)
  let ?t = "unat (rq_ticker_id r)"
  obtain S1 ms1 where r: "request_spec r (S ?t) = (S1, ms1)" by (cases "request_spec r (S ?t)")
  obtain ms2 where rest: "run_spec rs (S(?t := S1)) = (S', ms2)" "ms = ms1 @ ms2"
    using Cons.prems(2) r by (auto simp: Let_def split: prod.splits)
  have v: "valid_request r (S ?t)" "valid_run rs (S(?t := S1))" using Cons.prems(1) r by (simp_all add: Let_def)
  show ?case
  proof (cases "u \<in> set (updates ms1)")
    case True
    then have "mu_ticker_id u = rq_ticker_id r" using request_spec_tickers [OF r] by auto
    then show ?thesis using v(1) by (simp add: valid_request_def)
  next
    case False
    then show ?thesis using Cons.IH [OF v(2) rest(1)] Cons.prems(3) rest(2) by simp
  qed
qed simp

lemma run_market:
  assumes v: "valid_run rs empty_books" and s: "run_spec rs empty_books = (S', ms)"
    and len: "Suc (length rs) < MAX_ORDER_IDS" "length (updates ms) < MAX_ORDER_IDS"
  shows "market_accepts_run (updates ms) (\<lambda>_ _. None)"
    "fold market_apply (updates ms) (\<lambda>_ _. None) = market_of_books (\<lambda>t. fst (S' t))"
proof -
  obtain e where e: "engine_ok e empty_books" "has_room e ms" using roomy_engine by blast
  have "\<forall>t. trading_ok (empty_books t) \<and> unat (snd (empty_books t)) + length rs < MAX_ORDER_IDS"
    using empty_trading_ok len(1) by (simp add: empty_books_def)
  moreover have "\<forall>t. shows_book (\<lambda>_. []) (fst (empty_books t))" by (simp add: shows_book_def empty_books_def)
  ultimately have f: "\<forall>t. accepts_run (for_ticker t (updates ms)) (\<lambda>_. [])"
    "\<forall>t. shows_book (fold te_apply_spec (for_ticker t (updates ms)) (\<lambda>_. [])) (fst (S' t))"
    using run_follow [OF e(1) v s e(2), of "\<lambda>_ _. []"] by blast+
  let ?B = "\<lambda>_ _. [] :: te_order list"
  have empty: "market_of ?B = (\<lambda>_ _. None)" by (simp add: market_of_def te_resting_def fun_eq_iff)
  have m: "market_accepts_run (updates ms) (market_of ?B)"
    "fold market_apply (updates ms) (market_of ?B) = market_of (books_run (updates ms) ?B)"
    using market_follow_run [of "updates ms" ?B] f(1) run_updates_tickers [OF v s] len(2)
    by (simp_all add: te_view_ok_def te_resting_def empty live_def)
  have "te_resting (books_run (updates ms) ?B t) = te_resting (\<lambda>s. map te_of_ome (fst (S' t) s))" for t
    using f(2) [rule_format, of t] by (simp add: books_run_at te_resting_def shows_book_def)
  then have view: "market_of (books_run (updates ms) ?B) = market_of_books (\<lambda>t. fst (S' t))"
    by (simp add: market_of_books_def market_of_def fun_eq_iff)
  show "market_accepts_run (updates ms) (\<lambda>_ _. None)" using m(1) unfolding empty .
  show "fold market_apply (updates ms) (\<lambda>_ _. None) = market_of_books (\<lambda>t. fst (S' t))"
    using m(2) unfolding empty view .
qed

text \<open>
  The snapshot is the book. Whatever requests a fresh exchange has processed, the updates
  it published are all accepted by a fresh snapshot synthesizer that gets them numbered from
  \<open>1\<close> on: none of its assertions fails, and it then holds exactly the resting orders of the
  engine's books, each under its ticker and market order id with its side, price, priority
  and open quantity. (The updates of the run have to be fewer than the blocks of its pool.)
\<close>

theorem snapshot_is_the_book:
  assumes "engine_ok e empty_books" "q_ok rx" "valid_run (q_list rx) empty_books"
    and "has_room e (snd (run_spec (q_list rx) empty_books))" "Suc (q_size rx) < MAX_ORDER_IDS"
    and "q_list (tx_market_updates e) = []" "length (updates (snd (run_spec (q_list rx) empty_books))) < MAX_ORDER_IDS"
  shows "\<exists>rx' e' A w. run_engine rx e = Inr (rx', e')
    \<and> (\<forall>t. t < MAX_TICKERS \<longrightarrow> represents (order_book_for_ticker e' ! t) (A t))
    \<and> foldR (\<lambda>w m. add_to_snapshot m w) (new_snapshot_synthesizer q fd) (mdp_stream 1 (q_list (tx_market_updates e'))) = Inr w
    \<and> holds w (market_of_books A)"
proof -
  obtain S' ms where s: "run_spec (q_list rx) empty_books = (S', ms)" by (cases "run_spec (q_list rx) empty_books")
  have room: "has_room e ms" using assms(4) s by simp
  obtain e' where e': "foldR (\<lambda>e r. process_client_request r e) e (q_list rx) = Inr e'" "engine_ok e' S'"
    "emitted e e' ms" using foldR_process_ok [OF assms(1,3) s room] by blast
  obtain rx' where run: "run_engine rx e = Inr (rx', e')"
    using lfq.consume_foldR [OF assms(2), of "q_size rx" "\<lambda>e r. process_client_request r e" e] e'(1)
    by (auto simp: run_engine_def)
  have "market_accepts_run (updates ms) (\<lambda>_ _. None)"
    "fold market_apply (updates ms) (\<lambda>_ _. None) = market_of_books (\<lambda>t. fst (S' t))"
    using run_market [OF assms(3) s] assms(5,7) s by simp_all
  then obtain w where w: "foldR (\<lambda>w m. add_to_snapshot m w) (new_snapshot_synthesizer q fd) (mdp_stream 1 (updates ms)) = Inr w"
    "holds w (market_of_books (\<lambda>t. fst (S' t)))"
    using snapshot_run_ok [OF holds_new, of "updates ms" q fd] by (auto simp: new_snapshot_synthesizer_def)
  have "q_list (tx_market_updates e') = updates ms" using e'(3) assms(6) by (simp add: emitted_def)
  moreover have "\<forall>t. t < MAX_TICKERS \<longrightarrow> represents (order_book_for_ticker e' ! t) (fst (S' t))"
    using e'(2) by (simp add: engine_ok_def)
  ultimately show ?thesis using run w by metis
qed

theorem snapshot_is_the_book_witness:
  "\<exists>rx' e' A w. run_engine demo_rx demo_engine = Inr (rx', e')
    \<and> represents (order_book_for_ticker e' ! 3) (A 3)
    \<and> foldR (\<lambda>w m. add_to_snapshot m w) (new_snapshot_synthesizer (new_lfqueue 4 \<lparr>md_n_seq = 0, md_update = default_update\<rparr>) 6)
        (mdp_stream 1 (q_list (tx_market_updates e'))) = Inr w
    \<and> holds w (market_of_books A)"
proof -
  have "q_list (tx_market_updates demo_engine) = []" by (simp add: demo_engine_def new_matching_engine_def)
  moreover have "Suc (q_size demo_rx) < MAX_ORDER_IDS"
    using length_q_list [of demo_rx] demo_rx_ok(2) by (simp add: demo_requests_def limit_defs)
  moreover have "length (updates (snd (run_spec (q_list demo_rx) empty_books))) < MAX_ORDER_IDS"
    using demo_run(3) by (simp add: demo_rx_ok(2) limit_defs)
  ultimately have "\<exists>rx' e' A w. run_engine demo_rx demo_engine = Inr (rx', e')
    \<and> (\<forall>t. t < MAX_TICKERS \<longrightarrow> represents (order_book_for_ticker e' ! t) (A t))
    \<and> foldR (\<lambda>w m. add_to_snapshot m w) (new_snapshot_synthesizer (new_lfqueue 4 \<lparr>md_n_seq = 0, md_update = default_update\<rparr>) 6)
        (mdp_stream 1 (q_list (tx_market_updates e'))) = Inr w
    \<and> holds w (market_of_books A)"
    by (intro snapshot_is_the_book [OF demo_engine_ok demo_rx_ok(1)])
      (use demo_run(1) demo_room in \<open>simp_all add: demo_rx_ok(2)\<close>)
  moreover have "3 < MAX_TICKERS" by (simp add: limit_defs)
  ultimately show ?thesis by metis
qed

end
