(* ===== verification/Market_Data_Consumer.thy ===== *)
theory Market_Data_Consumer
  imports Snapshot_Synthesizer
begin

text \<open>
  \<open>client/data/market_data_consumer.{h,cpp}\<close>: the client's end of the two market data
  streams. Updates of the incremental stream are passed on as long as their numbers follow
  on each other; when one is missing the consumer joins the snapshot stream, queues both
  streams by number (\<open>std::map\<close>, here a list ordered by key) and passes on a complete
  snapshot with the updates that follow it.
\<close>

subsection \<open>\<open>std::map\<close>\<close>

fun map_put :: "'k::linorder \<Rightarrow> 'v \<Rightarrow> ('k \<times> 'v) list \<Rightarrow> ('k \<times> 'v) list" where
  "map_put k v [] = [(k, v)]"
| "map_put k v ((k', v') # m) =
     (if k < k' then (k, v) # (k', v') # m
      else if k = k' then (k, v) # m
      else (k', v') # map_put k v m)"

subsection \<open>The consumer\<close>

record market_data_consumer =
  n_seq_inc_next :: "64 word"
  mdc_tx_updates :: "ome_market_update lfqueue"
  is_in_recovery :: bool
  socket_incremental :: net_socket
  socket_snapshot :: net_socket
  queued_incremental_updates :: "(64 word \<times> ome_market_update) list"
  queued_snapshot_updates :: "(64 word \<times> ome_market_update) list"

definition new_market_data_consumer :: "ome_market_update lfqueue \<Rightarrow> int \<Rightarrow> market_data_consumer" where
  "new_market_data_consumer q fd = \<lparr>n_seq_inc_next = 1, mdc_tx_updates = q, is_in_recovery = False,
     socket_incremental = new_socket fd, socket_snapshot = new_socket (-1),
     queued_incremental_updates = [], queued_snapshot_updates = []\<rparr>"

text \<open>Joining the snapshot stream; \<open>env\<close> is what \<open>init\<close> and \<open>join_group\<close> return.\<close>

definition snapshot_sync_start :: "int res \<times> bool \<Rightarrow> market_data_consumer \<Rightarrow> market_data_consumer res" where
  "snapshot_sync_start env w =
     bindR (fst env) (\<lambda>fd.
     let w1 = w\<lparr>queued_snapshot_updates := [], queued_incremental_updates := [],
                socket_snapshot := (socket_snapshot w)\<lparr>sock_fd := fd\<rparr>\<rparr> in
     bindR (ASSERT (0 \<le> fd)) (\<lambda>_.
     bindR (ASSERT (snd env)) (\<lambda>_.
     Inr w1)))"

definition is_mark :: "ome_market_update \<Rightarrow> bool" where
  "is_mark u \<longleftrightarrow> mu_type u = UPD_SNAPSHOT_START \<or> mu_type u = UPD_SNAPSHOT_END"

text \<open>The loop over the queued snapshot: \<open>None\<close> when a number is missing.\<close>

fun scan_snapshot :: "64 word \<Rightarrow> (64 word \<times> ome_market_update) list \<Rightarrow> ome_market_update list option" where
  "scan_snapshot n [] = Some []"
| "scan_snapshot n ((k, u) # m) =
     (if k \<noteq> n then None
      else map_option (\<lambda>us. (if is_mark u then us else u # us)) (scan_snapshot (n + 1) m))"

text \<open>The loop over the queued updates: the next number, whether none is missing, the updates.\<close>

fun scan_incremental :: "64 word \<Rightarrow> (64 word \<times> ome_market_update) list
    \<Rightarrow> 64 word \<times> bool \<times> ome_market_update list" where
  "scan_incremental n [] = (n, True, [])"
| "scan_incremental n ((k, u) # m) =
     (if k < n then scan_incremental n m
      else if k \<noteq> n then (n, False, [])
      else case scan_incremental (n + 1) m of (n', ok, us) \<Rightarrow> (n', ok, if is_mark u then us else u # us))"

definition snapshot_sync_check :: "market_data_consumer \<Rightarrow> market_data_consumer" where
  "snapshot_sync_check w =
     (case queued_snapshot_updates w of
        [] \<Rightarrow> w
      | (_, snapshot_0) # _ \<Rightarrow>
          if mu_type snapshot_0 \<noteq> UPD_SNAPSHOT_START then w\<lparr>queued_snapshot_updates := []\<rparr>
          else (case scan_snapshot 0 (queued_snapshot_updates w) of
              None \<Rightarrow> w\<lparr>queued_snapshot_updates := []\<rparr>
            | Some updates \<Rightarrow>
                let last_snapshot = snd (last (queued_snapshot_updates w)) in
                if mu_type last_snapshot \<noteq> UPD_SNAPSHOT_END then w
                else (case scan_incremental (mu_order_id last_snapshot + 1) (queued_incremental_updates w) of
                    (n, complete, incs) \<Rightarrow>
                      let w1 = w\<lparr>n_seq_inc_next := n\<rparr> in
                      if \<not> complete then w1\<lparr>queued_snapshot_updates := []\<rparr>
                      else w1\<lparr>mdc_tx_updates := enq_all (updates @ incs) (mdc_tx_updates w1),
                              queued_snapshot_updates := [], queued_incremental_updates := [],
                              is_in_recovery := False,
                              socket_snapshot := mcast_leave_group (socket_snapshot w1)\<rparr>)))"

definition queue_update :: "bool \<Rightarrow> mdp_market_update \<Rightarrow> market_data_consumer \<Rightarrow> market_data_consumer" where
  "queue_update is_snapshot m w = snapshot_sync_check
     (if is_snapshot then
        let w1 = (if md_n_seq m \<in> fst ` set (queued_snapshot_updates w)
                  then w\<lparr>queued_snapshot_updates := []\<rparr> else w)
        in w1\<lparr>queued_snapshot_updates := map_put (md_n_seq m) (md_update m) (queued_snapshot_updates w1)\<rparr>
      else w\<lparr>queued_incremental_updates := map_put (md_n_seq m) (md_update m) (queued_incremental_updates w)\<rparr>)"

text \<open>One message of the buffer.\<close>

definition mdc_on_update :: "int res \<times> bool \<Rightarrow> bool \<Rightarrow> market_data_consumer \<Rightarrow> mdp_market_update
    \<Rightarrow> market_data_consumer res" where
  "mdc_on_update env is_snapshot w m =
     (let already_in_recovery = is_in_recovery w;
          w1 = w\<lparr>is_in_recovery := already_in_recovery \<or> md_n_seq m \<noteq> n_seq_inc_next w\<rparr> in
      if is_in_recovery w1 then
        bindR (if \<not> already_in_recovery then snapshot_sync_start env w1 else Inr w1) (\<lambda>w2.
        Inr (queue_update is_snapshot m w2))
      else if \<not> is_snapshot then
        Inr (w1\<lparr>n_seq_inc_next := n_seq_inc_next w1 + 1,
                mdc_tx_updates := enq (md_update m) (mdc_tx_updates w1)\<rparr>)
      else Inr w1)"

text \<open>The socket a callback is for: the snapshot socket or the incremental one.\<close>

definition mdc_socket :: "bool \<Rightarrow> market_data_consumer \<Rightarrow> net_socket" where
  "mdc_socket snap w = (if snap then socket_snapshot w else socket_incremental w)"

definition mdc_put_socket :: "bool \<Rightarrow> net_socket \<Rightarrow> market_data_consumer \<Rightarrow> market_data_consumer" where
  "mdc_put_socket snap s w = (if snap then w\<lparr>socket_snapshot := s\<rparr> else w\<lparr>socket_incremental := s\<rparr>)"

definition mdc_rx_callback :: "int res \<times> bool \<Rightarrow> bool \<Rightarrow> market_data_consumer \<Rightarrow> market_data_consumer res" where
  "mdc_rx_callback env snap w =
     (let s = mdc_socket snap w;
          is_snapshot = (sock_fd s = sock_fd (socket_snapshot w)) in
      if is_snapshot \<and> \<not> is_in_recovery w then Inr (mdc_put_socket snap (s\<lparr>rx_buffer := []\<rparr>) w)
      else if 42 \<le> length (rx_buffer s) then
        (case frames 42 get_mdp_update (rx_buffer s) of (ms, rest) \<Rightarrow>
           bindR (foldR (mdc_on_update env is_snapshot) w ms) (\<lambda>w1.
             Inr (mdc_put_socket snap ((mdc_socket snap w1)\<lparr>rx_buffer := rest\<rparr>) w1)))
      else Inr w)"

text \<open>One round of \<open>run\<close>.\<close>

definition mdc_run :: "int res \<times> bool \<Rightarrow> bytes \<Rightarrow> bytes \<Rightarrow> market_data_consumer \<Rightarrow> market_data_consumer res" where
  "mdc_run env rx_inc rx_snap w =
     bindR (mcast_tx_and_rx (mdc_socket False) (mdc_put_socket False) (Some (mdc_rx_callback env False)) rx_inc w)
       (\<lambda>(w1, _, _).
     bindR (mcast_tx_and_rx (mdc_socket True) (mdc_put_socket True) (Some (mdc_rx_callback env True)) rx_snap w1)
       (\<lambda>(w2, _, _). Inr w2))"

subsection \<open>In step with the exchange\<close>

lemma mdc_in_sync:
  assumes "\<not> is_in_recovery w"
  shows "foldR (mdc_on_update env False) w (mdp_stream (n_seq_inc_next w) us)
    = Inr (w\<lparr>n_seq_inc_next := n_seq_inc_next w + of_nat (length us),
             mdc_tx_updates := enq_all us (mdc_tx_updates w)\<rparr>)"
  using assms
proof (induction us arbitrary: w)
  case (Cons u us)
  let ?w = "w\<lparr>n_seq_inc_next := n_seq_inc_next w + 1, mdc_tx_updates := enq u (mdc_tx_updates w)\<rparr>"
  have "mdc_on_update env False w \<lparr>md_n_seq = n_seq_inc_next w, md_update = u\<rparr> = Inr ?w"
    using Cons.prems by (simp add: mdc_on_update_def)
  then show ?case using Cons.IH [of ?w] Cons.prems by (simp add: enq_all_def algebra_simps)
qed (simp add: enq_all_def)

subsection \<open>Recovery\<close>

lemma map_put_last: "\<forall>k' \<in> set (map fst m). k' < k \<Longrightarrow> map_put k v m = m @ [(k, v)]"
  by (induction m) auto

lemma scan_snapshot_numbered: "scan_snapshot n (numbered n us) = Some (filter (\<lambda>u. \<not> is_mark u) us)"
  by (induction us arbitrary: n) auto

lemma numbered_keys:
  assumes "unat n + length us \<le> 2 ^ 64"
  shows "k \<in> set (map fst (numbered n us)) \<longleftrightarrow> unat n \<le> unat k \<and> unat k < unat n + length us"
  using assms
proof (induction us arbitrary: n)
  case (Cons u us)
  show ?case
  proof (cases "us = []")
    case True
    then show ?thesis by (auto simp: word_unat_eq_iff)
  next
    case False
    then have "n \<noteq> -1" using Cons.prems by (auto simp: unsigned_minus_1_eq_mask mask_eq_exp_minus_1)
    from word_add_one(1) [OF this] Cons show ?thesis by (auto simp: word_unat_eq_iff)
  qed
qed simp

text \<open>While in recovery a message only ever goes to its queue.\<close>

lemma mdc_recovering:
  "is_in_recovery w \<Longrightarrow> mdc_on_update env snap w m = Inr (queue_update snap m w)"
  by (cases w) (simp add: mdc_on_update_def)

text \<open>The snapshot up to its last message, arriving in order.\<close>

lemma collect_snapshot:
  assumes "is_in_recovery w" "queued_snapshot_updates w = numbered 0 done_us"
    and "length (done_us @ us) < 2 ^ 64"
    and "mu_type (hd (done_us @ us)) = UPD_SNAPSHOT_START" "list_all (\<lambda>u. mu_type u \<noteq> UPD_SNAPSHOT_END) us"
  shows "foldR (mdc_on_update env True) w (mdp_stream (of_nat (length done_us)) us)
    = Inr (w\<lparr>queued_snapshot_updates := numbered 0 (done_us @ us)\<rparr>)"
  using assms
proof (induction us arbitrary: w done_us)
  case (Cons u us)
  let ?k = "of_nat (length done_us) :: 64 word"
  have k: "unat ?k = length done_us" using Cons.prems(3) by (simp add: unat_of_nat)
  have keys: "\<forall>k \<in> set (map fst (numbered 0 done_us)). k < ?k"
    using numbered_keys [of 0 done_us] Cons.prems(3) k by (auto simp: word_less_nat_alt)
  have put: "map_put ?k u (numbered 0 done_us) = numbered 0 (done_us @ [u])"
    using map_put_last [OF keys] by (simp add: numbered_append)
  have fresh: "?k \<notin> fst ` set (numbered 0 done_us)" using keys by (metis list.set_map less_irrefl)
  let ?w = "w\<lparr>queued_snapshot_updates := numbered 0 (done_us @ [u])\<rparr>"
  obtain n0 u0 rest where hd: "numbered 0 (done_us @ [u]) = (n0, u0) # rest" "u0 = hd (done_us @ [u])"
    by (cases done_us) auto
  have ty: "mu_type u0 = UPD_SNAPSHOT_START" using Cons.prems(4) hd(2) by (cases done_us) auto
  have "last (numbered 0 (done_us @ [u])) = (?k, u)" by (simp add: numbered_append)
  then have "snapshot_sync_check ?w = ?w"
    using hd ty Cons.prems(5) scan_snapshot_numbered [of 0 "done_us @ [u]"]
    by (simp add: snapshot_sync_check_def Let_def)
  then have "queue_update True \<lparr>md_n_seq = ?k, md_update = u\<rparr> w = ?w"
    using fresh put Cons.prems(2) by (simp add: queue_update_def Let_def)
  then have one: "mdc_on_update env True w \<lparr>md_n_seq = ?k, md_update = u\<rparr> = Inr ?w"
    using mdc_recovering [OF Cons.prems(1)] by simp
  show ?case
    using Cons.IH [of ?w "done_us @ [u]"] one Cons.prems by (simp add: add.commute)
qed simp

text \<open>Queued updates that are consecutive from some number on.\<close>

lemma scan_incremental_old:
  "\<forall>x \<in> set old. fst x < n \<Longrightarrow> scan_incremental n (old @ m) = scan_incremental n m"
  by (induction old) auto

lemma scan_incremental_numbered:
  "scan_incremental n (numbered n us) = (n + of_nat (length us), True, filter (\<lambda>u. \<not> is_mark u) us)"
  by (induction us arbitrary: n) (auto simp: algebra_simps)

text \<open>A complete snapshot ends the recovery.\<close>

lemma recovery_completes:
  assumes "is_in_recovery w" "queued_snapshot_updates w = []"
    and "queued_incremental_updates w = old @ numbered (n + 1) us" "\<forall>x \<in> set old. fst x < n + 1"
    and "length body + 2 < 2 ^ 64" "list_all (\<lambda>u. \<not> is_mark u) body" "list_all (\<lambda>u. \<not> is_mark u) us"
  shows "foldR (mdc_on_update env True) w
      (mdp_stream 0 (snapshot_mark UPD_SNAPSHOT_START n # body @ [snapshot_mark UPD_SNAPSHOT_END n]))
    = Inr (w\<lparr>n_seq_inc_next := n + 1 + of_nat (length us),
             mdc_tx_updates := enq_all (body @ us) (mdc_tx_updates w),
             queued_snapshot_updates := [], queued_incremental_updates := [], is_in_recovery := False,
             socket_snapshot := mcast_leave_group (socket_snapshot w)\<rparr>)"
proof -
  let ?s = "snapshot_mark UPD_SNAPSHOT_START n" and ?e = "snapshot_mark UPD_SNAPSHOT_END n"
  let ?k = "of_nat (length (?s # body)) :: 64 word"
  have marks: "mu_type ?s = UPD_SNAPSHOT_START" "mu_type ?e = UPD_SNAPSHOT_END" "mu_order_id ?e = n"
    "is_mark ?s" "is_mark ?e"
    by (simp_all add: snapshot_mark_def is_mark_def)
  have split: "mdp_stream 0 (?s # body @ [?e]) = mdp_stream 0 (?s # body) @ [\<lparr>md_n_seq = ?k, md_update = ?e\<rparr>]"
    using mdp_stream_append [of 0 "?s # body" "[?e]"] by simp
  let ?w = "w\<lparr>queued_snapshot_updates := numbered 0 (?s # body)\<rparr>"
  have "list_all (\<lambda>u. mu_type u \<noteq> UPD_SNAPSHOT_END) (?s # body)"
    using assms(6) marks(1) by (auto simp: list_all_iff is_mark_def)
  then have pre: "foldR (mdc_on_update env True) w (mdp_stream 0 (?s # body)) = Inr ?w"
    using collect_snapshot [of w "[]" "?s # body" env] assms(1,2,5) marks(1) by simp
  have k: "unat ?k = length (?s # body)" using assms(5) by (simp add: unat_of_nat del: of_nat_Suc)
  have keys: "\<forall>k \<in> set (map fst (numbered 0 (?s # body))). k < ?k"
    using numbered_keys [of 0 "?s # body"] assms(5) k by (auto simp: word_less_nat_alt simp del: numbered.simps of_nat_Suc)
  have put: "map_put ?k ?e (numbered 0 (?s # body)) = numbered 0 ((?s # body) @ [?e])"
    using map_put_last [OF keys] by (simp only: numbered_append numbered.simps add_0)
  have fresh: "?k \<notin> fst ` set (numbered 0 (?s # body))" using keys by (metis list.set_map less_irrefl)
  let ?w1 = "w\<lparr>queued_snapshot_updates := numbered 0 ((?s # body) @ [?e])\<rparr>"
  have q: "queue_update True \<lparr>md_n_seq = ?k, md_update = ?e\<rparr> ?w = snapshot_sync_check ?w1"
    using fresh put by (simp add: queue_update_def Let_def del: numbered.simps of_nat_Suc append_Cons)
  have scan: "scan_snapshot 0 (numbered 0 ((?s # body) @ [?e])) = Some body"
    unfolding scan_snapshot_numbered using marks assms(6) by (simp add: list_all_iff)
  have last: "snd (last (numbered 0 ((?s # body) @ [?e]))) = ?e"
    by (simp only: numbered_append numbered.simps last_snoc snd_conv)
  have inc: "scan_incremental (n + 1) (old @ numbered (n + 1) us) = (n + 1 + of_nat (length us), True, us)"
    using scan_incremental_old [OF assms(4)] scan_incremental_numbered [of "n + 1" us] assms(7)
    by (simp add: list_all_iff)
  have hd: "numbered 0 ((?s # body) @ [?e]) = (0, ?s) # numbered 1 (body @ [?e])" by simp
  have "snapshot_sync_check ?w1 = w\<lparr>n_seq_inc_next := n + 1 + of_nat (length us),
             mdc_tx_updates := enq_all (body @ us) (mdc_tx_updates w),
             queued_snapshot_updates := [], queued_incremental_updates := [], is_in_recovery := False,
             socket_snapshot := mcast_leave_group (socket_snapshot w)\<rparr>"
    using scan last inc marks assms(3) unfolding hd by (simp add: snapshot_sync_check_def Let_def)
  then show ?thesis
    unfolding split foldR_append pre using q mdc_recovering [of ?w env True] assms(1) by simp
qed

end
