(* ===== verification/Market_Data_Recovery.thy ===== *)
theory Market_Data_Recovery
  imports Market_Data_Publisher Market_Data_Consumer
begin

text \<open>
  The exchange's and the client's end of the market data streams together: the consumer in
  step with the incremental stream passes on what was published; a consumer that missed an
  update is brought back by the next snapshot, and what it passes on then rebuilds the
  market the exchange has.
\<close>

subsection \<open>The incremental stream\<close>

abbreviation mdc_set_buf :: "bool \<Rightarrow> bytes \<Rightarrow> market_data_consumer \<Rightarrow> market_data_consumer" where
  "mdc_set_buf snap b w \<equiv> mdc_put_socket snap ((mdc_socket snap w)\<lparr>rx_buffer := b, tx_buffer := []\<rparr>) w"

definition mdc_arrive :: "int res \<times> bool \<Rightarrow> bool \<Rightarrow> market_data_consumer \<Rightarrow> bytes \<times> int \<Rightarrow> market_data_consumer res" where
  "mdc_arrive env snap w rx = map_sum id fst
     (mcast_tx_and_rx (mdc_socket snap) (mdc_put_socket snap) (Some (mdc_rx_callback env snap)) (fst rx) w)"

text \<open>Handling a message does not look at the buffers of the sockets.\<close>

definition set_bufs :: "bool \<Rightarrow> bytes \<Rightarrow> bytes \<Rightarrow> market_data_consumer \<Rightarrow> market_data_consumer" where
  "set_bufs snap b c w = mdc_put_socket snap ((mdc_socket snap w)\<lparr>rx_buffer := b, tx_buffer := c\<rparr>) w"

lemma mdc_set_buf_set_bufs: "mdc_set_buf snap b w = set_bufs snap b [] w"
  by (simp add: set_bufs_def)

lemma set_bufs_simps [simp]:
  "mdc_socket snap (mdc_put_socket snap s w) = s" "mdc_put_socket snap s (mdc_put_socket snap s' w) = mdc_put_socket snap s w"
  "set_bufs snap b c (set_bufs snap b' c' w) = set_bufs snap b c w"
  "is_in_recovery (set_bufs snap b c w) = is_in_recovery w"
  "n_seq_inc_next (set_bufs snap b c w) = n_seq_inc_next w"
  "queued_snapshot_updates (set_bufs snap b c w) = queued_snapshot_updates w"
  "queued_incremental_updates (set_bufs snap b c w) = queued_incremental_updates w"
  "mdc_tx_updates (set_bufs snap b c w) = mdc_tx_updates w"
  "sock_fd (socket_incremental (set_bufs snap b c w)) = sock_fd (socket_incremental w)"
  "sock_fd (socket_snapshot (set_bufs snap b c w)) = sock_fd (socket_snapshot w)"
  "sock_fd (mdc_socket snap (set_bufs snap b c w)) = sock_fd (mdc_socket snap w)"
  "rx_buffer (mdc_socket snap (set_bufs snap b c w)) = b"
  "tx_buffer (mdc_socket snap (set_bufs snap b c w)) = c"
  by (simp_all add: set_bufs_def mdc_socket_def mdc_put_socket_def)

lemma sync_check_set_bufs: "snapshot_sync_check (set_bufs snap b c w) = set_bufs snap b c (snapshot_sync_check w)"
  by (cases "queued_snapshot_updates w")
    (auto simp: snapshot_sync_check_def Let_def set_bufs_def mdc_put_socket_def mdc_socket_def mcast_leave_group_def
      split: option.splits prod.splits)

lemma set_bufs_writes:
  "set_bufs snap b c w\<lparr>queued_snapshot_updates := q\<rparr> = set_bufs snap b c (w\<lparr>queued_snapshot_updates := q\<rparr>)"
  "set_bufs snap b c w\<lparr>queued_incremental_updates := q\<rparr> = set_bufs snap b c (w\<lparr>queued_incremental_updates := q\<rparr>)"
  "set_bufs snap b c w\<lparr>is_in_recovery := x\<rparr> = set_bufs snap b c (w\<lparr>is_in_recovery := x\<rparr>)"
  "set_bufs snap b c w\<lparr>n_seq_inc_next := n\<rparr> = set_bufs snap b c (w\<lparr>n_seq_inc_next := n\<rparr>)"
  "set_bufs snap b c w\<lparr>mdc_tx_updates := us\<rparr> = set_bufs snap b c (w\<lparr>mdc_tx_updates := us\<rparr>)"
  by (simp_all add: set_bufs_def mdc_put_socket_def mdc_socket_def)

lemma queue_update_set_bufs: "queue_update is_snap m (set_bufs snap b c w) = set_bufs snap b c (queue_update is_snap m w)"
  by (simp add: queue_update_def Let_def set_bufs_writes sync_check_set_bufs)

lemma sync_start_set_bufs:
  "snapshot_sync_start env (set_bufs snap b c w) = map_sum id (set_bufs snap b c) (snapshot_sync_start env w)"
  by (cases "fst env")
    (simp_all add: snapshot_sync_start_def Let_def bindR_def ASSERT_def require_def set_bufs_def mdc_put_socket_def mdc_socket_def)

lemma mdc_on_update_set_bufs:
  "mdc_on_update env is_snap (set_bufs snap b c w) m = map_sum id (set_bufs snap b c) (mdc_on_update env is_snap w m)"
  by (simp add: mdc_on_update_def Let_def set_bufs_writes sync_start_set_bufs queue_update_set_bufs bindR_def
      split: sum.splits)

lemma mdc_on_updates_set_bufs:
  "foldR (mdc_on_update env is_snap) (set_bufs snap b c w) ms
     = map_sum id (set_bufs snap b c) (foldR (mdc_on_update env is_snap) w ms)"
  by (rule foldR_commute [of "\<lambda>_. True"]) (simp_all add: mdc_on_update_set_bufs)

text \<open>One arrival, on either socket.\<close>

lemma mdc_arrive_frames:
  assumes "length (rx_buffer (mdc_socket snap w)) < 42" "length seg + 42 \<le> MCAST_BUFFER_SIZE"
    and ser: "(sock_fd (mdc_socket snap w) = sock_fd (socket_snapshot w)) = is_snap" "is_snap \<Longrightarrow> is_in_recovery w"
  shows "mdc_arrive env snap w (seg, t) = (case frames 42 get_mdp_update (rx_buffer (mdc_socket snap w) @ seg) of
    (ms, r) \<Rightarrow> map_sum id (mdc_set_buf snap r) (foldR (mdc_on_update env is_snap) w ms))"
proof -
  let ?s = "mdc_socket snap w"
  let ?b = "rx_buffer ?s"
  have got: "take (MCAST_BUFFER_SIZE - length ?b) seg = seg" using assms by simp
  obtain ms r where f: "frames 42 get_mdp_update (?b @ seg) = (ms, r)"
    by (cases "frames 42 get_mdp_update (?b @ seg)")
  have short: "frames 42 get_mdp_update bs = ([], bs)" if "length bs < 42" for bs
    using that by (simp add: frames.simps)
  have put: "mdc_put_socket snap (?s\<lparr>rx_buffer := x\<rparr>) w = set_bufs snap x (tx_buffer ?s) w" for x
    by (simp add: set_bufs_def)
  have fin: "mdc_put_socket snap ((mdc_socket snap v)\<lparr>tx_buffer := []\<rparr>) v = set_bufs snap (rx_buffer (mdc_socket snap v)) [] v" for v
    by (simp add: set_bufs_def)
  show ?thesis
  proof (cases "seg = [] \<or> length (?b @ seg) < 42")
    case True
    then have e: "ms = []" "r = ?b @ seg" using f short [of "?b @ seg"] assms(1) by auto
    have "mdc_rx_callback env snap (set_bufs snap (?b @ seg) (tx_buffer ?s) w) = Inr (set_bufs snap (?b @ seg) (tx_buffer ?s) w)"
      if "length (?b @ seg) < 42"
      using that ser by (cases is_snap) (simp_all add: mdc_rx_callback_def Let_def)
    then show ?thesis
      using True f e got assms(1,2) unfolding mdc_set_buf_set_bufs
      by (cases "seg = []") (simp_all add: mdc_arrive_def mcast_tx_and_rx_def Let_def put fin)
  next
    case False
    let ?w1 = "set_bufs snap (?b @ seg) (tx_buffer ?s) w"
    have cb: "mdc_rx_callback env snap ?w1 = bindR (foldR (mdc_on_update env is_snap) ?w1 ms)
        (\<lambda>w1. Inr (mdc_put_socket snap ((mdc_socket snap w1)\<lparr>rx_buffer := r\<rparr>) w1))"
      using False f ser by (cases is_snap) (simp_all add: mdc_rx_callback_def Let_def)
    have clean: "mdc_put_socket snap ((mdc_socket snap v)\<lparr>rx_buffer := r, tx_buffer := []\<rparr>) v = set_bufs snap r [] v" for v
      by (simp add: set_bufs_def)
    show ?thesis
      using False got f unfolding mdc_arrive_def mcast_tx_and_rx_def Let_def
      by (cases "foldR (mdc_on_update env is_snap) w ms")
        (simp_all add: put cb mdc_on_updates_set_bufs clean)
  qed
qed

text \<open>The two sockets are different ones, and stay so whatever descriptor \<open>init\<close> returns.\<close>

definition inc_ok :: "int res \<times> bool \<Rightarrow> market_data_consumer \<Rightarrow> bool" where
  "inc_ok env w \<longleftrightarrow> sock_fd (socket_incremental w) \<noteq> sock_fd (socket_snapshot w)
     \<and> sock_fd (socket_incremental w) \<noteq> -1 \<and> fst env \<noteq> Inr (sock_fd (socket_incremental w))"

lemma sync_check_fds:
  "socket_incremental (snapshot_sync_check w) = socket_incremental w"
  "sock_fd (socket_snapshot (snapshot_sync_check w)) = sock_fd (socket_snapshot w)
     \<or> sock_fd (socket_snapshot (snapshot_sync_check w)) = -1"
  by (cases "queued_snapshot_updates w";
      simp add: snapshot_sync_check_def Let_def mcast_leave_group_def split: option.split prod.split)+

lemma queue_update_fds:
  "socket_incremental (queue_update snap m w) = socket_incremental w"
  "sock_fd (socket_snapshot (queue_update snap m w)) = sock_fd (socket_snapshot w)
     \<or> sock_fd (socket_snapshot (queue_update snap m w)) = -1"
proof -
  obtain v where v: "queue_update snap m w = snapshot_sync_check v" "socket_incremental v = socket_incremental w"
    "socket_snapshot v = socket_snapshot w"
    by (cases snap) (simp_all add: queue_update_def Let_def)
  show "socket_incremental (queue_update snap m w) = socket_incremental w" using v sync_check_fds(1) [of v] by simp
  show "sock_fd (socket_snapshot (queue_update snap m w)) = sock_fd (socket_snapshot w)
     \<or> sock_fd (socket_snapshot (queue_update snap m w)) = -1" using v sync_check_fds(2) [of v] by simp
qed

lemma inc_ok_queue: "inc_ok env v \<Longrightarrow> inc_ok env (queue_update snap m v)"
  using queue_update_fds [of snap m v] by (auto simp: inc_ok_def)

lemma inc_ok_start: "inc_ok env v \<Longrightarrow> snapshot_sync_start env v = Inr v' \<Longrightarrow> inc_ok env v'"
proof -
  assume ok: "inc_ok env v" and "snapshot_sync_start env v = Inr v'"
  then obtain fd where "fst env = Inr fd" "v' = v\<lparr>queued_snapshot_updates := [], queued_incremental_updates := [],
      socket_snapshot := (socket_snapshot v)\<lparr>sock_fd := fd\<rparr>\<rparr>"
    unfolding snapshot_sync_start_def bindR_eq_Inr Let_def by blast
  then show ?thesis using ok by (simp add: inc_ok_def)
qed

lemma inc_ok_step:
  assumes "inc_ok env w" "mdc_on_update env snap w m = Inr w'"
  shows "inc_ok env w'"
proof -
  have r: "inc_ok env (w\<lparr>is_in_recovery := x\<rparr>)" for x using assms(1) by (simp add: inc_ok_def)
  show ?thesis
  proof (cases "is_in_recovery w \<or> md_n_seq m \<noteq> n_seq_inc_next w")
    case True
    then obtain v where "inc_ok env v" "w' = queue_update snap m v"
      using assms(2) r [of True] inc_ok_start [OF r [of True]]
      by (cases "is_in_recovery w") (auto simp: mdc_on_update_def Let_def bindR_eq_Inr)
    then show ?thesis using inc_ok_queue by simp
  next
    case False
    then show ?thesis
      using assms by (cases snap) (auto simp: mdc_on_update_def Let_def inc_ok_def)
  qed
qed

interpretation mdc_rx: stream_receiver 42 put_mdp_update get_mdp_update "inc_ok env"
  "\<lambda>w. rx_buffer (mdc_socket False w)" "mdc_set_buf False" "\<lambda>t. mdc_on_update env False" "mdc_arrive env False"
  MCAST_BUFFER_SIZE for env
proof unfold_locales
  fix w and seg :: bytes and t
  assume ok: "inc_ok env w" and "length (rx_buffer (mdc_socket False w)) < 42" "length seg + 42 \<le> MCAST_BUFFER_SIZE"
  then show "mdc_arrive env False w (seg, t) = (case frames 42 get_mdp_update (rx_buffer (mdc_socket False w) @ seg) of
    (ms, r) \<Rightarrow> map_sum id (mdc_set_buf False r) (foldR (mdc_on_update env False) w ms))"
    by (intro mdc_arrive_frames) (simp_all add: inc_ok_def mdc_socket_def)
next
  fix w b m
  show "mdc_on_update env False (mdc_set_buf False b w) m
      = map_sum id (mdc_set_buf False b) (mdc_on_update env False w m)"
    unfolding mdc_set_buf_set_bufs by (rule mdc_on_update_set_bufs)
next
  fix w m w'
  assume "inc_ok env w" "mdc_on_update env False w m = Inr w'"
  then show "inc_ok env w'" by (rule inc_ok_step)
qed (simp_all add: inc_ok_def mdc_put_socket_def mdc_socket_def)

text \<open>
  C21. A consumer in step passes on the incremental stream: whatever the publisher sent on
  from the number the consumer expects, cut into any datagrams, comes out in the queue of
  the trading engine, update by update and in order; the consumer stays in step and nothing
  stays in its buffer.
\<close>

theorem consumer_in_step:
  assumes "inc_ok env w" "\<not> is_in_recovery w" "rx_buffer (socket_incremental w) = []" "tx_buffer (socket_incremental w) = []"
    and "q_ok (mdc_tx_updates w)" "q_size (mdc_tx_updates w) + length us \<le> q_cap (mdc_tx_updates w)"
    and "list_all (\<lambda>x. length (fst x) + 42 \<le> MCAST_BUFFER_SIZE) segs"
    and "concat (map fst segs) = concat (map put_mdp_update (mdp_stream (n_seq_inc_next w) us))"
  shows "\<exists>w'. foldR (mdc_arrive env False) w segs = Inr w' \<and> \<not> is_in_recovery w'
    \<and> q_list (mdc_tx_updates w') = q_list (mdc_tx_updates w) @ us
    \<and> n_seq_inc_next w' = n_seq_inc_next w + of_nat (length us) \<and> rx_buffer (socket_incremental w') = []"
proof -
  have whole: "mdc_set_buf False [] w = w" "rx_buffer (mdc_socket False w) = []"
    using assms(3,4) by (simp_all add: mdc_put_socket_def mdc_socket_def)
  have sz: "\<forall>x \<in> set segs. length (fst x) + 42 \<le> MCAST_BUFFER_SIZE" using assms(7) by (simp add: list_all_iff)
  obtain ts :: "int list" where ts: "length ts = length (mdp_stream (n_seq_inc_next w) us)"
    "foldR (mdc_arrive env False) w segs = map_sum id (mdc_set_buf False [])
      (foldR (\<lambda>w (t, m). mdc_on_update env False w m) w (zip ts (mdp_stream (n_seq_inc_next w) us)))"
    using mdc_rx.stream_handled [OF assms(1) whole(2,1) sz assms(8)] by blast
  have "foldR (\<lambda>w (t, m). mdc_on_update env False w m) w (zip ts ms) = foldR (mdc_on_update env False) w ms"
    if "length ts = length ms" for ts :: "int list" and ms w
    using that by (induction ts ms arbitrary: w rule: list_induct2) (simp_all add: bindR_def split: sum.splits)
  then have run: "foldR (mdc_arrive env False) w segs = Inr (mdc_set_buf False [] (w\<lparr>n_seq_inc_next := n_seq_inc_next w + of_nat (length us),
             mdc_tx_updates := enq_all us (mdc_tx_updates w)\<rparr>))"
    using ts mdc_in_sync [OF assms(2)] by simp
  show ?thesis
    unfolding run using assms(2) enq_all_ok [OF assms(5,6)] by (simp add: mdc_put_socket_def mdc_socket_def)
qed

definition demo_consumer :: market_data_consumer where
  "demo_consumer = new_market_data_consumer (new_lfqueue 16 default_update) 5"

lemma demo_consumer_ok:
  "inc_ok (Inr 6, True) demo_consumer" "\<not> is_in_recovery demo_consumer" "n_seq_inc_next demo_consumer = 1"
  "socket_incremental demo_consumer = new_socket 5" "socket_snapshot demo_consumer = new_socket (-1)"
  "mdc_tx_updates demo_consumer = new_lfqueue 16 default_update"
  "queued_snapshot_updates demo_consumer = []" "queued_incremental_updates demo_consumer = []"
  by (simp_all add: demo_consumer_def new_market_data_consumer_def inc_ok_def new_socket_def)

theorem consumer_in_step_witness:
  "\<exists>w'. foldR (mdc_arrive (Inr 6, True) False) demo_consumer
      [(concat (map put_mdp_update (mdp_stream 1 demo_updates)), 0)] = Inr w'
    \<and> q_list (mdc_tx_updates w') = demo_updates"
proof -
  let ?segs = "[(concat (map put_mdp_update (mdp_stream 1 demo_updates)), 0 :: int)]"
  have two: "length demo_updates = 2" by (simp add: demo_updates_def)
  have "length (concat (map put_mdp_update (mdp_stream 1 demo_updates))) = 42 * length demo_updates" by (rule mdp_stream_bytes)
  then have sz: "list_all (\<lambda>x. length (fst x) + 42 \<le> MCAST_BUFFER_SIZE) ?segs"
    using two unfolding list_all_iff by (simp add: MCAST_BUFFER_SIZE_def)
  have "\<exists>w'. foldR (mdc_arrive (Inr 6, True) False) demo_consumer ?segs = Inr w' \<and> \<not> is_in_recovery w'
    \<and> q_list (mdc_tx_updates w') = q_list (mdc_tx_updates demo_consumer) @ demo_updates
    \<and> n_seq_inc_next w' = n_seq_inc_next demo_consumer + of_nat (length demo_updates) \<and> rx_buffer (socket_incremental w') = []"
    by (rule consumer_in_step [OF demo_consumer_ok(1,2) _ _ _ _ sz])
      (simp_all add: demo_consumer_ok new_socket_def q_ok_new two)
  then show ?thesis unfolding demo_consumer_ok(6) q_list_new append_Nil by blast
qed

subsection \<open>A lost update\<close>

text \<open>
  An update whose number is not the expected one starts a recovery and is not passed on:
  the snapshot stream is joined and the update is queued, with nothing else in the queues.
\<close>

theorem gap_starts_recovery:
  assumes "\<not> is_in_recovery w" "md_n_seq m \<noteq> n_seq_inc_next w" "0 \<le> fd"
  shows "\<exists>w'. mdc_on_update (Inr fd, True) False w m = Inr w' \<and> is_in_recovery w'
    \<and> mdc_tx_updates w' = mdc_tx_updates w \<and> queued_snapshot_updates w' = []
    \<and> queued_incremental_updates w' = [(md_n_seq m, md_update m)] \<and> sock_fd (socket_snapshot w') = fd"
  using assms
  by (simp add: mdc_on_update_def Let_def snapshot_sync_start_def queue_update_def snapshot_sync_check_def)

theorem gap_starts_recovery_witness:
  "\<exists>w'. mdc_on_update (Inr 6, True) False demo_consumer \<lparr>md_n_seq = 4, md_update = default_update\<rparr> = Inr w'
    \<and> is_in_recovery w'"
  using gap_starts_recovery [of demo_consumer "\<lparr>md_n_seq = 4, md_update = default_update\<rparr>" 6] demo_consumer_ok by auto

text \<open>While it waits for the snapshot the following updates are queued in order.\<close>

lemma updates_queued:
  assumes "is_in_recovery w" "queued_snapshot_updates w = []" "queued_incremental_updates w = numbered n us"
    and "unat n + length (us @ vs) \<le> 2 ^ 64"
  shows "foldR (mdc_on_update env False) w (mdp_stream (n + of_nat (length us)) vs)
    = Inr (w\<lparr>queued_incremental_updates := numbered n (us @ vs)\<rparr>)"
  using assms
proof (induction vs arbitrary: w us)
  case (Cons v vs)
  let ?k = "n + of_nat (length us)" and ?w = "w\<lparr>queued_incremental_updates := numbered n (us @ [v])\<rparr>"
  have "unat n + length us < 2 ^ 64" using Cons.prems(4) by simp
  then have k: "unat ?k = unat n + length us" by (simp add: unat_word_ariths unat_of_nat)
  have "\<forall>k \<in> set (map fst (numbered n us)). k < ?k"
    using numbered_keys [of n us] Cons.prems(4) k by (auto simp: word_less_nat_alt)
  from map_put_last [OF this, of v] have "map_put ?k v (numbered n us) = numbered n (us @ [v])"
    by (simp add: numbered_append)
  then have "mdc_on_update env False w \<lparr>md_n_seq = ?k, md_update = v\<rparr> = Inr ?w"
    using mdc_recovering [OF Cons.prems(1)] Cons.prems(2,3)
    by (simp add: queue_update_def snapshot_sync_check_def)
  then show ?case using Cons.IH [of ?w "us @ [v]"] Cons.prems by (simp add: algebra_simps)
qed simp

subsection \<open>The snapshot arrives\<close>

text \<open>Whole messages in each datagram, as the synthesizer sends them.\<close>

lemma arrive_groups:
  assumes "foldR (mdc_on_update env True) w (concat gs) = Inr w'"
    and "\<And>ms ns v. ms @ ns = concat gs \<Longrightarrow> ns \<noteq> [] \<Longrightarrow> foldR (mdc_on_update env True) w ms = Inr v \<Longrightarrow> is_in_recovery v"
    and "set_bufs True [] [] w = w" "\<forall>g \<in> set gs. 42 * Suc (length g) \<le> MCAST_BUFFER_SIZE"
  shows "foldR (mdc_arrive env True) w (map (\<lambda>g. (concat (map put_mdp_update g), 0)) gs) = Inr (set_bufs True [] [] w')"
  using assms
proof (induction gs arbitrary: w w')
  case (Cons g gs)
  have empty: "rx_buffer (mdc_socket True w) = []" by (metis Cons.prems(3) set_bufs_simps(12))
  have len: "length (concat (map put_mdp_update g)) = 42 * length g"
    by (induction g) (simp_all add: update_wire.length_enc)
  obtain w1 where w1: "foldR (mdc_on_update env True) w g = Inr w1" "foldR (mdc_on_update env True) w1 (concat gs) = Inr w'"
    using Cons.prems(1) by (auto simp: foldR_append bindR_eq_Inr)
  have one: "mdc_arrive env True w (concat (map put_mdp_update g), 0) = Inr (set_bufs True [] [] w1)"
  proof (cases "g = []")
    case True
    then have "w1 = w" using w1(1) by simp
    moreover have "mdc_put_socket True ((mdc_socket True w)\<lparr>tx_buffer := []\<rparr>) w = set_bufs True [] [] w"
      using empty by (simp add: set_bufs_def mdc_socket_def mdc_put_socket_def)
    ultimately show ?thesis using True by (simp add: mdc_arrive_def mcast_tx_and_rx_def Let_def)
  next
    case False
    have rec: "is_in_recovery w" using Cons.prems(2) [of "[]" "concat (g # gs)" w] False by simp
    have "frames 42 get_mdp_update (concat (map put_mdp_update g)) = (g, [])"
      using update_wire.frames_enc [of "[]" g] by simp
    then show ?thesis
      using mdc_arrive_frames [of True w "concat (map put_mdp_update g)" True env 0] rec empty len Cons.prems(4) w1(1)
      unfolding mdc_set_buf_set_bufs by (simp add: mdc_socket_def)
  qed
  have "foldR (mdc_arrive env True) (set_bufs True [] [] w1) (map (\<lambda>g. (concat (map put_mdp_update g), 0)) gs)
      = Inr (set_bufs True [] [] (set_bufs True [] [] w'))"
  proof (rule Cons.IH)
    show "foldR (mdc_on_update env True) (set_bufs True [] [] w1) (concat gs) = Inr (set_bufs True [] [] w')"
      using w1(2) by (simp add: mdc_on_updates_set_bufs)
    fix ms ns v
    assume p: "ms @ ns = concat gs" "ns \<noteq> []" "foldR (mdc_on_update env True) (set_bufs True [] [] w1) ms = Inr v"
    then obtain v1 where v1: "foldR (mdc_on_update env True) w1 ms = Inr v1" "v = set_bufs True [] [] v1"
      by (cases "foldR (mdc_on_update env True) w1 ms") (auto simp: mdc_on_updates_set_bufs)
    have "foldR (mdc_on_update env True) w (g @ ms) = Inr v1" using w1(1) v1(1) by (simp add: foldR_append)
    then show "is_in_recovery v" using Cons.prems(2) [of "g @ ms" ns v1] p(1,2) v1(2) by simp
  qed (use Cons.prems(4) in simp_all)
  then show ?case using one by simp
qed simp

lemma take_numbered: "take j (numbered k us) = numbered k (take j us)"
  by (induction us arbitrary: j k) (auto simp: take_Cons split: nat.splits)

lemma take_mdp_stream: "take j (mdp_stream k us) = mdp_stream k (take j us)"
  by (simp add: mdp_stream_def take_map take_numbered)

text \<open>As long as the last message of a snapshot is out, the consumer waits.\<close>

lemma snapshot_prefix_waits:
  assumes "is_in_recovery w" "queued_snapshot_updates w = []" "length body + 2 < 2 ^ 64" "list_all (\<lambda>u. \<not> is_mark u) body"
    and "ms @ ns = mdp_stream 0 (snapshot_mark UPD_SNAPSHOT_START n # body @ [snapshot_mark UPD_SNAPSHOT_END n])" "ns \<noteq> []"
    and "foldR (mdc_on_update env True) w ms = Inr v"
  shows "is_in_recovery v"
proof (cases "ms = []")
  case True
  then show ?thesis using assms(1,7) by simp
next
  case False
  let ?all = "snapshot_mark UPD_SNAPSHOT_START n # body @ [snapshot_mark UPD_SNAPSHOT_END n]"
  let ?j = "length ms"
  have "length (ms @ ns) = length ?all" unfolding assms(5) by simp
  then have j: "?j \<le> Suc (length body)" using assms(6) by (cases ns) simp_all
  have ms: "ms = mdp_stream 0 (take ?j ?all)" unfolding take_mdp_stream [symmetric] assms(5) [symmetric] by simp
  have "take ?j ?all = take ?j (snapshot_mark UPD_SNAPSHOT_START n # body)" using j by (cases ?j) simp_all
  moreover obtain j' where "?j = Suc j'" using False by (cases ?j) auto
  ultimately have t: "take ?j ?all = snapshot_mark UPD_SNAPSHOT_START n # take j' body" by simp
  have "list_all (\<lambda>u. mu_type u \<noteq> UPD_SNAPSHOT_END) (take ?j ?all)"
    unfolding t using assms(4) by (auto simp: list_all_iff is_mark_def snapshot_mark_def dest: in_set_takeD)
  moreover have "mu_type (hd (take ?j ?all)) = UPD_SNAPSHOT_START" unfolding t by (simp add: snapshot_mark_def)
  moreover have "length (take ?j ?all) < 2 ^ 64" using assms(3) by simp
  ultimately have "foldR (mdc_on_update env True) w (mdp_stream 0 (take ?j ?all))
      = Inr (w\<lparr>queued_snapshot_updates := numbered 0 (take ?j ?all)\<rparr>)"
    using collect_snapshot [OF assms(1), of "[]" "take ?j ?all" env] assms(2) by simp
  then show ?thesis using assms(1,7) ms by simp
qed

lemma snapshot_body_fits:
  assumes "holds s A"
  shows "length (snapshot_body A) \<le> MAX_TICKERS + MAX_ORDER_IDS"
proof -
  have "length (concat (map (\<lambda>t. clear_ticker t # f t) ts)) = length ts + length (concat (map f ts))"
    for f :: "nat \<Rightarrow> ome_market_update list" and ts by (induction ts) simp_all
  moreover have "card (live A) \<le> MAX_ORDER_IDS"
    using holds_card [OF assms] pool_card [of "update_pool s"] assms by (simp add: holds_def)
  ultimately show ?thesis using listed_total [OF holds_finite [OF assms]] by (simp add: snapshot_body_def)
qed

lemma snapshot_body_marks: "market_ok A \<Longrightarrow> list_all (\<lambda>u. \<not> is_mark u) (snapshot_body A)"
  unfolding snapshot_body_def list_all_iff by (auto simp: is_mark_def clear_ticker_def listed_def market_ok_def)

text \<open>A snapshot in any datagrams of whole messages completes a recovery.\<close>

lemma snapshot_arrives:
  assumes "is_in_recovery w" "queued_snapshot_updates w = []"
    and "queued_incremental_updates w = old @ numbered (n + 1) us" "\<forall>x \<in> set old. fst x < n + 1"
    and "list_all (\<lambda>u. \<not> is_mark u) us" "rx_buffer (socket_snapshot w) = []" "tx_buffer (socket_snapshot w) = []"
    and "market_ok A" "length (snapshot_body A) \<le> MAX_TICKERS + MAX_ORDER_IDS"
    and gs: "concat gs = mdp_stream 0 (snapshot_messages A n)"
  shows "foldR (mdc_arrive env True) w (map (\<lambda>g. (concat (map put_mdp_update g), 0)) gs) = Inr (set_bufs True [] []
    (w\<lparr>n_seq_inc_next := n + 1 + of_nat (length us), mdc_tx_updates := enq_all (snapshot_body A @ us) (mdc_tx_updates w),
       queued_snapshot_updates := [], queued_incremental_updates := [], is_in_recovery := False,
       socket_snapshot := mcast_leave_group (socket_snapshot w)\<rparr>))"
proof -
  have small: "length (snapshot_body A) + 2 < 2 ^ 64" using assms(9) by (simp add: limit_defs)
  note marks = snapshot_body_marks [OF assms(8)]
  have "length g \<le> length (concat gs)" if "g \<in> set gs" for g using that by (induction gs) auto
  then have "\<forall>g \<in> set gs. length g \<le> length (snapshot_body A) + 2" by (simp add: gs snapshot_messages_def)
  then have sizes: "\<forall>g \<in> set gs. 42 * Suc (length g) \<le> MCAST_BUFFER_SIZE"
    using assms(9) by (fastforce simp: MCAST_BUFFER_SIZE_def limit_defs)
  have clean: "set_bufs True [] [] w = w" using assms(6,7) by (simp add: set_bufs_def mdc_put_socket_def mdc_socket_def)
  show ?thesis
  proof (rule arrive_groups [OF _ _ clean sizes])
    show "foldR (mdc_on_update env True) w (concat gs) = Inr (w\<lparr>n_seq_inc_next := n + 1 + of_nat (length us),
       mdc_tx_updates := enq_all (snapshot_body A @ us) (mdc_tx_updates w), queued_snapshot_updates := [],
       queued_incremental_updates := [], is_in_recovery := False, socket_snapshot := mcast_leave_group (socket_snapshot w)\<rparr>)"
      unfolding gs snapshot_messages_def by (rule recovery_completes [OF assms(1-4) small marks assms(5)])
    fix ms ns v
    assume "ms @ ns = concat gs" "ns \<noteq> []" "foldR (mdc_on_update env True) w ms = Inr v"
    then show "is_in_recovery v"
      using snapshot_prefix_waits [OF assms(1,2) small marks] unfolding gs snapshot_messages_def by blast
  qed
qed

text \<open>
  C7. A client that lost updates is brought back. The exchange's synthesizer holds the market
  \<open>A\<close> after \<open>n\<close> updates and publishes a snapshot: this always fits the socket's buffer. A
  consumer in recovery that queued the updates \<open>n + 1\<close>, \<open>n + 2\<close>, ... (and perhaps older
  ones) receives the snapshot in any datagrams of whole messages. Then it has left recovery,
  expects the number after the last update, and what it passed on to the trading engine
  rebuilds the exchange's market after all these updates, whatever the client's was before.
\<close>

theorem snapshot_recovers_market:
  assumes "holds s A" "market_ok A" "tx_buffer (ss_socket s) = []" "\<forall>k. rx k = []"
    and "is_in_recovery w" "queued_snapshot_updates w = []"
    and "queued_incremental_updates w = old @ numbered (n_seq_last s + 1) us" "\<forall>x \<in> set old. fst x < n_seq_last s + 1"
    and "list_all (\<lambda>u. \<not> is_mark u) us" "rx_buffer (socket_snapshot w) = []" "tx_buffer (socket_snapshot w) = []"
    and "q_ok (mdc_tx_updates w)" "q_size (mdc_tx_updates w) + length (snapshot_body A) + length us \<le> q_cap (mdc_tx_updates w)"
    and "\<forall>t. MAX_TICKERS \<le> t \<longrightarrow> B t = (\<lambda>_. None)"
  shows "\<exists>s' k. publish_snapshot rx s
        = Inr (s', k, concat (map put_mdp_update (mdp_stream 0 (snapshot_messages A (n_seq_last s))))) \<and> holds s' A
    \<and> (\<forall>gs. concat gs = mdp_stream 0 (snapshot_messages A (n_seq_last s))
         \<longrightarrow> (\<exists>w' new. foldR (mdc_arrive env True) w (map (\<lambda>g. (concat (map put_mdp_update g), 0)) gs) = Inr w'
              \<and> \<not> is_in_recovery w' \<and> n_seq_inc_next w' = n_seq_last s + 1 + of_nat (length us)
              \<and> q_list (mdc_tx_updates w') = q_list (mdc_tx_updates w) @ new
              \<and> fold market_apply new B = fold market_apply us A))"
proof -
  let ?n = "n_seq_last s" and ?body = "snapshot_body A"
  obtain s' k where s': "publish_snapshot rx s = Inr (s', k, concat (map put_mdp_update (mdp_stream 0 (snapshot_messages A ?n))))"
    "holds s' A" using publish_snapshot_ok [OF assms(1,4,3)] by blast
  note arrives = snapshot_arrives [OF assms(5-11,2) snapshot_body_fits [OF assms(1)], of _ env]
  have q: "q_list (enq_all (?body @ us) (mdc_tx_updates w)) = q_list (mdc_tx_updates w) @ ?body @ us"
    using enq_all_ok [OF assms(12), of "?body @ us"] assms(13) by simp
  have "A t oid = None" if "MAX_TICKERS \<le> t" for t oid
    using assms(2) that unfolding market_ok_def by (metis not_le option.exhaust)
  then have "(\<lambda>t. if t < MAX_TICKERS then A t else B t) = A" using assms(14) by (auto simp: fun_eq_iff)
  then have replay: "fold market_apply (?body @ us) B = fold market_apply us A"
    using apply_snapshot_body [OF assms(2), of B] by simp
  have "\<exists>w' new. foldR (mdc_arrive env True) w (map (\<lambda>g. (concat (map put_mdp_update g), 0)) gs) = Inr w'
              \<and> \<not> is_in_recovery w' \<and> n_seq_inc_next w' = ?n + 1 + of_nat (length us)
              \<and> q_list (mdc_tx_updates w') = q_list (mdc_tx_updates w) @ new
              \<and> fold market_apply new B = fold market_apply us A"
    if "concat gs = mdp_stream 0 (snapshot_messages A ?n)" for gs
    unfolding arrives [OF that] using q replay
    by (simp del: fold_append append_assoc add: exI [of _ "?body @ us"])
  then show ?thesis using s' by blast
qed

definition demo_recovering :: market_data_consumer where
  "demo_recovering = demo_consumer\<lparr>is_in_recovery := True, socket_snapshot := new_socket 6,
     queued_incremental_updates := numbered 1 demo_updates\<rparr>"

theorem snapshot_recovers_market_witness:
  "\<exists>s' k sent w' new. publish_snapshot (\<lambda>_. []) (new_snapshot_synthesizer (new_lfqueue 4 \<lparr>md_n_seq = 0, md_update = default_update\<rparr>) 6)
      = Inr (s', k, sent)
    \<and> foldR (mdc_arrive (Inr 6, True) True) demo_recovering [(sent, 0)] = Inr w' \<and> \<not> is_in_recovery w'
    \<and> q_list (mdc_tx_updates w') = new \<and> fold market_apply new (\<lambda>_ _. None) = fold market_apply demo_updates (\<lambda>_ _. None)"
proof -
  let ?s = "new_snapshot_synthesizer (new_lfqueue 4 \<lparr>md_n_seq = 0, md_update = default_update\<rparr>) 6"
  let ?A = "\<lambda>_ _. None :: ome_market_update option"
  have s: "n_seq_last ?s = 0" "tx_buffer (ss_socket ?s) = []" by (simp_all add: new_snapshot_synthesizer_def new_socket_def)
  have body: "length (snapshot_body ?A) = 8" by (simp add: snapshot_body_def listed_def length_concat comp_def sum_list_triv limit_defs)
  have us: "length demo_updates = 2" "list_all (\<lambda>u. \<not> is_mark u) demo_updates"
    by (simp_all add: demo_updates_def is_mark_def)
  have w: "is_in_recovery demo_recovering" "queued_snapshot_updates demo_recovering = []"
    "queued_incremental_updates demo_recovering = [] @ numbered (n_seq_last ?s + 1) demo_updates"
    "rx_buffer (socket_snapshot demo_recovering) = []" "tx_buffer (socket_snapshot demo_recovering) = []"
    "mdc_tx_updates demo_recovering = new_lfqueue 16 default_update"
    by (simp_all add: demo_recovering_def demo_consumer_ok new_socket_def s)
  have "\<exists>s' k. publish_snapshot (\<lambda>_. []) ?s
        = Inr (s', k, concat (map put_mdp_update (mdp_stream 0 (snapshot_messages ?A (n_seq_last ?s))))) \<and> holds s' ?A
    \<and> (\<forall>gs. concat gs = mdp_stream 0 (snapshot_messages ?A (n_seq_last ?s))
         \<longrightarrow> (\<exists>w' new. foldR (mdc_arrive (Inr 6, True) True) demo_recovering (map (\<lambda>g. (concat (map put_mdp_update g), 0)) gs) = Inr w'
              \<and> \<not> is_in_recovery w' \<and> n_seq_inc_next w' = n_seq_last ?s + 1 + of_nat (length demo_updates)
              \<and> q_list (mdc_tx_updates w') = q_list (mdc_tx_updates demo_recovering) @ new
              \<and> fold market_apply new ?A = fold market_apply demo_updates ?A))"
    by (rule snapshot_recovers_market [OF holds_new _ s(2) _ w(1-3) _ us(2) w(4,5)])
      (simp_all add: w(6) body us(1) q_ok_new)
  then obtain s' k where p: "publish_snapshot (\<lambda>_. []) ?s
        = Inr (s', k, concat (map put_mdp_update (mdp_stream 0 (snapshot_messages ?A (n_seq_last ?s)))))"
    and del: "\<And>gs. concat gs = mdp_stream 0 (snapshot_messages ?A (n_seq_last ?s))
         \<Longrightarrow> \<exists>w' new. foldR (mdc_arrive (Inr 6, True) True) demo_recovering (map (\<lambda>g. (concat (map put_mdp_update g), 0)) gs) = Inr w'
              \<and> \<not> is_in_recovery w'
              \<and> q_list (mdc_tx_updates w') = q_list (mdc_tx_updates demo_recovering) @ new
              \<and> fold market_apply new ?A = fold market_apply demo_updates ?A" by blast
  have "concat [mdp_stream 0 (snapshot_messages ?A (n_seq_last ?s))] = mdp_stream 0 (snapshot_messages ?A (n_seq_last ?s))" by simp
  from del [OF this] p show ?thesis unfolding w(6) q_list_new append_Nil list.map by blast
qed

end
