(* ===== verification/Fifo_Sequencer.thy ===== *)
theory Fifo_Sequencer
  imports LF_Queue Messages
begin

text \<open>
  \<open>exchange/networking/fifo_sequencer.h\<close>: client requests are collected with the time they
  were received and handed to the matching engine in the order of these times.
  \<open>std::sort\<close> promises a sorted permutation and nothing about equal elements, so it is an
  argument of the model with this promise as the contract \<open>sorting\<close>; the contract is
  interpreted on the stable sort of the library.
\<close>

record pending_client_request =
  pd_t_rx :: int
  pd_request :: ome_client_request

text \<open>The first \<open>n_pending_requests\<close> elements of the array, and the queue of the engine.\<close>

record fifo_sequencer =
  pending_requests :: "pending_client_request list"
  fs_rx_requests :: "ome_client_request lfqueue"

definition new_fifo_sequencer :: "ome_client_request lfqueue \<Rightarrow> fifo_sequencer" where
  "new_fifo_sequencer q = \<lparr>pending_requests = [], fs_rx_requests = q\<rparr>"

definition pending_less :: "pending_client_request \<Rightarrow> pending_client_request \<Rightarrow> bool" where
  "pending_less a b \<longleftrightarrow> pd_t_rx a < pd_t_rx b"

definition push_client_request :: "ome_client_request \<Rightarrow> int \<Rightarrow> fifo_sequencer \<Rightarrow> fifo_sequencer res" where
  "push_client_request r t f =
     (if MAX_PENDING_ORDER_REQUESTS \<le> length (pending_requests f) then FATAL
      else Inr (f\<lparr>pending_requests := pending_requests f @ [\<lparr>pd_t_rx = t, pd_request = r\<rparr>]\<rparr>))"

text \<open>\<open>srt\<close> stands for \<open>std::sort\<close> with \<open>operator<\<close>.\<close>

definition sequence_and_publish ::
  "(pending_client_request list \<Rightarrow> pending_client_request list) \<Rightarrow> fifo_sequencer \<Rightarrow> fifo_sequencer" where
  "sequence_and_publish srt f =
     (if pending_requests f = [] then f
      else f\<lparr>fs_rx_requests := fold (\<lambda>p q. enq (pd_request p) q) (srt (pending_requests f)) (fs_rx_requests f),
             pending_requests := []\<rparr>)"

subsection \<open>What \<open>std::sort\<close> promises\<close>

definition sorted_wrt_less :: "('a \<Rightarrow> 'a \<Rightarrow> bool) \<Rightarrow> 'a list \<Rightarrow> bool" where
  "sorted_wrt_less lt xs \<longleftrightarrow> sorted_wrt (\<lambda>a b. \<not> lt b a) xs"

locale sorting =
  fixes lt :: "'a \<Rightarrow> 'a \<Rightarrow> bool" and srt :: "'a list \<Rightarrow> 'a list"
  assumes permutes: "mset (srt xs) = mset xs"
    and sorts: "sorted_wrt_less lt (srt xs)"
begin

lemma set_srt: "set (srt xs) = set xs"
  by (rule mset_eq_setD [OF permutes])

lemma length_srt: "length (srt xs) = length xs"
  by (rule mset_eq_length [OF permutes])

text \<open>Where no two elements are equivalent the result is fixed: any sorted permutation is it.\<close>

lemma srt_unique:
  assumes "mset ys = mset xs" "sorted_wrt lt ys" "\<And>a b. lt a b \<Longrightarrow> \<not> lt b a"
  shows "srt xs = ys"
proof -
  have "sorted_wrt_less lt zs \<Longrightarrow> mset zs = mset ys \<Longrightarrow> sorted_wrt lt ys \<Longrightarrow> zs = ys" for zs
  proof (induction ys arbitrary: zs)
    case (Cons y ys)
    then obtain z zs' where z: "zs = z # zs'" by (cases zs) auto
    have "z = y"
    proof (rule ccontr)
      assume ne: "z \<noteq> y"
      have sets: "set zs = insert y (set ys)" using mset_eq_setD [OF Cons.prems(2)] by simp
      then have "lt y z" using Cons.prems(3) ne z by auto
      moreover have "y \<in> set zs'" using sets ne z by auto
      then have "\<not> lt y z" using Cons.prems(1) z by (simp add: sorted_wrt_less_def)
      ultimately show False by blast
    qed
    then show ?case using Cons z by (auto simp: sorted_wrt_less_def)
  qed simp
  then show ?thesis using sorts [of xs] permutes [of xs] assms(1,2) by simp
qed

end

interpretation stable_sort: sorting pending_less "sort_key pd_t_rx"
proof
  fix xs :: "pending_client_request list"
  show "sorted_wrt_less pending_less (sort_key pd_t_rx xs)"
    using sorted_sort_key [of pd_t_rx xs]
    by (simp add: sorted_wrt_less_def pending_less_def sorted_map not_less sorted_wrt_map)
qed simp

subsection \<open>Properties\<close>

lemma fold_enq_pending: "fold (\<lambda>p q. enq (pd_request p) q) ps q = enq_all (map pd_request ps) q"
  by (induction ps arbitrary: q) (simp_all add: enq_all_def)

lemma publish_queue:
  assumes "sorting pending_less srt" "q_ok (fs_rx_requests f)"
    and "q_size (fs_rx_requests f) + length (pending_requests f) \<le> q_cap (fs_rx_requests f)"
  shows "q_ok (fs_rx_requests (sequence_and_publish srt f))
    \<and> pending_requests (sequence_and_publish srt f) = []
    \<and> q_cap (fs_rx_requests (sequence_and_publish srt f)) = q_cap (fs_rx_requests f)
    \<and> q_list (fs_rx_requests (sequence_and_publish srt f))
      = q_list (fs_rx_requests f) @ map pd_request (srt (pending_requests f))"
proof -
  let ?ps = "pending_requests f"
  have len: "length (srt ?ps) = length ?ps" by (rule sorting.length_srt [OF assms(1)])
  have "q_size (fs_rx_requests f) + length (map pd_request (srt ?ps)) \<le> q_cap (fs_rx_requests f)"
    using assms(3) len by simp
  from enq_all_ok [OF assms(2) this] show ?thesis
    using len assms(2) by (auto simp: sequence_and_publish_def fold_enq_pending)
qed

text \<open>
  C39. The sequencer hands on every pending request exactly once, in the order of the times
  they were received, whatever sorting routine is behind \<open>std::sort\<close>: the engine's queue
  grows by a permutation of the pending requests with non-decreasing times, nothing stays
  pending, and if the requests were pushed at increasing times they are handed on in the
  order they were pushed. (The queue needs room for them.)
\<close>

theorem sequencer_publishes_in_order:
  assumes "sorting pending_less srt" "q_ok (fs_rx_requests f)"
    and "q_size (fs_rx_requests f) + length (pending_requests f) \<le> q_cap (fs_rx_requests f)"
  shows "\<exists>ps. q_list (fs_rx_requests (sequence_and_publish srt f)) = q_list (fs_rx_requests f) @ map pd_request ps
    \<and> mset ps = mset (pending_requests f) \<and> sorted (map pd_t_rx ps)
    \<and> pending_requests (sequence_and_publish srt f) = []
    \<and> (sorted_wrt pending_less (pending_requests f) \<longrightarrow> ps = pending_requests f)"
proof (intro exI conjI impI)
  let ?ps = "pending_requests f"
  show "mset (srt ?ps) = mset ?ps" by (rule sorting.permutes [OF assms(1)])
  show "sorted (map pd_t_rx (srt ?ps))"
    using sorting.sorts [OF assms(1), of ?ps]
    by (simp add: sorted_wrt_less_def pending_less_def sorted_wrt_map not_less)
  show "srt ?ps = ?ps" if "sorted_wrt pending_less ?ps"
    by (rule sorting.srt_unique [OF assms(1) refl that]) (simp add: pending_less_def)
qed (use publish_queue [OF assms] in simp_all)

theorem sequencer_publishes_in_order_witness:
  "\<exists>ps::pending_client_request list. q_list (fs_rx_requests (sequence_and_publish (sort_key pd_t_rx)
        \<lparr>pending_requests = [\<lparr>pd_t_rx = 5, pd_request = default_request\<rparr>],
         fs_rx_requests = new_lfqueue 4 default_request\<rparr>)) = [] @ map pd_request ps \<and> length ps = 1"
proof -
  let ?f = "\<lparr>pending_requests = [\<lparr>pd_t_rx = 5, pd_request = default_request\<rparr>],
    fs_rx_requests = new_lfqueue 4 default_request\<rparr>"
  have "q_ok (fs_rx_requests ?f)"
    "q_size (fs_rx_requests ?f) + length (pending_requests ?f) \<le> q_cap (fs_rx_requests ?f)"
    by (simp_all add: q_ok_new)
  from sequencer_publishes_in_order [OF stable_sort.sorting_axioms this]
  obtain ps where ps: "q_list (fs_rx_requests (sequence_and_publish (sort_key pd_t_rx) ?f)) = [] @ map pd_request ps"
    "mset ps = mset (pending_requests ?f)" by auto
  have "length ps = 1" using mset_eq_length [OF ps(2)] by simp
  then show ?thesis using ps(1) by blast
qed

definition reversing_sort :: "pending_client_request list \<Rightarrow> pending_client_request list" where
  "reversing_sort xs = sort_key pd_t_rx (rev xs)"

lemma reversing_sort_sorts: "sorting pending_less reversing_sort"
proof
  fix xs :: "pending_client_request list"
  show "mset (reversing_sort xs) = mset xs" by (simp add: reversing_sort_def)
  show "sorted_wrt_less pending_less (reversing_sort xs)"
    unfolding reversing_sort_def by (rule stable_sort.sorts)
qed

text \<open>
  Requests received in the same read carry the same time, and \<open>std::sort\<close> is not
  stable: a sorting routine that keeps its promise can hand on two requests of one client
  in the opposite order of their arrival, such as a cancel before the order it cancels.
\<close>

theorem sequencer_can_reorder:
  "\<exists>srt. sorting pending_less srt \<and>
    map rq_type (q_list (fs_rx_requests (sequence_and_publish srt
      \<lparr>pending_requests = [\<lparr>pd_t_rx = 5, pd_request = default_request\<lparr>rq_type := REQ_NEW\<rparr>\<rparr>,
                           \<lparr>pd_t_rx = 5, pd_request = default_request\<lparr>rq_type := REQ_CANCEL\<rparr>\<rparr>],
       fs_rx_requests = new_lfqueue 4 default_request\<rparr>)))
    = [REQ_CANCEL, REQ_NEW]"
proof (intro exI conjI)
  show "sorting pending_less reversing_sort" by (rule reversing_sort_sorts)
  let ?f = "\<lparr>pending_requests = [\<lparr>pd_t_rx = 5, pd_request = default_request\<lparr>rq_type := REQ_NEW\<rparr>\<rparr>,
                           \<lparr>pd_t_rx = 5, pd_request = default_request\<lparr>rq_type := REQ_CANCEL\<rparr>\<rparr>],
       fs_rx_requests = new_lfqueue 4 default_request\<rparr>"
  show "map rq_type (q_list (fs_rx_requests (sequence_and_publish reversing_sort ?f))) = [REQ_CANCEL, REQ_NEW]"
    using publish_queue [OF reversing_sort_sorts, of ?f] by (simp add: q_ok_new reversing_sort_def)
qed

end
