(* ===== verification/Order_Gateway_Server.thy ===== *)
theory Order_Gateway_Server
  imports Fifo_Sequencer Gateway_Streams "HOL-Library.Sublist"
begin

text \<open>
  \<open>exchange/networking/order_gateway_server.{h,cpp}\<close>: the server the clients send their
  orders to. Requests are cut off the stream of each connection, checked against the
  connection and the sequence number of their client and pushed to the sequencer; the
  responses of the matching engine are numbered per client and loaded on its connection.
  The arrays indexed by the client id are accessed with \<open>operator[]\<close>, without a check.
\<close>

record order_gateway_server =
  ogs_rx_responses :: "ome_client_response lfqueue"
  ogs_server :: tcp_server
  ogs_fifo :: fifo_sequencer
  map_client_to_tx_n_seq :: "nat \<Rightarrow> 64 word"
  map_client_to_rx_n_seq :: "nat \<Rightarrow> 64 word"
  map_client_to_socket :: "nat \<Rightarrow> nat option"

definition new_order_gateway_server :: "ome_client_request lfqueue \<Rightarrow> ome_client_response lfqueue
    \<Rightarrow> tcp_server \<Rightarrow> order_gateway_server" where
  "new_order_gateway_server tx_requests rx_responses s =
     \<lparr>ogs_rx_responses = rx_responses, ogs_server = s, ogs_fifo = new_fifo_sequencer tx_requests,
      map_client_to_tx_n_seq = (\<lambda>_. 1), map_client_to_rx_n_seq = (\<lambda>_. 1),
      map_client_to_socket = (\<lambda>_. None)\<rparr>"

text \<open>One request of the buffer of socket \<open>i\<close>, received at \<open>t\<close>.\<close>

definition ogs_on_request :: "nat \<Rightarrow> int \<Rightarrow> order_gateway_server \<Rightarrow> ogs_client_request \<Rightarrow> order_gateway_server res" where
  "ogs_on_request i t w m =
     (let c = unat (rq_client_id (oq_request m)) in
      bindR (require Out_of_bounds (c < MAX_N_CLIENTS)) (\<lambda>_.
      let w1 = (if map_client_to_socket w c = None
                then w\<lparr>map_client_to_socket := (map_client_to_socket w)(c := Some i)\<rparr> else w) in
      if map_client_to_socket w1 c \<noteq> Some i then Inr w1
      else if oq_n_seq m \<noteq> map_client_to_rx_n_seq w1 c then Inr w1
      else
        let w2 = w1\<lparr>map_client_to_rx_n_seq := (map_client_to_rx_n_seq w1)(c := map_client_to_rx_n_seq w1 c + 1)\<rparr> in
        bindR (push_client_request (oq_request m) t (ogs_fifo w2)) (\<lambda>f. Inr (w2\<lparr>ogs_fifo := f\<rparr>))))"

abbreviation ogs_put_server :: "tcp_server \<Rightarrow> order_gateway_server \<Rightarrow> order_gateway_server" where
  "ogs_put_server s w \<equiv> w\<lparr>ogs_server := s\<rparr>"

definition ogs_rx_callback :: "nat \<Rightarrow> int \<Rightarrow> order_gateway_server \<Rightarrow> order_gateway_server res" where
  "ogs_rx_callback i t w =
     (let s = server_socket ogs_server i w in
      if 38 \<le> length (rx_buffer s) then
        (case frames 38 get_ogs_request (rx_buffer s) of (ms, rest) \<Rightarrow>
           bindR (foldR (ogs_on_request i t) w ms) (\<lambda>w1.
             let s1 = server_socket ogs_server i w1 in
             Inr (set_server_socket ogs_server ogs_put_server i (s1\<lparr>rx_buffer := rest\<rparr>) w1)))
      else Inr w)"

definition ogs_rx_done_callback ::
  "(pending_client_request list \<Rightarrow> pending_client_request list) \<Rightarrow> order_gateway_server \<Rightarrow> order_gateway_server res" where
  "ogs_rx_done_callback srt w = Inr (w\<lparr>ogs_fifo := sequence_and_publish srt (ogs_fifo w)\<rparr>)"

text \<open>One response of the matching engine.\<close>

definition ogs_on_response :: "order_gateway_server \<Rightarrow> ome_client_response \<Rightarrow> order_gateway_server res" where
  "ogs_on_response w r =
     (let c = unat (rs_client_id r) in
      bindR (require Out_of_bounds (c < MAX_N_CLIENTS)) (\<lambda>_.
      let n = map_client_to_tx_n_seq w c in
      bindR (ASSERT (map_client_to_socket w c \<noteq> None)) (\<lambda>_.
      let i = the (map_client_to_socket w c) in
      bindR (tcp_load_tx (put_word n) (server_socket ogs_server i w)) (\<lambda>s1.
      bindR (tcp_load_tx (put_response r) s1) (\<lambda>s2.
      let w1 = set_server_socket ogs_server ogs_put_server i s2 w in
      Inr (w1\<lparr>map_client_to_tx_n_seq := (map_client_to_tx_n_seq w1)(c := n + 1)\<rparr>))))))"

definition ogs_send_responses :: "order_gateway_server \<Rightarrow> order_gateway_server res" where
  "ogs_send_responses w =
     bindR (consume get_next_to_read increment_read_index (q_size (ogs_rx_responses w)) ogs_on_response
              (ogs_rx_responses w) w) (\<lambda>(q, w1).
     Inr (w1\<lparr>ogs_rx_responses := q\<rparr>))"

text \<open>
  One round of \<open>run\<close>: the environment gives the events, the pending connections and what
  every socket receives. The bytes given to \<open>send\<close> are the second result.
\<close>

definition ogs_run :: "(pending_client_request list \<Rightarrow> pending_client_request list)
    \<Rightarrow> poll_event list \<Rightarrow> connection list \<Rightarrow> (nat \<Rightarrow> bytes \<times> int) \<Rightarrow> (nat \<Rightarrow> bytes \<times> int)
    \<Rightarrow> order_gateway_server \<Rightarrow> (order_gateway_server \<times> (nat \<times> bytes) list) res" where
  "ogs_run srt events pending rx rx' w =
     bindR (tcp_poll events pending (ogs_server w)) (\<lambda>s.
     bindR (server_tx_and_rx ogs_server ogs_put_server ogs_rx_callback (ogs_rx_done_callback srt) rx rx'
              (w\<lparr>ogs_server := s\<rparr>)) (\<lambda>(w1, sent).
     bindR (ogs_send_responses w1) (\<lambda>w2. Inr (w2, sent))))"

subsection \<open>What is forwarded\<close>

text \<open>
  A request as it reaches the server: the socket, the time and the message. Every one of
  them is either forwarded or dropped.
\<close>

type_synonym arrival = "nat \<times> int \<times> ogs_client_request"

abbreviation arr_client :: "arrival \<Rightarrow> nat" where
  "arr_client x \<equiv> unat (rq_client_id (oq_request (snd (snd x))))"

abbreviation to_pending :: "arrival \<Rightarrow> pending_client_request" where
  "to_pending x \<equiv> \<lparr>pd_t_rx = fst (snd x), pd_request = oq_request (snd (snd x))\<rparr>"

definition ogs_arrivals :: "order_gateway_server \<Rightarrow> arrival list \<Rightarrow> order_gateway_server res" where
  "ogs_arrivals w xs = foldR (\<lambda>w (i, t, m). ogs_on_request i t w m) w xs"

definition arrivals_of :: "nat \<Rightarrow> arrival list \<Rightarrow> arrival list" where
  "arrivals_of c xs = filter (\<lambda>x. arr_client x = c) xs"

definition forwards :: "order_gateway_server \<Rightarrow> arrival \<Rightarrow> bool" where
  "forwards w x \<longleftrightarrow> map_client_to_socket w (arr_client x) \<in> {None, Some (fst x)}
     \<and> oq_n_seq (snd (snd x)) = map_client_to_rx_n_seq w (arr_client x)"

definition ogs_step :: "order_gateway_server \<Rightarrow> arrival \<Rightarrow> order_gateway_server" where
  "ogs_step w x = (let c = arr_client x;
       w1 = (if map_client_to_socket w c = None
             then w\<lparr>map_client_to_socket := (map_client_to_socket w)(c := Some (fst x))\<rparr> else w) in
     if forwards w x
     then w1\<lparr>map_client_to_rx_n_seq := (map_client_to_rx_n_seq w)(c := map_client_to_rx_n_seq w c + 1),
             ogs_fifo := (ogs_fifo w)\<lparr>pending_requests := pending_requests (ogs_fifo w) @ [to_pending x]\<rparr>\<rparr>
     else w1)"

lemma ogs_on_request_step:
  assumes "arr_client x < MAX_N_CLIENTS" "forwards w x \<Longrightarrow> length (pending_requests (ogs_fifo w)) < MAX_PENDING_ORDER_REQUESTS"
  shows "ogs_on_request (fst x) (fst (snd x)) w (snd (snd x)) = Inr (ogs_step w x)"
  using assms
  by (cases "map_client_to_socket w (arr_client x)")
    (auto simp: ogs_on_request_def ogs_step_def forwards_def push_client_request_def Let_def)

text \<open>
  The log that justifies a state: what was forwarded since the start, in order; every
  client's messages in it carry the numbers from 1 on and came over one connection.
\<close>

definition log_ok :: "arrival list \<Rightarrow> order_gateway_server \<Rightarrow> bool" where
  "log_ok ls w \<longleftrightarrow>
     (\<forall>c. map_client_to_rx_n_seq w c = 1 + of_nat (length (arrivals_of c ls))
       \<and> map (\<lambda>x. (oq_n_seq (snd (snd x)), ())) (arrivals_of c ls) = numbered 1 (map (\<lambda>_. ()) (arrivals_of c ls)))
     \<and> (\<forall>x \<in> set ls. map_client_to_socket w (arr_client x) = Some (fst x))"

lemma log_ok_step:
  assumes "log_ok ls w"
  shows "log_ok (ls @ (if forwards w x then [x] else [])) (ogs_step w x)"
proof (cases "forwards w x")
  case True
  have sock: "map_client_to_socket (ogs_step w x) = (map_client_to_socket w)(arr_client x := Some (fst x))"
    using True by (auto simp: ogs_step_def forwards_def Let_def)
  have seq: "map_client_to_rx_n_seq (ogs_step w x)
      = (map_client_to_rx_n_seq w)(arr_client x := map_client_to_rx_n_seq w (arr_client x) + 1)"
    using True by (simp add: ogs_step_def Let_def)
  have n: "oq_n_seq (snd (snd x)) = 1 + of_nat (length (arrivals_of (arr_client x) ls))"
    using True assms by (simp add: forwards_def log_ok_def)
  have one: "fst y = fst x" if y: "y \<in> set ls" "arr_client y = arr_client x" for y
  proof -
    have "map_client_to_socket w (arr_client y) = Some (fst y)" using y(1) assms by (simp add: log_ok_def)
    then show ?thesis using y(2) True by (simp add: forwards_def)
  qed
  have "\<forall>y \<in> set (ls @ [x]). map_client_to_socket (ogs_step w x) (arr_client y) = Some (fst y)"
    using assms one unfolding sock log_ok_def by simp
  moreover have "map_client_to_rx_n_seq (ogs_step w x) c = 1 + of_nat (length (arrivals_of c (ls @ [x])))
      \<and> map (\<lambda>x. (oq_n_seq (snd (snd x)), ())) (arrivals_of c (ls @ [x]))
        = numbered 1 (map (\<lambda>_. ()) (arrivals_of c (ls @ [x])))" for c
    using assms n unfolding log_ok_def seq
    by (simp add: arrivals_of_def numbered_append algebra_simps)
  ultimately show ?thesis using True unfolding log_ok_def by simp
next
  case False
  have "map_client_to_rx_n_seq (ogs_step w x) = map_client_to_rx_n_seq w"
    "map_client_to_socket w c = Some i \<Longrightarrow> map_client_to_socket (ogs_step w x) c = Some i" for c i
    using False by (auto simp: ogs_step_def Let_def)
  then show ?thesis using assms False by (simp add: log_ok_def)
qed

text \<open>
  The specification, a client at a time and without the server's state: \<open>in_sequence n xs\<close> are the
  requests taken when \<open>n\<close> is expected; \<open>home_requests c xs\<close> those of client \<open>c\<close> that came over the
  connection of its first one.
\<close>

abbreviation arr_n_seq :: "arrival \<Rightarrow> 64 word" where
  "arr_n_seq x \<equiv> oq_n_seq (snd (snd x))"

fun in_sequence :: "64 word \<Rightarrow> arrival list \<Rightarrow> arrival list" where
  "in_sequence n [] = []"
| "in_sequence n (x # xs) = (if arr_n_seq x = n then x # in_sequence (n + 1) xs else in_sequence n xs)"

definition over_connection :: "nat option \<Rightarrow> arrival list \<Rightarrow> arrival list" where
  "over_connection k xs = (case xs of [] \<Rightarrow> []
     | x # _ \<Rightarrow> filter (\<lambda>y. fst y = (case k of None \<Rightarrow> fst x | Some i \<Rightarrow> i)) xs)"

definition home_requests :: "nat \<Rightarrow> arrival list \<Rightarrow> arrival list" where
  "home_requests c xs = over_connection None (arrivals_of c xs)"

lemma over_connection_Some: "over_connection (Some i) xs = filter (\<lambda>y. fst y = i) xs"
  by (cases xs) (simp_all add: over_connection_def)

lemma over_connection_None: "over_connection None (x # xs) = x # over_connection (Some (fst x)) xs"
  by (simp add: over_connection_Some) (simp add: over_connection_def)

text \<open>Requests that are numbered without a gap and came over one connection are all taken.\<close>

lemma in_sequence_numbered: "map (\<lambda>x. (arr_n_seq x, ())) xs = numbered n (map (\<lambda>_. ()) xs) \<Longrightarrow> in_sequence n xs = xs"
  by (induction xs arbitrary: n) simp_all

lemma ogs_arrivals_log:
  assumes "log_ok ls w" "list_all (\<lambda>x. arr_client x < MAX_N_CLIENTS) xs"
    and "length (pending_requests (ogs_fifo w)) + length xs \<le> MAX_PENDING_ORDER_REQUESTS"
  shows "\<exists>w' ys. ogs_arrivals w xs = Inr w' \<and> subseq ys xs \<and> log_ok (ls @ ys) w'
    \<and> pending_requests (ogs_fifo w') = pending_requests (ogs_fifo w) @ map to_pending ys
    \<and> (\<forall>c. arrivals_of c ys
         = in_sequence (map_client_to_rx_n_seq w c) (over_connection (map_client_to_socket w c) (arrivals_of c xs)))"
  using assms
proof (induction xs arbitrary: w ls)
  case (Cons x xs)
  let ?y = "if forwards w x then [x] else []"
  let ?w = "ogs_step w x"
  have one: "ogs_on_request (fst x) (fst (snd x)) w (snd (snd x)) = Inr ?w"
    using Cons.prems by (intro ogs_on_request_step) simp_all
  have p: "pending_requests (ogs_fifo ?w) = pending_requests (ogs_fifo w) @ map to_pending ?y"
    by (simp add: ogs_step_def Let_def)
  have room: "length (pending_requests (ogs_fifo ?w)) + length xs \<le> MAX_PENDING_ORDER_REQUESTS"
    using Cons.prems(3) p by simp
  obtain w' ys where w': "ogs_arrivals ?w xs = Inr w'" "subseq ys xs" "log_ok ((ls @ ?y) @ ys) w'"
    "pending_requests (ogs_fifo w') = pending_requests (ogs_fifo ?w) @ map to_pending ys"
    "\<forall>c. arrivals_of c ys = in_sequence (map_client_to_rx_n_seq ?w c) (over_connection (map_client_to_socket ?w c) (arrivals_of c xs))"
    using Cons.IH [OF log_ok_step [OF Cons.prems(1)] _ room] Cons.prems(2) by auto
  have "subseq (?y @ ys) (x # xs)" using w'(2) by auto
  moreover have "ogs_arrivals w (x # xs) = Inr w'"
    using one w'(1) by (simp add: ogs_arrivals_def case_prod_unfold)
  moreover have "log_ok (ls @ (?y @ ys)) w'" using w'(3) by simp
  moreover have "pending_requests (ogs_fifo w') = pending_requests (ogs_fifo w) @ map to_pending (?y @ ys)"
    using w'(4) p by simp
  moreover have "arrivals_of c (?y @ ys)
      = in_sequence (map_client_to_rx_n_seq w c) (over_connection (map_client_to_socket w c) (arrivals_of c (x # xs)))" for c
  proof (cases "arr_client x = c")
    case True
    then have "arrivals_of c (?y @ ys) = ?y @ arrivals_of c ys" "arrivals_of c (x # xs) = x # arrivals_of c xs"
      by (simp_all add: arrivals_of_def)
    then show ?thesis
      using True spec [OF w'(5), of c]
      by (cases "map_client_to_socket w c")
        (auto simp: ogs_step_def forwards_def Let_def over_connection_None over_connection_Some)
  next
    case False
    then have "arrivals_of c (?y @ ys) = arrivals_of c ys" "arrivals_of c (x # xs) = arrivals_of c xs"
      "map_client_to_socket ?w c = map_client_to_socket w c" "map_client_to_rx_n_seq ?w c = map_client_to_rx_n_seq w c"
      by (simp_all add: arrivals_of_def ogs_step_def Let_def)
    then show ?thesis using spec [OF w'(5), of c] by simp
  qed
  ultimately show ?case by blast
qed (auto simp: ogs_arrivals_def arrivals_of_def over_connection_def)

text \<open>
  C19. Exactly once, in order, over one connection: whatever requests reach a fresh gateway
  over its connections, in whatever order and with whatever numbers, what it pushes to the
  sequencer is the subsequence of them that has, of each client, exactly the requests that came
  over the connection of the client's first one with the number expected next: number 1, the
  first number 2 after it, and so on. So they carry the numbers 1, 2, 3, ... without gap or
  repetition, and a client that numbers its requests so on one connection has all of them
  forwarded. (The clients' ids have to be in range and the requests to fit the sequencer's array.)
\<close>

theorem ogs_exactly_once:
  assumes "list_all (\<lambda>x. arr_client x < MAX_N_CLIENTS) xs" "length xs \<le> MAX_PENDING_ORDER_REQUESTS"
  shows "\<exists>w ys. ogs_arrivals (new_order_gateway_server q r s) xs = Inr w \<and> subseq ys xs
    \<and> pending_requests (ogs_fifo w) = map to_pending ys
    \<and> (\<forall>c. arrivals_of c ys = in_sequence 1 (home_requests c xs)
         \<and> map (\<lambda>x. (arr_n_seq x, ())) (arrivals_of c ys) = numbered 1 (map (\<lambda>_. ()) (arrivals_of c ys))
         \<and> (\<exists>i. \<forall>x \<in> set (arrivals_of c ys). fst x = i)
         \<and> (map (\<lambda>x. (arr_n_seq x, ())) (arrivals_of c xs) = numbered 1 (map (\<lambda>_. ()) (arrivals_of c xs))
              \<and> (\<exists>i. \<forall>x \<in> set (arrivals_of c xs). fst x = i) \<longrightarrow> arrivals_of c ys = arrivals_of c xs))"
proof -
  let ?w = "new_order_gateway_server q r s"
  have "log_ok [] ?w" by (simp add: log_ok_def arrivals_of_def new_order_gateway_server_def)
  moreover have "pending_requests (ogs_fifo ?w) = []"
    by (simp add: new_order_gateway_server_def new_fifo_sequencer_def)
  ultimately obtain w ys where w: "ogs_arrivals ?w xs = Inr w" "subseq ys xs" "log_ok ys w"
    "pending_requests (ogs_fifo w) = map to_pending ys"
    "\<forall>c. arrivals_of c ys = in_sequence (map_client_to_rx_n_seq ?w c) (over_connection (map_client_to_socket ?w c) (arrivals_of c xs))"
    using ogs_arrivals_log [of "[]" ?w xs] assms by auto
  have taken: "arrivals_of c ys = in_sequence 1 (home_requests c xs)" for c
    using w(5) by (simp add: new_order_gateway_server_def home_requests_def)
  have "\<exists>i. \<forall>x \<in> set (arrivals_of c ys). fst x = i" for c
    using w(3) by (intro exI [of _ "the (map_client_to_socket w c)"]) (auto simp: log_ok_def arrivals_of_def)
  moreover have "arrivals_of c ys = arrivals_of c xs"
    if n: "map (\<lambda>x. (arr_n_seq x, ())) (arrivals_of c xs) = numbered 1 (map (\<lambda>_. ()) (arrivals_of c xs))"
      and i: "\<forall>x \<in> set (arrivals_of c xs). fst x = i" for c i
  proof -
    have "home_requests c xs = arrivals_of c xs"
      using i unfolding home_requests_def over_connection_def by (cases "arrivals_of c xs") auto
    then show ?thesis using taken [of c] in_sequence_numbered [OF n] by simp
  qed
  ultimately show ?thesis using w taken by (intro exI [of _ w] exI [of _ ys]) (auto simp: log_ok_def)
qed

text \<open>
  Client 2 sends its requests 1 and 2, the first of them twice, and number 3 over another
  connection: the sequencer gets the requests 1 and 2.
\<close>

definition demo_arrival :: "nat \<Rightarrow> 64 word \<Rightarrow> arrival" where
  "demo_arrival i n = (i, 10, \<lparr>oq_n_seq = n, oq_request = default_request\<lparr>rq_client_id := 2, rq_order_id := n\<rparr>\<rparr>)"

theorem ogs_exactly_once_witness:
  "\<exists>w. ogs_arrivals (new_order_gateway_server (new_lfqueue 4 default_request) (new_lfqueue 4 default_response)
        (new_tcp_server 3)) [demo_arrival 1 1, demo_arrival 1 1, demo_arrival 1 2, demo_arrival 5 3] = Inr w
    \<and> pending_requests (ogs_fifo w) = [to_pending (demo_arrival 1 1), to_pending (demo_arrival 1 2)]"
proof -
  let ?xs = "[demo_arrival 1 1, demo_arrival 1 1, demo_arrival 1 2, demo_arrival 5 3]"
  have "list_all (\<lambda>x. arr_client x < MAX_N_CLIENTS) ?xs" "length ?xs \<le> MAX_PENDING_ORDER_REQUESTS"
    by (simp_all add: demo_arrival_def limit_defs)
  from ogs_exactly_once [OF this] obtain w ys where w: "ogs_arrivals (new_order_gateway_server (new_lfqueue 4 default_request)
      (new_lfqueue 4 default_response) (new_tcp_server 3)) ?xs = Inr w" "subseq ys ?xs"
    "pending_requests (ogs_fifo w) = map to_pending ys" "arrivals_of 2 ys = in_sequence 1 (home_requests 2 ?xs)"
    by blast
  have "arr_client x = 2" if "x \<in> set ys" for x
    by (rule list_emb_set [OF w(2) that]) (auto simp: demo_arrival_def)
  then have "arrivals_of 2 ys = ys" by (simp add: arrivals_of_def)
  moreover have "in_sequence 1 (home_requests 2 ?xs) = [demo_arrival 1 1, demo_arrival 1 2]"
    by (simp add: home_requests_def over_connection_def arrivals_of_def demo_arrival_def)
  ultimately show ?thesis using w(1,3,4) by auto
qed

end
