(* ===== verification/Order_Gateway_Client.thy ===== *)
theory Order_Gateway_Client
  imports LF_Queue Gateway_Streams
begin

text \<open>
  \<open>client/networking/order_gateway_client.{h,cpp}\<close>: the client's end of the connection.
  Requests of the trading engine are numbered and loaded on the socket; responses are cut
  off the stream, checked against the client's id and the expected number and queued for
  the trading engine.
\<close>

record order_gateway_client =
  ogc_client_id :: client_id
  ogc_rx_requests :: "ome_client_request lfqueue"
  ogc_tx_responses :: "ome_client_response lfqueue"
  n_seq_next_request :: "64 word"
  n_seq_next_expected :: "64 word"
  ogc_socket :: net_socket

definition new_order_gateway_client :: "client_id \<Rightarrow> ome_client_request lfqueue
    \<Rightarrow> ome_client_response lfqueue \<Rightarrow> int \<Rightarrow> order_gateway_client" where
  "new_order_gateway_client c rx_requests tx_responses fd =
     \<lparr>ogc_client_id = c, ogc_rx_requests = rx_requests, ogc_tx_responses = tx_responses,
      n_seq_next_request = 1, n_seq_next_expected = 1, ogc_socket = new_socket fd\<rparr>"

definition ogc_on_response :: "int \<Rightarrow> order_gateway_client \<Rightarrow> ogs_client_response \<Rightarrow> order_gateway_client res" where
  "ogc_on_response t w m =
     (if rs_client_id (os_response m) \<noteq> ogc_client_id w then Inr w
      else if os_n_seq m \<noteq> n_seq_next_expected w then Inr w
      else Inr (w\<lparr>n_seq_next_expected := n_seq_next_expected w + 1,
                 ogc_tx_responses := enq (os_response m) (ogc_tx_responses w)\<rparr>))"

abbreviation ogc_put_socket :: "net_socket \<Rightarrow> order_gateway_client \<Rightarrow> order_gateway_client" where
  "ogc_put_socket s w \<equiv> w\<lparr>ogc_socket := s\<rparr>"

definition ogc_rx_callback :: "int \<Rightarrow> order_gateway_client \<Rightarrow> order_gateway_client res" where
  "ogc_rx_callback t w =
     (if 50 \<le> length (rx_buffer (ogc_socket w)) then
        (case frames 50 get_ogs_response (rx_buffer (ogc_socket w)) of (ms, rest) \<Rightarrow>
           bindR (foldR (ogc_on_response t) w ms) (\<lambda>w1.
             Inr (ogc_put_socket ((ogc_socket w1)\<lparr>rx_buffer := rest\<rparr>) w1)))
      else Inr w)"

definition ogc_on_request :: "order_gateway_client \<Rightarrow> ome_client_request \<Rightarrow> order_gateway_client res" where
  "ogc_on_request w r =
     bindR (tcp_load_tx (put_word (n_seq_next_request w)) (ogc_socket w)) (\<lambda>s1.
     bindR (tcp_load_tx (put_request r) s1) (\<lambda>s2.
     Inr (w\<lparr>ogc_socket := s2, n_seq_next_request := n_seq_next_request w + 1\<rparr>)))"

definition ogc_send_requests :: "order_gateway_client \<Rightarrow> order_gateway_client res" where
  "ogc_send_requests w =
     bindR (consume get_next_to_read increment_read_index (q_size (ogc_rx_requests w)) ogc_on_request
              (ogc_rx_requests w) w) (\<lambda>(q, w1).
     Inr (w1\<lparr>ogc_rx_requests := q\<rparr>))"

text \<open>One round of \<open>run\<close>; the bytes given to \<open>send\<close> are the second result.\<close>

definition ogc_run :: "bytes \<times> int \<Rightarrow> order_gateway_client \<Rightarrow> (order_gateway_client \<times> bytes) res" where
  "ogc_run rx w =
     bindR (tcp_tx_and_rx ogc_socket ogc_put_socket ogc_rx_callback rx w) (\<lambda>(w1, sent, _).
     bindR (ogc_send_requests w1) (\<lambda>w2. Inr (w2, sent)))"

subsection \<open>Sending\<close>

definition request_stream :: "64 word \<Rightarrow> ome_client_request list \<Rightarrow> ogs_client_request list" where
  "request_stream k rs = map (\<lambda>(n, r). \<lparr>oq_n_seq = n, oq_request = r\<rparr>) (numbered k rs)"

lemma request_stream_simps [simp]:
  "request_stream k [] = []"
  "request_stream k (r # rs) = \<lparr>oq_n_seq = k, oq_request = r\<rparr> # request_stream (k + 1) rs"
  by (simp_all add: request_stream_def)

lemma load_requests_ok:
  assumes "length (tx_buffer (ogc_socket w)) + 38 * length rs < TCP_BUFFER_SIZE"
  shows "foldR ogc_on_request w rs = Inr (w\<lparr>ogc_socket := (ogc_socket w)\<lparr>tx_buffer := tx_buffer (ogc_socket w)
        @ concat (map put_ogs_request (request_stream (n_seq_next_request w) rs))\<rparr>,
      n_seq_next_request := n_seq_next_request w + of_nat (length rs)\<rparr>)"
  using assms
proof (induction rs arbitrary: w)
  case (Cons r rs)
  let ?s = "(ogc_socket w)\<lparr>tx_buffer := tx_buffer (ogc_socket w)
    @ put_ogs_request \<lparr>oq_n_seq = n_seq_next_request w, oq_request = r\<rparr>\<rparr>"
  have "ogc_on_request w r = Inr (w\<lparr>ogc_socket := ?s, n_seq_next_request := n_seq_next_request w + 1\<rparr>)"
    using Cons.prems by (simp add: ogc_on_request_def load_tx_ok put_ogs_request_def)
  moreover have "length (put_ogs_request \<lparr>oq_n_seq = n_seq_next_request w, oq_request = r\<rparr>) = 38"
    by (rule request_wire.length_enc)
  ultimately show ?case
    using Cons.IH [of "w\<lparr>ogc_socket := ?s, n_seq_next_request := n_seq_next_request w + 1\<rparr>"] Cons.prems
    by (simp add: algebra_simps)
qed simp

lemma ogc_send_requests_ok:
  assumes "q_ok (ogc_rx_requests w)"
    and "length (tx_buffer (ogc_socket w)) + 38 * q_size (ogc_rx_requests w) < TCP_BUFFER_SIZE"
  obtains w' where "ogc_send_requests w = Inr w'" "q_list (ogc_rx_requests w') = []"
    "tx_buffer (ogc_socket w') = tx_buffer (ogc_socket w)
       @ concat (map put_ogs_request (request_stream (n_seq_next_request w) (q_list (ogc_rx_requests w))))"
    "n_seq_next_request w' = n_seq_next_request w + of_nat (q_size (ogc_rx_requests w))"
  using lfq.consume_foldR [OF assms(1), of "q_size (ogc_rx_requests w)" ogc_on_request w]
    load_requests_ok [of w "q_list (ogc_rx_requests w)"] assms(2)
  by (auto simp: ogc_send_requests_def)

subsection \<open>Receiving\<close>

abbreviation ogc_set_buf :: "bytes \<Rightarrow> order_gateway_client \<Rightarrow> order_gateway_client" where
  "ogc_set_buf b w \<equiv> w\<lparr>ogc_socket := (ogc_socket w)\<lparr>rx_buffer := b, tx_buffer := []\<rparr>\<rparr>"

definition ogc_arrive :: "order_gateway_client \<Rightarrow> bytes \<times> int \<Rightarrow> order_gateway_client res" where
  "ogc_arrive w rx = map_sum id fst (tcp_tx_and_rx ogc_socket ogc_put_socket ogc_rx_callback rx w)"

lemma ogc_on_response_socket:
  "ogc_on_response t (w\<lparr>ogc_socket := s\<rparr>) m = map_sum id (\<lambda>w. w\<lparr>ogc_socket := s\<rparr>) (ogc_on_response t w m)"
  "ogc_on_response t w m = Inr w' \<Longrightarrow> ogc_socket w' = ogc_socket w"
  by (auto simp: ogc_on_response_def split: if_splits)

lemma ogc_on_responses_socket:
  "foldR (ogc_on_response t) (w\<lparr>ogc_socket := s\<rparr>) ms
     = map_sum id (\<lambda>w. w\<lparr>ogc_socket := s\<rparr>) (foldR (ogc_on_response t) w ms)"
  by (rule foldR_commute [of "\<lambda>_. True"]) (simp_all add: ogc_on_response_socket)

lemma ogc_on_responses_keep: "foldR (ogc_on_response t) w ms = Inr w' \<Longrightarrow> ogc_socket w' = ogc_socket w"
  using foldR_invariant [of "\<lambda>v. ogc_socket v = ogc_socket w" ms "ogc_on_response t" w w']
    ogc_on_response_socket(2) by metis

lemma ogc_arrive_frames:
  assumes "length (rx_buffer (ogc_socket w)) < 50" "length seg + 50 \<le> TCP_BUFFER_SIZE"
  shows "ogc_arrive w (seg, t) = (case frames 50 get_ogs_response (rx_buffer (ogc_socket w) @ seg) of
    (ms, r) \<Rightarrow> map_sum id (ogc_set_buf r) (foldR (ogc_on_response t) w ms))"
proof -
  let ?b = "rx_buffer (ogc_socket w)" and ?s = "ogc_socket w"
  have got: "take (TCP_BUFFER_SIZE - length ?b) seg = seg" using assms by simp
  obtain ms r where f: "frames 50 get_ogs_response (?b @ seg) = (ms, r)"
    by (cases "frames 50 get_ogs_response (?b @ seg)")
  have short: "frames 50 get_ogs_response bs = ([], bs)" if "length bs < 50" for bs
    using that by (simp add: frames.simps)
  show ?thesis
  proof (cases "seg = [] \<or> length (?b @ seg) < 50")
    case True
    then have "ms = []" "r = ?b @ seg" using f short [of "?b @ seg"] assms(1) by auto
    then show ?thesis
      using True f assms(1) got by (auto simp: ogc_arrive_def tcp_tx_and_rx_def Let_def ogc_rx_callback_def)
  next
    case False
    let ?w1 = "w\<lparr>ogc_socket := ?s\<lparr>rx_buffer := ?b @ seg\<rparr>\<rparr>"
    have "ogc_rx_callback t ?w1 = bindR (foldR (ogc_on_response t) ?w1 ms)
        (\<lambda>w1. Inr (ogc_put_socket ((ogc_socket w1)\<lparr>rx_buffer := r\<rparr>) w1))"
      using False f by (simp add: ogc_rx_callback_def)
    then show ?thesis
      using False got f ogc_on_responses_keep [of t w ms] ogc_on_responses_socket [where w = w and t = t and ms = ms]
      by (cases "foldR (ogc_on_response t) w ms") (auto simp: ogc_arrive_def tcp_tx_and_rx_def Let_def)
  qed
qed

interpretation ogc_rx: stream_receiver 50 put_ogs_response get_ogs_response "\<lambda>_. True"
  "\<lambda>w. rx_buffer (ogc_socket w)" ogc_set_buf ogc_on_response ogc_arrive TCP_BUFFER_SIZE
proof unfold_locales
  fix w :: order_gateway_client and seg :: bytes and t
  assume "length (rx_buffer (ogc_socket w)) < 50" "length seg + 50 \<le> TCP_BUFFER_SIZE"
  then show "ogc_arrive w (seg, t) = (case frames 50 get_ogs_response (rx_buffer (ogc_socket w) @ seg) of
    (ms, r) \<Rightarrow> map_sum id (ogc_set_buf r) (foldR (ogc_on_response t) w ms))" by (rule ogc_arrive_frames)
qed (auto simp: ogc_on_response_def)

definition response_stream :: "64 word \<Rightarrow> ome_client_response list \<Rightarrow> ogs_client_response list" where
  "response_stream k rs = map (\<lambda>(n, r). \<lparr>os_n_seq = n, os_response = r\<rparr>) (numbered k rs)"

lemma response_stream_simps [simp]:
  "response_stream k [] = []"
  "response_stream k (r # rs) = \<lparr>os_n_seq = k, os_response = r\<rparr> # response_stream (k + 1) rs"
  by (simp_all add: response_stream_def)

lemma length_response_stream [simp]: "length (response_stream k rs) = length rs"
  by (simp add: response_stream_def)

lemma handle_responses_ok:
  assumes "list_all (\<lambda>r. rs_client_id r = ogc_client_id w) rs" "length ts = length rs"
  shows "foldR (\<lambda>w (t, m). ogc_on_response t w m) w (zip ts (response_stream (n_seq_next_expected w) rs))
    = Inr (w\<lparr>n_seq_next_expected := n_seq_next_expected w + of_nat (length rs),
             ogc_tx_responses := enq_all rs (ogc_tx_responses w)\<rparr>)"
  using assms
proof (induction rs arbitrary: w ts)
  case (Cons r rs)
  obtain t ts' where ts: "ts = t # ts'" "length ts' = length rs" using Cons.prems(2) by (cases ts) auto
  let ?w = "w\<lparr>n_seq_next_expected := n_seq_next_expected w + 1, ogc_tx_responses := enq r (ogc_tx_responses w)\<rparr>"
  show ?case
    using Cons.IH [of ?w ts'] Cons.prems(1) ts by (simp add: ogc_on_response_def enq_all_def algebra_simps)
qed (simp add: enq_all_def)

end
