(* ===== verification/Gateway_Delivery.thy ===== *)
theory Gateway_Delivery
  imports Order_Gateway_Server Order_Gateway_Client
begin

text \<open>
  The two gateways together: what one end loads on its socket reaches the queue behind the
  other end, message by message and in order, however the connection cuts the bytes.
\<close>

subsection \<open>The server as a receiver\<close>

abbreviation ogs_set_buf :: "nat \<Rightarrow> bytes \<Rightarrow> order_gateway_server \<Rightarrow> order_gateway_server" where
  "ogs_set_buf i b w \<equiv>
     set_server_socket ogs_server ogs_put_server i ((server_socket ogs_server i w)\<lparr>rx_buffer := b, tx_buffer := []\<rparr>) w"

definition ogs_arrive :: "nat \<Rightarrow> order_gateway_server \<Rightarrow> bytes \<times> int \<Rightarrow> order_gateway_server res" where
  "ogs_arrive i w rx = map_sum id fst (tcp_tx_and_rx (server_socket ogs_server i)
     (set_server_socket ogs_server ogs_put_server i) (ogs_rx_callback i) rx w)"

lemma ogs_on_request_server:
  "ogs_on_request i t (w\<lparr>ogs_server := s\<rparr>) m = map_sum id (\<lambda>w. w\<lparr>ogs_server := s\<rparr>) (ogs_on_request i t w m)"
  by (auto simp: ogs_on_request_def Let_def bindR_def require_def push_client_request_def FATAL_def split: sum.splits)

lemma ogs_on_request_keep: "ogs_on_request i t w m = Inr w' \<Longrightarrow> ogs_server w' = ogs_server w"
  by (auto simp: ogs_on_request_def Let_def bindR_eq_Inr split: if_splits)

lemma ogs_on_requests_server:
  "foldR (ogs_on_request i t) (w\<lparr>ogs_server := s\<rparr>) ms
     = map_sum id (\<lambda>w. w\<lparr>ogs_server := s\<rparr>) (foldR (ogs_on_request i t) w ms)"
  by (rule foldR_commute [of "\<lambda>_. True"]) (simp_all add: ogs_on_request_server)

lemma ogs_on_requests_keep: "foldR (ogs_on_request i t) w ms = Inr w' \<Longrightarrow> ogs_server w' = ogs_server w"
  using foldR_invariant [of "\<lambda>v. ogs_server v = ogs_server w" ms "ogs_on_request i t" w w']
    ogs_on_request_keep by metis

lemma ogs_arrive_frames:
  assumes i: "i < length (socks (ogs_server w))" and b: "length (rx_buffer (server_socket ogs_server i w)) < 38"
    and "length seg + 38 \<le> TCP_BUFFER_SIZE"
  shows "ogs_arrive i w (seg, t) =
    (case frames 38 get_ogs_request (rx_buffer (server_socket ogs_server i w) @ seg) of
       (ms, r) \<Rightarrow> map_sum id (ogs_set_buf i r) (foldR (ogs_on_request i t) w ms))"
proof -
  let ?s = "server_socket ogs_server i w"
  let ?b = "rx_buffer ?s"
  have got: "take (TCP_BUFFER_SIZE - length ?b) seg = seg" using assms by simp
  obtain ms r where f: "frames 38 get_ogs_request (?b @ seg) = (ms, r)"
    by (cases "frames 38 get_ogs_request (?b @ seg)")
  have short: "frames 38 get_ogs_request bs = ([], bs)" if "length bs < 38" for bs
    using that by (simp add: frames.simps)
  show ?thesis
  proof (cases "seg = [] \<or> length (?b @ seg) < 38")
    case True
    then have "ms = []" "r = ?b @ seg" using f short [of "?b @ seg"] b by auto
    then show ?thesis
      using True f b got i
      by (auto simp: ogs_arrive_def tcp_tx_and_rx_def Let_def ogs_rx_callback_def server_socket_def set_server_socket_def)
  next
    case False
    let ?w1 = "set_server_socket ogs_server ogs_put_server i (?s\<lparr>rx_buffer := ?b @ seg\<rparr>) w"
    have "server_socket ogs_server i ?w1 = ?s\<lparr>rx_buffer := ?b @ seg\<rparr>"
      using i by (simp add: server_socket_def set_server_socket_def)
    then have "ogs_rx_callback i t ?w1 = bindR (foldR (ogs_on_request i t) ?w1 ms) (\<lambda>w1.
        Inr (set_server_socket ogs_server ogs_put_server i ((server_socket ogs_server i w1)\<lparr>rx_buffer := r\<rparr>) w1))"
      using False f by (simp add: ogs_rx_callback_def Let_def)
    then show ?thesis
      using False got f i ogs_on_requests_keep [of i t w ms] ogs_on_requests_server [where w = w and i = i and t = t and ms = ms]
      by (cases "foldR (ogs_on_request i t) w ms")
        (auto simp: ogs_arrive_def tcp_tx_and_rx_def Let_def server_socket_def set_server_socket_def)
  qed
qed

interpretation ogs_rx: stream_receiver 38 put_ogs_request get_ogs_request
  "\<lambda>w. i < length (socks (ogs_server w))" "\<lambda>w. rx_buffer (server_socket ogs_server i w)"
  "ogs_set_buf i" "ogs_on_request i" "ogs_arrive i" TCP_BUFFER_SIZE for i
proof unfold_locales
  fix w :: order_gateway_server and seg :: bytes and t
  assume "i < length (socks (ogs_server w))" "length (rx_buffer (server_socket ogs_server i w)) < 38"
    "length seg + 38 \<le> TCP_BUFFER_SIZE"
  then show "ogs_arrive i w (seg, t) =
    (case frames 38 get_ogs_request (rx_buffer (server_socket ogs_server i w) @ seg) of
       (ms, r) \<Rightarrow> map_sum id (ogs_set_buf i r) (foldR (ogs_on_request i t) w ms))"
    by (rule ogs_arrive_frames)
next
  fix w :: order_gateway_server and t b m
  show "ogs_on_request i t (ogs_set_buf i b w) m = map_sum id (ogs_set_buf i b) (ogs_on_request i t w m)"
    using ogs_on_request_keep [of i t w m]
    by (cases "ogs_on_request i t w m")
      (simp_all add: set_server_socket_def server_socket_def ogs_on_request_server)
next
  fix b c and w :: order_gateway_server
  show "ogs_set_buf i b (ogs_set_buf i c w) = ogs_set_buf i b w"
    by (cases "i < length (socks (ogs_server w))")
      (simp_all add: set_server_socket_def server_socket_def list_update_beyond)
qed (auto simp: set_server_socket_def server_socket_def dest!: ogs_on_request_keep)

lemma accept_requests_ok:
  assumes "list_all (\<lambda>r. unat (rq_client_id r) = c) rs" "length ts = length rs" "c < MAX_N_CLIENTS"
    and "map_client_to_socket w c \<in> {None, Some i}"
    and "length (pending_requests (ogs_fifo w)) + length rs \<le> MAX_PENDING_ORDER_REQUESTS"
  shows "\<exists>w'. foldR (\<lambda>w (t, m). ogs_on_request i t w m) w (zip ts (request_stream (map_client_to_rx_n_seq w c) rs)) = Inr w'
    \<and> pending_requests (ogs_fifo w')
      = pending_requests (ogs_fifo w) @ map (\<lambda>(t, r). \<lparr>pd_t_rx = t, pd_request = r\<rparr>) (zip ts rs)
    \<and> map_client_to_rx_n_seq w' c = map_client_to_rx_n_seq w c + of_nat (length rs)"
  using assms
proof (induction rs arbitrary: w ts)
  case (Cons r rs)
  obtain t ts' where ts: "ts = t # ts'" "length ts' = length rs" using Cons.prems(2) by (cases ts) auto
  let ?x = "(i, t, \<lparr>oq_n_seq = map_client_to_rx_n_seq w c, oq_request = r\<rparr>) :: arrival"
  have c: "arr_client ?x = c" using Cons.prems(1) by simp
  have fw: "forwards w ?x" using Cons.prems(4) c by (auto simp: forwards_def)
  have one: "ogs_on_request i t w (snd (snd ?x)) = Inr (ogs_step w ?x)"
    using ogs_on_request_step [of ?x w] c Cons.prems(3,5) by simp
  have st: "map_client_to_rx_n_seq (ogs_step w ?x) c = map_client_to_rx_n_seq w c + 1"
    "map_client_to_socket (ogs_step w ?x) c = Some i"
    "pending_requests (ogs_fifo (ogs_step w ?x)) = pending_requests (ogs_fifo w) @ [\<lparr>pd_t_rx = t, pd_request = r\<rparr>]"
    using fw c Cons.prems(4) by (auto simp: ogs_step_def Let_def)
  have "map_client_to_socket (ogs_step w ?x) c \<in> {None, Some i}"
    "length (pending_requests (ogs_fifo (ogs_step w ?x))) + length rs \<le> MAX_PENDING_ORDER_REQUESTS"
    using st Cons.prems(5) by simp_all
  from Cons.IH [OF _ ts(2) Cons.prems(3) this] Cons.prems(1) st one ts show ?case
    by (auto simp: algebra_simps)
qed simp

subsection \<open>Requests\<close>

text \<open>
  C8. Client requests arrive: the requests in the queue of a client's gateway are loaded on
  its socket, and when the server's end of the connection receives these bytes, cut into
  any pieces, it pushes exactly these requests to the sequencer, in order, stamped with the
  times of the pieces. (The requests carry the client's id, the connection is the client's,
  both ends agree on the next sequence number, and the buffers have room.)
\<close>

theorem gateway_delivers_requests:
  assumes "q_ok (ogc_rx_requests k)" "38 * q_size (ogc_rx_requests k) < TCP_BUFFER_SIZE"
    and "tx_buffer (ogc_socket k) = []"
    and "list_all (\<lambda>r. rq_client_id r = ogc_client_id k) (q_list (ogc_rx_requests k))"
    and "i < length (socks (ogs_server w))" "rx_buffer (server_socket ogs_server i w) = []"
    and "tx_buffer (server_socket ogs_server i w) = []"
    and "unat (ogc_client_id k) < MAX_N_CLIENTS"
    and "map_client_to_socket w (unat (ogc_client_id k)) \<in> {None, Some i}"
    and "map_client_to_rx_n_seq w (unat (ogc_client_id k)) = n_seq_next_request k"
    and "length (pending_requests (ogs_fifo w)) + q_size (ogc_rx_requests k) \<le> MAX_PENDING_ORDER_REQUESTS"
  shows "\<exists>k'. ogc_send_requests k = Inr k' \<and> q_list (ogc_rx_requests k') = []
    \<and> length (tx_buffer (ogc_socket k')) = 38 * q_size (ogc_rx_requests k)
    \<and> (\<forall>segs. concat (map fst segs) = tx_buffer (ogc_socket k') \<and> (\<forall>x \<in> set segs. length (fst x) + 38 \<le> TCP_BUFFER_SIZE)
        \<longrightarrow> (\<exists>w' ts. foldR (ogs_arrive i) w segs = Inr w' \<and> set ts \<subseteq> set (map snd segs)
              \<and> length ts = q_size (ogc_rx_requests k) \<and> (sorted (map snd segs) \<longrightarrow> sorted ts)
              \<and> pending_requests (ogs_fifo w') = pending_requests (ogs_fifo w)
                  @ map (\<lambda>(t, r). \<lparr>pd_t_rx = t, pd_request = r\<rparr>) (zip ts (q_list (ogc_rx_requests k)))
              \<and> map_client_to_rx_n_seq w' (unat (ogc_client_id k)) = n_seq_next_request k'))"
proof -
  let ?rs = "q_list (ogc_rx_requests k)" and ?c = "unat (ogc_client_id k)"
  obtain k' where k': "ogc_send_requests k = Inr k'" "q_list (ogc_rx_requests k') = []"
    "tx_buffer (ogc_socket k') = concat (map put_ogs_request (request_stream (n_seq_next_request k) ?rs))"
    "n_seq_next_request k' = n_seq_next_request k + of_nat (q_size (ogc_rx_requests k))"
    using ogc_send_requests_ok [OF assms(1)] assms(2,3) by (metis add_0 append_Nil list.size(3))
  have whole: "ogs_set_buf i [] w = w"
  proof -
    have "(server_socket ogs_server i w)\<lparr>rx_buffer := [], tx_buffer := []\<rparr> = socks (ogs_server w) ! i"
      using assms(6,7) by (simp add: server_socket_def)
    then show ?thesis by (simp add: set_server_socket_def)
  qed
  have cl: "list_all (\<lambda>r. unat (rq_client_id r) = ?c) ?rs" using assms(4) by (simp add: list_all_iff)
  have "\<exists>w' ts. foldR (ogs_arrive i) w segs = Inr w' \<and> set ts \<subseteq> set (map snd segs)
      \<and> length ts = q_size (ogc_rx_requests k) \<and> (sorted (map snd segs) \<longrightarrow> sorted ts)
      \<and> pending_requests (ogs_fifo w') = pending_requests (ogs_fifo w) @ map (\<lambda>(t, r). \<lparr>pd_t_rx = t, pd_request = r\<rparr>) (zip ts ?rs)
      \<and> map_client_to_rx_n_seq w' ?c = n_seq_next_request k'"
    if segs: "concat (map fst segs) = tx_buffer (ogc_socket k')" "\<forall>x \<in> set segs. length (fst x) + 38 \<le> TCP_BUFFER_SIZE"
    for segs
  proof -
    obtain ts where ts: "length ts = length (request_stream (n_seq_next_request k) ?rs)" "set ts \<subseteq> set (map snd segs)"
      "sorted (map snd segs) \<longrightarrow> sorted ts"
      "foldR (ogs_arrive i) w segs = map_sum id (ogs_set_buf i [])
        (foldR (\<lambda>w (t, m). ogs_on_request i t w m) w (zip ts (request_stream (n_seq_next_request k) ?rs)))"
      using ogs_rx.stream_handled [OF assms(5,6) whole segs(2)] segs(1) unfolding k'(3) by blast
    have len: "length ts = length ?rs" using ts(1) by (simp add: request_stream_def)
    obtain w' where w': "foldR (\<lambda>w (t, m). ogs_on_request i t w m) w (zip ts (request_stream (n_seq_next_request k) ?rs)) = Inr w'"
      "pending_requests (ogs_fifo w') = pending_requests (ogs_fifo w) @ map (\<lambda>(t, r). \<lparr>pd_t_rx = t, pd_request = r\<rparr>) (zip ts ?rs)"
      "map_client_to_rx_n_seq w' ?c = n_seq_next_request k + of_nat (length ?rs)"
      using accept_requests_ok [OF cl len assms(8,9)] assms(10,11) by auto
    show ?thesis
      using ts w' len k'(4) by (intro exI [of _ "ogs_set_buf i [] w'"] exI [of _ ts]) (simp add: set_server_socket_def)
  qed
  moreover have "length (tx_buffer (ogc_socket k')) = 38 * q_size (ogc_rx_requests k)"
    unfolding k'(3) ogs_rx.length_stream by (simp add: request_stream_def)
  ultimately show ?thesis using k'(1,2) by blast
qed

text \<open>One client with two requests, and a server that has one connection, socket \<open>1\<close>.\<close>

definition demo_requests2 :: "ome_client_request list" where
  "demo_requests2 = [default_request\<lparr>rq_type := REQ_NEW, rq_client_id := 2\<rparr>,
     default_request\<lparr>rq_type := REQ_CANCEL, rq_client_id := 2\<rparr>]"

definition demo_client :: order_gateway_client where
  "demo_client = new_order_gateway_client 2 (enq_all demo_requests2 (new_lfqueue 4 default_request))
     (new_lfqueue 4 default_response) 7"

definition demo_gateway :: order_gateway_server where
  "demo_gateway = (new_order_gateway_server (new_lfqueue 4 default_request)
     (enq_all [default_response\<lparr>rs_type := RES_ACCEPTED, rs_client_id := 2\<rparr>] (new_lfqueue 4 default_response))
     (new_tcp_server 3\<lparr>socks := [new_socket 3, new_socket 9], rx_sockets := [1]\<rparr>))
     \<lparr>map_client_to_socket := (\<lambda>_. None)(2 := Some 1)\<rparr>"

lemma demo_client_ok:
  "q_ok (ogc_rx_requests demo_client)" "q_list (ogc_rx_requests demo_client) = demo_requests2"
  "q_size (ogc_rx_requests demo_client) = 2" "q_ok (ogc_tx_responses demo_client)"
  "q_list (ogc_tx_responses demo_client) = []" "q_cap (ogc_tx_responses demo_client) = 4"
  "ogc_client_id demo_client = 2" "n_seq_next_request demo_client = 1" "n_seq_next_expected demo_client = 1"
  "ogc_socket demo_client = new_socket 7"
proof -
  have q: "q_ok (enq_all demo_requests2 (new_lfqueue 4 default_request))"
    "q_list (enq_all demo_requests2 (new_lfqueue 4 default_request)) = demo_requests2"
    using enq_all_ok [of "new_lfqueue 4 default_request" demo_requests2]
    by (simp_all add: q_ok_new demo_requests2_def)
  then show "q_ok (ogc_rx_requests demo_client)" "q_list (ogc_rx_requests demo_client) = demo_requests2"
    by (simp_all add: demo_client_def new_order_gateway_client_def)
  then show "q_size (ogc_rx_requests demo_client) = 2"
    using length_q_list [of "ogc_rx_requests demo_client"] by (simp add: demo_requests2_def)
qed (simp_all add: demo_client_def new_order_gateway_client_def q_ok_new)

lemma demo_gateway_ok:
  "socks (ogs_server demo_gateway) = [new_socket 3, new_socket 9]"
  "server_socket ogs_server (Suc 0) demo_gateway = new_socket 9"
  "map_client_to_socket demo_gateway = (\<lambda>_. None)(2 := Some 1)"
  "map_client_to_rx_n_seq demo_gateway = (\<lambda>_. 1)" "map_client_to_tx_n_seq demo_gateway = (\<lambda>_. 1)"
  "pending_requests (ogs_fifo demo_gateway) = []" "q_ok (ogs_rx_responses demo_gateway)"
  "q_list (ogs_rx_responses demo_gateway) = [default_response\<lparr>rs_type := RES_ACCEPTED, rs_client_id := 2\<rparr>]"
  "q_size (ogs_rx_responses demo_gateway) = 1"
proof -
  let ?r = "default_response\<lparr>rs_type := RES_ACCEPTED, rs_client_id := 2\<rparr>"
  have "q_ok (enq_all [?r] (new_lfqueue 4 default_response))" "q_list (enq_all [?r] (new_lfqueue 4 default_response)) = [?r]"
    using enq_all_ok [of "new_lfqueue 4 default_response" "[?r]"] by (simp_all add: q_ok_new)
  then show "q_ok (ogs_rx_responses demo_gateway)" "q_list (ogs_rx_responses demo_gateway) = [?r]"
    by (simp_all add: demo_gateway_def new_order_gateway_server_def)
  then show "q_size (ogs_rx_responses demo_gateway) = 1"
    using length_q_list [of "ogs_rx_responses demo_gateway"] by simp
qed (simp_all add: demo_gateway_def new_order_gateway_server_def server_socket_def new_fifo_sequencer_def)

theorem gateway_delivers_requests_witness:
  "\<exists>k' w'. ogc_send_requests demo_client = Inr k'
    \<and> foldR (ogs_arrive 1) demo_gateway
        [(take 5 (tx_buffer (ogc_socket k')), 10), (drop 5 (tx_buffer (ogc_socket k')), 11)] = Inr w'
    \<and> map pd_request (pending_requests (ogs_fifo w')) = demo_requests2"
proof -
  note d = demo_client_ok demo_gateway_ok
  have pre: "q_ok (ogc_rx_requests demo_client)" "38 * q_size (ogc_rx_requests demo_client) < TCP_BUFFER_SIZE"
    "tx_buffer (ogc_socket demo_client) = []"
    "list_all (\<lambda>r. rq_client_id r = ogc_client_id demo_client) (q_list (ogc_rx_requests demo_client))"
    "1 < length (socks (ogs_server demo_gateway))" "rx_buffer (server_socket ogs_server 1 demo_gateway) = []"
    "tx_buffer (server_socket ogs_server 1 demo_gateway) = []"
    "unat (ogc_client_id demo_client) < MAX_N_CLIENTS"
    "map_client_to_socket demo_gateway (unat (ogc_client_id demo_client)) \<in> {None, Some 1}"
    "map_client_to_rx_n_seq demo_gateway (unat (ogc_client_id demo_client)) = n_seq_next_request demo_client"
    "length (pending_requests (ogs_fifo demo_gateway)) + q_size (ogc_rx_requests demo_client) \<le> MAX_PENDING_ORDER_REQUESTS"
    by (simp_all add: d new_socket_def demo_requests2_def TCP_BUFFER_SIZE_def limit_defs)
  obtain k' where k': "ogc_send_requests demo_client = Inr k'" "length (tx_buffer (ogc_socket k')) = 38 * q_size (ogc_rx_requests demo_client)"
    and del: "\<And>segs. concat (map fst segs) = tx_buffer (ogc_socket k') \<Longrightarrow> \<forall>x \<in> set segs. length (fst x) + 38 \<le> TCP_BUFFER_SIZE
      \<Longrightarrow> \<exists>w' ts. foldR (ogs_arrive 1) demo_gateway segs = Inr w' \<and> length ts = q_size (ogc_rx_requests demo_client)
        \<and> pending_requests (ogs_fifo w') = pending_requests (ogs_fifo demo_gateway)
                  @ map (\<lambda>(t, r). \<lparr>pd_t_rx = t, pd_request = r\<rparr>) (zip ts (q_list (ogc_rx_requests demo_client)))"
    using gateway_delivers_requests [OF pre] by blast
  let ?segs = "[(take 5 (tx_buffer (ogc_socket k')), 10), (drop 5 (tx_buffer (ogc_socket k')), 11)]"
  have "\<forall>x \<in> set ?segs. length (fst x) + 38 \<le> TCP_BUFFER_SIZE"
    using k'(2) by (simp add: demo_client_ok(3) TCP_BUFFER_SIZE_def)
  moreover have "concat (map fst ?segs) = tx_buffer (ogc_socket k')" by simp
  ultimately obtain w' ts where w0: "foldR (ogs_arrive 1) demo_gateway ?segs = Inr w'"
    "length ts = q_size (ogc_rx_requests demo_client)"
    "pending_requests (ogs_fifo w') = pending_requests (ogs_fifo demo_gateway)
      @ map (\<lambda>(t, r). \<lparr>pd_t_rx = t, pd_request = r\<rparr>) (zip ts (q_list (ogc_rx_requests demo_client)))"
    using del [of ?segs] by blast
  have w': "length ts = length demo_requests2"
    "pending_requests (ogs_fifo w') = map (\<lambda>(t, r). \<lparr>pd_t_rx = t, pd_request = r\<rparr>) (zip ts demo_requests2)"
    using w0(2,3) length_q_list [of "ogc_rx_requests demo_client"] unfolding demo_client_ok(2) demo_gateway_ok(6) by simp_all
  have "map pd_request (map (\<lambda>(t, r). \<lparr>pd_t_rx = t, pd_request = r\<rparr>) (zip ts demo_requests2)) = map snd (zip ts demo_requests2)"
    by (simp add: comp_def case_prod_unfold)
  then have "map pd_request (pending_requests (ogs_fifo w')) = demo_requests2"
    unfolding w'(2) using w'(1) by simp
  then show ?thesis using k'(1) w0(1) by blast
qed

subsection \<open>Responses\<close>

definition connected :: "order_gateway_server \<Rightarrow> ome_client_response \<Rightarrow> bool" where
  "connected w r \<longleftrightarrow> unat (rs_client_id r) < MAX_N_CLIENTS
     \<and> (case map_client_to_socket w (unat (rs_client_id r)) of None \<Rightarrow> False
        | Some j \<Rightarrow> j < length (socks (ogs_server w)))"

lemma ogs_on_response_ok:
  assumes "connected w r" "\<forall>s \<in> set (socks (ogs_server w)). length (tx_buffer s) + 50 < TCP_BUFFER_SIZE"
  defines "c \<equiv> unat (rs_client_id r)"
  defines "i \<equiv> the (map_client_to_socket w c)"
  defines "s \<equiv> socks (ogs_server w) ! i"
  defines "bs \<equiv> put_ogs_response \<lparr>os_n_seq = map_client_to_tx_n_seq w c, os_response = r\<rparr>"
  shows "ogs_on_response w r = Inr (w\<lparr>ogs_server := (ogs_server w)\<lparr>socks := (socks (ogs_server w))[i := s\<lparr>tx_buffer := tx_buffer s @ bs\<rparr>]\<rparr>,
      map_client_to_tx_n_seq := (map_client_to_tx_n_seq w)(c := map_client_to_tx_n_seq w c + 1)\<rparr>)"
proof -
  have i: "c < MAX_N_CLIENTS" "map_client_to_socket w c = Some i" "i < length (socks (ogs_server w))"
    using assms(1) by (auto simp: connected_def c_def i_def split: option.splits)
  then have "length (tx_buffer s) + 50 < TCP_BUFFER_SIZE" using assms(2) by (simp add: s_def)
  then show ?thesis
    using i by (simp add: ogs_on_response_def Let_def c_def [symmetric] load_tx_ok server_socket_def
        set_server_socket_def s_def bs_def put_ogs_response_def)
qed

lemma load_responses_ok:
  assumes "list_all (connected w) rs"
    and "\<forall>s \<in> set (socks (ogs_server w)). length (tx_buffer s) + 50 * length rs < TCP_BUFFER_SIZE"
    and "map_client_to_socket w c = Some i" "\<forall>d. d \<noteq> c \<longrightarrow> map_client_to_socket w d \<noteq> Some i"
  shows "\<exists>w'. foldR ogs_on_response w rs = Inr w'
    \<and> tx_buffer (server_socket ogs_server i w') = tx_buffer (server_socket ogs_server i w)
        @ concat (map put_ogs_response (response_stream (map_client_to_tx_n_seq w c) (filter (\<lambda>r. unat (rs_client_id r) = c) rs)))"
  using assms
proof (induction rs arbitrary: w)
  case (Cons r rs)
  let ?d = "unat (rs_client_id r)"
  let ?j = "the (map_client_to_socket w ?d)"
  let ?s = "socks (ogs_server w) ! ?j"
  let ?bs = "put_ogs_response \<lparr>os_n_seq = map_client_to_tx_n_seq w ?d, os_response = r\<rparr>"
  let ?w = "w\<lparr>ogs_server := (ogs_server w)\<lparr>socks := (socks (ogs_server w))[?j := ?s\<lparr>tx_buffer := tx_buffer ?s @ ?bs\<rparr>]\<rparr>,
      map_client_to_tx_n_seq := (map_client_to_tx_n_seq w)(?d := map_client_to_tx_n_seq w ?d + 1)\<rparr>"
  have j: "map_client_to_socket w ?d = Some ?j" "?j < length (socks (ogs_server w))"
    using Cons.prems(1) by (auto simp: connected_def split: option.splits)
  have one: "ogs_on_response w r = Inr ?w"
    by (rule ogs_on_response_ok) (use Cons.prems(1,2) in auto)
  have len: "length ?bs = 50" by (rule response_wire.length_enc)
  have room: "\<forall>s \<in> set (socks (ogs_server ?w)). length (tx_buffer s) + 50 * length rs < TCP_BUFFER_SIZE"
  proof
    fix s assume "s \<in> set (socks (ogs_server ?w))"
    then have "s \<in> set (socks (ogs_server w)) \<or> s = ?s\<lparr>tx_buffer := tx_buffer ?s @ ?bs\<rparr>"
      using set_update_subset_insert by fastforce
    moreover have "?s \<in> set (socks (ogs_server w))" using j(2) by simp
    ultimately show "length (tx_buffer s) + 50 * length rs < TCP_BUFFER_SIZE"
      using Cons.prems(2) len by fastforce
  qed
  have "connected ?w x = connected w x" for x by (simp add: connected_def cong: option.case_cong)
  then have "list_all (connected ?w) rs" using Cons.prems(1) by (simp add: list_all_iff)
  from Cons.IH [OF this room] Cons.prems(3,4)
  obtain w' where w': "foldR ogs_on_response ?w rs = Inr w'"
    "tx_buffer (server_socket ogs_server i w') = tx_buffer (server_socket ogs_server i ?w)
      @ concat (map put_ogs_response (response_stream (map_client_to_tx_n_seq ?w c) (filter (\<lambda>r. unat (rs_client_id r) = c) rs)))"
    by auto
  show ?case
  proof (cases "?d = c")
    case True
    then have "?j = i" using Cons.prems(3) by simp
    then show ?thesis using w' one j(2) True by (simp add: server_socket_def)
  next
    case False
    then have "?j \<noteq> i" using Cons.prems(4) j(1) by metis
    then show ?thesis using w' one False by (simp add: server_socket_def)
  qed
qed simp

text \<open>
  C18. Responses arrive: the responses in the gateway's queue are numbered and loaded on the
  connections of their clients, and when a client's gateway receives the bytes loaded on its
  connection, cut into any pieces, it queues exactly its own responses, in order. (All the
  clients are connected, this client's connection is used by no other, both ends agree on
  the next sequence number, and the buffers and the queue have room.)
\<close>

theorem gateway_delivers_responses:
  assumes "q_ok (ogs_rx_responses w)" "list_all (connected w) (q_list (ogs_rx_responses w))"
    and "\<forall>s \<in> set (socks (ogs_server w)). length (tx_buffer s) + 50 * q_size (ogs_rx_responses w) < TCP_BUFFER_SIZE"
    and "map_client_to_socket w (unat (ogc_client_id k)) = Some i"
    and "\<forall>d. d \<noteq> unat (ogc_client_id k) \<longrightarrow> map_client_to_socket w d \<noteq> Some i"
    and "tx_buffer (server_socket ogs_server i w) = []"
    and "map_client_to_tx_n_seq w (unat (ogc_client_id k)) = n_seq_next_expected k"
    and "rx_buffer (ogc_socket k) = []" "tx_buffer (ogc_socket k) = []" "q_ok (ogc_tx_responses k)"
    and "q_size (ogc_tx_responses k) + q_size (ogs_rx_responses w) \<le> q_cap (ogc_tx_responses k)"
  shows "\<exists>w'. ogs_send_responses w = Inr w' \<and> q_list (ogs_rx_responses w') = []
    \<and> length (tx_buffer (server_socket ogs_server i w'))
        = 50 * length (filter (\<lambda>r. rs_client_id r = ogc_client_id k) (q_list (ogs_rx_responses w)))
    \<and> (\<forall>segs. concat (map fst segs) = tx_buffer (server_socket ogs_server i w')
           \<and> (\<forall>x \<in> set segs. length (fst x) + 50 \<le> TCP_BUFFER_SIZE)
        \<longrightarrow> (\<exists>k'. foldR ogc_arrive k segs = Inr k'
              \<and> q_list (ogc_tx_responses k') = q_list (ogc_tx_responses k)
                  @ filter (\<lambda>r. rs_client_id r = ogc_client_id k) (q_list (ogs_rx_responses w))))"
proof -
  let ?c = "unat (ogc_client_id k)" and ?all = "q_list (ogs_rx_responses w)"
  let ?rs = "filter (\<lambda>r. rs_client_id r = ogc_client_id k) ?all"
  have mine: "filter (\<lambda>r. unat (rs_client_id r) = ?c) ?all = ?rs" by (simp flip: word_unat_eq_iff)
  obtain w1 where w1: "foldR ogs_on_response w ?all = Inr w1"
    "tx_buffer (server_socket ogs_server i w1) = concat (map put_ogs_response (response_stream (n_seq_next_expected k) ?rs))"
    using load_responses_ok [OF assms(2) _ assms(4,5)] assms(3,6,7) mine by auto
  obtain q where q: "ogs_send_responses w = Inr (w1\<lparr>ogs_rx_responses := q\<rparr>)" "q_list q = []"
    using lfq.consume_foldR [OF assms(1), of "q_size (ogs_rx_responses w)" ogs_on_response w] w1(1)
    by (auto simp: ogs_send_responses_def)
  let ?w' = "w1\<lparr>ogs_rx_responses := q\<rparr>"
  have whole: "ogc_set_buf [] k = k" using assms(8,9) by simp
  have "\<exists>k'. foldR ogc_arrive k segs = Inr k' \<and> q_list (ogc_tx_responses k') = q_list (ogc_tx_responses k) @ ?rs"
    if segs: "concat (map fst segs) = tx_buffer (server_socket ogs_server i ?w')"
      "\<forall>x \<in> set segs. length (fst x) + 50 \<le> TCP_BUFFER_SIZE" for segs
  proof -
    have "concat (map fst segs) = concat (map put_ogs_response (response_stream (n_seq_next_expected k) ?rs))"
      using segs(1) w1(2) by (simp add: server_socket_def)
    from ogc_rx.stream_handled [OF TrueI assms(8) whole segs(2) this]
    obtain ts where ts: "length ts = length ?rs"
      "foldR ogc_arrive k segs = map_sum id (ogc_set_buf [])
        (foldR (\<lambda>w (t, m). ogc_on_response t w m) k (zip ts (response_stream (n_seq_next_expected k) ?rs)))" by auto
    have "list_all (\<lambda>r. rs_client_id r = ogc_client_id k) ?rs" by (simp add: list_all_iff)
    note h = handle_responses_ok [OF this ts(1)]
    have "length ?rs \<le> q_size (ogs_rx_responses w)" using length_filter_le [of _ ?all] by simp
    then have "q_list (enq_all ?rs (ogc_tx_responses k)) = q_list (ogc_tx_responses k) @ ?rs"
      using enq_all_ok [OF assms(10), of ?rs] assms(11) by linarith
    then show ?thesis using ts(2) h by simp
  qed
  moreover have "length (tx_buffer (server_socket ogs_server i ?w')) = 50 * length ?rs"
    using w1(2) ogc_rx.length_stream by (simp add: server_socket_def)
  ultimately show ?thesis using q by (intro exI [of _ ?w']) auto
qed

theorem gateway_delivers_responses_witness:
  "\<exists>w' k'. ogs_send_responses demo_gateway = Inr w'
    \<and> foldR ogc_arrive demo_client [(tx_buffer (server_socket ogs_server 1 w'), 10)] = Inr k'
    \<and> q_list (ogc_tx_responses k') = [default_response\<lparr>rs_type := RES_ACCEPTED, rs_client_id := 2\<rparr>]"
proof -
  note d = demo_client_ok demo_gateway_ok
  have pre: "q_ok (ogs_rx_responses demo_gateway)"
    "list_all (connected demo_gateway) (q_list (ogs_rx_responses demo_gateway))"
    "\<forall>s \<in> set (socks (ogs_server demo_gateway)). length (tx_buffer s) + 50 * q_size (ogs_rx_responses demo_gateway) < TCP_BUFFER_SIZE"
    "map_client_to_socket demo_gateway (unat (ogc_client_id demo_client)) = Some 1"
    "\<forall>c. c \<noteq> unat (ogc_client_id demo_client) \<longrightarrow> map_client_to_socket demo_gateway c \<noteq> Some 1"
    "tx_buffer (server_socket ogs_server 1 demo_gateway) = []"
    "map_client_to_tx_n_seq demo_gateway (unat (ogc_client_id demo_client)) = n_seq_next_expected demo_client"
    "rx_buffer (ogc_socket demo_client) = []" "tx_buffer (ogc_socket demo_client) = []" "q_ok (ogc_tx_responses demo_client)"
    by (simp_all add: d connected_def new_socket_def TCP_BUFFER_SIZE_def limit_defs)
  have "q_size (ogc_tx_responses demo_client) = 0"
    using length_q_list [of "ogc_tx_responses demo_client"] by (simp add: demo_client_ok(5))
  then have room: "q_size (ogc_tx_responses demo_client) + q_size (ogs_rx_responses demo_gateway) \<le> q_cap (ogc_tx_responses demo_client)"
    by (simp add: demo_client_ok(6) demo_gateway_ok(9))
  obtain w' where w': "ogs_send_responses demo_gateway = Inr w'"
    "length (tx_buffer (server_socket ogs_server 1 w'))
        = 50 * length (filter (\<lambda>r. rs_client_id r = ogc_client_id demo_client) (q_list (ogs_rx_responses demo_gateway)))"
    and del: "\<And>segs. concat (map fst segs) = tx_buffer (server_socket ogs_server 1 w')
        \<Longrightarrow> \<forall>x \<in> set segs. length (fst x) + 50 \<le> TCP_BUFFER_SIZE
        \<Longrightarrow> \<exists>k'. foldR ogc_arrive demo_client segs = Inr k'
              \<and> q_list (ogc_tx_responses k') = q_list (ogc_tx_responses demo_client)
                  @ filter (\<lambda>r. rs_client_id r = ogc_client_id demo_client) (q_list (ogs_rx_responses demo_gateway))"
    using gateway_delivers_responses [OF pre room] by blast
  have mine: "filter (\<lambda>r. rs_client_id r = ogc_client_id demo_client) (q_list (ogs_rx_responses demo_gateway))
      = [default_response\<lparr>rs_type := RES_ACCEPTED, rs_client_id := 2\<rparr>]"
    by (simp add: demo_client_ok(7) demo_gateway_ok(8))
  have "\<forall>x \<in> set [(tx_buffer (server_socket ogs_server 1 w'), 10)]. length (fst x) + 50 \<le> TCP_BUFFER_SIZE"
    using w'(2) unfolding mine by (simp add: TCP_BUFFER_SIZE_def)
  from del [OF _ this] show ?thesis using w'(1) unfolding mine demo_client_ok(5) by auto
qed

end
