(* ===== verification/LF_Queue_SPSC.thy ===== *)
theory LF_Queue_SPSC
  imports LF_Queue
begin

text \<open>
  The two threads of \<open>LL::LFQueue\<close> (\<open>llbase/lfqueue.h\<close>) as a step relation over their
  atomic accesses, in any interleaving. The producer runs \<open>*get_next_to_write() = x\<close>,
  stores \<open>i_write\<close>, increments \<open>n_blocks\<close>; the consumer loads \<open>n_blocks\<close> in \<open>size()\<close>, reads
  the block, stores \<open>i_read\<close>, runs the \<open>ASSERT\<close> and decrements \<open>n_blocks\<close>. The ghost fields
  \<open>written\<close> and \<open>delivered\<close> record the values of the block writes and of the reads.
  \<open>spsc_run\<close> are the states reached while every block write finds \<open>n_blocks\<close> below the
  number of blocks: the code has no such check, so it is the assumption under which the
  queue is used.
\<close>

datatype producer_pc = P_idle | P_written | P_indexed

datatype consumer_pc = C_idle | C_ready | C_read | C_indexed | C_checked | C_failed

record 'a spsc =
  ring :: "'a list"
  cnt :: nat
  widx :: nat
  ridx :: nat
  ppc :: producer_pc
  cpc :: consumer_pc
  written :: "'a list"
  delivered :: "'a list"

definition spsc_init :: "'a list \<Rightarrow> 'a spsc" where
  "spsc_init bs = \<lparr>ring = bs, cnt = 0, widx = 0, ridx = 0, ppc = P_idle, cpc = C_idle,
     written = [], delivered = []\<rparr>"

inductive spsc_step :: "'a spsc \<Rightarrow> 'a spsc \<Rightarrow> bool" where
  write_block: "ppc s = P_idle \<Longrightarrow>
    spsc_step s (s\<lparr>ring := (ring s)[widx s := x], written := written s @ [x], ppc := P_written\<rparr>)"
| store_write_index: "ppc s = P_written \<Longrightarrow>
    spsc_step s (s\<lparr>widx := (widx s + 1) mod length (ring s), ppc := P_indexed\<rparr>)"
| count_up: "ppc s = P_indexed \<Longrightarrow> spsc_step s (s\<lparr>cnt := cnt s + 1, ppc := P_idle\<rparr>)"
| find_empty: "cpc s = C_idle \<Longrightarrow> cnt s = 0 \<Longrightarrow> spsc_step s s"
| find_some: "cpc s = C_idle \<Longrightarrow> cnt s \<noteq> 0 \<Longrightarrow> spsc_step s (s\<lparr>cpc := C_ready\<rparr>)"
| read_block: "cpc s = C_ready \<Longrightarrow>
    spsc_step s (s\<lparr>delivered := delivered s @ [ring s ! ridx s], cpc := C_read\<rparr>)"
| store_read_index: "cpc s = C_read \<Longrightarrow>
    spsc_step s (s\<lparr>ridx := (ridx s + 1) mod length (ring s), cpc := C_indexed\<rparr>)"
| check_count: "cpc s = C_indexed \<Longrightarrow>
    spsc_step s (s\<lparr>cpc := (if cnt s \<noteq> 0 then C_checked else C_failed)\<rparr>)"
| count_down: "cpc s = C_checked \<Longrightarrow> spsc_step s (s\<lparr>cnt := cnt s - 1, cpc := C_idle\<rparr>)"

inductive_cases spsc_stepE: "spsc_step s t"

inductive spsc_run :: "'a list \<Rightarrow> 'a spsc \<Rightarrow> bool" for bs where
  spsc_start: "spsc_run bs (spsc_init bs)"
| spsc_next: "spsc_run bs s \<Longrightarrow> spsc_step s t \<Longrightarrow> ppc s = P_idle \<and> ppc t = P_written \<longrightarrow> cnt s < length (ring s)
     \<Longrightarrow> spsc_run bs t"

text \<open>
  What the fields mean: \<open>published\<close> blocks are counted up, \<open>consumed\<close> ones counted down
  again, and the ring holds every value in between at its position.
\<close>

definition published :: "'a spsc \<Rightarrow> nat" where
  "published s = length (written s) - (if ppc s = P_idle then 0 else 1)"

definition consumed :: "'a spsc \<Rightarrow> nat" where
  "consumed s = length (delivered s) - (if cpc s \<in> {C_idle, C_ready} then 0 else 1)"

definition spsc_inv :: "'a list \<Rightarrow> 'a spsc \<Rightarrow> bool" where
  "spsc_inv bs s \<longleftrightarrow>
     length (ring s) = length bs
   \<and> (ppc s \<noteq> P_idle \<longrightarrow> written s \<noteq> [])
   \<and> (cpc s \<notin> {C_idle, C_ready} \<longrightarrow> delivered s \<noteq> [])
   \<and> published s = consumed s + cnt s
   \<and> length (written s) \<le> consumed s + length bs
   \<and> (cpc s \<noteq> C_idle \<longrightarrow> 0 < cnt s)
   \<and> cpc s \<noteq> C_failed
   \<and> widx s = (published s + (if ppc s = P_indexed then 1 else 0)) mod length bs
   \<and> ridx s = (consumed s + (if cpc s \<in> {C_indexed, C_checked} then 1 else 0)) mod length bs
   \<and> (\<forall>k. consumed s \<le> k \<and> k < length (written s) \<longrightarrow> ring s ! (k mod length bs) = written s ! k)
   \<and> delivered s = take (length (delivered s)) (written s)"

lemma mod_window_inj:
  assumes "a \<le> k" "k < m" "m < a + (n::nat)" "k mod n = m mod n"
  shows False
proof -
  have "k - a = m - a" using mod_add_inj [of a "k - a" n "m - a"] assms by simp
  then show False using assms(1,2) by simp
qed

lemma spsc_inv_init: "bs \<noteq> [] \<Longrightarrow> spsc_inv bs (spsc_init bs)"
  by (simp add: spsc_inv_def spsc_init_def published_def consumed_def)

lemma spsc_inv_write:
  assumes inv: "spsc_inv bs s" and pc: "ppc s = P_idle" and room: "cnt s < length (ring s)"
  shows "spsc_inv bs (s\<lparr>ring := (ring s)[widx s := x], written := written s @ [x], ppc := P_written\<rparr>)"
    (is "spsc_inv bs ?t")
proof -
  have P: "published s = length (written s)" using pc by (simp add: published_def)
  have pub: "published ?t = published s" using pc by (simp add: published_def)
  have con: "consumed ?t = consumed s" by (simp add: consumed_def)
  have room': "length (written s) < consumed s + length bs"
    using inv room P by (simp add: spsc_inv_def)
  have wi: "widx s = length (written s) mod length bs" using inv pc P by (simp add: spsc_inv_def)
  have lt: "widx s < length (ring s)"
    using inv room' wi by (simp add: spsc_inv_def) (metis gr0I mod_less_divisor room not_less0 list.size(3))
  have ringt: "ring ?t ! (k mod length bs) = written ?t ! k"
    if k: "consumed s \<le> k" "k < length (written ?t)" for k
  proof (cases "k = length (written s)")
    case True
    then show ?thesis using lt wi by simp
  next
    case False
    then have k': "k < length (written s)" using k(2) by simp
    then have "k mod length bs \<noteq> widx s"
      using mod_window_inj [of "consumed s" k "length (written s)" "length bs"] k(1) room' wi by auto
    then show ?thesis using inv k(1) k' by (simp add: spsc_inv_def nth_append)
  qed
  have del: "length (delivered s) \<le> length (written s)"
    using inv by (metis min.cobounded1 length_take spsc_inv_def)
  show ?thesis
    using inv pc room' P pub con ringt del wi
    by (auto simp: spsc_inv_def)
qed

lemma spsc_inv_read:
  assumes inv: "spsc_inv bs s" and pc: "cpc s = C_ready"
  shows "spsc_inv bs (s\<lparr>delivered := delivered s @ [ring s ! ridx s], cpc := C_read\<rparr>)"
    (is "spsc_inv bs ?t")
proof -
  have C: "consumed s = length (delivered s)" using pc by (simp add: consumed_def)
  have con: "consumed ?t = consumed s" using C by (simp add: consumed_def)
  have pub: "published ?t = published s" by (simp add: published_def)
  have lt: "consumed s < length (written s)"
    using inv pc by (auto simp: spsc_inv_def published_def split: if_splits)
  have "ring s ! ridx s = written s ! length (delivered s)"
    using inv pc lt C by (simp add: spsc_inv_def)
  then have del: "delivered s @ [ring s ! ridx s] = take (Suc (length (delivered s))) (written s)"
    using inv lt C by (simp add: take_Suc_conv_app_nth) (metis spsc_inv_def)
  show ?thesis
    using inv pc del con pub lt C unfolding spsc_inv_def by (auto simp: min_def)
qed

lemma producer_busy:
  assumes "spsc_inv bs s" "ppc s \<noteq> P_idle"
  shows "length (written s) = Suc (published s)"
proof -
  have "written s \<noteq> []" using assms by (simp add: spsc_inv_def)
  then show ?thesis using assms(2) by (simp add: published_def)
qed

lemma consumer_busy:
  assumes "spsc_inv bs s" "cpc s \<notin> {C_idle, C_ready}"
  shows "length (delivered s) = Suc (consumed s)"
proof -
  have "delivered s \<noteq> []" using assms unfolding spsc_inv_def by blast
  then show ?thesis using assms(2) by (simp add: consumed_def)
qed

lemma delivered_le:
  "spsc_inv bs s \<Longrightarrow> length (delivered s) \<le> length (written s)"
  by (metis min.cobounded1 length_take spsc_inv_def)

lemma spsc_step_inv:
  assumes "spsc_step s t" "spsc_inv bs s"
    and "ppc s = P_idle \<and> ppc t = P_written \<longrightarrow> cnt s < length (ring s)"
  shows "spsc_inv bs t"
  using assms
proof (cases rule: spsc_step.cases)
  case (write_block x)
  then show ?thesis using assms(2,3) spsc_inv_write by fastforce
next
  case read_block
  then show ?thesis using assms(2) spsc_inv_read by fastforce
next
  case store_write_index
  then show ?thesis using assms(2)
    by (auto simp: spsc_inv_def published_def consumed_def mod_simps)
next
  case count_up
  have "published t = Suc (published s)" "consumed t = consumed s"
    using count_up producer_busy [OF assms(2)] by (auto simp: published_def consumed_def)
  then show ?thesis using assms(2) count_up by (auto simp: spsc_inv_def mod_simps)
next
  case store_read_index
  then show ?thesis using assms(2)
    by (auto simp: spsc_inv_def published_def consumed_def mod_simps)
next
  case count_down
  have "published t = published s" "consumed t = Suc (consumed s)"
    using count_down consumer_busy [OF assms(2)] by (auto simp: published_def consumed_def)
  then show ?thesis
    using assms(2) count_down consumer_busy [OF assms(2)] by (auto simp: spsc_inv_def mod_simps)
qed (auto simp: spsc_inv_def published_def consumed_def)

lemma spsc_run_inv: "spsc_run bs s \<Longrightarrow> bs \<noteq> [] \<Longrightarrow> spsc_inv bs s"
  by (induction rule: spsc_run.induct) (auto intro: spsc_inv_init spsc_step_inv)

text \<open>
  C33. In every interleaving of the producer's and the consumer's atomic accesses in which
  no write is started while the queue is full, the values read are a prefix of the values
  written (first in, first out, none lost, duplicated or torn), the consumer's assertion
  that the queue is not empty never fires, and the count never exceeds the ring.
\<close>

theorem spsc_fifo:
  assumes "spsc_run bs s" and "bs \<noteq> []"
  shows "delivered s = take (length (delivered s)) (written s) \<and> cpc s \<noteq> C_failed
    \<and> cnt s \<le> length bs"
proof -
  have inv: "spsc_inv bs s" using assms by (rule spsc_run_inv)
  then have "published s \<le> length (written s)" by (simp add: published_def)
  then show ?thesis using inv by (auto simp: spsc_inv_def)
qed

text \<open>A run of the producer and the consumer on a ring of two blocks: one value written and read.\<close>

lemma spsc_run_example:
  "spsc_run [0, 0::nat] \<lparr>ring = [7, 0], cnt = 1, widx = 1, ridx = 0, ppc = P_idle, cpc = C_read,
     written = [7], delivered = [7]\<rparr>"
proof -
  let ?s = "spsc_init [0, 0::nat]"
  let ?a = "?s\<lparr>ring := [7, 0], written := [7], ppc := P_written\<rparr>"
  let ?b = "?a\<lparr>widx := 1, ppc := P_indexed\<rparr>"
  let ?c = "?b\<lparr>cnt := 1, ppc := P_idle\<rparr>"
  let ?d = "?c\<lparr>cpc := C_ready\<rparr>"
  let ?e = "?d\<lparr>delivered := [7], cpc := C_read\<rparr>"
  have "spsc_step ?s ?a" using write_block [of ?s 7] by (simp add: spsc_init_def)
  then have a: "spsc_run [0, 0] ?a"
    by (rule spsc_next [OF spsc_start]) (simp add: spsc_init_def)
  have "spsc_step ?a ?b" using store_write_index [of ?a] by (simp add: spsc_init_def)
  then have b: "spsc_run [0, 0] ?b" by (rule spsc_next [OF a]) simp
  have "spsc_step ?b ?c" using count_up [of ?b] by (simp add: spsc_init_def)
  then have c: "spsc_run [0, 0] ?c" by (rule spsc_next [OF b]) simp
  have "spsc_step ?c ?d" using find_some [of ?c] by (simp add: spsc_init_def)
  then have d: "spsc_run [0, 0] ?d" by (rule spsc_next [OF c]) simp
  have "spsc_step ?d ?e" using read_block [of ?d] by (simp add: spsc_init_def)
  then have "spsc_run [0, 0] ?e" by (rule spsc_next [OF d]) simp
  then show ?thesis by (simp add: spsc_init_def)
qed

theorem spsc_fifo_witness:
  "\<exists>s. spsc_run [0, 0::nat] s \<and> delivered s = [7] \<and> delivered s = take 1 (written s) \<and> cnt s \<le> 2"
  using spsc_fifo [OF spsc_run_example] spsc_run_example by fastforce

subsection \<open>Two producers\<close>

text \<open>
  The queue has one producer. When two threads write to it and their calls interleave, both
  write the same block: the first message is lost, and the reader gets, after the second, a
  stale block that nobody wrote.
\<close>

theorem two_producers_lose_a_message:
  assumes "q_ok q" "q_size q + 2 \<le> q_cap q"
  shows "q_list (increment_write_index (increment_write_index (get_next_to_write y (get_next_to_write x q))))
    = q_list q @ [y, blocks q ! ((i_write q + 1) mod q_cap q)]"
proof -
  let ?junk = "blocks q ! ((i_write q + 1) mod q_cap q)"
  have w: "i_write q < q_cap q" using assms(1) by (simp add: q_ok_def)
  have ne: "(i_write q + 1) mod q_cap q \<noteq> i_write q"
    using assms(2) w by (auto simp: mod_Suc_eq [symmetric] mod_if)
  have "(blocks q)[i_write q := y, (i_write q + 1) mod q_cap q := ?junk] = (blocks q)[i_write q := y]"
    by (subst list_update_swap [OF ne [symmetric]]) simp
  then have "increment_write_index (increment_write_index (get_next_to_write y (get_next_to_write x q))) = enq ?junk (enq y q)"
    by (simp add: enq_def increment_write_index_def get_next_to_write_def q_cap_def)
  then show ?thesis using assms by (simp add: q_list_enq q_ok_enq)
qed

theorem two_producers_lose_a_message_witness:
  "q_list (increment_write_index (increment_write_index (get_next_to_write 8 (get_next_to_write 7 (new_lfqueue 4 (0 :: nat)))))) = [8, 0]"
  using two_producers_lose_a_message [of "new_lfqueue 4 (0 :: nat)" 8 7] by (simp add: q_ok_new new_lfqueue_def q_ok_def q_cap_def q_list_def)

end
