(* ===== verification/Floats.thy ===== *)
theory Floats
  imports Nitek_Types Complex_Main
begin

text \<open>
  The arithmetic the trading modules do on \<open>double\<close>, \<open>int32_t\<close> and \<open>int64_t\<close>, and the
  configuration structs of \<open>nitek/common/types.h\<close> that hold doubles.

  The operations on \<open>double\<close> are an argument \<open>F\<close> of every definition that uses them: a
  theorem that leaves \<open>F\<close> free holds for every rounding. \<open>exact_ops\<close> is the arithmetic the
  formulas are meant in, real numbers with \<open>None\<close> for a result that is no number; theorems
  about it say that a formula is right before rounding. Signed integers are integers whose
  results are checked against the width, as their overflow is undefined.
\<close>

subsection \<open>Operations on \<open>double\<close>\<close>

record 'f float_ops =
  fadd :: "'f \<Rightarrow> 'f \<Rightarrow> 'f"
  fsub :: "'f \<Rightarrow> 'f \<Rightarrow> 'f"
  fmul :: "'f \<Rightarrow> 'f \<Rightarrow> 'f"
  fdiv :: "'f \<Rightarrow> 'f \<Rightarrow> 'f"
  fof_int :: "int \<Rightarrow> 'f"           \<comment> \<open>the conversion from an integer type\<close>
  fhalf :: 'f                      \<comment> \<open>the literal \<open>0.5\<close>\<close>
  fnan :: 'f                       \<comment> \<open>\<open>quiet_NaN()\<close>\<close>
  fless :: "'f \<Rightarrow> 'f \<Rightarrow> bool"
  fge :: "'f \<Rightarrow> 'f \<Rightarrow> bool"
  feq :: "'f \<Rightarrow> 'f \<Rightarrow> bool"
  fshow :: "'f \<Rightarrow> string"          \<comment> \<open>the stream insertion\<close>

abbreviation fzero :: "'f float_ops \<Rightarrow> 'f" where
  "fzero F \<equiv> fof_int F 0"

definition lift2 :: "(real \<Rightarrow> real \<Rightarrow> real) \<Rightarrow> real option \<Rightarrow> real option \<Rightarrow> real option" where
  "lift2 f x y = (case x of None \<Rightarrow> None | Some a \<Rightarrow> (case y of None \<Rightarrow> None | Some b \<Rightarrow> Some (f a b)))"

definition compare2 :: "(real \<Rightarrow> real \<Rightarrow> bool) \<Rightarrow> real option \<Rightarrow> real option \<Rightarrow> bool" where
  "compare2 f x y = (case x of None \<Rightarrow> False | Some a \<Rightarrow> (case y of None \<Rightarrow> False | Some b \<Rightarrow> f a b))"

definition exact_ops :: "(real option \<Rightarrow> string) \<Rightarrow> real option float_ops" where
  "exact_ops sh = \<lparr>fadd = lift2 (+), fsub = lift2 (-), fmul = lift2 (*),
     fdiv = (\<lambda>x y. if y = Some 0 then None else lift2 (/) x y),
     fof_int = (\<lambda>i. Some (real_of_int i)), fhalf = Some (1 / 2), fnan = None,
     fless = compare2 (<), fge = compare2 (\<ge>), feq = compare2 (=), fshow = sh\<rparr>"

lemma lift2_Some [simp]: "lift2 f (Some a) (Some b) = Some (f a b)"
  by (simp add: lift2_def)

lemma compare2_simps [simp]:
  "compare2 f (Some a) (Some b) = f a b" "compare2 f None y = False" "compare2 f x None = False"
  by (simp_all add: compare2_def split: option.split)

lemma exact_ops_simps [simp]:
  "fadd (exact_ops sh) = lift2 (+)" "fsub (exact_ops sh) = lift2 (-)" "fmul (exact_ops sh) = lift2 (*)"
  "fdiv (exact_ops sh) x (Some b) = (if b = 0 then None else lift2 (/) x (Some b))"
  "fof_int (exact_ops sh) i = Some (real_of_int i)" "fhalf (exact_ops sh) = Some (1 / 2)"
  "fnan (exact_ops sh) = None" "fless (exact_ops sh) = compare2 (<)" "fge (exact_ops sh) = compare2 (\<ge>)"
  "feq (exact_ops sh) = compare2 (=)" "fshow (exact_ops sh) = sh"
  by (simp_all add: exact_ops_def)

subsection \<open>Signed integers\<close>

definition int32 :: "int \<Rightarrow> int res" where
  "int32 i = bindR (require Signed_overflow (- (2 ^ 31) \<le> i \<and> i < 2 ^ 31)) (\<lambda>_. Inr i)"

definition int64 :: "int \<Rightarrow> int res" where
  "int64 i = bindR (require Signed_overflow (- (2 ^ 63) \<le> i \<and> i < 2 ^ 63)) (\<lambda>_. Inr i)"

text \<open>\<open>std::abs\<close> of an \<open>int32_t\<close>.\<close>

definition abs32 :: "int \<Rightarrow> int res" where
  "abs32 i = int32 \<bar>i\<bar>"

lemma int32_ok: "- (2 ^ 31) \<le> i \<Longrightarrow> i < 2 ^ 31 \<Longrightarrow> int32 i = Inr i"
  by (simp add: int32_def)

lemma int64_ok: "- (2 ^ 63) \<le> i \<Longrightarrow> i < 2 ^ 63 \<Longrightarrow> int64 i = Inr i"
  by (simp add: int64_def)

lemma int64_abs: "\<bar>i\<bar> < 2 ^ 63 \<Longrightarrow> int64 i = Inr i"
  by (rule int64_ok) (simp_all add: abs_less_iff)

lemma int32_overflow: "i < - (2 ^ 31) \<or> 2 ^ 31 \<le> i \<Longrightarrow> int32 i = Inl Signed_overflow"
  by (auto simp: int32_def require_def)

lemma int32_eq_Inr: "int32 i = Inr j \<longleftrightarrow> j = i \<and> - (2 ^ 31) \<le> i \<and> i < 2 ^ 31"
  by (auto simp: int32_def require_def)

lemma int64_eq_Inr: "int64 i = Inr j \<longleftrightarrow> j = i \<and> - (2 ^ 63) \<le> i \<and> i < 2 ^ 63"
  by (auto simp: int64_def require_def)

lemma abs32_eq_Inr: "abs32 i = Inr j \<longleftrightarrow> j = \<bar>i\<bar> \<and> \<bar>i\<bar> < 2 ^ 31"
  by (auto simp: abs32_def int32_eq_Inr)

lemma abs32_ok: "\<bar>i\<bar> < 2 ^ 31 \<Longrightarrow> abs32 i = Inr \<bar>i\<bar>"
  by (simp add: abs32_eq_Inr)

lemma sint_small_qty:
  assumes "unat (q :: qty) < 2 ^ 31"
  shows "sint q = int (unat q)"
proof -
  have "int (unat q) < int (2 ^ 31)" using assms by (simp only: of_nat_less_iff)
  then have u: "uint q < 2 ^ 31" by (simp only: uint_nat of_nat_power of_nat_numeral)
  have "- (2 ^ 31) \<le> uint q" by (rule order_trans [OF _ uint_ge_0]) simp
  then have "signed_take_bit 31 (uint q) = uint q" by (rule signed_take_bit_int_eq_self) (rule u)
  then show ?thesis by (simp add: sint_uint)
qed

subsection \<open>Configurations\<close>

record 'f risk_conf =
  size_max :: qty
  position_max :: qty
  loss_max :: 'f

definition default_risk_conf :: "'f float_ops \<Rightarrow> 'f risk_conf" where
  "default_risk_conf F = \<lparr>size_max = 0, position_max = 0, loss_max = fzero F\<rparr>"

definition risk_conf_to_str :: "'f float_ops \<Rightarrow> 'f risk_conf \<Rightarrow> string" where
  "risk_conf_to_str F c = ''<RiskConf>'' @ '' [''
     @ ''size_max: '' @ numeric_to_str (size_max c)
     @ '', position_max: '' @ numeric_to_str (position_max c)
     @ '', loss_max: '' @ fshow F (loss_max c)
     @ '']''"

record 'f trading_engine_conf =
  trade_size :: qty
  threshold :: 'f
  risk_of :: "'f risk_conf"

definition default_engine_conf :: "'f float_ops \<Rightarrow> 'f trading_engine_conf" where
  "default_engine_conf F = \<lparr>trade_size = 0, threshold = fzero F, risk_of = default_risk_conf F\<rparr>"

definition engine_conf_to_str :: "'f float_ops \<Rightarrow> 'f trading_engine_conf \<Rightarrow> string" where
  "engine_conf_to_str F c = ''<TradingEngineConf>'' @ '' [''
     @ ''trade_size: '' @ numeric_to_str (trade_size c)
     @ '', threshold: '' @ fshow F (threshold c)
     @ '', risk: '' @ risk_conf_to_str F (risk_of c)
     @ '']''"

end
