(* ===== verification/Position_Manager.thy ===== *)
theory Position_Manager
  imports Floats Te_Book
begin

text \<open>
  \<open>client/trading/position_manager.h\<close>: the position of each ticker, its volume weighted
  cost and its profit and loss. The pointer to the best bid and offer is followed as what it
  points to, an object that is gone included. The specification is a ledger of the cash paid
  and the units held, which \<open>add_fill\<close> refines in exact arithmetic.
\<close>

subsection \<open>Positions\<close>

datatype bbo_ptr = No_bbo | Bbo bbo | Dangling_bbo

record 'f position =
  position :: int       \<comment> \<open>\<open>int32_t\<close>\<close>
  pnl_real :: 'f
  pnl_unreal :: 'f
  pnl_total :: 'f
  vwap_open :: "'f list"
  volume :: qty
  pos_bbo :: bbo_ptr

definition default_position :: "'f float_ops \<Rightarrow> 'f position" where
  "default_position F = \<lparr>position = 0, pnl_real = fzero F, pnl_unreal = fzero F, pnl_total = fzero F,
     vwap_open = replicate (side_to_index SIDE_MAX + 1) (fzero F), volume = 0, pos_bbo = No_bbo\<rparr>"

definition read_bbo :: "bbo_ptr \<Rightarrow> bbo res" where
  "read_bbo p = (case p of No_bbo \<Rightarrow> Inl Null_deref | Bbo b \<Rightarrow> Inr b | Dangling_bbo \<Rightarrow> Inl Dangling)"

text \<open>The open price of a side, \<open>position ? vwap_open.at(side) / std::abs(position) : 0\<close>.\<close>

definition shown_vwap :: "'f float_ops \<Rightarrow> side \<Rightarrow> 'f position \<Rightarrow> 'f res" where
  "shown_vwap F s p = (if position p \<noteq> 0
     then bindR (abs32 (position p)) (\<lambda>a. Inr (fdiv F (vwap_open p ! side_to_index s) (fof_int F a)))
     else Inr (fzero F))"

definition position_to_str :: "'f float_ops \<Rightarrow> 'f position \<Rightarrow> string res" where
  "position_to_str F p =
     bindR (shown_vwap F BUY p) (\<lambda>vb.
     bindR (shown_vwap F SELL p) (\<lambda>vs.
     bindR (if pos_bbo p \<noteq> No_bbo then bindR (read_bbo (pos_bbo p)) (\<lambda>b. Inr ('' '' @ bbo_to_str b))
            else Inr '''') (\<lambda>sb.
     Inr (''<Position>'' @ '' ['' @ ''pos: '' @ int_to_str (position p)
        @ '' unreal: '' @ fshow F (pnl_unreal p) @ '' real: '' @ fshow F (pnl_real p)
        @ '' pnl: '' @ fshow F (pnl_total p) @ '' vol: '' @ nat_to_str (unat (volume p))
        @ '' vwap: ['' @ fshow F vb @ '' x '' @ fshow F vs @ '']'' @ sb @ '']''))))"

subsection \<open>\<open>Position::add_fill\<close>\<close>

text \<open>The branch for a fill that opens or increases the position.\<close>

definition fill_increase :: "'f float_ops \<Rightarrow> ome_client_response \<Rightarrow> 'f position \<Rightarrow> 'f position res" where
  "fill_increase F r p = (let i = side_to_index (rs_side r) in
     bindR (int64 (sint (rs_price r) * uint (rs_qty_exec r))) (\<lambda>v.
     Inr (p\<lparr>vwap_open := (vwap_open p)[i := fadd F (vwap_open p ! i) (fof_int F v)]\<rparr>)))"

text \<open>
  The branch for a fill that decreases it, \<open>position_old\<close> being the position before: the
  profit is realised, and when the sign flips the rest is opened at the fill's price.
\<close>

definition fill_decrease :: "'f float_ops \<Rightarrow> ome_client_response \<Rightarrow> int \<Rightarrow> 'f position \<Rightarrow> 'f position res" where
  "fill_decrease F r position_old p =
     (let i = side_to_index (rs_side r);
          j = side_to_index (if rs_side r = BUY then SELL else BUY);
          px = fof_int F (sint (rs_price r)) in
     bindR (abs32 position_old) (\<lambda>ao.
     let vwap_opposite = fdiv F (vwap_open p ! j) (fof_int F ao) in
     bindR (abs32 (position p)) (\<lambda>an.
     let p1 = p\<lparr>vwap_open := (vwap_open p)[j := fmul F vwap_opposite (fof_int F an)]\<rparr> in
     bindR (int32 (min (sint (rs_qty_exec r)) ao * side_to_value (rs_side r))) (\<lambda>k.
     let p2 = p1\<lparr>pnl_real := fadd F (pnl_real p1) (fmul F (fof_int F k) (fsub F vwap_opposite px))\<rparr> in
     bindR (int32 (position p2 * position_old)) (\<lambda>m.
     if m < 0
     then Inr (p2\<lparr>vwap_open := ((vwap_open p2)[i := fmul F px (fof_int F an)])[j := fzero F]\<rparr>)
     else Inr p2)))))"

text \<open>The unrealised profit of the open position at a price, as both updates compute it.\<close>

definition unrealised :: "'f float_ops \<Rightarrow> 'f \<Rightarrow> 'f position \<Rightarrow> 'f res" where
  "unrealised F px p =
     bindR (abs32 (position p)) (\<lambda>a.
     let n = fof_int F a in
     Inr (if position p > 0
          then fmul F (fsub F px (fdiv F (vwap_open p ! side_to_index BUY) n)) n
          else fmul F (fsub F (fdiv F (vwap_open p ! side_to_index SELL) n) px) n))"

text \<open>The end of \<open>add_fill\<close>: the profit at the price of the fill.\<close>

definition mark_fill :: "'f float_ops \<Rightarrow> ome_client_response \<Rightarrow> 'f position \<Rightarrow> 'f position res" where
  "mark_fill F r p =
     bindR (if position p = 0
            then Inr (p\<lparr>vwap_open := ((vwap_open p)[side_to_index SELL := fzero F])[side_to_index BUY := fzero F],
                       pnl_unreal := fzero F\<rparr>)
            else bindR (unrealised F (fof_int F (sint (rs_price r))) p) (\<lambda>u. Inr (p\<lparr>pnl_unreal := u\<rparr>)))
       (\<lambda>p1. Inr (p1\<lparr>pnl_total := fadd F (pnl_unreal p1) (pnl_real p1)\<rparr>))"

definition add_fill :: "'f float_ops \<Rightarrow> ome_client_response \<Rightarrow> 'f position \<Rightarrow> 'f position res" where
  "add_fill F r p =
     (let position_old = position p; side_value = side_to_value (rs_side r) in
     bindR (int32 (sint (rs_qty_exec r) * side_value)) (\<lambda>d.
     bindR (int32 (position_old + d)) (\<lambda>new.
     let p1 = p\<lparr>position := new, volume := volume p + rs_qty_exec r\<rparr> in
     bindR (int32 (position_old * side_value)) (\<lambda>dir.
     bindR (if dir \<ge> 0 then fill_increase F r p1 else fill_decrease F r position_old p1) (\<lambda>p2.
     bindR (mark_fill F r p2) (\<lambda>p3.
     bindR (position_to_str F p3) (\<lambda>_. Inr p3)))))))"

subsection \<open>\<open>Position::on_bbo_update\<close>\<close>

text \<open>The argument is the BBO the pointer points to during the call.\<close>

definition position_on_bbo_update :: "'f float_ops \<Rightarrow> bbo \<Rightarrow> 'f position \<Rightarrow> 'f position res" where
  "position_on_bbo_update F new_bbo p =
     (let p0 = p\<lparr>pos_bbo := Bbo new_bbo\<rparr> in
      if position p0 \<noteq> 0 \<and> bbo_bid new_bbo \<noteq> Price_INVALID \<and> bbo_ask new_bbo \<noteq> Price_INVALID
      then bindR (int64 (sint (bbo_bid new_bbo) + sint (bbo_ask new_bbo))) (\<lambda>s.
           let mid = fmul F (fof_int F s) (fhalf F) in
           bindR (unrealised F mid p0) (\<lambda>u.
           let p1 = p0\<lparr>pnl_unreal := u, pnl_total := fadd F u (pnl_real p0)\<rparr> in
           if feq F (pnl_total p1) (pnl_total p0) then Inr p1
           else bindR (position_to_str F p1) (\<lambda>_. Inr p1)))
      else Inr p0)"

subsection \<open>The manager\<close>

type_synonym 'f position_manager = "'f position list"

definition new_position_manager :: "'f float_ops \<Rightarrow> 'f position_manager" where
  "new_position_manager F = replicate MAX_TICKERS (default_position F)"

definition get_position :: "ticker_id \<Rightarrow> 'f position_manager \<Rightarrow> 'f position res" where
  "get_position t ps = bindR (require Out_of_range (unat t < length ps)) (\<lambda>_. Inr (ps ! unat t))"

definition on_position :: "ticker_id \<Rightarrow> ('f position \<Rightarrow> 'f position res) \<Rightarrow> 'f position_manager
    \<Rightarrow> 'f position_manager res" where
  "on_position t f ps = bindR (get_position t ps) (\<lambda>p. bindR (f p) (\<lambda>p'. Inr (ps[unat t := p'])))"

definition pman_add_fill :: "'f float_ops \<Rightarrow> ome_client_response \<Rightarrow> 'f position_manager
    \<Rightarrow> 'f position_manager res" where
  "pman_add_fill F r = on_position (rs_ticker_id r) (add_fill F r)"

definition pman_on_bbo_update :: "'f float_ops \<Rightarrow> ticker_id \<Rightarrow> bbo \<Rightarrow> 'f position_manager
    \<Rightarrow> 'f position_manager res" where
  "pman_on_bbo_update F t b = on_position t (position_on_bbo_update F b)"

text \<open>\<open>PositionManager::to_str\<close>: the loop over the tickers with the two running totals.\<close>

definition report_position :: "'f float_ops \<Rightarrow> 'f position_manager \<Rightarrow> string \<times> 'f \<times> qty \<Rightarrow> nat
    \<Rightarrow> (string \<times> 'f \<times> qty) res" where
  "report_position F ps acc t = (case acc of (s, pnl, vol) \<Rightarrow>
     bindR (get_position (of_nat t) ps) (\<lambda>p.
     bindR (position_to_str F p) (\<lambda>str.
     Inr (s @ ''TickerID: '' @ numeric_to_str (of_nat t :: ticker_id) @ '' '' @ str @ [CHR 0x0A],
          fadd F pnl (pnl_total p), vol + volume p))))"

definition pman_to_str :: "'f float_ops \<Rightarrow> 'f position_manager \<Rightarrow> string res" where
  "pman_to_str F ps =
     bindR (foldR (report_position F ps) ('''', fzero F, 0) [0..<length ps]) (\<lambda>(s, pnl, vol).
     Inr (s @ ''TOTALS - PnL: '' @ fshow F pnl @ '' Volume: '' @ nat_to_str (unat vol) @ [CHR 0x0A]))"

subsection \<open>The ledger\<close>

text \<open>
  What a position stands for: the cash that changed hands in its fills and the units held.
  Valued at a price, it is worth the cash and the units at that price.
\<close>

record ledger =
  cash :: real
  units :: int

definition empty_ledger :: ledger where
  "empty_ledger = \<lparr>cash = 0, units = 0\<rparr>"

definition ledger_fill :: "ome_client_response \<Rightarrow> ledger \<Rightarrow> ledger" where
  "ledger_fill r l =
     (let q = side_to_value (rs_side r) * uint (rs_qty_exec r) in
      \<lparr>cash = cash l - real_of_int (q * sint (rs_price r)), units = units l + q\<rparr>)"

definition worth :: "ledger \<Rightarrow> real \<Rightarrow> real" where
  "worth l px = cash l + real_of_int (units l) * px"

text \<open>
  A fill within the bounds of the integer types: \<open>46340\<close> is the largest position whose
  products with another one fit \<open>int32_t\<close>.
\<close>

definition fill_ok :: "ome_client_response \<Rightarrow> ledger \<Rightarrow> bool" where
  "fill_ok r l \<longleftrightarrow> rs_side r \<in> {BUY, SELL} \<and> unat (rs_qty_exec r) < 2 ^ 31
     \<and> \<bar>units l\<bar> \<le> 46340 \<and> \<bar>units (ledger_fill r l)\<bar> \<le> 46340
     \<and> \<bar>sint (rs_price r) * uint (rs_qty_exec r)\<bar> < 2 ^ 63"

fun fills_ok :: "ome_client_response list \<Rightarrow> ledger \<Rightarrow> bool" where
  "fills_ok [] l \<longleftrightarrow> True"
| "fills_ok (r # rs) l \<longleftrightarrow> fill_ok r l \<and> fills_ok rs (ledger_fill r l)"

text \<open>
  The costs of the open units are on the side of the position, what was realised beside
  them makes up the cash.
\<close>

definition tracks :: "real option position \<Rightarrow> ledger \<Rightarrow> bool" where
  "tracks p l \<longleftrightarrow> position p = units l \<and> pos_bbo p \<noteq> Dangling_bbo \<and>
     (\<exists>re b s x y. pnl_real p = Some re \<and> vwap_open p = [Some s, x, Some b, y]
        \<and> cash l = re - b + s \<and> (units l \<ge> 0 \<longrightarrow> s = 0) \<and> (units l \<le> 0 \<longrightarrow> b = 0))"

lemma tracksE:
  assumes "tracks p l"
  obtains re b s x y where "position p = units l" "pos_bbo p \<noteq> Dangling_bbo" "pnl_real p = Some re"
    "vwap_open p = [Some s, x, Some b, y]" "cash l = re - b + s" "units l \<ge> 0 \<Longrightarrow> s = 0" "units l \<le> 0 \<Longrightarrow> b = 0"
  using assms unfolding tracks_def by blast

lemma tracksI:
  assumes "position p = units l" "pos_bbo p \<noteq> Dangling_bbo" "pnl_real p = Some re"
    "vwap_open p = [Some s, x, Some b, y]" "cash l = re - b + s" "units l \<ge> 0 \<Longrightarrow> s = 0" "units l \<le> 0 \<Longrightarrow> b = 0"
  shows "tracks p l"
  using assms unfolding tracks_def by blast

lemma default_position_tracks: "tracks (default_position (exact_ops sh)) empty_ledger"
  by (rule tracksI [of _ _ 0 0 _ 0]) (simp_all add: default_position_def empty_ledger_def eval_nat_numeral)

lemma position_to_str_ok:
  assumes "\<bar>position p\<bar> < 2 ^ 31" "pos_bbo p \<noteq> Dangling_bbo"
  shows "\<exists>s. position_to_str F p = Inr s"
  using assms by (cases "pos_bbo p") (simp_all add: position_to_str_def shown_vwap_def abs32_ok read_bbo_def)

lemma position_to_str_dangling: "pos_bbo p = Dangling_bbo \<Longrightarrow> \<exists>e. position_to_str F p = Inl e"
  by (auto simp: position_to_str_def shown_vwap_def read_bbo_def bindR_def split: sum.splits)

lemma side_value_simps [simp]: "side_to_value BUY = 1" "side_to_value SELL = -1"
  by (simp_all add: side_to_value_def)

lemma product_in_range:
  fixes a b :: int
  assumes "\<bar>a\<bar> \<le> 46340" "\<bar>b\<bar> \<le> 46340"
  shows "int32 (a * b) = Inr (a * b)"
proof -
  have "\<bar>a * b\<bar> \<le> 46340 * 46340" unfolding abs_mult by (rule mult_mono) (use assms in auto)
  then show ?thesis by (intro int32_ok) auto
qed

lemma fill_increase_tracks:
  assumes t: "tracks p l" and ok: "fill_ok r l" and dir: "units l * side_to_value (rs_side r) \<ge> 0"
  shows "\<exists>p'. fill_increase (exact_ops sh) r
      (p\<lparr>position := units (ledger_fill r l), volume := v\<rparr>) = Inr p' \<and> tracks p' (ledger_fill r l)"
proof -
  obtain re b s x y where p: "pos_bbo p \<noteq> Dangling_bbo" "pnl_real p = Some re"
    "vwap_open p = [Some s, x, Some b, y]" "cash l = re - b + s" "units l \<ge> 0 \<Longrightarrow> s = 0" "units l \<le> 0 \<Longrightarrow> b = 0"
    using t by (blast elim: tracksE)
  obtain q px where q: "uint (rs_qty_exec r) = q" "0 \<le> q" and px: "sint (rs_price r) = px" by simp
  have i: "int64 (px * q) = Inr (px * q)" using ok by (simp add: fill_ok_def int64_abs q px)
  consider (buy) "rs_side r = BUY" | (sell) "rs_side r = SELL" using ok by (auto simp: fill_ok_def)
  then show ?thesis
  proof cases
    case buy
    have u: "units l \<ge> 0" using dir buy by simp
    then have z: "units l + q \<le> 0 \<Longrightarrow> q = 0 \<and> b = 0" using q(2) p(6) by auto
    show ?thesis
      by (auto simp: fill_increase_def Let_def i buy q px p(2,3) p(5) [OF u]
          intro!: tracksI [of _ _ re 0 x "b + real_of_int (px * q)" y])
        (use p(1,4) z in \<open>auto simp: p(5) [OF u] ledger_fill_def buy q px algebra_simps\<close>)
  next
    case sell
    have u: "units l \<le> 0" using dir sell by simp
    then have z: "0 \<le> units l - q \<Longrightarrow> q = 0 \<and> s = 0" using q(2) p(5) by auto
    show ?thesis
      by (auto simp: fill_increase_def Let_def i sell q px p(2,3) p(6) [OF u]
          intro!: tracksI [of _ _ re "s + real_of_int (px * q)" x 0 y])
        (use p(1,4) z in \<open>auto simp: p(6) [OF u] ledger_fill_def sell q px algebra_simps\<close>)
  qed
qed

lemma tracks_update:
  assumes "pos_bbo p \<noteq> Dangling_bbo" "n = units l" "cash l = re - b + s"
    "units l \<ge> 0 \<Longrightarrow> s = 0" "units l \<le> 0 \<Longrightarrow> b = 0"
  shows "tracks (p\<lparr>position := n, volume := v, vwap_open := [Some s, x, Some b, y], pnl_real := Some re\<rparr>) l"
  by (rule tracksI [of _ _ re s x b y]) (use assms in simp_all)

text \<open>The two directions: a buy closes a short position, a sale a long one.\<close>

lemma fill_decrease_buy:
  assumes p: "pos_bbo p \<noteq> Dangling_bbo" "pnl_real p = Some re" "vwap_open p = [Some s, x, Some b, y]"
      "cash l = re - b + s" "units l \<le> 0 \<Longrightarrow> b = 0"
    and ok: "fill_ok r l" and buy: "rs_side r = BUY" and neg: "units l < 0"
  shows "\<exists>p'. fill_decrease (exact_ops sh) r (units l)
      (p\<lparr>position := units (ledger_fill r l), volume := v\<rparr>) = Inr p' \<and> tracks p' (ledger_fill r l)"
proof -
  define q px u u' where q: "q = uint (rs_qty_exec r)" and px: "px = sint (rs_price r)"
    and u: "u = units l" and u': "u' = units (ledger_fill r l)"
  have sq: "sint (rs_qty_exec r) = q" "0 \<le> q"
    using ok sint_small_qty [of "rs_qty_exec r"] by (simp_all add: fill_ok_def q)
  have bd: "\<bar>u\<bar> \<le> 46340" "\<bar>u'\<bar> \<le> 46340" "u < 0" using ok neg u u' by (simp_all add: fill_ok_def)
  have ab: "abs32 u = Inr \<bar>u\<bar>" "abs32 u' = Inr \<bar>u'\<bar>" using bd by (simp_all add: abs32_ok)
  have pr: "int32 (u' * u) = Inr (u' * u)" using bd by (intro product_in_range)
  have k: "int32 (min q (- u)) = Inr (min q (- u))" using bd sq(2) by (intro int32_ok) auto
  have uq: "u' = u + q" by (simp add: u u' ledger_fill_def buy q)
  have l': "ledger_fill r l = \<lparr>cash = re + s - real_of_int (q * px), units = u + q\<rparr>"
    using neg p(4,5) by (simp add: u ledger_fill_def buy q px)
  have m: "(u' * u < 0) = (u' > 0)" using bd(3) by (simp add: mult_less_0_iff)
  let ?pnl = "Some (re + min q (- u) * (s / - real_of_int u - px))"
  have "fill_decrease (exact_ops sh) r (units l) (p\<lparr>position := units (ledger_fill r l), volume := v\<rparr>)
    = Inr (p\<lparr>position := u', volume := v, vwap_open := (if u' > 0 then [Some 0, x, Some (px * u'), y]
         else [Some (s / - real_of_int u * \<bar>u'\<bar>), x, Some b, y]), pnl_real := ?pnl\<rparr>)"
    using bd(3) by (simp add: fill_decrease_def Let_def buy sq ab pr k m p(2,3) flip: q px u u')
  moreover have "tracks (p\<lparr>position := u', volume := v, vwap_open := [Some 0, x, Some (px * u'), y],
      pnl_real := ?pnl\<rparr>) (ledger_fill r l)" if "u' > 0"
    by (rule tracks_update) (use that bd uq p(1) in \<open>simp_all add: l' min_def field_simps\<close>)
  moreover have "tracks (p\<lparr>position := u', volume := v,
      vwap_open := [Some (s / - real_of_int u * \<bar>u'\<bar>), x, Some b, y], pnl_real := ?pnl\<rparr>) (ledger_fill r l)" if "\<not> u' > 0"
    by (rule tracks_update) (use that bd uq p(1,5) u in \<open>simp_all add: l' min_def field_simps\<close>)
  ultimately show ?thesis by simp
qed

lemma fill_decrease_sell:
  assumes p: "pos_bbo p \<noteq> Dangling_bbo" "pnl_real p = Some re" "vwap_open p = [Some s, x, Some b, y]"
      "cash l = re - b + s" "units l \<ge> 0 \<Longrightarrow> s = 0"
    and ok: "fill_ok r l" and sell: "rs_side r = SELL" and pos: "units l > 0"
  shows "\<exists>p'. fill_decrease (exact_ops sh) r (units l)
      (p\<lparr>position := units (ledger_fill r l), volume := v\<rparr>) = Inr p' \<and> tracks p' (ledger_fill r l)"
proof -
  define q px u u' where q: "q = uint (rs_qty_exec r)" and px: "px = sint (rs_price r)"
    and u: "u = units l" and u': "u' = units (ledger_fill r l)"
  have sq: "sint (rs_qty_exec r) = q" "0 \<le> q"
    using ok sint_small_qty [of "rs_qty_exec r"] by (simp_all add: fill_ok_def q)
  have bd: "\<bar>u\<bar> \<le> 46340" "\<bar>u'\<bar> \<le> 46340" "u > 0" using ok pos u u' by (simp_all add: fill_ok_def)
  have ab: "abs32 u = Inr \<bar>u\<bar>" "abs32 u' = Inr \<bar>u'\<bar>" using bd by (simp_all add: abs32_ok)
  have pr: "int32 (u' * u) = Inr (u' * u)" using bd by (intro product_in_range)
  have k: "int32 (min q u * - 1) = Inr (- min q u)" using bd sq(2) by (simp add: int32_ok)
  have uq: "u' = u - q" by (simp add: u u' ledger_fill_def sell q)
  have l': "ledger_fill r l = \<lparr>cash = re - b + real_of_int (q * px), units = u - q\<rparr>"
    using pos p(4,5) by (simp add: u ledger_fill_def sell q px)
  have m: "(u' * u < 0) = (u' < 0)" using bd(3) by (simp add: mult_less_0_iff)
  let ?pnl = "Some (re + - min q u * (b / u - px))"
  have "fill_decrease (exact_ops sh) r (units l) (p\<lparr>position := units (ledger_fill r l), volume := v\<rparr>)
    = Inr (p\<lparr>position := u', volume := v, vwap_open := (if u' < 0 then [Some (px * \<bar>u'\<bar>), x, Some 0, y]
         else [Some s, x, Some (b / u * \<bar>u'\<bar>), y]), pnl_real := ?pnl\<rparr>)"
    using bd(3) k by (simp add: fill_decrease_def Let_def sell sq ab pr m p(2,3) flip: q px u u')
  moreover have "tracks (p\<lparr>position := u', volume := v, vwap_open := [Some (px * \<bar>u'\<bar>), x, Some 0, y],
      pnl_real := ?pnl\<rparr>) (ledger_fill r l)" if "u' < 0"
    by (rule tracks_update) (use that bd p(1) in \<open>simp_all add: uq l' min_def field_simps\<close>)
  moreover have "tracks (p\<lparr>position := u', volume := v, vwap_open := [Some s, x, Some (b / u * \<bar>u'\<bar>), y],
      pnl_real := ?pnl\<rparr>) (ledger_fill r l)" if "\<not> u' < 0"
    by (rule tracks_update) (use that bd p(1,5) u in \<open>simp_all add: uq l' min_def field_simps\<close>)
  ultimately show ?thesis by simp
qed

lemma fill_decrease_tracks:
  assumes t: "tracks p l" and ok: "fill_ok r l" and dir: "units l * side_to_value (rs_side r) < 0"
  shows "\<exists>p'. fill_decrease (exact_ops sh) r (units l)
      (p\<lparr>position := units (ledger_fill r l), volume := v\<rparr>) = Inr p' \<and> tracks p' (ledger_fill r l)"
proof -
  obtain re b s x y where p: "pos_bbo p \<noteq> Dangling_bbo" "pnl_real p = Some re"
    "vwap_open p = [Some s, x, Some b, y]" "cash l = re - b + s" "units l \<ge> 0 \<Longrightarrow> s = 0" "units l \<le> 0 \<Longrightarrow> b = 0"
    using t by (blast elim: tracksE)
  consider (buy) "rs_side r = BUY" | (sell) "rs_side r = SELL" using ok by (auto simp: fill_ok_def)
  then show ?thesis
  proof cases
    case buy
    then show ?thesis using fill_decrease_buy [OF p(1-4,6) ok buy] dir by simp
  next
    case sell
    then show ?thesis using fill_decrease_sell [OF p(1-5) ok sell] dir by simp
  qed
qed

lemma unrealised_exact:
  assumes t: "tracks p l" and u: "\<bar>units l\<bar> \<le> 46340" "units l \<noteq> 0"
  obtains re w where "unrealised (exact_ops sh) (Some px) p = Inr (Some w)" "pnl_real p = Some re"
    "w + re = worth l px"
proof -
  obtain re b s x y where p: "position p = units l" "pnl_real p = Some re"
    "vwap_open p = [Some s, x, Some b, y]" "cash l = re - b + s" "units l \<ge> 0 \<Longrightarrow> s = 0" "units l \<le> 0 \<Longrightarrow> b = 0"
    using t by (blast elim: tracksE)
  have ab: "abs32 (units l) = Inr \<bar>units l\<bar>" using u(1) by (simp add: abs32_ok)
  show thesis
  proof (cases "units l > 0")
    case True
    then have re: "re = cash l + b" using p(4,5) by simp
    from True have "unrealised (exact_ops sh) (Some px) p = Inr (Some ((px - b / units l) * units l))"
      by (simp add: unrealised_def p(1,3) ab)
    then show thesis by (rule that [OF _ p(2)]) (use True re in \<open>simp add: worth_def field_simps\<close>)
  next
    case False
    then have re: "cash l = re + s" using p(4,6) by simp
    from False have "unrealised (exact_ops sh) (Some px) p = Inr (Some ((s / - units l - px) * - units l))"
      using u(2) by (simp add: unrealised_def p(1,3) ab)
    then show thesis by (rule that [OF _ p(2)]) (use False u(2) in \<open>simp add: re worth_def field_simps\<close>)
  qed
qed

lemma mark_fill_tracks:
  assumes t: "tracks p l" and u: "\<bar>units l\<bar> \<le> 46340"
  shows "\<exists>p'. mark_fill (exact_ops sh) r p = Inr p' \<and> tracks p' l
     \<and> pnl_total p' = Some (worth l (sint (rs_price r)))"
proof -
  obtain re b s x y where p: "position p = units l" "pos_bbo p \<noteq> Dangling_bbo" "pnl_real p = Some re"
    "vwap_open p = [Some s, x, Some b, y]" "cash l = re - b + s" "units l \<ge> 0 \<Longrightarrow> s = 0" "units l \<le> 0 \<Longrightarrow> b = 0"
    using t by (blast elim: tracksE)
  show ?thesis
  proof (cases "units l = 0")
    case True
    then show ?thesis
      using p by (auto simp: mark_fill_def worth_def intro!: tracksI [of _ _ re 0 x 0 y])
  next
    case False
    obtain re' w where w: "unrealised (exact_ops sh) (Some (sint (rs_price r))) p = Inr (Some w)" "pnl_real p = Some re'"
      "w + re' = worth l (sint (rs_price r))" by (rule unrealised_exact [OF t u False])
    then show ?thesis
      using False p by (auto simp: mark_fill_def intro!: tracksI [of _ _ re s x b y])
  qed
qed

lemma add_fill_tracks:
  assumes t: "tracks p l" and ok: "fill_ok r l"
  shows "\<exists>p'. add_fill (exact_ops sh) r p = Inr p' \<and> tracks p' (ledger_fill r l)
     \<and> pnl_total p' = Some (worth (ledger_fill r l) (sint (rs_price r)))"
proof -
  let ?l = "ledger_fill r l" and ?F = "exact_ops sh"
  define p1 where "p1 = p\<lparr>position := units ?l, volume := volume p + rs_qty_exec r\<rparr>"
  have pos: "position p = units l" using t by (simp add: tracks_def)
  have sq: "sint (rs_qty_exec r) = uint (rs_qty_exec r)"
    using ok sint_small_qty [of "rs_qty_exec r"] by (simp add: fill_ok_def)
  have bd: "\<bar>units l\<bar> \<le> 46340" "\<bar>units ?l\<bar> \<le> 46340" "rs_side r = BUY \<or> rs_side r = SELL"
    using ok by (auto simp: fill_ok_def)
  have step: "units ?l = units l + sint (rs_qty_exec r) * side_to_value (rs_side r)"
    using bd(3) by (auto simp: ledger_fill_def sq)
  have d: "int32 (sint (rs_qty_exec r) * side_to_value (rs_side r)) = Inr (sint (rs_qty_exec r) * side_to_value (rs_side r))"
    using step bd(1,2) by (intro int32_ok) auto
  have dir: "int32 (units l * side_to_value (rs_side r)) = Inr (units l * side_to_value (rs_side r))"
    using bd by (intro int32_ok) auto
  have new: "int32 (units l + sint (rs_qty_exec r) * side_to_value (rs_side r)) = Inr (units ?l)"
    unfolding step [symmetric] using bd(2) by (intro int32_ok) auto
  obtain p2 where p2: "(if units l * side_to_value (rs_side r) \<ge> 0 then fill_increase ?F r p1
      else fill_decrease ?F r (units l) p1) = Inr p2" "tracks p2 ?l"
    using fill_increase_tracks [OF t ok] fill_decrease_tracks [OF t ok]
    unfolding p1_def by (cases "units l * side_to_value (rs_side r) \<ge> 0") (force simp: not_le)+
  obtain p3 where p3: "mark_fill ?F r p2 = Inr p3" "tracks p3 ?l" "pnl_total p3 = Some (worth ?l (sint (rs_price r)))"
    using mark_fill_tracks [OF p2(2) bd(2)] by blast
  obtain str where "position_to_str ?F p3 = Inr str"
    using position_to_str_ok [of p3 ?F] p3(2) bd(2) by (auto simp: tracks_def)
  then have "add_fill ?F r p = Inr p3"
    using p2(1) by (cases "units l * side_to_value (rs_side r) \<ge> 0")
      (simp_all add: add_fill_def Let_def pos d dir new p3(1) flip: p1_def)
  then show ?thesis using p3 by blast
qed

lemma fills_track:
  assumes "tracks p l" "fills_ok rs l"
  shows "\<exists>p'. foldR (\<lambda>p r. add_fill (exact_ops sh) r p) p rs = Inr p' \<and> tracks p' (fold ledger_fill rs l)"
  using assms
proof (induction rs arbitrary: p l)
  case (Cons r rs)
  obtain p1 where p1: "add_fill (exact_ops sh) r p = Inr p1" "tracks p1 (ledger_fill r l)"
    using add_fill_tracks [OF Cons.prems(1)] Cons.prems(2) by (metis fills_ok.simps(2))
  show ?case using Cons.IH [OF p1(2)] Cons.prems(2) p1(1) by simp
qed simp

lemma fills_ok_append: "fills_ok (rs @ ss) l \<longleftrightarrow> fills_ok rs l \<and> fills_ok ss (fold ledger_fill rs l)"
  by (induction rs arbitrary: l) auto

definition quoted :: "bbo \<Rightarrow> bool" where
  "quoted b \<longleftrightarrow> bbo_bid b \<noteq> Price_INVALID \<and> bbo_ask b \<noteq> Price_INVALID"

definition mid_price :: "bbo \<Rightarrow> real" where
  "mid_price b = (sint (bbo_bid b) + sint (bbo_ask b)) / 2"

lemma bbo_update_tracks:
  assumes t: "tracks p l" and u: "\<bar>units l\<bar> \<le> 46340" and b: "quoted b"
    and s: "\<bar>sint (bbo_bid b) + sint (bbo_ask b)\<bar> < 2 ^ 63"
    and total: "units l = 0 \<Longrightarrow> pnl_total p = Some (cash l)"
  shows "\<exists>p'. position_on_bbo_update (exact_ops sh) b p = Inr p' \<and> tracks p' l
     \<and> pnl_total p' = Some (worth l (mid_price b))"
proof -
  let ?p = "p\<lparr>pos_bbo := Bbo b\<rparr>" and ?F = "exact_ops sh"
  have t': "tracks ?p l" using t by (auto simp: tracks_def)
  have pos: "position p = units l" using t by (simp add: tracks_def)
  show ?thesis
  proof (cases "units l = 0")
    case True
    then show ?thesis
      using t' total by (simp add: position_on_bbo_update_def Let_def pos worth_def)
  next
    case False
    have i: "int64 (sint (bbo_bid b) + sint (bbo_ask b)) = Inr (sint (bbo_bid b) + sint (bbo_ask b))"
      by (rule int64_abs [OF s])
    obtain re w where w: "unrealised ?F (Some (mid_price b)) ?p = Inr (Some w)" "pnl_real ?p = Some re"
      "w + re = worth l (mid_price b)" by (rule unrealised_exact [OF t' u False])
    let ?p1 = "?p\<lparr>pnl_unreal := Some w, pnl_total := Some (worth l (mid_price b))\<rparr>"
    have t1: "tracks ?p1 l" using t' by (auto simp: tracks_def)
    obtain str where str: "position_to_str ?F ?p1 = Inr str"
      using position_to_str_ok [of ?p1 ?F] u by (auto simp: pos)
    have "position_on_bbo_update ?F b p = Inr ?p1"
      using False b w str
      by (simp add: position_on_bbo_update_def Let_def pos quoted_def i mid_price_def)
    then show ?thesis using t1 by simp
  qed
qed

lemma fills_pnl_tracked:
  assumes ok: "fills_ok (rs @ [r]) empty_ledger"
  obtains p where "foldR (\<lambda>p r. add_fill (exact_ops sh) r p) (default_position (exact_ops sh)) (rs @ [r]) = Inr p"
    "tracks p (fold ledger_fill (rs @ [r]) empty_ledger)"
    "pnl_total p = Some (worth (fold ledger_fill (rs @ [r]) empty_ledger) (sint (rs_price r)))"
proof -
  let ?l = "fold ledger_fill rs empty_ledger"
  have ok1: "fills_ok rs empty_ledger" "fill_ok r ?l" using ok by (simp_all add: fills_ok_append)
  obtain p1 where p1: "foldR (\<lambda>p r. add_fill (exact_ops sh) r p) (default_position (exact_ops sh)) rs = Inr p1"
    "tracks p1 ?l" using fills_track [OF default_position_tracks ok1(1)] by blast
  obtain p2 where p2: "add_fill (exact_ops sh) r p1 = Inr p2" "tracks p2 (ledger_fill r ?l)"
    "pnl_total p2 = Some (worth (ledger_fill r ?l) (sint (rs_price r)))"
    using add_fill_tracks [OF p1(2) ok1(2)] by blast
  show thesis by (rule that [of p2]) (use p1(1) p2 in \<open>simp_all add: foldR_append\<close>)
qed

subsection \<open>Properties\<close>

definition demo_fill :: "side \<Rightarrow> price \<Rightarrow> qty \<Rightarrow> ome_client_response" where
  "demo_fill s px q = default_response\<lparr>rs_type := RES_FILLED, rs_ticker_id := 0, rs_side := s,
     rs_price := px, rs_qty_exec := q\<rparr>"

definition demo_bbo :: bbo where
  "demo_bbo = \<lparr>bbo_bid = 100, bbo_ask = 104, bbo_bid_qty = 10, bbo_ask_qty = 30\<rparr>"

lemma demo_fills_ok: "fills_ok ([demo_fill BUY 100 10, demo_fill SELL 107 15] @ [demo_fill BUY 90 3]) empty_ledger"
  by (simp add: fill_ok_def ledger_fill_def demo_fill_def empty_ledger_def)

text \<open>
  C10. Profit and loss, in exact arithmetic: after any sequence of fills within the bounds of the
  integer types the position is the units held and its total profit is the cash that changed
  hands plus the units at the price of the last fill; a BBO update then values the same ledger
  at the mid price.
\<close>

theorem fills_pnl:
  assumes "fills_ok (rs @ [r]) empty_ledger" and "quoted b"
    and "\<bar>sint (bbo_bid b) + sint (bbo_ask b)\<bar> < 2 ^ 63"
  shows "\<exists>p p'. foldR (\<lambda>p r. add_fill (exact_ops sh) r p) (default_position (exact_ops sh)) (rs @ [r]) = Inr p
     \<and> position p = units (fold ledger_fill (rs @ [r]) empty_ledger)
     \<and> pnl_total p = Some (worth (fold ledger_fill (rs @ [r]) empty_ledger) (sint (rs_price r)))
     \<and> position_on_bbo_update (exact_ops sh) b p = Inr p'
     \<and> pnl_total p' = Some (worth (fold ledger_fill (rs @ [r]) empty_ledger) (mid_price b))"
proof -
  let ?L = "fold ledger_fill (rs @ [r]) empty_ledger"
  obtain p where p: "foldR (\<lambda>p r. add_fill (exact_ops sh) r p) (default_position (exact_ops sh)) (rs @ [r]) = Inr p"
    "tracks p ?L" "pnl_total p = Some (worth ?L (sint (rs_price r)))"
    by (rule fills_pnl_tracked [OF assms(1)])
  have u: "\<bar>units ?L\<bar> \<le> 46340" using assms(1) by (simp add: fills_ok_append fill_ok_def)
  have z: "units ?L = 0 \<Longrightarrow> pnl_total p = Some (cash ?L)" using p(3) by (simp add: worth_def)
  obtain p' where p': "position_on_bbo_update (exact_ops sh) b p = Inr p'" "pnl_total p' = Some (worth ?L (mid_price b))"
    using bbo_update_tracks [OF p(2) u assms(2,3) z] by blast
  have "position p = units ?L" using p(2) by (simp add: tracks_def)
  then show ?thesis using p(1,3) p' by blast
qed

theorem fills_pnl_witness:
  "\<exists>p p'. foldR (\<lambda>p r. add_fill (exact_ops (\<lambda>_. ''x'')) r p) (default_position (exact_ops (\<lambda>_. ''x'')))
       ([demo_fill BUY 100 10, demo_fill SELL 107 15] @ [demo_fill BUY 90 3]) = Inr p
     \<and> position p = - 2 \<and> pnl_total p = Some 155
     \<and> position_on_bbo_update (exact_ops (\<lambda>_. ''x'')) demo_bbo p = Inr p' \<and> pnl_total p' = Some 131"
proof -
  have q: "quoted demo_bbo" "\<bar>sint (bbo_bid demo_bbo) + sint (bbo_ask demo_bbo)\<bar> < 2 ^ 63"
    by (simp_all add: quoted_def demo_bbo_def Price_INVALID_def)
  show ?thesis
    using fills_pnl [OF demo_fills_ok q, of "\<lambda>_. ''x''"]
    by (simp add: ledger_fill_def demo_fill_def empty_ledger_def worth_def mid_price_def demo_bbo_def)
qed

text \<open>
  The test for a flipped position multiplies the positions before and after the fill as
  \<open>int32_t\<close>. Whenever a long position is reduced and that product reaches \<open>2^31\<close>, as from
  50000 to 49999, the fill is undefined behaviour, whatever the prices and the arithmetic.
\<close>

theorem add_fill_product_overflows:
  assumes "rs_side r = SELL" "unat (rs_qty_exec r) < 2 ^ 31" "position p < 2 ^ 31"
    and "uint (rs_qty_exec r) < position p"
    and "2 ^ 31 \<le> (position p - uint (rs_qty_exec r)) * position p"
  shows "add_fill F r p = Inl Signed_overflow"
proof -
  obtain q u where q: "uint (rs_qty_exec r) = q" "0 \<le> q" and u: "position p = u" by simp
  have sq: "sint (rs_qty_exec r) = q" using sint_small_qty [OF assms(2)] q(1) by simp
  have b: "q < u" "u < 2 ^ 31" "2 ^ 31 \<le> (u - q) * u" using assms q u by simp_all
  have i: "int32 (- q) = Inr (- q)" "int32 (u - q) = Inr (u - q)" "int32 (- u) = Inr (- u)"
    "abs32 u = Inr u" "abs32 (u - q) = Inr (u - q)" "int32 (- min q u) = Inr (- min q u)"
    using b q(2) by (simp_all add: int32_ok abs32_ok)
  have o: "int32 ((u - q) * u) = Inl Signed_overflow" by (rule int32_overflow) (use b(3) in simp)
  have d: "\<not> 0 \<le> - u" using b(1) q(2) by simp
  show ?thesis
    using d i o by (simp add: add_fill_def fill_decrease_def Let_def assms(1) sq u)
qed

theorem add_fill_product_overflows_witness:
  "add_fill (exact_ops (\<lambda>_. ''x'')) (demo_fill SELL 100 1)
    ((default_position (exact_ops (\<lambda>_. ''x'')))\<lparr>position := 50000\<rparr>) = Inl Signed_overflow"
  by (rule add_fill_product_overflows) (simp_all add: demo_fill_def)

end
