(* ===== verification/Risk_Manager.thy ===== *)
theory Risk_Manager
  imports Position_Manager
begin

text \<open>
  \<open>client/trading/risk_manager.h\<close>: the risk limits of each ticker, checked before an order is
  sent. A \<open>Risk\<close> holds a pointer to the ticker's position in the position manager; here the
  manager is the list of the limits, and each operation takes the positions it points into.
\<close>

datatype risk_result = RISK_INVALID | SIZE_TOO_LARGE | POSITION_TOO_LARGE | LOSS_TOO_LARGE | ALLOWED

fun result_to_str :: "risk_result \<Rightarrow> string" where
  "result_to_str RISK_INVALID = ''INVALID''"
| "result_to_str SIZE_TOO_LARGE = ''SIZE_TOO_LARGE''"
| "result_to_str POSITION_TOO_LARGE = ''POSITION_TOO_LARGE''"
| "result_to_str LOSS_TOO_LARGE = ''LOSS_TOO_LARGE''"
| "result_to_str ALLOWED = ''ALLOWED''"

text \<open>\<open>Risk::get_trade_risk\<close>, of one position; the casts of quantities to \<open>int32_t\<close> are \<open>sint\<close>.\<close>

definition trade_risk :: "'f float_ops \<Rightarrow> 'f risk_conf \<Rightarrow> 'f position \<Rightarrow> side \<Rightarrow> qty \<Rightarrow> risk_result res" where
  "trade_risk F conf p sd q =
     (if q > size_max conf then Inr SIZE_TOO_LARGE
      else bindR (int32 (side_to_value sd * sint q)) (\<lambda>d.
           bindR (int32 (position p + d)) (\<lambda>n.
           bindR (abs32 n) (\<lambda>a.
           if a > sint (position_max conf) then Inr POSITION_TOO_LARGE
           else if fless F (pnl_total p) (loss_max conf) then Inr LOSS_TOO_LARGE
           else Inr ALLOWED))))"

definition risk_to_str :: "'f float_ops \<Rightarrow> 'f risk_conf \<Rightarrow> 'f position \<Rightarrow> string res" where
  "risk_to_str F conf p = bindR (position_to_str F p) (\<lambda>s.
     Inr (''<Risk>'' @ '' ['' @ ''position: '' @ s @ '', config: '' @ risk_conf_to_str F conf @ '']''))"

type_synonym 'f risk_manager = "'f risk_conf list"

definition new_risk_manager :: "'f trading_engine_conf list \<Rightarrow> 'f risk_manager" where
  "new_risk_manager confs = map (\<lambda>t. risk_of (confs ! t)) [0..<MAX_TICKERS]"

definition get_trade_risk :: "'f float_ops \<Rightarrow> 'f risk_manager \<Rightarrow> 'f position_manager
    \<Rightarrow> ticker_id \<Rightarrow> side \<Rightarrow> qty \<Rightarrow> risk_result res" where
  "get_trade_risk F rm ps t sd q =
     bindR (require Out_of_range (unat t < length rm)) (\<lambda>_.
     trade_risk F (rm ! unat t) (ps ! unat t) sd q)"

subsection \<open>What an allowed order can do\<close>

lemma add_fill_position:
  assumes "add_fill F r p = Inr p'"
  shows "position p' = position p + sint (rs_qty_exec r) * side_to_value (rs_side r)"
proof -
  have m: "position p3 = position p2" if "mark_fill F r p2 = Inr p3" for p2 p3
    using that by (auto simp: mark_fill_def bindR_eq_Inr split: if_splits)
  have d: "position p3 = position p2" if "fill_decrease F r n p2 = Inr p3" for p2 p3 n
    using that by (auto simp: fill_decrease_def Let_def bindR_eq_Inr split: if_splits)
  have i: "position p3 = position p2" if "fill_increase F r p2 = Inr p3" for p2 p3
    using that by (auto simp: fill_increase_def Let_def bindR_eq_Inr)
  show ?thesis
    using assms by (auto simp: add_fill_def Let_def bindR_eq_Inr int32_eq_Inr split: if_splits dest!: m d i)
qed

lemma trade_risk_allowed:
  assumes "trade_risk F conf p sd q = Inr ALLOWED"
  shows "q \<le> size_max conf" "\<bar>position p + side_to_value sd * sint q\<bar> \<le> sint (position_max conf)"
    "\<not> fless F (pnl_total p) (loss_max conf)"
  using assms by (auto simp: trade_risk_def bindR_eq_Inr int32_eq_Inr abs32_eq_Inr split: if_splits)

lemma between_bound:
  fixes a q k s :: int
  assumes "0 \<le> k" "k \<le> q"
  shows "\<bar>a + k * s\<bar> \<le> max \<bar>a\<bar> \<bar>a + s * q\<bar>"
proof (cases "0 \<le> s")
  case True
  then have "0 \<le> k * s" "k * s \<le> s * q"
    using assms mult_right_mono [OF assms(2), of s] by (simp_all add: mult.commute)
  then show ?thesis by linarith
next
  case False
  then have "k * s \<le> 0" "s * q \<le> k * s"
    using assms mult_right_mono_neg [OF assms(2), of s] by (simp_all add: mult.commute mult_nonneg_nonpos)
  then show ?thesis by linarith
qed

text \<open>
  C24. An order that passes the risk check keeps the position within bounds: whatever part of it
  is filled, the new position is at most the configured maximum or the old position, if that
  was above the maximum already. The size limit must itself be below \<open>2^31\<close>, as the check
  converts the quantity to a signed integer.
\<close>

theorem risk_bounds_position:
  assumes "get_trade_risk F rm ps t sd q = Inr ALLOWED" and "unat (size_max (rm ! unat t)) < 2 ^ 31"
    and "rs_side r = sd" "rs_qty_exec r \<le> q"
    and "add_fill F r (ps ! unat t) = Inr p'"
  shows "\<bar>position p'\<bar> \<le> max \<bar>position (ps ! unat t)\<bar> (sint (position_max (rm ! unat t)))"
proof -
  let ?p = "ps ! unat t"
  have a: "trade_risk F (rm ! unat t) ?p sd q = Inr ALLOWED"
    using assms(1) by (auto simp: get_trade_risk_def bindR_eq_Inr)
  have le: "unat (rs_qty_exec r) \<le> unat q" "unat q \<le> unat (size_max (rm ! unat t))"
    using trade_risk_allowed(1) [OF a] assms(4) by (simp_all add: word_le_nat_alt)
  have small: "unat q < 2 ^ 31" using le(2) assms(2) by (rule order.strict_trans1)
  have "unat (rs_qty_exec r) < 2 ^ 31" using le(1) small by (rule order.strict_trans1)
  then have s: "sint q = int (unat q)" "sint (rs_qty_exec r) = int (unat (rs_qty_exec r))"
    using small by (simp_all only: sint_small_qty)
  have k: "0 \<le> sint (rs_qty_exec r)" "sint (rs_qty_exec r) \<le> sint q"
    unfolding s using le(1) by (simp_all only: of_nat_0_le_iff of_nat_le_iff)
  have "\<bar>position p'\<bar> \<le> max \<bar>position ?p\<bar> \<bar>position ?p + side_to_value sd * sint q\<bar>"
    unfolding add_fill_position [OF assms(5)] assms(3) by (rule between_bound [OF k])
  then show ?thesis using trade_risk_allowed(2) [OF a] by linarith
qed

definition demo_risk_conf :: "real option risk_conf" where
  "demo_risk_conf = \<lparr>size_max = 20, position_max = 30, loss_max = Some (- 100)\<rparr>"

theorem risk_bounds_position_witness:
  "\<exists>p'. get_trade_risk (exact_ops (\<lambda>_. ''x'')) [demo_risk_conf] [default_position (exact_ops (\<lambda>_. ''x''))] 0 BUY 20 = Inr ALLOWED
     \<and> add_fill (exact_ops (\<lambda>_. ''x'')) (demo_fill BUY 100 10) (default_position (exact_ops (\<lambda>_. ''x''))) = Inr p'
     \<and> \<bar>position p'\<bar> \<le> 30"
proof -
  let ?F = "exact_ops (\<lambda>_. ''x'')"
  have a: "get_trade_risk ?F [demo_risk_conf] [default_position ?F] 0 BUY 20 = Inr ALLOWED"
    by (simp add: get_trade_risk_def trade_risk_def demo_risk_conf_def default_position_def int32_ok abs32_ok)
  obtain p' where p': "add_fill ?F (demo_fill BUY 100 10) (default_position ?F) = Inr p'"
    using add_fill_tracks [OF default_position_tracks, of "demo_fill BUY 100 10" "\<lambda>_. ''x''"]
    by (auto simp: fill_ok_def ledger_fill_def demo_fill_def empty_ledger_def)
  have "\<bar>position p'\<bar> \<le> max \<bar>position ([default_position ?F] ! unat (0 :: ticker_id))\<bar>
      (sint (position_max ([demo_risk_conf] ! unat (0 :: ticker_id))))"
    by (rule risk_bounds_position [OF a, of "demo_fill BUY 100 10"]) (use p' in \<open>simp_all add: demo_risk_conf_def demo_fill_def\<close>)
  then show ?thesis using a p' by (simp add: default_position_def demo_risk_conf_def)
qed

end
