(* ===== verification/Order_Manager.thy ===== *)
theory Order_Manager
  imports Risk_Manager LF_Queue
begin

text \<open>
  \<open>client/trading/om_order.h\<close> and \<open>client/trading/order_manager.{h,cpp}\<close>: the client's own
  orders, one per ticker and side, and the requests sent to place, replace and cancel them. An
  order passed by reference is an argument that is returned updated. \<open>manage_orders\<close> works on
  copies of the table's orders, as the code does, so what it does to them is dropped.
\<close>

subsection \<open>Orders\<close>

datatype om_state = OM_INVALID | PENDING_NEW | LIVE | PENDING_CANCEL | DEAD

record om_order =
  om_ticker :: ticker_id
  om_id :: order_id
  om_side :: side
  om_price :: price
  om_qty :: qty
  om_state :: om_state

definition default_om_order :: om_order where
  "default_om_order = \<lparr>om_ticker = TickerID_INVALID, om_id = OrderID_INVALID, om_side = SIDE_INVALID,
     om_price = Price_INVALID, om_qty = Qty_INVALID, om_state = OM_INVALID\<rparr>"

fun om_state_to_str :: "om_state \<Rightarrow> string" where
  "om_state_to_str OM_INVALID = ''INVALID''"
| "om_state_to_str PENDING_NEW = ''PENDING_NEW''"
| "om_state_to_str LIVE = ''LIVE''"
| "om_state_to_str PENDING_CANCEL = ''PENDING_CANCEL''"
| "om_state_to_str DEAD = ''DEAD''"

definition om_order_to_str :: "om_order \<Rightarrow> string" where
  "om_order_to_str r = ''<OMOrder>'' @ ''[''
     @ ''ticker: '' @ numeric_to_str (om_ticker r)
     @ '', id: '' @ numeric_to_str (om_id r)
     @ '', side: '' @ side_to_str (om_side r)
     @ '', price: '' @ price_to_str (om_price r)
     @ '', qty: '' @ numeric_to_str (om_qty r)
     @ '', state: '' @ om_state_to_str (om_state r)
     @ '']''"

subsection \<open>The manager\<close>

text \<open>
  The members of the manager, and the two of the engine it reaches through its reference: the
  client id and the queue of requests to the exchange.
\<close>

record order_manager =
  ticker_to_order_by_side :: "om_order list list"
  next_oid :: order_id
  engine_client_id :: client_id
  tx_requests :: "ome_client_request lfqueue"

definition new_order_manager :: "client_id \<Rightarrow> ome_client_request lfqueue \<Rightarrow> order_manager" where
  "new_order_manager c q =
     \<lparr>ticker_to_order_by_side = replicate MAX_TICKERS (replicate (side_to_index SIDE_MAX + 1) default_om_order),
      next_oid = 1, engine_client_id = c, tx_requests = q\<rparr>"

definition get_order_by_side :: "ticker_id \<Rightarrow> order_manager \<Rightarrow> om_order list res" where
  "get_order_by_side t m = bindR (require Out_of_range (unat t < length (ticker_to_order_by_side m)))
     (\<lambda>_. Inr (ticker_to_order_by_side m ! unat t))"

text \<open>\<open>ticker_to_order_by_side.at(ticker).at(side_to_index(side))\<close>.\<close>

definition om_order_at :: "ticker_id \<Rightarrow> side \<Rightarrow> order_manager \<Rightarrow> om_order res" where
  "om_order_at t s m =
     bindR (get_order_by_side t m) (\<lambda>os.
     bindR (require Out_of_range (side_to_index s < length os)) (\<lambda>_.
     Inr (os ! side_to_index s)))"

definition set_om_order :: "ticker_id \<Rightarrow> side \<Rightarrow> om_order \<Rightarrow> order_manager \<Rightarrow> order_manager" where
  "set_om_order t s r m = m\<lparr>ticker_to_order_by_side := (ticker_to_order_by_side m)
     [unat t := (ticker_to_order_by_side m ! unat t)[side_to_index s := r]]\<rparr>"

text \<open>\<open>TradingEngine::send_order_request_to_exchange\<close>.\<close>

definition send_order_request_to_exchange :: "ome_client_request \<Rightarrow> order_manager \<Rightarrow> order_manager" where
  "send_order_request_to_exchange req m = m\<lparr>tx_requests := enq req (tx_requests m)\<rparr>"

definition request_new_order :: "ticker_id \<Rightarrow> price \<Rightarrow> side \<Rightarrow> qty \<Rightarrow> om_order \<Rightarrow> order_manager
    \<Rightarrow> om_order \<times> order_manager" where
  "request_new_order t px s q r m =
     (let req = \<lparr>rq_type = REQ_NEW, rq_client_id = engine_client_id m, rq_ticker_id = t,
            rq_order_id = next_oid m, rq_side = s, rq_price = px, rq_qty = q\<rparr>;
          m1 = send_order_request_to_exchange req m;
          r1 = \<lparr>om_ticker = t, om_id = next_oid m, om_side = s, om_price = px, om_qty = q,
            om_state = PENDING_NEW\<rparr> in
      (r1, m1\<lparr>next_oid := next_oid m + 1\<rparr>))"

definition request_cancel_order :: "om_order \<Rightarrow> order_manager \<Rightarrow> om_order \<times> order_manager" where
  "request_cancel_order r m =
     (let req = \<lparr>rq_type = REQ_CANCEL, rq_client_id = engine_client_id m, rq_ticker_id = om_ticker r,
            rq_order_id = om_id r, rq_side = om_side r, rq_price = om_price r, rq_qty = om_qty r\<rparr> in
      (r\<lparr>om_state := PENDING_CANCEL\<rparr>, send_order_request_to_exchange req m))"

text \<open>The argument \<open>risk\<close> is the call of the risk manager, \<open>risk_manager.get_trade_risk\<close>.\<close>

definition manage_order :: "(ticker_id \<Rightarrow> side \<Rightarrow> qty \<Rightarrow> risk_result res) \<Rightarrow> ticker_id \<Rightarrow> price \<Rightarrow> side \<Rightarrow> qty
    \<Rightarrow> om_order \<Rightarrow> order_manager \<Rightarrow> (om_order \<times> order_manager) res" where
  "manage_order risk t px s q r m =
     (let place = (if px \<noteq> Price_INVALID
            then bindR (risk t s q) (\<lambda>k.
                 Inr (if k = ALLOWED then request_new_order t px s q r m else (r, m)))
            else Inr (r, m)) in
      case om_state r of
        LIVE \<Rightarrow> Inr (if om_price r \<noteq> px then request_cancel_order r m else (r, m))
      | OM_INVALID \<Rightarrow> place
      | DEAD \<Rightarrow> place
      | PENDING_NEW \<Rightarrow> Inr (r, m)
      | PENDING_CANCEL \<Rightarrow> Inr (r, m))"

text \<open>\<open>auto bid_order = ...\<close> copies the order: the updated copy is lost.\<close>

definition manage_orders :: "(ticker_id \<Rightarrow> side \<Rightarrow> qty \<Rightarrow> risk_result res) \<Rightarrow> ticker_id \<Rightarrow> price \<Rightarrow> price \<Rightarrow> qty
    \<Rightarrow> order_manager \<Rightarrow> order_manager res" where
  "manage_orders risk t bid ask q m =
     bindR (om_order_at t BUY m) (\<lambda>bid_order.
     bindR (manage_order risk t bid BUY q bid_order m) (\<lambda>(_, m1).
     bindR (om_order_at t SELL m1) (\<lambda>ask_order.
     bindR (manage_order risk t ask SELL q ask_order m1) (\<lambda>(_, m2).
     Inr m2))))"

text \<open>The response handler holds a reference: here the table is updated.\<close>

definition om_on_order_response :: "ome_client_response \<Rightarrow> order_manager \<Rightarrow> order_manager res" where
  "om_on_order_response p m =
     bindR (om_order_at (rs_ticker_id p) (rs_side p) m) (\<lambda>r.
     Inr (set_om_order (rs_ticker_id p) (rs_side p)
       (case rs_type p of
          RES_ACCEPTED \<Rightarrow> r\<lparr>om_state := LIVE\<rparr>
        | RES_CANCELLED \<Rightarrow> r\<lparr>om_state := DEAD\<rparr>
        | RES_FILLED \<Rightarrow>
            (let r1 = r\<lparr>om_qty := rs_qty_remain p\<rparr> in
             if om_qty r1 = 0 then r1\<lparr>om_state := DEAD\<rparr> else r1)
        | RES_CANCEL_REJECTED \<Rightarrow> r
        | RES_INVALID \<Rightarrow> r) m))"

subsection \<open>The life of an order\<close>

text \<open>
  What is sent and the next state, as the states are meant: an order is placed when it is not
  alive, cancelled when it is live at another price, and left alone while a request is pending.
\<close>

definition place_request :: "order_manager \<Rightarrow> ticker_id \<Rightarrow> price \<Rightarrow> side \<Rightarrow> qty \<Rightarrow> ome_client_request" where
  "place_request m t px s q = \<lparr>rq_type = REQ_NEW, rq_client_id = engine_client_id m, rq_ticker_id = t,
     rq_order_id = next_oid m, rq_side = s, rq_price = px, rq_qty = q\<rparr>"

definition cancel_request :: "order_manager \<Rightarrow> om_order \<Rightarrow> ome_client_request" where
  "cancel_request m r = \<lparr>rq_type = REQ_CANCEL, rq_client_id = engine_client_id m, rq_ticker_id = om_ticker r,
     rq_order_id = om_id r, rq_side = om_side r, rq_price = om_price r, rq_qty = om_qty r\<rparr>"

definition at_rest :: "om_order \<Rightarrow> bool" where
  "at_rest r \<longleftrightarrow> om_state r = OM_INVALID \<or> om_state r = DEAD"

lemma manage_order_places:
  assumes "at_rest r" "px \<noteq> Price_INVALID" "risk t s q = Inr ALLOWED"
  shows "manage_order risk t px s q r m =
    Inr (\<lparr>om_ticker = t, om_id = next_oid m, om_side = s, om_price = px, om_qty = q, om_state = PENDING_NEW\<rparr>,
         m\<lparr>tx_requests := enq (place_request m t px s q) (tx_requests m), next_oid := next_oid m + 1\<rparr>)"
  using assms by (auto simp: at_rest_def manage_order_def request_new_order_def place_request_def
      send_order_request_to_exchange_def Let_def)

lemma manage_order_cancels:
  assumes "om_state r = LIVE" "om_price r \<noteq> px"
  shows "manage_order risk t px s q r m =
    Inr (r\<lparr>om_state := PENDING_CANCEL\<rparr>, m\<lparr>tx_requests := enq (cancel_request m r) (tx_requests m)\<rparr>)"
  using assms by (simp add: manage_order_def request_cancel_order_def cancel_request_def
      send_order_request_to_exchange_def Let_def)

lemma manage_order_waits:
  assumes "om_state r = PENDING_NEW \<or> om_state r = PENDING_CANCEL \<or> (om_state r = LIVE \<and> om_price r = px)"
  shows "manage_order risk t px s q r m = Inr (r, m)"
  using assms by (auto simp: manage_order_def Let_def)

lemma manage_order_frame:
  assumes "manage_order risk t px s q r m = Inr (r', m')"
  shows "ticker_to_order_by_side m' = ticker_to_order_by_side m" "engine_client_id m' = engine_client_id m"
  using assms
  by (auto simp: manage_order_def Let_def request_new_order_def request_cancel_order_def bindR_eq_Inr
      send_order_request_to_exchange_def split: om_state.splits if_splits)

lemma om_order_at_cong:
  "ticker_to_order_by_side m' = ticker_to_order_by_side m \<Longrightarrow> om_order_at t s m' = om_order_at t s m"
  by (simp add: om_order_at_def get_order_by_side_def)

text \<open>The table keeps its orders: only the responses change them.\<close>

lemma manage_orders_frame:
  assumes "manage_orders risk t bid ask q m = Inr m'"
  shows "ticker_to_order_by_side m' = ticker_to_order_by_side m" "engine_client_id m' = engine_client_id m"
proof -
  obtain rb rs b s m1 where "manage_order risk t bid BUY q rb m = Inr (b, m1)"
    "manage_order risk t ask SELL q rs m1 = Inr (s, m')"
    using assms by (auto simp: manage_orders_def bindR_eq_Inr)
  then show "ticker_to_order_by_side m' = ticker_to_order_by_side m" "engine_client_id m' = engine_client_id m"
    using manage_order_frame by metis+
qed

text \<open>
  The orders of the table have no ticker, id, side or price: the new ones are written to copies.
\<close>

definition blank_order :: "om_order \<Rightarrow> bool" where
  "blank_order r \<longleftrightarrow> om_ticker r = TickerID_INVALID \<and> om_id r = OrderID_INVALID
     \<and> om_side r = SIDE_INVALID \<and> om_price r = Price_INVALID"

definition blank_table :: "order_manager \<Rightarrow> bool" where
  "blank_table m \<longleftrightarrow> length (ticker_to_order_by_side m) = MAX_TICKERS
     \<and> (\<forall>os \<in> set (ticker_to_order_by_side m). length os = 4 \<and> (\<forall>r \<in> set os. blank_order r))"

lemma new_order_manager_blank: "blank_table (new_order_manager c q)"
  by (simp add: blank_table_def new_order_manager_def blank_order_def default_om_order_def)

lemma side_index_less: "side_to_index s < 4"
  by (cases s) simp_all

lemma blank_order_at:
  assumes "blank_table m" "unat t < MAX_TICKERS"
  obtains r where "om_order_at t s m = Inr r" "blank_order r"
proof -
  let ?os = "ticker_to_order_by_side m ! unat t"
  have len: "unat t < length (ticker_to_order_by_side m)" using assms by (simp add: blank_table_def)
  then have os: "?os \<in> set (ticker_to_order_by_side m)" by simp
  then have l4: "length ?os = 4" using assms(1) by (simp add: blank_table_def)
  then have "?os ! side_to_index s \<in> set ?os" using side_index_less [of s] by (intro nth_mem) simp
  then have "blank_order (?os ! side_to_index s)" using os assms(1) by (auto simp: blank_table_def)
  then show thesis
    by (rule that [rotated]) (simp add: om_order_at_def get_order_by_side_def len l4 side_index_less)
qed

lemma blank_table_response:
  assumes "blank_table m" "om_on_order_response p m = Inr m'"
  shows "blank_table m'"
proof -
  obtain r where r: "om_order_at (rs_ticker_id p) (rs_side p) m = Inr r"
    using assms(2) by (auto simp: om_on_order_response_def bindR_eq_Inr)
  have t: "unat (rs_ticker_id p) < length (ticker_to_order_by_side m)"
    using r by (auto simp: om_order_at_def get_order_by_side_def bindR_eq_Inr)
  then have os: "ticker_to_order_by_side m ! unat (rs_ticker_id p) \<in> set (ticker_to_order_by_side m)" by simp
  obtain r' where b: "om_order_at (rs_ticker_id p) (rs_side p) m = Inr r'" "blank_order r'"
    using blank_order_at [OF assms(1)] t assms(1) by (metis blank_table_def)
  have "blank_order r" using b r by simp
  then have "\<exists>r1. m' = set_om_order (rs_ticker_id p) (rs_side p) r1 m \<and> blank_order r1"
    using assms(2) r
    by (auto simp: om_on_order_response_def Let_def blank_order_def split: response_type.splits if_splits)
  then obtain r1 where m': "m' = set_om_order (rs_ticker_id p) (rs_side p) r1 m" "blank_order r1" by blast
  show ?thesis
    using assms(1) os m'(2)
    by (auto simp: m'(1) blank_table_def set_om_order_def dest!: subsetD [OF set_update_subset_insert])
qed

subsection \<open>Properties\<close>

text \<open>The requests of \<open>n\<close> rounds of quotes from the state \<open>m\<close>: two new orders a round.\<close>

fun quotes :: "order_manager \<Rightarrow> ticker_id \<Rightarrow> price \<Rightarrow> price \<Rightarrow> qty \<Rightarrow> nat \<Rightarrow> ome_client_request list" where
  "quotes m t bid ask q 0 = []"
| "quotes m t bid ask q (Suc n) =
     place_request m t bid BUY q # place_request (m\<lparr>next_oid := next_oid m + 1\<rparr>) t ask SELL q
       # quotes (m\<lparr>next_oid := next_oid m + 2\<rparr>) t bid ask q n"

lemma place_request_cong:
  "engine_client_id m' = engine_client_id m \<Longrightarrow> next_oid m' = next_oid m
    \<Longrightarrow> place_request m' t px s q = place_request m t px s q"
  by (simp add: place_request_def)

lemma quotes_cong:
  "engine_client_id m' = engine_client_id m \<Longrightarrow> next_oid m' = next_oid m
    \<Longrightarrow> quotes m' t bid ask q n = quotes m t bid ask q n"
  by (induction n arbitrary: m m') (simp_all add: place_request_def)

lemma manage_orders_at_rest:
  assumes "om_order_at t BUY m = Inr rb" "at_rest rb" "om_order_at t SELL m = Inr rs" "at_rest rs"
    and "risk t BUY q = Inr ALLOWED" "risk t SELL q = Inr ALLOWED"
    and "bid \<noteq> Price_INVALID" "ask \<noteq> Price_INVALID"
  shows "manage_orders risk t bid ask q m = Inr (m\<lparr>next_oid := next_oid m + 2,
    tx_requests := enq_all (quotes m t bid ask q 1) (tx_requests m)\<rparr>)"
proof -
  let ?m = "m\<lparr>tx_requests := enq (place_request m t bid BUY q) (tx_requests m), next_oid := next_oid m + 1\<rparr>"
  have "om_order_at t SELL ?m = Inr rs" using assms(3) by (simp add: om_order_at_def get_order_by_side_def)
  then show ?thesis
    by (simp add: manage_orders_def assms(1) manage_order_places [where risk = risk and t = t and s = BUY and q = q, OF assms(2,7,5)]
        manage_order_places [where risk = risk and t = t and s = SELL and q = q, OF assms(4,8,6)] enq_all_def add.assoc place_request_def)
qed

text \<open>
  C22. Quotes are never remembered. While the orders of the table are not alive and the risk check
  allows the trade, every one of \<open>n\<close> calls of \<open>manage_orders\<close> at the same prices sends two new
  orders under fresh ids: \<open>2 n\<close> requests, where the order's \<open>PENDING_NEW\<close> state is meant to
  let two through. The table itself is unchanged.
\<close>

theorem quotes_are_repeated:
  assumes "om_order_at t BUY m = Inr rb" "at_rest rb" "om_order_at t SELL m = Inr rs" "at_rest rs"
    and "risk t BUY q = Inr ALLOWED" "risk t SELL q = Inr ALLOWED"
    and "bid \<noteq> Price_INVALID" "ask \<noteq> Price_INVALID"
  shows "foldR (\<lambda>m _. manage_orders risk t bid ask q m) m (replicate n ()) =
    Inr (m\<lparr>next_oid := next_oid m + of_nat (2 * n),
           tx_requests := enq_all (quotes m t bid ask q n) (tx_requests m)\<rparr>)
    \<and> length (quotes m t bid ask q n) = 2 * n"
  using assms
proof (induction n arbitrary: m)
  case 0
  show ?case by (simp add: enq_all_def)
next
  case (Suc n)
  define m1 where "m1 = m\<lparr>next_oid := next_oid m + 2,
    tx_requests := enq_all (quotes m t bid ask q 1) (tx_requests m)\<rparr>"
  have at: "om_order_at t s m1 = om_order_at t s m" for s
    by (simp add: m1_def om_order_at_def get_order_by_side_def)
  have q: "quotes (m\<lparr>next_oid := next_oid m + 2\<rparr>) t bid ask q n = quotes m1 t bid ask q n"
    by (rule quotes_cong) (simp_all add: m1_def)
  have IH: "foldR (\<lambda>m _. manage_orders risk t bid ask q m) m1 (replicate n ()) =
    Inr (m1\<lparr>next_oid := next_oid m1 + of_nat (2 * n),
           tx_requests := enq_all (quotes m1 t bid ask q n) (tx_requests m1)\<rparr>)
    \<and> length (quotes m1 t bid ask q n) = 2 * n"
    using Suc.IH [of m1] Suc.prems unfolding at by blast
  have e: "enq_all (quotes m1 t bid ask q n) (tx_requests m1) = enq_all (quotes m t bid ask q (Suc n)) (tx_requests m)"
    by (simp add: q) (simp add: m1_def enq_all_def)
  have "manage_orders risk t bid ask q m = Inr m1"
    unfolding m1_def
    by (rule manage_orders_at_rest [where risk = risk and rb = rb and rs = rs]) (rule Suc.prems)+
  then have "foldR (\<lambda>m _. manage_orders risk t bid ask q m) m (replicate (Suc n) ()) =
    Inr (m1\<lparr>next_oid := next_oid m1 + of_nat (2 * n),
           tx_requests := enq_all (quotes m t bid ask q (Suc n)) (tx_requests m)\<rparr>)"
    using IH e by simp
  then show ?case using IH by (simp add: q m1_def algebra_simps)
qed

theorem quotes_are_repeated_witness:
  "\<exists>m'. foldR (\<lambda>m _. manage_orders (\<lambda>_ _ _. Inr ALLOWED) 2 99 101 5 m)
       (new_order_manager 1 (new_lfqueue 8 default_request)) (replicate 3 ()) = Inr m'
     \<and> next_oid m' = 7 \<and> length (q_list (tx_requests m')) = 6"
proof -
  let ?m = "new_order_manager 1 (new_lfqueue 8 default_request)"
  have at: "om_order_at 2 s ?m = Inr default_om_order" for s
    by (cases s) (simp_all add: om_order_at_def get_order_by_side_def new_order_manager_def limit_defs)
  have r: "at_rest default_om_order" by (simp add: at_rest_def default_om_order_def)
  have p: "(99 :: price) \<noteq> Price_INVALID" "(101 :: price) \<noteq> Price_INVALID" by (simp_all add: Price_INVALID_def)
  have i: "next_oid ?m = 1" "tx_requests ?m = new_lfqueue 8 default_request" by (simp_all add: new_order_manager_def)
  have "q_list (enq_all (quotes ?m 2 99 101 5 3) (tx_requests ?m)) = quotes ?m 2 99 101 5 3"
    using enq_all_ok [of "tx_requests ?m" "quotes ?m 2 99 101 5 3"]
    by (simp add: i q_ok_new numeral_3_eq_3)
  then have "q_size (enq_all (quotes ?m 2 99 101 5 3) (tx_requests ?m)) = length (quotes ?m 2 99 101 5 3)"
    by (metis length_q_list)
  then show ?thesis
    using quotes_are_repeated [where risk = "\<lambda>_ _ _. Inr ALLOWED" and n = 3 and q = 5, OF at r at r refl refl p] i(1)
    by (simp del: foldR.simps quotes.simps)
qed

end
