(* ===== verification/Feature_Engine.thy ===== *)
theory Feature_Engine
  imports Position_Manager
begin

text \<open>
  \<open>client/trading/feature_engine.h\<close>: the two trading features, computed from the best bid and
  offer of a book. The products are \<open>int64_t\<close>, the sum of the quantities is \<open>uint32_t\<close> and
  wraps.
\<close>

record 'f feature_engine =
  market_price :: 'f
  aggressive_trade_qty_ratio :: 'f

definition new_feature_engine :: "'f float_ops \<Rightarrow> 'f feature_engine" where
  "new_feature_engine F = \<lparr>market_price = fnan F, aggressive_trade_qty_ratio = fnan F\<rparr>"

definition quoted_price :: "'f float_ops \<Rightarrow> bbo \<Rightarrow> 'f res" where
  "quoted_price F b =
     bindR (int64 (sint (bbo_bid b) * uint (bbo_ask_qty b))) (\<lambda>x.
     bindR (int64 (sint (bbo_ask b) * uint (bbo_bid_qty b))) (\<lambda>y.
     bindR (int64 (x + y)) (\<lambda>n.
     Inr (fdiv F (fof_int F n) (fof_int F (uint (bbo_bid_qty b + bbo_ask_qty b)))))))"

definition feng_on_order_book_update :: "'f float_ops \<Rightarrow> bbo \<Rightarrow> 'f feature_engine \<Rightarrow> 'f feature_engine res" where
  "feng_on_order_book_update F b e =
     (if bbo_bid b \<noteq> Price_INVALID \<and> bbo_ask b \<noteq> Price_INVALID
      then bindR (quoted_price F b) (\<lambda>m. Inr (e\<lparr>market_price := m\<rparr>))
      else Inr e)"

definition feng_on_trade_update :: "'f float_ops \<Rightarrow> ome_market_update \<Rightarrow> bbo \<Rightarrow> 'f feature_engine \<Rightarrow> 'f feature_engine" where
  "feng_on_trade_update F u b e =
     (if bbo_bid b \<noteq> Price_INVALID \<and> bbo_ask b \<noteq> Price_INVALID
      then e\<lparr>aggressive_trade_qty_ratio :=
               fdiv F (fof_int F (uint (mu_qty u)))
                 (fof_int F (uint (if mu_side u = BUY then bbo_ask_qty b else bbo_bid_qty b)))\<rparr>
      else e)"

subsection \<open>Properties\<close>

lemma mult_in_int64:
  fixes x q :: int
  assumes "\<bar>x\<bar> < 2 ^ 30" "0 \<le> q" "q < 2 ^ 32"
  shows "\<bar>x * q\<bar> < 2 ^ 62"
proof -
  have "\<bar>x\<bar> * q \<le> \<bar>x\<bar> * 2 ^ 32" using assms by (intro mult_left_mono) auto
  also have "\<dots> < 2 ^ 30 * 2 ^ 32" using assms(1) by (intro mult_strict_right_mono) auto
  finally show ?thesis using assms(2) by (simp add: abs_mult)
qed

text \<open>
  The fair market price, in exact arithmetic, lies between the best bid and the best ask when
  these are not crossed, below \<open>2^30\<close> in magnitude, and the quantities add up without wrapping to
  something positive.
\<close>

theorem market_price_between:
  assumes "quoted b" and "sint (bbo_bid b) \<le> sint (bbo_ask b)"
    and "\<bar>sint (bbo_bid b)\<bar> < 2 ^ 30" "\<bar>sint (bbo_ask b)\<bar> < 2 ^ 30"
    and "0 < uint (bbo_bid_qty b) + uint (bbo_ask_qty b)" "uint (bbo_bid_qty b) + uint (bbo_ask_qty b) < 2 ^ 32"
  shows "\<exists>e' m. feng_on_order_book_update (exact_ops sh) b e = Inr e' \<and> market_price e' = Some m
     \<and> real_of_int (sint (bbo_bid b)) \<le> m \<and> m \<le> real_of_int (sint (bbo_ask b))"
proof -
  obtain x y p q where v: "sint (bbo_bid b) = x" "sint (bbo_ask b) = y"
    "uint (bbo_bid_qty b) = p" "uint (bbo_ask_qty b) = q" by simp
  have nn: "0 \<le> p" "0 \<le> q" using v by auto
  have lt: "p < 2 ^ 32" "q < 2 ^ 32" using assms(6) nn v by simp_all
  have w: "uint (bbo_bid_qty b + bbo_ask_qty b) = p + q"
    using assms(6) nn by (simp add: uint_word_ariths v)
  have m: "\<bar>x * q\<bar> < 2 ^ 62" "\<bar>y * p\<bar> < 2 ^ 62"
    by (rule mult_in_int64 [OF _ nn(2) lt(2)], use assms(3) v in simp)
      (rule mult_in_int64 [OF _ nn(1) lt(1)], use assms(4) v in simp)
  then have i: "int64 (x * q) = Inr (x * q)" "int64 (y * p) = Inr (y * p)" "int64 (x * q + y * p) = Inr (x * q + y * p)"
    by (simp_all add: int64_abs int64_ok)
  let ?m = "real_of_int (x * q + y * p) / real_of_int (p + q)"
  have pos: "0 < p + q" using assms(5) v by simp
  have eq: "feng_on_order_book_update (exact_ops sh) b e = Inr (e\<lparr>market_price := Some ?m\<rparr>)"
    using assms(1) pos by (simp add: feng_on_order_book_update_def quoted_price_def quoted_def v i w)
  have xy: "x \<le> y" using assms(2) v by simp
  have lo: "x * (p + q) \<le> x * q + y * p" and hi: "x * q + y * p \<le> y * (p + q)"
    using mult_right_mono [OF xy nn(1)] mult_right_mono [OF xy nn(2)] by (simp_all add: algebra_simps)
  have "real_of_int x * real_of_int (p + q) \<le> real_of_int (x * q + y * p)"
    "real_of_int (x * q + y * p) \<le> real_of_int y * real_of_int (p + q)"
    using lo hi by (simp_all flip: of_int_mult del: of_int_add)
  then have "real_of_int x \<le> ?m" "?m \<le> real_of_int y"
    using pos by (simp_all only: pos_le_divide_eq pos_divide_le_eq of_int_0_less_iff)
  then show ?thesis using eq v by auto
qed

theorem market_price_between_witness:
  "\<exists>e' m. feng_on_order_book_update (exact_ops (\<lambda>_. ''x'')) demo_bbo (new_feature_engine (exact_ops (\<lambda>_. ''x''))) = Inr e'
     \<and> market_price e' = Some m \<and> 100 \<le> m \<and> m \<le> 104"
  using market_price_between [of demo_bbo "\<lambda>_. ''x''"]
  by (simp add: demo_bbo_def quoted_def Price_INVALID_def)

end
