(* ===== verification/Market_Maker.thy ===== *)
theory Market_Maker
  imports Order_Manager Feature_Engine
begin

text \<open>
  \<open>client/trading/market_maker.{h,cpp}\<close>: the market making algorithm. On every change of a book
  it quotes both sides at the best bid and offer, or one tick away when the fair price is closer
  than the threshold. Its other two callbacks are the order manager's and nothing.
\<close>

definition conf_at :: "ticker_id \<Rightarrow> 'f trading_engine_conf list \<Rightarrow> 'f trading_engine_conf res" where
  "conf_at t confs = bindR (require Out_of_range (unat t < length confs)) (\<lambda>_. Inr (confs ! unat t))"

definition maker_on_order_book_update :: "'f float_ops \<Rightarrow> 'f trading_engine_conf list
    \<Rightarrow> (ticker_id \<Rightarrow> side \<Rightarrow> qty \<Rightarrow> risk_result res) \<Rightarrow> ticker_id \<Rightarrow> bbo \<Rightarrow> 'f feature_engine
    \<Rightarrow> order_manager \<Rightarrow> order_manager res" where
  "maker_on_order_book_update F confs risk t b fe m =
     (let mp = market_price fe in
      if bbo_bid b \<noteq> Price_INVALID \<and> bbo_ask b \<noteq> Price_INVALID \<and> \<not> feq F mp (fnan F)
      then
        bindR (conf_at t confs) (\<lambda>c.
        let bid0 = sint (bbo_bid b); ask0 = sint (bbo_ask b) in
        bindR (int64 (bid0 - (if fge F (fsub F mp (fof_int F bid0)) (threshold c) then 0 else 1))) (\<lambda>bid.
        bindR (int64 (ask0 + (if fge F (fsub F (fof_int F ask0) mp) (threshold c) then 0 else 1))) (\<lambda>ask.
        manage_orders risk t (word_of_int bid) (word_of_int ask) (trade_size c) m)))
      else Inr m)"

definition maker_on_trade_update :: "ome_market_update \<Rightarrow> order_manager \<Rightarrow> order_manager" where
  "maker_on_trade_update u m = m"

definition maker_on_order_response :: "ome_client_response \<Rightarrow> order_manager \<Rightarrow> order_manager res" where
  "maker_on_order_response p m = om_on_order_response p m"

subsection \<open>The quotes\<close>

definition quoted_bid :: "'f float_ops \<Rightarrow> 'f trading_engine_conf \<Rightarrow> bbo \<Rightarrow> 'f \<Rightarrow> price" where
  "quoted_bid F c b mp = (if fge F (fsub F mp (fof_int F (sint (bbo_bid b)))) (threshold c)
     then bbo_bid b else bbo_bid b - 1)"

definition quoted_ask :: "'f float_ops \<Rightarrow> 'f trading_engine_conf \<Rightarrow> bbo \<Rightarrow> 'f \<Rightarrow> price" where
  "quoted_ask F c b mp = (if fge F (fsub F (fof_int F (sint (bbo_ask b))) mp) (threshold c)
     then bbo_ask b else bbo_ask b + 1)"

lemma sint_word_of_int:
  assumes "- (2 ^ 63) \<le> i" "i < 2 ^ 63"
  shows "sint (word_of_int i :: price) = i"
  using signed_take_bit_int_eq_self [OF assms] by (simp add: signed_of_int)

lemma quoted_prices:
  assumes "\<bar>sint (bbo_bid b)\<bar> < 2 ^ 62" "\<bar>sint (bbo_ask b)\<bar> < 2 ^ 62"
  shows "sint (quoted_bid F c b mp) \<in> {sint (bbo_bid b) - 1, sint (bbo_bid b)}"
    "sint (quoted_ask F c b mp) \<in> {sint (bbo_ask b), sint (bbo_ask b) + 1}"
    "quoted_bid F c b mp \<noteq> Price_INVALID" "quoted_ask F c b mp \<noteq> Price_INVALID"
proof -
  have d: "sint (bbo_bid b - 1) = sint (bbo_bid b) - 1"
    using sint_word_of_int [of "sint (bbo_bid b) - 1"] assms(1) by simp
  have u: "sint (bbo_ask b + 1) = sint (bbo_ask b) + 1"
    using sint_word_of_int [of "sint (bbo_ask b) + 1"] assms(2) by simp
  show 1: "sint (quoted_bid F c b mp) \<in> {sint (bbo_bid b) - 1, sint (bbo_bid b)}"
    and 2: "sint (quoted_ask F c b mp) \<in> {sint (bbo_ask b), sint (bbo_ask b) + 1}"
    by (simp_all add: quoted_bid_def quoted_ask_def d u)
  have m: "sint Price_INVALID = 2 ^ 63 - 1" by (simp add: Price_INVALID_def)
  show "quoted_bid F c b mp \<noteq> Price_INVALID" "quoted_ask F c b mp \<noteq> Price_INVALID"
    using 1 2 assms m by auto
qed

lemma maker_quotes:
  assumes "quoted b" "\<bar>sint (bbo_bid b)\<bar> < 2 ^ 62" "\<bar>sint (bbo_ask b)\<bar> < 2 ^ 62"
    and "\<not> feq F (market_price fe) (fnan F)" "unat t < length confs"
  shows "maker_on_order_book_update F confs risk t b fe m =
    manage_orders risk t (quoted_bid F (confs ! unat t) b (market_price fe))
      (quoted_ask F (confs ! unat t) b (market_price fe)) (trade_size (confs ! unat t)) m"
proof -
  let ?c = "confs ! unat t" and ?mp = "market_price fe"
  have d: "int64 (sint (bbo_bid b) - (if k then 0 else 1)) = Inr (sint (bbo_bid b) - (if k then 0 else 1))"
    "int64 (sint (bbo_ask b) + (if k then 0 else 1)) = Inr (sint (bbo_ask b) + (if k then 0 else 1))" for k
    using assms(2,3) by (auto intro!: int64_ok)
  have w: "word_of_int (sint (bbo_bid b) - (if k then 0 else 1)) = (if k then bbo_bid b else bbo_bid b - 1)"
    "word_of_int (sint (bbo_ask b) + (if k then 0 else 1)) = (if k then bbo_ask b else bbo_ask b + 1)" for k
    by simp_all
  show ?thesis
    using assms(1,4,5)
    by (simp only: maker_on_order_book_update_def Let_def quoted_def conf_at_def d w simp_thms if_True
        require_True bindR_Inr quoted_bid_def quoted_ask_def)
qed

subsection \<open>Properties\<close>

text \<open>
  C25. The market maker quotes passively. With no orders of its own alive and the risk check
  passed, a book update makes it send a buy at the best bid or one tick below and a sell at the
  best ask or one tick above, for any rounding: it never improves on the best prices, so when
  these are not crossed its two quotes cannot trade with each other or with the book. This is so
  even when no market price was ever computed: the guard compares it with NaN, which is never equal.
\<close>

theorem maker_quotes_passively:
  assumes "quoted b" "\<bar>sint (bbo_bid b)\<bar> < 2 ^ 62" "\<bar>sint (bbo_ask b)\<bar> < 2 ^ 62"
    and "\<not> feq F (market_price fe) (fnan F)" "unat t < length confs"
    and "om_order_at t BUY m = Inr rb" "at_rest rb" "om_order_at t SELL m = Inr rs" "at_rest rs"
    and "risk t BUY (trade_size (confs ! unat t)) = Inr ALLOWED"
    and "risk t SELL (trade_size (confs ! unat t)) = Inr ALLOWED"
  shows "\<exists>bid ask. maker_on_order_book_update F confs risk t b fe m = Inr (m\<lparr>next_oid := next_oid m + 2,
      tx_requests := enq_all (quotes m t bid ask (trade_size (confs ! unat t)) 1) (tx_requests m)\<rparr>)
    \<and> sint bid \<in> {sint (bbo_bid b) - 1, sint (bbo_bid b)} \<and> sint ask \<in> {sint (bbo_ask b), sint (bbo_ask b) + 1}"
proof -
  let ?c = "confs ! unat t" and ?mp = "market_price fe"
  note q = quoted_prices [OF assms(2,3), of F ?c ?mp]
  have "manage_orders risk t (quoted_bid F ?c b ?mp) (quoted_ask F ?c b ?mp) (trade_size ?c) m
    = Inr (m\<lparr>next_oid := next_oid m + 2,
        tx_requests := enq_all (quotes m t (quoted_bid F ?c b ?mp) (quoted_ask F ?c b ?mp) (trade_size ?c) 1) (tx_requests m)\<rparr>)"
    by (rule manage_orders_at_rest [where risk = risk and rb = rb and rs = rs]) (rule assms q)+
  then show ?thesis using maker_quotes [OF assms(1-5), of risk m] q(1,2) by metis
qed

definition demo_conf :: "real option trading_engine_conf" where
  "demo_conf = \<lparr>trade_size = 5, threshold = Some 1, risk_of = demo_risk_conf\<rparr>"

lemma new_table_at: "unat t < MAX_TICKERS \<Longrightarrow> om_order_at t s (new_order_manager c q) = Inr default_om_order"
  by (cases s) (simp_all add: om_order_at_def get_order_by_side_def new_order_manager_def)

lemma default_order_at_rest: "at_rest default_om_order"
  by (simp add: at_rest_def default_om_order_def)

theorem maker_quotes_passively_witness:
  "\<exists>bid ask m'. maker_on_order_book_update (exact_ops (\<lambda>_. ''x'')) [demo_conf] (\<lambda>_ _ _. Inr ALLOWED) 0 demo_bbo
       (new_feature_engine (exact_ops (\<lambda>_. ''x''))) (new_order_manager 1 (new_lfqueue 8 default_request)) = Inr m'
     \<and> next_oid m' = 3 \<and> sint (bid :: price) \<in> {99, 100} \<and> sint (ask :: price) \<in> {104, 105}"
proof -
  let ?m = "new_order_manager 1 (new_lfqueue 8 default_request)" and ?fe = "new_feature_engine (exact_ops (\<lambda>_. ''x''))"
  have b: "quoted demo_bbo" "\<bar>sint (bbo_bid demo_bbo)\<bar> < 2 ^ 62" "\<bar>sint (bbo_ask demo_bbo)\<bar> < 2 ^ 62"
    by (simp_all add: quoted_def demo_bbo_def Price_INVALID_def)
  have f: "\<not> feq (exact_ops (\<lambda>_. ''x'')) (market_price ?fe) (fnan (exact_ops (\<lambda>_. ''x'')))" by simp
  have at: "om_order_at 0 s ?m = Inr default_om_order" for s by (rule new_table_at) (simp add: limit_defs)
  show ?thesis
    using maker_quotes_passively [where risk = "\<lambda>_ _ _. Inr ALLOWED" and t = 0 and confs = "[demo_conf]" and m = ?m,
        OF b f _ at default_order_at_rest at default_order_at_rest refl refl]
    by (auto simp: demo_bbo_def new_order_manager_def)
qed

end
