(* ===== verification/Trading_Engine.thy ===== *)
theory Trading_Engine
  imports Market_Maker
begin

text \<open>
  \<open>client/trading/trading_engine.{h,cpp}\<close>: the client's worker. It owns the order books, the
  feature engine, the positions, the order manager, the risk limits and at most one algorithm,
  whose callbacks replace the default ones, which only log. The calls a book makes into the
  engine are its \<open>notified\<close> list, acted on in order after the update: the book makes one call per
  update, as the last thing it does. The thread, \<open>start\<close> and \<open>stop\<close> are in \<open>Lifecycle\<close>; here is the report
  of the positions that \<open>stop\<close> logs.
\<close>

record 'f trading_engine =
  book_for_ticker :: "te_book list"
  feng :: "'f feature_engine"
  pman :: "'f position_manager"
  oman :: order_manager
  rman :: "'f risk_manager"
  maker_algo :: "'f trading_engine_conf list option" \<comment> \<open>the algorithm's configurations\<close>
  t_last_rx_event :: int

definition new_trading_engine :: "'f float_ops \<Rightarrow> client_id \<Rightarrow> trade_algo \<Rightarrow> 'f trading_engine_conf list
    \<Rightarrow> ome_client_request lfqueue \<Rightarrow> 'f trading_engine" where
  "new_trading_engine F c algo confs tx =
     \<lparr>book_for_ticker = map (\<lambda>t. set_trading_engine True (new_te_book (of_nat t))) [0..<MAX_TICKERS],
      feng = new_feature_engine F, pman = new_position_manager F, oman = new_order_manager c tx,
      rman = new_risk_manager confs, maker_algo = (if algo = MARKET_MAKER then Some confs else None),
      t_last_rx_event = 0\<rparr>"

subsection \<open>The calls of the order books\<close>

text \<open>\<open>on_order_book_update_callback\<close> and \<open>on_order_response_callback\<close>.\<close>

definition book_update_callback :: "'f float_ops \<Rightarrow> ticker_id \<Rightarrow> bbo \<Rightarrow> 'f trading_engine \<Rightarrow> 'f trading_engine res" where
  "book_update_callback F t b e = (case maker_algo e of
       None \<Rightarrow> Inr e
     | Some confs \<Rightarrow>
         bindR (maker_on_order_book_update F confs (get_trade_risk F (rman e) (pman e)) t b (feng e) (oman e)) (\<lambda>m.
         Inr (e\<lparr>oman := m\<rparr>)))"

definition order_response_callback :: "ome_client_response \<Rightarrow> 'f trading_engine \<Rightarrow> 'f trading_engine res" where
  "order_response_callback r e = (case maker_algo e of
       None \<Rightarrow> Inr e
     | Some _ \<Rightarrow> bindR (maker_on_order_response r (oman e)) (\<lambda>m. Inr (e\<lparr>oman := m\<rparr>)))"

text \<open>
  The position keeps a pointer to the local copy \<open>bbo\<close>, which is gone when the call returns.
\<close>

definition drop_bbo :: "ticker_id \<Rightarrow> 'f trading_engine \<Rightarrow> 'f trading_engine" where
  "drop_bbo t e = e\<lparr>pman := (pman e)[unat t := (pman e ! unat t)\<lparr>pos_bbo := Dangling_bbo\<rparr>]\<rparr>"

definition on_order_book_update :: "'f float_ops \<Rightarrow> ticker_id \<Rightarrow> te_book \<Rightarrow> 'f trading_engine \<Rightarrow> 'f trading_engine res" where
  "on_order_book_update F t ob e =
     (let b = book_bbo ob in
      bindR (pman_on_bbo_update F t b (pman e)) (\<lambda>ps.
      bindR (feng_on_order_book_update F b (feng e)) (\<lambda>fe.
      bindR (book_update_callback F t b (e\<lparr>pman := ps, feng := fe\<rparr>)) (\<lambda>e1.
      Inr (drop_bbo t e1)))))"

definition on_trade_update :: "'f float_ops \<Rightarrow> ome_market_update \<Rightarrow> te_book \<Rightarrow> 'f trading_engine \<Rightarrow> 'f trading_engine" where
  "on_trade_update F u ob e =
     (let e1 = e\<lparr>feng := feng_on_trade_update F u (book_bbo ob) (feng e)\<rparr> in
      case maker_algo e1 of None \<Rightarrow> e1 | Some _ \<Rightarrow> e1\<lparr>oman := maker_on_trade_update u (oman e1)\<rparr>)"

definition on_note :: "'f float_ops \<Rightarrow> te_book \<Rightarrow> 'f trading_engine \<Rightarrow> te_note \<Rightarrow> 'f trading_engine res" where
  "on_note F ob e n = (case n of
       Trade_Update u \<Rightarrow> Inr (on_trade_update F u ob e)
     | Book_Update t px s \<Rightarrow> on_order_book_update F t ob e)"

text \<open>\<open>TradingEngine::on_order_response\<close>, which the worker does not call.\<close>

definition on_order_response :: "'f float_ops \<Rightarrow> ome_client_response \<Rightarrow> 'f trading_engine \<Rightarrow> 'f trading_engine res" where
  "on_order_response F r e =
     bindR (if rs_type r = RES_FILLED then pman_add_fill F r (pman e) else Inr (pman e)) (\<lambda>ps.
     order_response_callback r (e\<lparr>pman := ps\<rparr>))"

subsection \<open>The worker\<close>

definition handle_response :: "int \<Rightarrow> 'f trading_engine \<Rightarrow> ome_client_response \<Rightarrow> 'f trading_engine res" where
  "handle_response now e r = bindR (order_response_callback r e) (\<lambda>e1. Inr (e1\<lparr>t_last_rx_event := now\<rparr>))"

definition handle_update :: "'f float_ops \<Rightarrow> int \<Rightarrow> 'f trading_engine \<Rightarrow> ome_market_update \<Rightarrow> 'f trading_engine res" where
  "handle_update F now e u =
     bindR (ASSERT (unat (mu_ticker_id u) < length (book_for_ticker e))) (\<lambda>_.
     bindR (te_on_market_update u (book_for_ticker e ! unat (mu_ticker_id u))) (\<lambda>ob.
     bindR (foldR (on_note F ob)
              (e\<lparr>book_for_ticker := (book_for_ticker e)[unat (mu_ticker_id u) := ob\<lparr>notified := []\<rparr>]\<rparr>)
              (notified ob)) (\<lambda>e1.
     Inr (e1\<lparr>t_last_rx_event := now\<rparr>))))"

text \<open>
  One round of the worker's \<open>while\<close>: the responses, then the market updates, each until its
  queue is empty. \<open>now\<close> is the clock, one reading per loop: each event overwrites the last.
\<close>

definition run_round :: "'f float_ops \<Rightarrow> int \<Rightarrow> ome_client_response lfqueue \<Rightarrow> ome_market_update lfqueue
    \<Rightarrow> 'f trading_engine \<Rightarrow> (ome_client_response lfqueue \<times> ome_market_update lfqueue \<times> 'f trading_engine) res" where
  "run_round F now rx_responses rx_updates e =
     bindR (consume get_next_to_read increment_read_index (q_size rx_responses) (handle_response now) rx_responses e) (\<lambda>(qr, e1).
     bindR (consume get_next_to_read increment_read_index (q_size rx_updates) (handle_update F now) rx_updates e1) (\<lambda>(qu, e2).
     Inr (qr, qu, e2)))"

text \<open>The report \<open>stop\<close> logs once the queues are empty.\<close>

definition stop_report :: "'f float_ops \<Rightarrow> 'f trading_engine \<Rightarrow> string res" where
  "stop_report F e = pman_to_str F (pman e)"

end
