(* ===== verification/Trading_Properties.thy ===== *)
theory Trading_Properties
  imports Trading_Engine Matching_Engine
begin

text \<open>
  What the client's worker does over any number of rounds: its positions never move, as fills
  never reach them (\<open>engine_ignores_fills\<close>), an accepted order makes its next quote a
  cancel that the exchange cannot take (\<open>accepted_order_breaks_exchange\<close>), and the report of a
  stopped engine reads a BBO that is gone (\<open>stop_reads_dangling_bbo\<close>).
\<close>

subsection \<open>Rounds\<close>

definition run_rounds :: "'f float_ops \<Rightarrow> 'f trading_engine
    \<Rightarrow> (int \<times> ome_client_response lfqueue \<times> ome_market_update lfqueue) list \<Rightarrow> 'f trading_engine res" where
  "run_rounds F = foldR (\<lambda>e (now, qr, qu). bindR (run_round F now qr qu e) (\<lambda>(_, _, e'). Inr e'))"

lemma consume_invariant:
  assumes "\<And>s x s'. P s \<Longrightarrow> body s x = Inr s' \<Longrightarrow> P s'"
    and "P s" and "consume peek drop_one fuel body q s = Inr (q', s')"
  shows "P s'"
  using assms(2,3)
proof (induction fuel arbitrary: q s)
  case 0
  then show ?case by (simp add: consume.simps [of peek drop_one 0] split: option.splits)
next
  case (Suc n)
  show ?case
  proof (cases "peek q")
    case None
    then show ?thesis using Suc.prems by (simp add: consume.simps [of peek drop_one "Suc n"])
  next
    case (Some x)
    then obtain t q1 where "body s x = Inr t" "consume peek drop_one n body q1 t = Inr (q', s')"
      using Suc.prems(2) by (auto simp: consume.simps [of peek drop_one "Suc n"] bindR_eq_Inr)
    then show ?thesis using Suc.IH assms(1) [OF Suc.prems(1)] by blast
  qed
qed

text \<open>An invariant of the three handlers is one of all rounds.\<close>

lemma rounds_invariant:
  assumes note_ok: "\<And>e e' ob n. P e \<Longrightarrow> on_note F ob e n = Inr e' \<Longrightarrow> P e'"
    and resp: "\<And>e e' r. P e \<Longrightarrow> order_response_callback r e = Inr e' \<Longrightarrow> P e'"
    and frame: "\<And>e bs now. P e \<Longrightarrow> P (e\<lparr>book_for_ticker := bs\<rparr>) \<and> P (e\<lparr>t_last_rx_event := now\<rparr>)"
    and "P e" "run_rounds F e rs = Inr e'"
  shows "P e'"
proof -
  have r: "P s'" if "P s" "handle_response now s x = Inr s'" for now s x s'
    using that resp frame by (auto simp: handle_response_def bindR_eq_Inr)
  have u: "P s'" if "P s" "handle_update F now s x = Inr s'" for now s x s'
  proof -
    obtain ob s1 where s1: "foldR (on_note F ob) (s\<lparr>book_for_ticker := (book_for_ticker s)
        [unat (mu_ticker_id x) := ob\<lparr>notified := []\<rparr>]\<rparr>) (notified ob) = Inr s1" "s' = s1\<lparr>t_last_rx_event := now\<rparr>"
      using \<open>handle_update F now s x = Inr s'\<close> by (auto simp: handle_update_def bindR_eq_Inr)
    have p1: "P s1" by (rule foldR_invariant [where P = P, OF _ _ s1(1)]) (use note_ok frame \<open>P s\<close> in blast)+
    then show ?thesis using frame s1(2) by blast
  qed
  have step: "P s'" if s: "P s" and run: "bindR (run_round F now qr qu s) (\<lambda>(_, _, e'). Inr e') = Inr s'"
    for s s' now qr qu
  proof -
    obtain qr' qu' s1 where c: "consume get_next_to_read increment_read_index (q_size qr) (handle_response now) qr s = Inr (qr', s1)"
      "consume get_next_to_read increment_read_index (q_size qu) (handle_update F now) qu s1 = Inr (qu', s')"
      using run by (auto simp: run_round_def bindR_eq_Inr)
    have p1: "P s1" by (rule consume_invariant [of P, OF _ s c(1)]) (rule r)
    show ?thesis by (rule consume_invariant [of P, OF _ p1 c(2)]) (rule u)
  qed
  show ?thesis
  proof (rule foldR_invariant [where P = P, OF _ assms(4) assms(5) [unfolded run_rounds_def]])
    fix s x s'
    assume "P s" "(case x of (now, qr, qu) \<Rightarrow> bindR (run_round F now qr qu s) (\<lambda>(_, _, e'). Inr e')) = Inr s'"
    then show "P s'" by (cases x) (use step in simp)
  qed
qed

subsection \<open>Fills never reach the positions\<close>

definition untouched :: "'f float_ops \<Rightarrow> 'f position \<Rightarrow> bool" where
  "untouched F p \<longleftrightarrow> position p = 0 \<and> volume p = 0 \<and> pnl_total p = fzero F"

text \<open>The limits are those of the start and every position is as it was.\<close>

definition never_traded :: "'f float_ops \<Rightarrow> 'f risk_manager \<Rightarrow> 'f trading_engine \<Rightarrow> bool" where
  "never_traded F rm e \<longleftrightarrow> rman e = rm \<and> length (pman e) = MAX_TICKERS \<and> (\<forall>p \<in> set (pman e). untouched F p)"

lemma never_traded_cong:
  "rman e' = rman e \<Longrightarrow> pman e' = pman e \<Longrightarrow> never_traded F rm e' = never_traded F rm e"
  by (simp add: never_traded_def)

lemma never_traded_nth: "never_traded F rm e \<Longrightarrow> n < MAX_TICKERS \<Longrightarrow> untouched F (pman e ! n)"
  by (simp add: never_traded_def)

lemma never_traded_update:
  assumes "never_traded F rm e" "untouched F p"
  shows "never_traded F rm (e\<lparr>pman := (pman e)[n := p]\<rparr>)"
  using assms by (auto simp: never_traded_def dest!: subsetD [OF set_update_subset_insert])

lemma untouched_bbo: "untouched F (p\<lparr>pos_bbo := b\<rparr>) = untouched F p"
  by (simp add: untouched_def)

lemma untouched_bbo_update:
  "untouched F p \<Longrightarrow> position_on_bbo_update F b p = Inr (p\<lparr>pos_bbo := Bbo b\<rparr>)"
  by (simp add: position_on_bbo_update_def untouched_def Let_def)

lemma book_update_callback_frame:
  assumes "book_update_callback F t b e = Inr e'"
  shows "rman e' = rman e" "pman e' = pman e"
  using assms by (auto simp: book_update_callback_def bindR_eq_Inr split: option.splits)

lemma order_response_callback_frame:
  assumes "order_response_callback r e = Inr e'"
  shows "rman e' = rman e" "pman e' = pman e"
  using assms by (auto simp: order_response_callback_def bindR_eq_Inr split: option.splits)

lemma never_traded_pman_step:
  assumes "never_traded F rm e" "pman_on_bbo_update F t b (pman e) = Inr ps"
  shows "never_traded F rm (e\<lparr>pman := ps\<rparr>)" "unat t < MAX_TICKERS"
    "ps = (pman e)[unat t := (pman e ! unat t)\<lparr>pos_bbo := Bbo b\<rparr>]"
proof -
  show t: "unat t < MAX_TICKERS"
    using assms by (auto simp: pman_on_bbo_update_def on_position_def get_position_def bindR_eq_Inr never_traded_def)
  have u: "untouched F (pman e ! unat t)" by (rule never_traded_nth [OF assms(1) t])
  show ps: "ps = (pman e)[unat t := (pman e ! unat t)\<lparr>pos_bbo := Bbo b\<rparr>]"
    using assms(2) u
    by (auto simp: pman_on_bbo_update_def on_position_def get_position_def bindR_eq_Inr untouched_bbo_update)
  show "never_traded F rm (e\<lparr>pman := ps\<rparr>)"
    unfolding ps by (rule never_traded_update [OF assms(1)]) (simp add: untouched_bbo u)
qed

lemma on_order_book_update_frame:
  assumes "on_order_book_update F t ob e = Inr e'"
  obtains ps fe e1 where "pman_on_bbo_update F t (book_bbo ob) (pman e) = Inr ps"
    "feng_on_order_book_update F (book_bbo ob) (feng e) = Inr fe"
    "book_update_callback F t (book_bbo ob) (e\<lparr>pman := ps, feng := fe\<rparr>) = Inr e1" "e' = drop_bbo t e1"
  using assms by (auto simp: on_order_book_update_def Let_def bindR_eq_Inr)

lemma never_traded_book_update:
  assumes nt: "never_traded F rm e" and run: "on_order_book_update F t ob e = Inr e'"
  shows "never_traded F rm e'" "unat t < MAX_TICKERS" "pos_bbo (pman e' ! unat t) = Dangling_bbo"
proof -
  obtain ps fe e1 where s: "pman_on_bbo_update F t (book_bbo ob) (pman e) = Inr ps"
    "book_update_callback F t (book_bbo ob) (e\<lparr>pman := ps, feng := fe\<rparr>) = Inr e1" "e' = drop_bbo t e1"
    by (rule on_order_book_update_frame [OF run])
  note p = never_traded_pman_step [OF nt s(1)]
  have n1: "never_traded F rm e1"
    using p(1) book_update_callback_frame [OF s(2)] by (simp add: never_traded_def)
  show t: "unat t < MAX_TICKERS" by (rule p(2))
  show "never_traded F rm e'"
    unfolding s(3) drop_bbo_def
    by (rule never_traded_update [OF n1]) (simp add: untouched_bbo never_traded_nth [OF n1 t])
  show "pos_bbo (pman e' ! unat t) = Dangling_bbo"
    using t n1 by (simp add: s(3) drop_bbo_def never_traded_def)
qed

lemma on_note_never_traded:
  assumes "never_traded F rm e" "on_note F ob e n = Inr e'"
  shows "never_traded F rm e'"
proof (cases n)
  case (Trade_Update u)
  then have "rman e' = rman e" "pman e' = pman e"
    using assms(2) by (auto simp: on_note_def on_trade_update_def Let_def split: option.splits)
  then show ?thesis using assms(1) never_traded_cong by blast
next
  case (Book_Update t px s)
  then show ?thesis
    using assms never_traded_book_update(1) by (simp add: on_note_def)
qed

lemma run_rounds_never_traded:
  assumes "never_traded F rm e" "run_rounds F e rs = Inr e'"
  shows "never_traded F rm e'"
proof (rule rounds_invariant [where P = "never_traded F rm", OF _ _ _ assms])
  show "\<And>e e' ob n. never_traded F rm e \<Longrightarrow> on_note F ob e n = Inr e' \<Longrightarrow> never_traded F rm e'"
    by (rule on_note_never_traded)
  show "\<And>e e' r. never_traded F rm e \<Longrightarrow> order_response_callback r e = Inr e' \<Longrightarrow> never_traded F rm e'"
    using order_response_callback_frame never_traded_cong by blast
  show "\<And>e bs now. never_traded F rm e \<Longrightarrow>
      never_traded F rm (e\<lparr>book_for_ticker := bs\<rparr>) \<and> never_traded F rm (e\<lparr>t_last_rx_event := now\<rparr>)"
    by (simp add: never_traded_def)
qed

lemma new_trading_engine_sel:
  "pman (new_trading_engine F c algo confs tx) = new_position_manager F"
  "rman (new_trading_engine F c algo confs tx) = new_risk_manager confs"
  "oman (new_trading_engine F c algo confs tx) = new_order_manager c tx"
  "feng (new_trading_engine F c algo confs tx) = new_feature_engine F"
  "maker_algo (new_trading_engine F c algo confs tx) = (if algo = MARKET_MAKER then Some confs else None)"
  by (simp_all add: new_trading_engine_def)

lemma new_engine_never_traded: "never_traded F (new_risk_manager confs) (new_trading_engine F c algo confs tx)"
  by (simp add: never_traded_def new_trading_engine_sel new_position_manager_def untouched_def default_position_def)

lemma never_traded_risk:
  assumes "never_traded F rm e" "never_traded F rm e'" "length rm = MAX_TICKERS"
  shows "get_trade_risk F (rman e') (pman e') t s q = get_trade_risk F (rman e) (pman e) t s q"
proof (cases "unat t < MAX_TICKERS")
  case True
  have "untouched F (pman e ! unat t)" "untouched F (pman e' ! unat t)"
    using never_traded_nth [OF _ True] assms(1,2) by blast+
  then show ?thesis using assms(1,2) by (simp add: get_trade_risk_def trade_risk_def never_traded_def untouched_def)
next
  case False
  then show ?thesis using assms by (simp add: get_trade_risk_def never_traded_def)
qed

text \<open>
  C20. The worker hands order responses to the algorithm's callback and never to
  \<open>on_order_response\<close>: after any rounds of a new engine, whatever responses and market updates
  they handled, every position is flat with no volume and no profit or loss, so the risk check
  answers as it did at the start.
\<close>

theorem engine_ignores_fills:
  assumes "run_rounds F (new_trading_engine F c algo confs tx) rs = Inr e"
  shows "(\<forall>p \<in> set (pman e). position p = 0 \<and> volume p = 0 \<and> pnl_total p = fzero F)
    \<and> get_trade_risk F (rman e) (pman e) t s q = get_trade_risk F (new_risk_manager confs) (new_position_manager F) t s q"
proof -
  let ?e0 = "new_trading_engine F c algo confs tx"
  note e0 = new_engine_never_traded [of F confs c algo tx]
  note e = run_rounds_never_traded [OF e0 assms]
  have "length (new_risk_manager confs) = MAX_TICKERS" by (simp add: new_risk_manager_def)
  from never_traded_risk [OF e0 e this] show ?thesis
    using e by (simp add: never_traded_def untouched_def new_trading_engine_sel)
qed

definition demo_engine_confs :: "real option trading_engine_conf list" where
  "demo_engine_confs = replicate MAX_TICKERS demo_conf"

definition demo_trader :: "real option trading_engine" where
  "demo_trader = new_trading_engine (exact_ops (\<lambda>_. ''x'')) 1 MARKET_MAKER demo_engine_confs (new_lfqueue 8 default_request)"

lemma demo_trader_sel:
  "oman demo_trader = new_order_manager 1 (new_lfqueue 8 default_request)"
  "maker_algo demo_trader = Some demo_engine_confs" "rman demo_trader = new_risk_manager demo_engine_confs"
  "pman demo_trader = new_position_manager (exact_ops (\<lambda>_. ''x''))"
  "feng demo_trader = new_feature_engine (exact_ops (\<lambda>_. ''x''))"
  by (simp_all add: demo_trader_def new_trading_engine_sel)

text \<open>A round that handles the given responses and no market update.\<close>

lemma run_round_responses:
  assumes "q_ok qr" "q_ok qu" "q_list qu = []" "foldR (handle_response now) e (q_list qr) = Inr e'"
  shows "\<exists>qr'. run_round F now qr qu e = Inr (qr', qu, e')"
proof -
  obtain qr' where "consume get_next_to_read increment_read_index (q_size qr) (handle_response now) qr e = Inr (qr', e')"
    using lfq.consume_foldR [OF assms(1), of "q_size qr" "handle_response now" e] assms(4) by auto
  moreover have "get_next_to_read qu = None" using get_next_to_read_list [OF assms(2)] assms(3) by simp
  ultimately show ?thesis by (simp add: run_round_def consume.simps)
qed

definition demo_responses :: "ome_client_response list \<Rightarrow> ome_client_response lfqueue" where
  "demo_responses rs = enq_all rs (new_lfqueue 4 default_response)"

lemma demo_responses_ok: "length rs \<le> 4 \<Longrightarrow> q_ok (demo_responses rs)" "length rs \<le> 4 \<Longrightarrow> q_list (demo_responses rs) = rs"
  using enq_all_ok [of "new_lfqueue 4 default_response" rs] by (simp_all add: demo_responses_def q_ok_new)

lemma demo_trader_fill: "\<exists>e. run_rounds (exact_ops (\<lambda>_. ''x'')) demo_trader
    [(7, demo_responses [demo_fill BUY 100 10], new_lfqueue 4 default_update)] = Inr e"
proof -
  let ?qr = "demo_responses [demo_fill BUY 100 10]" and ?qu = "new_lfqueue 4 default_update :: ome_market_update lfqueue"
  have at: "om_order_at 0 BUY (oman demo_trader) = Inr default_om_order"
    unfolding demo_trader_sel by (rule new_table_at) (simp add: limit_defs)
  have "\<exists>e'. handle_response 7 demo_trader (demo_fill BUY 100 10) = Inr e'"
    using at by (simp add: handle_response_def order_response_callback_def demo_trader_sel(2)
        maker_on_order_response_def om_on_order_response_def demo_fill_def)
  then obtain e' where "foldR (handle_response 7) demo_trader (q_list ?qr) = Inr e'"
    by (auto simp: demo_responses_ok)
  then have "\<exists>qr'. run_round (exact_ops (\<lambda>_. ''x'')) 7 ?qr ?qu demo_trader = Inr (qr', ?qu, e')"
    by (intro run_round_responses) (simp_all add: demo_responses_ok q_ok_new)
  then obtain qr' where "run_round (exact_ops (\<lambda>_. ''x'')) 7 ?qr ?qu demo_trader = Inr (qr', ?qu, e')" by blast
  then show ?thesis by (simp add: run_rounds_def)
qed

theorem engine_ignores_fills_witness:
  "\<exists>e. run_rounds (exact_ops (\<lambda>_. ''x'')) demo_trader
      [(7, demo_responses [demo_fill BUY 100 10], new_lfqueue 4 default_update)] = Inr e
    \<and> position (pman e ! 0) = 0
    \<and> get_trade_risk (exact_ops (\<lambda>_. ''x'')) (rman e) (pman e) 0 BUY 20
      = get_trade_risk (exact_ops (\<lambda>_. ''x'')) (rman demo_trader) (pman demo_trader) 0 BUY 20"
proof -
  obtain e where e: "run_rounds (exact_ops (\<lambda>_. ''x'')) demo_trader
      [(7, demo_responses [demo_fill BUY 100 10], new_lfqueue 4 default_update)] = Inr e"
    using demo_trader_fill by blast
  note t = engine_ignores_fills [OF e [unfolded demo_trader_def], of 0 BUY 20]
  have "length (pman e) = MAX_TICKERS"
    using run_rounds_never_traded [OF new_engine_never_traded e [unfolded demo_trader_def]]
    by (simp add: never_traded_def)
  then have "pman e ! 0 \<in> set (pman e)" by (intro nth_mem) (simp add: limit_defs)
  then show ?thesis using e t by (auto simp: demo_trader_sel)
qed

subsection \<open>The report of a stopped engine\<close>

lemma foldR_only_error:
  assumes "\<And>s x. x \<in> set xs \<Longrightarrow> (\<exists>s'. f s x = Inr s') \<or> f s x = Inl err"
    and "x \<in> set xs" "\<And>s. f s x = Inl err"
  shows "foldR f s xs = Inl err"
  using assms
proof (induction xs arbitrary: s)
  case (Cons y ys)
  show ?case
  proof (cases "f s y")
    case (Inl e')
    then show ?thesis using Cons.prems(1) [of y s] by simp
  next
    case (Inr t)
    then have "x \<in> set ys" using Cons.prems(2,3) by auto
    then have "foldR f t ys = Inl err" using Cons.IH Cons.prems(1,3) by (meson list.set_intros(2))
    then show ?thesis using Inr by simp
  qed
qed simp

lemma untouched_to_str:
  "untouched F p \<Longrightarrow> pos_bbo p \<noteq> Dangling_bbo \<Longrightarrow> \<exists>s. position_to_str F p = Inr s"
  "untouched F p \<Longrightarrow> pos_bbo p = Dangling_bbo \<Longrightarrow> position_to_str F p = Inl Dangling"
  by (rule position_to_str_ok) (simp_all add: untouched_def position_to_str_def shown_vwap_def read_bbo_def)

lemma pman_to_str_dangling:
  assumes u: "\<And>p. p \<in> set ps \<Longrightarrow> untouched F p" and t: "t < length ps" "pos_bbo (ps ! t) = Dangling_bbo"
    and len: "length ps = MAX_TICKERS"
  shows "pman_to_str F ps = Inl Dangling"
proof -
  have idx: "get_position (of_nat n) ps = Inr (ps ! n)" if "n < length ps" for n
    using that len by (simp add: get_position_def unat_of_nat limit_defs)
  have "foldR (report_position F ps) ('''', fzero F, 0) [0..<length ps] = Inl Dangling"
  proof (rule foldR_only_error [where x = t])
    fix acc n
    assume "n \<in> set [0..<length ps]"
    then have n: "n < length ps" by simp
    then have "untouched F (ps ! n)" by (intro u) simp
    then have "(\<exists>str. position_to_str F (ps ! n) = Inr str) \<or> position_to_str F (ps ! n) = Inl Dangling"
      using untouched_to_str by blast
    then show "(\<exists>acc'. report_position F ps acc n = Inr acc') \<or> report_position F ps acc n = Inl Dangling"
      by (cases acc) (auto simp: report_position_def idx n)
  next
    show "t \<in> set [0..<length ps]" using t(1) by simp
  next
    fix acc
    have "untouched F (ps ! t)" by (intro u) (simp add: t(1))
    then have "position_to_str F (ps ! t) = Inl Dangling" by (rule untouched_to_str(2)) (rule t(2))
    then show "report_position F ps acc t = Inl Dangling"
      by (cases acc) (simp add: report_position_def idx t(1))
  qed
  then show ?thesis by (simp add: pman_to_str_def)
qed

definition reads_dangling :: "'f float_ops \<Rightarrow> 'f risk_manager \<Rightarrow> 'f trading_engine \<Rightarrow> bool" where
  "reads_dangling F rm e \<longleftrightarrow> never_traded F rm e \<and> (\<exists>t < MAX_TICKERS. pos_bbo (pman e ! t) = Dangling_bbo)"

lemma run_rounds_reads_dangling:
  assumes "reads_dangling F rm e" "run_rounds F e rs = Inr e'"
  shows "reads_dangling F rm e'"
proof (rule rounds_invariant [where P = "reads_dangling F rm", OF _ _ _ assms])
  fix e e' :: "'a trading_engine" and ob n
  assume rd: "reads_dangling F rm e" and run: "on_note F ob e n = Inr e'"
  show "reads_dangling F rm e'"
  proof (cases n)
    case (Trade_Update u)
    then have "rman e' = rman e" "pman e' = pman e"
      using run by (auto simp: on_note_def on_trade_update_def Let_def split: option.splits)
    then show ?thesis using rd by (simp add: reads_dangling_def never_traded_def)
  next
    case (Book_Update t px s)
    then have "on_order_book_update F t ob e = Inr e'" using run by (simp add: on_note_def)
    then show ?thesis
      using rd never_traded_book_update [of F rm e t ob e'] by (auto simp: reads_dangling_def)
  qed
next
  show "\<And>e e' r. reads_dangling F rm e \<Longrightarrow> order_response_callback r e = Inr e' \<Longrightarrow> reads_dangling F rm e'"
    using order_response_callback_frame by (metis reads_dangling_def never_traded_def)
  show "\<And>e bs now. reads_dangling F rm e \<Longrightarrow>
      reads_dangling F rm (e\<lparr>book_for_ticker := bs\<rparr>) \<and> reads_dangling F rm (e\<lparr>t_last_rx_event := now\<rparr>)"
    by (simp add: reads_dangling_def never_traded_def)
qed

text \<open>
  The report that \<open>stop\<close> logs is undefined behaviour as soon as one book update was handled,
  whatever came before it and comes after: a position keeps a pointer to the BBO of the last
  update of its ticker, a local variable of the handler, and its string reads through it.
\<close>

theorem stop_reads_dangling_bbo:
  assumes "run_rounds F (new_trading_engine F c algo confs tx) rs = Inr e"
    and "on_order_book_update F t ob e = Inr e1"
    and "run_rounds F e1 rs' = Inr e2"
  shows "stop_report F e2 = Inl Dangling"
proof -
  let ?rm = "new_risk_manager confs"
  have "never_traded F ?rm e" by (rule run_rounds_never_traded [OF new_engine_never_traded assms(1)])
  from never_traded_book_update [OF this assms(2)] have "reads_dangling F ?rm e1"
    by (auto simp: reads_dangling_def)
  then have "reads_dangling F ?rm e2" using assms(3) by (rule run_rounds_reads_dangling)
  then show ?thesis
    unfolding stop_report_def
    by (auto simp: reads_dangling_def never_traded_def intro: pman_to_str_dangling)
qed

lemma demo_book_update:
  assumes "never_traded F rm e" "maker_algo e = None" "feng_on_order_book_update F (book_bbo ob) (feng e) = Inr fe"
    and "unat t < MAX_TICKERS"
  shows "\<exists>e'. on_order_book_update F t ob e = Inr e'"
proof -
  have "pman_on_bbo_update F t (book_bbo ob) (pman e)
      = Inr ((pman e)[unat t := (pman e ! unat t)\<lparr>pos_bbo := Bbo (book_bbo ob)\<rparr>])"
    using assms(1,4) never_traded_nth [OF assms(1,4)]
    by (simp add: pman_on_bbo_update_def on_position_def get_position_def untouched_bbo_update never_traded_def)
  then show ?thesis using assms(2,3) by (simp add: on_order_book_update_def Let_def book_update_callback_def)
qed

theorem stop_reads_dangling_bbo_witness:
  "\<exists>e1. on_order_book_update (exact_ops (\<lambda>_. ''x'')) 0 (new_te_book 0)
      (new_trading_engine (exact_ops (\<lambda>_. ''x'')) 1 LIQ_TAKER demo_engine_confs (new_lfqueue 8 default_request)) = Inr e1
    \<and> stop_report (exact_ops (\<lambda>_. ''x'')) e1 = Inl Dangling"
proof -
  let ?F = "exact_ops (\<lambda>_. ''x'')"
  let ?e = "new_trading_engine ?F 1 LIQ_TAKER demo_engine_confs (new_lfqueue 8 default_request)"
  have "feng_on_order_book_update ?F (book_bbo (new_te_book 0)) (feng ?e) = Inr (feng ?e)"
    by (simp add: feng_on_order_book_update_def new_te_book_def default_bbo_def)
  then have "\<exists>e1. on_order_book_update ?F 0 (new_te_book 0) ?e = Inr e1"
    by (rule demo_book_update [OF new_engine_never_traded, rotated]) (simp_all add: new_trading_engine_sel limit_defs)
  then obtain e1 where e1: "on_order_book_update ?F 0 (new_te_book 0) ?e = Inr e1" by blast
  have "run_rounds ?F ?e [] = Inr ?e" "run_rounds ?F e1 [] = Inr e1" by (simp_all add: run_rounds_def)
  from stop_reads_dangling_bbo [OF this(1) e1 this(2)] e1 show ?thesis by blast
qed

subsection \<open>An accepted order\<close>

definition blank_maker :: "'f trading_engine_conf list \<Rightarrow> 'f trading_engine \<Rightarrow> bool" where
  "blank_maker confs e \<longleftrightarrow> blank_table (oman e) \<and> maker_algo e = Some confs"

lemma blank_table_cong: "ticker_to_order_by_side m' = ticker_to_order_by_side m \<Longrightarrow> blank_table m' = blank_table m"
  by (simp add: blank_table_def)

lemma maker_update_frame:
  assumes "maker_on_order_book_update F confs risk t b fe m = Inr m'"
  shows "ticker_to_order_by_side m' = ticker_to_order_by_side m"
  using assms by (auto simp: maker_on_order_book_update_def Let_def bindR_eq_Inr dest: manage_orders_frame split: if_splits)

lemma book_update_blank:
  assumes "blank_maker confs e" "on_order_book_update F t ob e = Inr e'"
  shows "blank_maker confs e'"
proof -
  obtain ps fe e1 where s: "book_update_callback F t (book_bbo ob) (e\<lparr>pman := ps, feng := fe\<rparr>) = Inr e1" "e' = drop_bbo t e1"
    by (rule on_order_book_update_frame [OF assms(2)])
  obtain m where m: "maker_on_order_book_update F confs (get_trade_risk F (rman e) ps) t (book_bbo ob) fe (oman e) = Inr m"
    "e1 = e\<lparr>pman := ps, feng := fe, oman := m\<rparr>"
    using s(1) assms(1) by (auto simp: book_update_callback_def blank_maker_def bindR_eq_Inr)
  have "blank_table m" using blank_table_cong [OF maker_update_frame [OF m(1)]] assms(1) by (simp add: blank_maker_def)
  then show ?thesis using assms(1) by (simp add: s(2) m(2) drop_bbo_def blank_maker_def)
qed

lemma response_blank:
  assumes "blank_maker confs e" "order_response_callback r e = Inr e'"
  shows "blank_maker confs e'"
  using assms blank_table_response
  by (auto simp: order_response_callback_def blank_maker_def maker_on_order_response_def bindR_eq_Inr)

lemma run_rounds_blank:
  assumes "blank_maker confs e" "run_rounds F e rs = Inr e'"
  shows "blank_maker confs e'"
proof (rule rounds_invariant [where P = "blank_maker confs", OF _ _ _ assms])
  fix e e' :: "'a trading_engine" and ob n
  assume b: "blank_maker confs e" and run: "on_note F ob e n = Inr e'"
  show "blank_maker confs e'"
  proof (cases n)
    case (Trade_Update u)
    then show ?thesis
      using b run by (auto simp: on_note_def on_trade_update_def Let_def blank_maker_def maker_on_trade_update_def)
  next
    case (Book_Update t px s)
    then show ?thesis using book_update_blank [OF b] run by (simp add: on_note_def)
  qed
next
  show "\<And>e e' r. blank_maker confs e \<Longrightarrow> order_response_callback r e = Inr e' \<Longrightarrow> blank_maker confs e'"
    by (rule response_blank)
  show "\<And>e bs now. blank_maker confs e \<Longrightarrow>
      blank_maker confs (e\<lparr>book_for_ticker := bs\<rparr>) \<and> blank_maker confs (e\<lparr>t_last_rx_event := now\<rparr>)"
    by (simp add: blank_maker_def)
qed

lemma new_maker_blank: "blank_maker confs (new_trading_engine F c MARKET_MAKER confs tx)"
  by (simp add: blank_maker_def new_trading_engine_sel new_order_manager_blank)

lemma manage_order_sends:
  assumes "manage_order risk t px s q r m = Inr (r', m')"
  shows "\<exists>xs. tx_requests m' = enq_all xs (tx_requests m)"
proof -
  have "tx_requests m' = tx_requests m \<or> (\<exists>x. tx_requests m' = enq x (tx_requests m))"
    using assms
    by (auto simp: manage_order_def Let_def request_new_order_def request_cancel_order_def bindR_eq_Inr
        send_order_request_to_exchange_def split: om_state.splits if_splits)
  then show ?thesis
  proof
    assume "tx_requests m' = tx_requests m"
    then show ?thesis by (intro exI [of _ "[]"]) (simp add: enq_all_def)
  next
    assume "\<exists>x. tx_requests m' = enq x (tx_requests m)"
    then obtain x where "tx_requests m' = enq x (tx_requests m)" by blast
    then show ?thesis by (intro exI [of _ "[x]"]) (simp add: enq_all_def)
  qed
qed

text \<open>The accepted order of the table is live, without a ticker or a price.\<close>

lemma accepted_order_live:
  assumes b: "blank_table m" and r: "rs_type r = RES_ACCEPTED" and run: "om_on_order_response r m = Inr m'"
  obtains o1 where "om_order_at (rs_ticker_id r) (rs_side r) m' = Inr o1" "blank_order o1" "om_state o1 = LIVE"
    "tx_requests m' = tx_requests m" "unat (rs_ticker_id r) < MAX_TICKERS"
proof -
  obtain o0 where o0: "om_order_at (rs_ticker_id r) (rs_side r) m = Inr o0"
    "m' = set_om_order (rs_ticker_id r) (rs_side r) (o0\<lparr>om_state := LIVE\<rparr>) m"
    using run r by (auto simp: om_on_order_response_def bindR_eq_Inr)
  have t: "unat (rs_ticker_id r) < length (ticker_to_order_by_side m)"
    "side_to_index (rs_side r) < length (ticker_to_order_by_side m ! unat (rs_ticker_id r))"
    using o0(1) by (auto simp: om_order_at_def get_order_by_side_def bindR_eq_Inr)
  have t8: "unat (rs_ticker_id r) < MAX_TICKERS" using t(1) b by (simp add: blank_table_def)
  obtain o0' where "om_order_at (rs_ticker_id r) (rs_side r) m = Inr o0'" "blank_order o0'"
    by (rule blank_order_at [OF b t8])
  then have "blank_order (o0\<lparr>om_state := LIVE\<rparr>)" using o0(1) by (simp add: blank_order_def)
  then show thesis
    by (rule that [rotated]) (use t t8 in \<open>simp_all add: o0(2) om_order_at_def get_order_by_side_def set_om_order_def\<close>)
qed

lemma live_order_cancelled:
  assumes at: "om_order_at t BUY m = Inr o1" "blank_order o1" "om_state o1 = LIVE"
    and px: "bid \<noteq> Price_INVALID" and run: "manage_orders risk t bid ask q m = Inr m'"
  shows "\<exists>more. tx_requests m' = enq_all (cancel_request m o1 # more) (tx_requests m)"
proof -
  let ?m1 = "m\<lparr>tx_requests := enq (cancel_request m o1) (tx_requests m)\<rparr>"
  have "om_price o1 \<noteq> bid" using at(2) px by (simp add: blank_order_def)
  then have "manage_order risk t bid BUY q o1 m = Inr (o1\<lparr>om_state := PENDING_CANCEL\<rparr>, ?m1)"
    by (rule manage_order_cancels [OF at(3)])
  then obtain o2 r' where "manage_order risk t ask SELL q o2 ?m1 = Inr (r', m')"
    using run at(1) by (auto simp: manage_orders_def bindR_eq_Inr)
  from manage_order_sends [OF this] show ?thesis by (auto simp: enq_all_def)
qed

text \<open>
  C9. One accepted order breaks the exchange. In any state a market making engine can reach, let
  an ACCEPTED buy be handled and then a book update of its ticker with both prices quoted. The
  order of the table is live but was never given its ticker, id and price, so the engine
  sends a CANCEL for the invalid ticker, and every matching engine that takes it reads its array
  of books out of bounds.
\<close>

theorem accepted_order_breaks_exchange:
  assumes "run_rounds F (new_trading_engine F c MARKET_MAKER confs tx) rs = Inr e"
    and "rs_type r = RES_ACCEPTED" "rs_side r = BUY" "handle_response now e r = Inr e1"
    and "quoted (book_bbo ob)" "\<bar>sint (bbo_bid (book_bbo ob))\<bar> < 2 ^ 62" "\<bar>sint (bbo_ask (book_bbo ob))\<bar> < 2 ^ 62"
    and "\<forall>x. \<not> feq F x (fnan F)" "length confs = MAX_TICKERS"
    and "on_order_book_update F (rs_ticker_id r) ob e1 = Inr e2"
    and "length (order_book_for_ticker ex) = MAX_TICKERS"
  shows "\<exists>req more. tx_requests (oman e2) = enq_all (req # more) (tx_requests (oman e1))
    \<and> rq_type req = REQ_CANCEL \<and> rq_ticker_id req = TickerID_INVALID
    \<and> process_client_request req ex = Inl Out_of_bounds"
proof -
  let ?t = "rs_ticker_id r" and ?b = "book_bbo ob"
  have blank: "blank_maker confs e" by (rule run_rounds_blank [OF new_maker_blank assms(1)])
  obtain m1 where m1: "om_on_order_response r (oman e) = Inr m1" "e1 = e\<lparr>oman := m1, t_last_rx_event := now\<rparr>"
    using assms(4) blank
    by (auto simp: handle_response_def order_response_callback_def blank_maker_def maker_on_order_response_def bindR_eq_Inr)
  obtain o1 where o1: "om_order_at ?t BUY m1 = Inr o1" "blank_order o1" "om_state o1 = LIVE" "unat ?t < MAX_TICKERS"
    using accepted_order_live [OF _ assms(2) m1(1)] blank unfolding assms(3) blank_maker_def by metis
  obtain ps fe e3 where s: "book_update_callback F ?t ?b (e1\<lparr>pman := ps, feng := fe\<rparr>) = Inr e3" "e2 = drop_bbo ?t e3"
    by (rule on_order_book_update_frame [OF assms(10)])
  obtain m2 where m2: "maker_on_order_book_update F confs (get_trade_risk F (rman e) ps) ?t ?b fe m1 = Inr m2" "oman e2 = m2"
    using s blank by (auto simp: book_update_callback_def blank_maker_def m1(2) drop_bbo_def bindR_eq_Inr)
  let ?mp = "market_price fe" and ?c = "confs ! unat ?t"
  have "manage_orders (get_trade_risk F (rman e) ps) ?t (quoted_bid F ?c ?b ?mp) (quoted_ask F ?c ?b ?mp) (trade_size ?c) m1 = Inr m2"
    using m2(1) maker_quotes [OF assms(5-7), of F fe ?t confs] assms(8,9) o1(4) by simp
  from live_order_cancelled [OF o1(1-3) quoted_prices(3) [OF assms(6,7)] this] obtain more where
    more: "tx_requests m2 = enq_all (cancel_request m1 o1 # more) (tx_requests m1)" by blast
  have req: "rq_type (cancel_request m1 o1) = REQ_CANCEL" "rq_ticker_id (cancel_request m1 o1) = TickerID_INVALID"
    using o1(2) by (simp_all add: cancel_request_def blank_order_def)
  then have "process_client_request (cancel_request m1 o1) ex = Inl Out_of_bounds"
    using assms(11) by (simp add: process_client_request_def on_book_def require_def TickerID_INVALID_def ID_INVALID_def
        limit_defs unsigned_minus_1_eq_mask mask_eq_exp_minus_1)
  then show ?thesis using more req m2(2) m1(2) by auto
qed

definition demo_accept :: ome_client_response where
  "demo_accept = default_response\<lparr>rs_type := RES_ACCEPTED, rs_ticker_id := 0, rs_side := BUY\<rparr>"

definition demo_quoted_book :: te_book where
  "demo_quoted_book = (new_te_book 0)\<lparr>book_bbo := demo_bbo\<rparr>"

lemma demo_allowed:
  assumes "untouched (exact_ops (\<lambda>_. ''x'')) (ps ! 0)" "s = BUY \<or> s = SELL"
  shows "get_trade_risk (exact_ops (\<lambda>_. ''x'')) (new_risk_manager demo_engine_confs) ps 0 s 5 = Inr ALLOWED"
proof -
  have "new_risk_manager demo_engine_confs ! 0 = demo_risk_conf" "length (new_risk_manager demo_engine_confs) = MAX_TICKERS"
    by (simp_all add: new_risk_manager_def demo_engine_confs_def demo_conf_def limit_defs nth_Cons')
  then show ?thesis
    using assms by (auto simp: get_trade_risk_def trade_risk_def untouched_def demo_risk_conf_def int32_ok abs32_ok limit_defs)
qed

lemma demo_accepted:
  "\<exists>e1 o1. handle_response 7 demo_trader demo_accept = Inr e1 \<and> never_traded (exact_ops (\<lambda>_. ''x'')) (rman demo_trader) e1
    \<and> maker_algo e1 = Some demo_engine_confs \<and> rman e1 = new_risk_manager demo_engine_confs
    \<and> om_order_at 0 BUY (oman e1) = Inr o1 \<and> om_state o1 = LIVE \<and> om_price o1 = Price_INVALID
    \<and> om_order_at 0 SELL (oman e1) = Inr default_om_order"
proof -
  have at: "om_order_at 0 s (new_order_manager 1 (new_lfqueue 8 default_request)) = Inr default_om_order" for s
    by (rule new_table_at) (simp add: limit_defs)
  let ?m1 = "set_om_order 0 BUY (default_om_order\<lparr>om_state := LIVE\<rparr>) (new_order_manager 1 (new_lfqueue 8 default_request))"
  have "handle_response 7 demo_trader demo_accept = Inr (demo_trader\<lparr>oman := ?m1, t_last_rx_event := 7\<rparr>)"
    by (simp add: handle_response_def order_response_callback_def demo_trader_sel maker_on_order_response_def
        om_on_order_response_def demo_accept_def at)
  moreover have "om_order_at 0 BUY ?m1 = Inr (default_om_order\<lparr>om_state := LIVE\<rparr>)" "om_order_at 0 SELL ?m1 = Inr default_om_order"
    by (simp_all add: om_order_at_def get_order_by_side_def set_om_order_def new_order_manager_def limit_defs)
  moreover have "never_traded (exact_ops (\<lambda>_. ''x'')) (rman demo_trader) demo_trader"
    using new_engine_never_traded [of "exact_ops (\<lambda>_. ''x'')" demo_engine_confs 1 MARKET_MAKER "new_lfqueue 8 default_request"]
    by (simp add: demo_trader_sel flip: demo_trader_def)
  ultimately show ?thesis by (simp add: never_traded_def demo_trader_sel default_om_order_def)
qed

lemma demo_quoted:
  "book_bbo demo_quoted_book = demo_bbo" "quoted demo_bbo"
  "\<bar>sint (bbo_bid demo_bbo)\<bar> < 2 ^ 62" "\<bar>sint (bbo_ask demo_bbo)\<bar> < 2 ^ 62"
  by (simp_all add: demo_quoted_book_def demo_bbo_def quoted_def Price_INVALID_def)

lemma demo_second_quote:
  assumes nt: "never_traded (exact_ops (\<lambda>_. ''x'')) rm e" and e: "maker_algo e = Some demo_engine_confs"
    "rman e = new_risk_manager demo_engine_confs"
    and at: "om_order_at 0 BUY (oman e) = Inr o1" "om_state o1 = LIVE" "om_price o1 = Price_INVALID"
    "om_order_at 0 SELL (oman e) = Inr default_om_order"
  shows "\<exists>e2. on_order_book_update (exact_ops (\<lambda>_. ''x'')) 0 demo_quoted_book e = Inr e2"
proof -
  let ?F = "exact_ops (\<lambda>_. ''x'')" and ?c = demo_conf
  have t: "unat (0 :: ticker_id) < MAX_TICKERS" by (simp add: limit_defs)
  let ?ps = "(pman e)[0 := (pman e ! 0)\<lparr>pos_bbo := Bbo demo_bbo\<rparr>]"
  have u: "untouched ?F (pman e ! 0)" using never_traded_nth [OF nt t] by simp
  have ps: "pman_on_bbo_update ?F 0 demo_bbo (pman e) = Inr ?ps"
    using u t nt by (simp add: pman_on_bbo_update_def on_position_def get_position_def untouched_bbo_update never_traded_def)
  obtain fe where fe: "feng_on_order_book_update ?F demo_bbo (feng e) = Inr fe"
    using market_price_between [OF demo_quoted(2), of "\<lambda>_. ''x''" "feng e"] by (auto simp: demo_bbo_def)
  have u': "untouched ?F (?ps ! 0)"
    using u nt by (simp add: never_traded_def untouched_bbo limit_defs)
  define risk where "risk = get_trade_risk ?F (new_risk_manager demo_engine_confs) ?ps"
  have risk: "risk 0 SELL 5 = Inr ALLOWED" unfolding risk_def by (rule demo_allowed [OF u']) simp
  let ?bid = "quoted_bid ?F ?c demo_bbo (market_price fe)" and ?ask = "quoted_ask ?F ?c demo_bbo (market_price fe)"
  have px: "om_price o1 \<noteq> ?bid" "?ask \<noteq> Price_INVALID"
    using quoted_prices(3,4) [OF demo_quoted(3,4), of ?F ?c "market_price fe"] at(3) by simp_all
  let ?m1 = "(oman e)\<lparr>tx_requests := enq (cancel_request (oman e) o1) (tx_requests (oman e))\<rparr>"
  have at1: "om_order_at 0 SELL ?m1 = Inr default_om_order"
    using at(4) by (simp add: om_order_at_def get_order_by_side_def)
  obtain m2 where m2: "manage_orders risk 0 ?bid ?ask 5 (oman e) = Inr m2"
    using at(1) at1 manage_order_cancels [where risk = risk and t = 0 and s = BUY and q = 5, OF at(2) px(1)]
      manage_order_places [where risk = risk and t = 0 and s = SELL and q = 5, OF default_order_at_rest px(2) risk]
    by (simp add: manage_orders_def)
  have c: "demo_engine_confs ! unat (0 :: ticker_id) = demo_conf" "unat (0 :: ticker_id) < length demo_engine_confs"
    by (simp_all add: demo_engine_confs_def limit_defs)
  have "maker_on_order_book_update ?F demo_engine_confs risk 0 demo_bbo fe (oman e) = Inr m2"
    using maker_quotes [OF demo_quoted(2-4), of ?F fe 0 demo_engine_confs risk "oman e"] m2 c
    by (simp add: demo_conf_def)
  then show ?thesis
    by (simp add: on_order_book_update_def Let_def demo_quoted(1) ps fe book_update_callback_def e flip: risk_def)
qed

theorem accepted_order_breaks_exchange_witness:
  "\<exists>e1 e2 req more. handle_response 7 demo_trader demo_accept = Inr e1
    \<and> on_order_book_update (exact_ops (\<lambda>_. ''x'')) 0 demo_quoted_book e1 = Inr e2
    \<and> tx_requests (oman e2) = enq_all (req # more) (tx_requests (oman e1))
    \<and> process_client_request req demo_engine = Inl Out_of_bounds"
proof -
  let ?F = "exact_ops (\<lambda>_. ''x'')"
  obtain e1 where e1: "handle_response 7 demo_trader demo_accept = Inr e1"
    "\<exists>e2. on_order_book_update ?F 0 demo_quoted_book e1 = Inr e2"
    using demo_accepted demo_second_quote by blast
  then obtain e2 where e2: "on_order_book_update ?F (rs_ticker_id demo_accept) demo_quoted_book e1 = Inr e2"
    by (auto simp: demo_accept_def)
  have r0: "run_rounds ?F (new_trading_engine ?F 1 MARKET_MAKER demo_engine_confs (new_lfqueue 8 default_request)) [] = Inr demo_trader"
    by (simp add: run_rounds_def demo_trader_def)
  have r: "rs_type demo_accept = RES_ACCEPTED" "rs_side demo_accept = BUY" "rs_ticker_id demo_accept = 0"
    by (simp_all add: demo_accept_def)
  have n: "\<forall>x. \<not> feq ?F x (fnan ?F)" "length demo_engine_confs = MAX_TICKERS" "length (order_book_for_ticker demo_engine) = MAX_TICKERS"
    using demo_engine_ok by (simp_all add: demo_engine_confs_def engine_ok_def)
  have q: "quoted (book_bbo demo_quoted_book)" "\<bar>sint (bbo_bid (book_bbo demo_quoted_book))\<bar> < 2 ^ 62"
    "\<bar>sint (bbo_ask (book_bbo demo_quoted_book))\<bar> < 2 ^ 62"
    unfolding demo_quoted(1) by (rule demo_quoted)+
  show ?thesis
    using accepted_order_breaks_exchange [OF r0 r(1,2) e1(1) q n(1,2) e2 n(3)] e1(1) e2 unfolding r(3) by blast
qed

end
