(* ===== verification/Lifecycle.thy ===== *)
theory Lifecycle
  imports Prelude
begin

text \<open>
  How the components are started, stopped and destroyed. Each has a thread that runs a loop
  \<open>while (is_running)\<close>, and an owner that calls its \<open>start\<close>, \<open>stop\<close> and destructor. Here the
  owner is a list of the calls it has yet to make that matter to the threads; it and the threads
  move in any order (\<open>pstep\<close>). What a round of a loop does to the data is the \<open>workload\<close>: the
  theories of the components define it. \<open>create_and_start_thread\<close> is one step here, as
  \<open>Threads\<close> shows that without a core to pin to it always gives a thread. An access to \<open>is_running\<close>
  is one step; most components declare it \<open>volatile\<close>, not \<open>std::atomic\<close>.
\<close>

subsection \<open>Processes\<close>

datatype thread_id = T_ome | T_ogs | T_mdp | T_ss | T_server | T_ogc | T_mdc | T_te | T_logger

datatype queue_id = Q_client_requests | Q_client_responses | Q_market_updates

text \<open>
  The calls of the owner. \<open>Wait_drained\<close> is a loop that sleeps until the queues of the thread are
  empty, \<open>Destroy\<close> the destructor of a queue, \<open>Work\<close> anything that only touches the data.
\<close>

datatype 'c instr = Set_running thread_id bool | Create_thread thread_id | Wait_drained thread_id
  | Join_thread thread_id | Destroy queue_id | Work "'c \<Rightarrow> 'c"

datatype thread_pc = No_thread | Starting | Testing | In_round | Exited

record 'c process =
  p_ctl :: "'c instr list"
  p_flag :: "thread_id \<Rightarrow> bool"
  p_pc :: "thread_id \<Rightarrow> thread_pc"
  p_destroyed :: "queue_id set"
  p_dangling :: bool
  p_terminated :: bool
  p_store :: 'c

record 'c workload =
  w_round :: "thread_id \<Rightarrow> 'c \<Rightarrow> 'c \<Rightarrow> bool"
  w_over :: "thread_id \<Rightarrow> 'c \<Rightarrow> bool"
  w_drained :: "thread_id \<Rightarrow> 'c \<Rightarrow> bool"

definition new_process :: "'c instr list \<Rightarrow> 'c \<Rightarrow> 'c process" where
  "new_process prog st = \<lparr>p_ctl = prog, p_flag = \<lambda>_. False, p_pc = \<lambda>_. No_thread, p_destroyed = {},
     p_dangling = False, p_terminated = False, p_store = st\<rparr>"

text \<open>The queues of the exchange server that the loops poll.\<close>

fun uses :: "thread_id \<Rightarrow> queue_id set" where
  "uses T_ome = {Q_client_requests, Q_client_responses, Q_market_updates}"
| "uses T_ogs = {Q_client_requests, Q_client_responses}"
| "uses T_mdp = {Q_market_updates}"
| "uses _ = {}"

text \<open>
  \<open>run()\<close>: of all loops only the matching engine's sets \<open>is_running\<close> itself, when it starts; the
  other components' \<open>start()\<close> sets it before it creates the thread.
\<close>

definition enter_run :: "thread_id \<Rightarrow> bool \<Rightarrow> bool" where
  "enter_run t b = (if t = T_ome then True else b)"

text \<open>
  The steps. Assigning a new thread over one that was not joined terminates the process, and so
  nothing moves after it. A round with a queue that is gone is undefined: the step records it.
\<close>

inductive pstep :: "'c workload \<Rightarrow> 'c process \<Rightarrow> 'c process \<Rightarrow> bool" for W where
  set_running: "\<not> p_terminated s \<Longrightarrow> p_ctl s = Set_running t b # is
    \<Longrightarrow> pstep W s (s\<lparr>p_ctl := is, p_flag := (p_flag s)(t := b)\<rparr>)"
| create_thread: "\<not> p_terminated s \<Longrightarrow> p_ctl s = Create_thread t # is \<Longrightarrow> p_pc s t = No_thread
    \<Longrightarrow> pstep W s (s\<lparr>p_ctl := is, p_pc := (p_pc s)(t := Starting)\<rparr>)"
| create_over_thread: "\<not> p_terminated s \<Longrightarrow> p_ctl s = Create_thread t # is \<Longrightarrow> p_pc s t \<noteq> No_thread
    \<Longrightarrow> pstep W s (s\<lparr>p_terminated := True\<rparr>)"
| wait_drained: "\<not> p_terminated s \<Longrightarrow> p_ctl s = Wait_drained t # is \<Longrightarrow> w_drained W t (p_store s)
    \<Longrightarrow> pstep W s (s\<lparr>p_ctl := is\<rparr>)"
| join_thread: "\<not> p_terminated s \<Longrightarrow> p_ctl s = Join_thread t # is \<Longrightarrow> p_pc s t \<in> {No_thread, Exited}
    \<Longrightarrow> pstep W s (s\<lparr>p_ctl := is, p_pc := (p_pc s)(t := No_thread)\<rparr>)"
| destroy: "\<not> p_terminated s \<Longrightarrow> p_ctl s = Destroy q # is
    \<Longrightarrow> pstep W s (s\<lparr>p_ctl := is, p_destroyed := insert q (p_destroyed s)\<rparr>)"
| work: "\<not> p_terminated s \<Longrightarrow> p_ctl s = Work f # is \<Longrightarrow> pstep W s (s\<lparr>p_ctl := is, p_store := f (p_store s)\<rparr>)"
| enter: "\<not> p_terminated s \<Longrightarrow> p_pc s t = Starting
    \<Longrightarrow> pstep W s (s\<lparr>p_pc := (p_pc s)(t := Testing), p_flag := (p_flag s)(t := enter_run t (p_flag s t))\<rparr>)"
| test: "\<not> p_terminated s \<Longrightarrow> p_pc s t = Testing
    \<Longrightarrow> pstep W s (s\<lparr>p_pc := (p_pc s)(t := if p_flag s t then In_round else Exited)\<rparr>)"
| round: "\<not> p_terminated s \<Longrightarrow> p_pc s t = In_round \<Longrightarrow> uses t \<inter> p_destroyed s = {} \<Longrightarrow> w_round W t (p_store s) st
    \<Longrightarrow> pstep W s (s\<lparr>p_store := st\<rparr>)"
| round_dangling: "\<not> p_terminated s \<Longrightarrow> p_pc s t = In_round \<Longrightarrow> uses t \<inter> p_destroyed s \<noteq> {}
    \<Longrightarrow> pstep W s (s\<lparr>p_dangling := True\<rparr>)"
| round_over: "\<not> p_terminated s \<Longrightarrow> p_pc s t = In_round \<Longrightarrow> w_over W t (p_store s)
    \<Longrightarrow> pstep W s (s\<lparr>p_pc := (p_pc s)(t := Testing)\<rparr>)"

abbreviation pruns :: "'c workload \<Rightarrow> 'c process \<Rightarrow> 'c process \<Rightarrow> bool" where
  "pruns W \<equiv> (pstep W)\<^sup>*\<^sup>*"

subsection \<open>The components\<close>

text \<open>\<open>start\<close> also listens or connects where there is a socket; \<open>stop\<close> joins if there is a thread to join.\<close>

definition ome_start :: "'c instr list" where
  "ome_start = [Create_thread T_ome]"

definition ome_stop :: "'c instr list" where
  "ome_stop = [Set_running T_ome False, Join_thread T_ome]"

definition ogs_start :: "'c instr list" where
  "ogs_start = [Set_running T_ogs True, Create_thread T_ogs]"

definition ogs_stop :: "'c instr list" where
  "ogs_stop = [Set_running T_ogs False, Join_thread T_ogs]"

definition ss_start :: "'c instr list" where
  "ss_start = [Set_running T_ss True, Create_thread T_ss]"

definition ss_stop :: "'c instr list" where
  "ss_stop = [Set_running T_ss False, Join_thread T_ss]"

definition mdp_start :: "'c instr list" where
  "mdp_start = [Set_running T_mdp True, Create_thread T_mdp] @ ss_start"

definition mdp_stop :: "'c instr list" where
  "mdp_stop = [Set_running T_mdp False, Join_thread T_mdp] @ ss_stop"

definition ogc_start :: "'c instr list" where
  "ogc_start = [Set_running T_ogc True, Create_thread T_ogc]"

definition ogc_stop :: "'c instr list" where
  "ogc_stop = [Set_running T_ogc False, Join_thread T_ogc]"

definition mdc_start :: "'c instr list" where
  "mdc_start = [Set_running T_mdc True, Create_thread T_mdc]"

definition mdc_stop :: "'c instr list" where
  "mdc_stop = [Set_running T_mdc False, Join_thread T_mdc]"

definition te_start :: "'c instr list" where
  "te_start = [Set_running T_te True, Create_thread T_te]"

text \<open>
  \<open>TradingEngine::stop\<close> first waits for both of its queues to be empty and then logs the report of
  the positions, while its thread still runs; \<open>~Logger\<close> waits for its queue.
\<close>

definition te_stop :: "('c \<Rightarrow> 'c) \<Rightarrow> 'c instr list" where
  "te_stop report = [Wait_drained T_te, Work report, Set_running T_te False, Join_thread T_te]"

definition logger_constructor :: "'c instr list" where
  "logger_constructor = [Set_running T_logger True, Create_thread T_logger]"

definition logger_destructor :: "'c instr list" where
  "logger_destructor = [Wait_drained T_logger, Set_running T_logger False, Join_thread T_logger]"

subsection \<open>The exchange server and the main program\<close>

definition server_start :: "'c instr list" where
  "server_start = ome_start @ ogs_start @ mdp_start @ [Set_running T_server True, Create_thread T_server]"

definition server_stop :: "'c instr list" where
  "server_stop = [Set_running T_server False, Join_thread T_server]"

text \<open>
  \<open>~ExchangeServer\<close> calls \<open>stop\<close>; then its members are destroyed, the last one declared first: the
  three queues, the logger, and the components, whose destructors stop them. The publisher's
  destroys the synthesizer, which stops once more. All loggers together are the one \<open>T_logger\<close>.
\<close>

definition server_destructor :: "'c instr list" where
  "server_destructor = server_stop @ [Destroy Q_market_updates, Destroy Q_client_responses, Destroy Q_client_requests]
     @ logger_destructor @ ogs_stop @ mdp_stop @ ss_stop @ ome_stop"

text \<open>\<open>nitek_main.cpp\<close>: \<open>main\<close> up to its endless loop, which the signal handler interrupts.\<close>

definition nitek_main :: "'c instr list" where
  "nitek_main = logger_constructor @ ome_start"

definition shutdown_handler :: "'c instr list" where
  "shutdown_handler = logger_destructor @ ome_stop"

end
