(* ===== verification/Lifecycle_Properties.thy ===== *)
theory Lifecycle_Properties
  imports Lifecycle
begin

text \<open>
  What the owner's calls do to the threads, whatever the scheduler does. The specification gives
  every thread a status and every call its effect on it (\<open>call_effect\<close>); the processes of
  \<open>Lifecycle\<close> refine it. It decides which orders of calls can always be carried through.
\<close>

subsection \<open>The status of a thread\<close>

text \<open>
  \<open>Absent\<close> and \<open>Ready\<close>: no thread, the flag set when \<open>Ready\<close>. \<open>Live\<close>: a thread that will not leave
  its loop by itself; \<open>Stopping\<close>: one that will, at its next test; \<open>Unsure\<close>: either.
\<close>

datatype status = Absent | Ready | Live | Stopping | Unsure

fun has_status :: "status \<Rightarrow> thread_id \<Rightarrow> 'c process \<Rightarrow> bool" where
  "has_status Absent t s \<longleftrightarrow> p_pc s t = No_thread"
| "has_status Ready t s \<longleftrightarrow> p_pc s t = No_thread \<and> p_flag s t"
| "has_status Live t s \<longleftrightarrow> p_pc s t \<in> {Starting, Testing, In_round} \<and> (p_flag s t \<or> t = T_ome \<and> p_pc s t = Starting)"
| "has_status Stopping t s \<longleftrightarrow> p_pc s t \<noteq> No_thread \<and> \<not> p_flag s t \<and> t \<noteq> T_ome"
| "has_status Unsure t s \<longleftrightarrow> p_pc s t \<noteq> No_thread"

text \<open>The effect of a call; \<open>None\<close>: the owner never gets past it.\<close>

fun flag_effect :: "bool \<Rightarrow> thread_id \<Rightarrow> status \<Rightarrow> status" where
  "flag_effect b t Absent = (if b then Ready else Absent)"
| "flag_effect b t Ready = (if b then Ready else Absent)"
| "flag_effect b t Live = (if b then Live else if t = T_ome then Unsure else Stopping)"
| "flag_effect b t Stopping = (if b then Unsure else Stopping)"
| "flag_effect b t Unsure = (if b \<or> t = T_ome then Unsure else Stopping)"

fun call_effect :: "'c instr \<Rightarrow> (thread_id \<Rightarrow> status) \<Rightarrow> (thread_id \<Rightarrow> status) option" where
  "call_effect (Set_running t b) \<sigma> = Some (\<sigma>(t := flag_effect b t (\<sigma> t)))"
| "call_effect (Create_thread t) \<sigma> = (case \<sigma> t of
     Absent \<Rightarrow> Some (\<sigma>(t := if t = T_ome then Live else Unsure)) | Ready \<Rightarrow> Some (\<sigma>(t := Live)) | _ \<Rightarrow> None)"
| "call_effect (Join_thread t) \<sigma> = (case \<sigma> t of
     Live \<Rightarrow> None | Ready \<Rightarrow> Some \<sigma> | _ \<Rightarrow> Some (\<sigma>(t := Absent)))"
| "call_effect _ \<sigma> = Some \<sigma>"

fun calls_effect :: "'c instr list \<Rightarrow> (thread_id \<Rightarrow> status) \<Rightarrow> (thread_id \<Rightarrow> status) option" where
  "calls_effect [] \<sigma> = Some \<sigma>"
| "calls_effect (i # is) \<sigma> = Option.bind (call_effect i \<sigma>) (calls_effect is)"

lemma calls_effect_append: "calls_effect (is @ js) \<sigma> = Option.bind (calls_effect is \<sigma>) (calls_effect js)"
  by (induction "is" arbitrary: \<sigma>) (simp_all split: Option.bind_splits)

text \<open>A thread's own steps keep its status.\<close>

definition have_status :: "(thread_id \<Rightarrow> status) \<Rightarrow> 'c process \<Rightarrow> bool" where
  "have_status \<sigma> s \<longleftrightarrow> (\<forall>t. has_status (\<sigma> t) t s)"

lemma have_status_cong: "p_pc s' = p_pc s \<Longrightarrow> p_flag s' = p_flag s \<Longrightarrow> have_status \<sigma> s' = have_status \<sigma> s"
proof -
  assume "p_pc s' = p_pc s" "p_flag s' = p_flag s"
  then have "has_status x t s' = has_status x t s" for x t by (cases x) simp_all
  then show ?thesis by (simp add: have_status_def)
qed

lemma has_status_move:
  assumes "has_status x t s" "p_pc s t \<noteq> No_thread" "c \<noteq> No_thread" "c = Exited \<longrightarrow> \<not> b"
    and "\<And>u. u \<noteq> t \<Longrightarrow> p_pc s' u = p_pc s u \<and> p_flag s' u = p_flag s u" "p_pc s' t = c" "p_flag s' t = b"
    and "b = p_flag s t \<or> b \<and> t = T_ome" "c = Starting \<longrightarrow> p_pc s t = Starting"
    and "c = Exited \<longrightarrow> p_pc s t = Testing" "c \<in> {Testing, In_round} \<longrightarrow> p_pc s t = Starting \<longrightarrow> t = T_ome \<longrightarrow> b"
  shows "has_status x t s'"
  using assms by (cases x; cases "p_pc s t"; cases c) auto

text \<open>The simulation: the calls made so far have had their effect, and the process is as it says.\<close>

definition simulated :: "(thread_id \<Rightarrow> status) \<Rightarrow> 'c instr list \<Rightarrow> 'c process \<Rightarrow> bool" where
  "simulated \<sigma>0 prog s \<longleftrightarrow> (\<exists>pre \<sigma>. prog = pre @ p_ctl s \<and> calls_effect pre \<sigma>0 = Some \<sigma> \<and> have_status \<sigma> s)"

lemma simulated_call:
  assumes "simulated \<sigma>0 prog s" "p_ctl s = i # is" "p_ctl s' = is"
    and "\<And>\<sigma>. have_status \<sigma> s \<Longrightarrow> \<exists>\<sigma>'. call_effect i \<sigma> = Some \<sigma>' \<and> have_status \<sigma>' s'"
  shows "simulated \<sigma>0 prog s'"
proof -
  from assms(1) obtain pre \<sigma> where p: "prog = pre @ p_ctl s" "calls_effect pre \<sigma>0 = Some \<sigma>" "have_status \<sigma> s"
    by (auto simp: simulated_def)
  from assms(4) [OF p(3)] obtain \<sigma>' where "call_effect i \<sigma> = Some \<sigma>'" "have_status \<sigma>' s'" by blast
  then show ?thesis
    using p assms(2,3) unfolding simulated_def
    by (intro exI [of _ "pre @ [i]"] exI [of _ \<sigma>']) (simp add: calls_effect_append)
qed

lemma simulated_same:
  "simulated \<sigma>0 prog s \<Longrightarrow> p_ctl s' = p_ctl s \<Longrightarrow> (\<And>\<sigma>. have_status \<sigma> s \<Longrightarrow> have_status \<sigma> s') \<Longrightarrow> simulated \<sigma>0 prog s'"
  by (auto simp: simulated_def)

lemma have_status_update:
  assumes "have_status \<sigma> s" "has_status x t s'" "\<And>u. u \<noteq> t \<Longrightarrow> p_pc s' u = p_pc s u \<and> p_flag s' u = p_flag s u"
  shows "have_status (\<sigma>(t := x)) s'"
proof -
  have "has_status (\<sigma> u) u s'" if "u \<noteq> t" for u
    using assms(1) assms(3) [OF that] by (cases "\<sigma> u") (auto simp: have_status_def dest: spec [of _ u])
  then show ?thesis using assms(2) by (simp add: have_status_def)
qed

lemma have_status_at: "have_status \<sigma> s \<Longrightarrow> has_status (\<sigma> t) t s"
  by (simp add: have_status_def)

lemma have_status_move:
  assumes "have_status \<sigma> s" "\<And>x. has_status x t s \<Longrightarrow> has_status x t s'"
    "\<And>u. u \<noteq> t \<Longrightarrow> p_pc s' u = p_pc s u \<and> p_flag s' u = p_flag s u"
  shows "have_status \<sigma> s'"
  using have_status_update [OF assms(1) assms(2) [OF have_status_at [OF assms(1)]] assms(3)] by simp

lemma simulated_data:
  "simulated \<sigma>0 prog (s\<lparr>p_store := st\<rparr>) = simulated \<sigma>0 prog s"
  "simulated \<sigma>0 prog (s\<lparr>p_terminated := b\<rparr>) = simulated \<sigma>0 prog s"
  "simulated \<sigma>0 prog (s\<lparr>p_dangling := b\<rparr>) = simulated \<sigma>0 prog s"
proof -
  have "have_status \<sigma> (s\<lparr>p_store := st\<rparr>) = have_status \<sigma> s" "have_status \<sigma> (s\<lparr>p_terminated := b\<rparr>) = have_status \<sigma> s"
    "have_status \<sigma> (s\<lparr>p_dangling := b\<rparr>) = have_status \<sigma> s" for \<sigma>
    by (rule have_status_cong; simp)+
  then show "simulated \<sigma>0 prog (s\<lparr>p_store := st\<rparr>) = simulated \<sigma>0 prog s"
    "simulated \<sigma>0 prog (s\<lparr>p_terminated := b\<rparr>) = simulated \<sigma>0 prog s"
    "simulated \<sigma>0 prog (s\<lparr>p_dangling := b\<rparr>) = simulated \<sigma>0 prog s"
    by (simp_all add: simulated_def)
qed

lemma simulated_step:
  assumes "pstep W s s'" "simulated \<sigma>0 prog s"
  shows "simulated \<sigma>0 prog s'"
  using assms(1)
proof (cases rule: pstep.cases)
  case (set_running t b "is")
  have "have_status (\<sigma>(t := flag_effect b t (\<sigma> t))) s'" if "have_status \<sigma> s" for \<sigma>
    by (rule have_status_update [OF that])
      (use have_status_at [OF that, of t] set_running in \<open>cases "\<sigma> t"; auto\<close>)+
  then show ?thesis by (intro simulated_call [OF assms(2) set_running(3)]) (use set_running in auto)
next
  case (create_thread t "is")
  show ?thesis
  proof (rule simulated_call [OF assms(2) create_thread(3)])
    fix \<sigma> assume s: "have_status \<sigma> s"
    have t: "\<sigma> t = Absent \<or> \<sigma> t = Ready" using have_status_at [OF s, of t] create_thread(4) by (cases "\<sigma> t") auto
    show "\<exists>\<sigma>'. call_effect (Create_thread t :: 'a instr) \<sigma> = Some \<sigma>' \<and> have_status \<sigma>' s'"
      using t have_status_at [OF s, of t] create_thread(1)
      by (auto intro!: have_status_update [OF s])
  qed (use create_thread in simp)
next
  case (join_thread t "is")
  show ?thesis
  proof (rule simulated_call [OF assms(2) join_thread(3)])
    fix \<sigma> assume s: "have_status \<sigma> s"
    have t: "\<sigma> t \<noteq> Live" using have_status_at [OF s, of t] join_thread(4) by auto
    have r: "have_status \<sigma> s'" if "\<sigma> t = Ready"
      using have_status_update [OF s, of Ready t s'] have_status_at [OF s, of t] join_thread(1) that
      by (simp add: fun_upd_idem)
    show "\<exists>\<sigma>'. call_effect (Join_thread t :: 'a instr) \<sigma> = Some \<sigma>' \<and> have_status \<sigma>' s'"
      using t r join_thread(1) by (cases "\<sigma> t") (auto intro!: have_status_update [OF s])
  qed (use join_thread in simp)
next
  case (enter t)
  show ?thesis
    by (rule simulated_same [OF assms(2)], simp add: enter(1), rule have_status_move [of _ s t], assumption)
      (rule has_status_move [of _ t s Testing "enter_run t (p_flag s t)"], auto simp: enter enter_run_def)
next
  case (test t)
  show ?thesis
    by (rule simulated_same [OF assms(2)], simp add: test(1), rule have_status_move [of _ s t], assumption)
      (rule has_status_move [of _ t s "p_pc s' t" "p_flag s t"], auto simp: test)
next
  case (round_over t)
  show ?thesis
    by (rule simulated_same [OF assms(2)], simp add: round_over(1), rule have_status_move [of _ s t], assumption)
      (rule has_status_move [of _ t s Testing "p_flag s t"], auto simp: round_over)
next
  case (wait_drained t "is")
  show ?thesis by (rule simulated_call [OF assms(2) wait_drained(3)]) (simp_all add: wait_drained(1) cong: have_status_cong)
next
  case (destroy q "is")
  show ?thesis by (rule simulated_call [OF assms(2) destroy(3)]) (simp_all add: destroy(1) cong: have_status_cong)
next
  case (work f "is")
  show ?thesis by (rule simulated_call [OF assms(2) work(3)]) (simp_all add: work(1) cong: have_status_cong)
qed (use assms(2) in \<open>simp_all add: simulated_data\<close>)

lemma simulated_runs: "pruns W s s' \<Longrightarrow> simulated \<sigma>0 prog s \<Longrightarrow> simulated \<sigma>0 prog s'"
  by (induction rule: rtranclp_induct) (auto intro: simulated_step)

definition all_absent :: "thread_id \<Rightarrow> status" where
  "all_absent = (\<lambda>_. Absent)"

lemma simulated_new: "simulated all_absent prog (new_process prog st)"
  unfolding simulated_def
  by (rule exI [of _ "[]"], rule exI [of _ all_absent]) (simp add: new_process_def have_status_def all_absent_def)

lemma pruns_simulated: "pruns W (new_process prog st) s \<Longrightarrow> simulated all_absent prog s"
  by (rule simulated_runs [OF _ simulated_new])

lemma simulated_here: "have_status \<sigma> s \<Longrightarrow> simulated \<sigma> (p_ctl s) s"
  unfolding simulated_def by (rule exI [of _ "[]"], rule exI [of _ \<sigma>]) simp

lemma have_status_runs:
  assumes "pruns W s s'" "p_ctl s' = p_ctl s" "have_status \<sigma> s"
  shows "have_status \<sigma> s'"
proof -
  from simulated_here [OF assms(3)] have "simulated \<sigma> (p_ctl s) s'" by (rule simulated_runs [OF assms(1)])
  then show ?thesis using assms(2) by (auto simp: simulated_def)
qed

subsection \<open>Calls that can always be carried through\<close>

fun can_pass :: "'c instr \<Rightarrow> (thread_id \<Rightarrow> status) \<Rightarrow> bool" where
  "can_pass (Join_thread t) \<sigma> \<longleftrightarrow> \<sigma> t \<in> {Absent, Ready, Stopping}"
| "can_pass (Wait_drained t) \<sigma> \<longleftrightarrow> \<sigma> t = Live"
| "can_pass (Destroy q) \<sigma> \<longleftrightarrow> False"
| "can_pass _ \<sigma> \<longleftrightarrow> True"

fun all_pass :: "'c instr list \<Rightarrow> (thread_id \<Rightarrow> status) \<Rightarrow> bool" where
  "all_pass [] \<sigma> \<longleftrightarrow> True"
| "all_pass (i # is) \<sigma> \<longleftrightarrow> can_pass i \<sigma> \<and> (case call_effect i \<sigma> of None \<Rightarrow> False | Some \<sigma>' \<Rightarrow> all_pass is \<sigma>')"

text \<open>
  A thread that only its own steps move, on a process that can go on and has lost no queue.
\<close>

definition sound :: "'c process \<Rightarrow> bool" where
  "sound s \<longleftrightarrow> \<not> p_terminated s \<and> p_destroyed s = {}"

definition runs_to :: "'c workload \<Rightarrow> 'c process \<Rightarrow> 'c process \<Rightarrow> bool" where
  "runs_to W s s' \<longleftrightarrow> pruns W s s' \<and> sound s' \<and> p_ctl s' = p_ctl s"

lemma runs_to_refl: "sound s \<Longrightarrow> runs_to W s s"
  by (simp add: runs_to_def)

lemma runs_to_step: "runs_to W s s' \<Longrightarrow> pstep W s' s'' \<Longrightarrow> sound s'' \<Longrightarrow> p_ctl s'' = p_ctl s' \<Longrightarrow> runs_to W s s''"
  by (auto simp: runs_to_def)

lemma runs_to_trans: "runs_to W s s' \<Longrightarrow> runs_to W s' s'' \<Longrightarrow> runs_to W s s''"
  by (auto simp: runs_to_def)

lemma runs_to_rounds:
  assumes "(w_round W t)\<^sup>*\<^sup>* (p_store s) st" "p_pc s t = In_round" "sound s"
  shows "runs_to W s (s\<lparr>p_store := st\<rparr>)"
  using assms(1)
proof (induction rule: rtranclp_induct)
  case base
  show ?case using assms(3) by (simp add: runs_to_refl)
next
  case (step st st')
  have "pstep W (s\<lparr>p_store := st\<rparr>) (s\<lparr>p_store := st\<rparr>\<lparr>p_store := st'\<rparr>)"
    by (rule pstep.round [of _ t]) (use step(2) assms(2,3) in \<open>simp_all add: sound_def\<close>)
  then show ?case by (intro runs_to_step [OF step.IH]) (use assms(3) in \<open>simp_all add: sound_def\<close>)
qed



lemma test_passes:
  assumes "runs_to W s s1" "p_pc s1 t = Testing"
  shows "runs_to W s (s1\<lparr>p_pc := (p_pc s1)(t := if p_flag s1 t then In_round else Exited)\<rparr>)"
  by (rule runs_to_step [OF assms(1) pstep.test [of s1 t]]) (use assms in \<open>simp_all add: runs_to_def sound_def\<close>)

lemma enter_passes:
  assumes "sound s" "p_pc s t = Starting"
  shows "runs_to W s (s\<lparr>p_pc := (p_pc s)(t := Testing), p_flag := (p_flag s)(t := enter_run t (p_flag s t))\<rparr>)"
  by (rule runs_to_step [OF runs_to_refl [OF assms(1)] pstep.enter [of s t]]) (use assms in \<open>simp_all add: sound_def\<close>)

text \<open>A live thread comes to a round, without touching the data.\<close>

lemma live_enters_round:
  assumes "sound s" "has_status Live t s"
  shows "\<exists>s'. runs_to W s s' \<and> p_pc s' t = In_round \<and> p_store s' = p_store s"
proof (cases "p_pc s t")
  case Starting
  then have "enter_run t (p_flag s t)" using assms(2) by (auto simp: enter_run_def)
  then show ?thesis using test_passes [OF enter_passes [OF assms(1) Starting], of t W] by fastforce
next
  case Testing
  then show ?thesis using test_passes [OF runs_to_refl [OF assms(1)] Testing] assms(2) by fastforce
next
  case In_round
  then show ?thesis using runs_to_refl [OF assms(1)] by blast
qed (use assms(2) in simp_all)

subsection \<open>Loops whose rounds end\<close>

text \<open>
  What the owner relies on. The client is the owner; the provider the data of a component: from
  any state it can be in (\<open>ok\<close>, with the calls to come), a round can end; of \<open>finishing_loops\<close> also
  the queues can be drained.
\<close>

locale ending_rounds =
  fixes W :: "'c workload" and ok :: "'c instr list \<Rightarrow> 'c \<Rightarrow> bool"
  assumes ok_round: "ok is st \<Longrightarrow> w_round W t st st' \<Longrightarrow> ok is st'"
    and ok_call: "ok (i # is) st \<Longrightarrow> (\<And>t. i = Wait_drained t \<Longrightarrow> w_drained W t st) \<Longrightarrow> ok is (case i of Work f \<Rightarrow> f st | _ \<Rightarrow> st)"
    and round_ends: "ok is st \<Longrightarrow> \<exists>st'. (w_round W t)\<^sup>*\<^sup>* st st' \<and> w_over W t st'"
begin

lemma ok_step: "pstep W s s' \<Longrightarrow> ok (p_ctl s) (p_store s) \<Longrightarrow> ok (p_ctl s') (p_store s')"
  by (erule pstep.cases) (auto dest: ok_call [of "Set_running t b" for t b, simplified] ok_call [of "Create_thread t" for t, simplified]
      ok_call [of "Wait_drained t" for t, simplified] ok_call [of "Join_thread t" for t, simplified]
      ok_call [of "Destroy q" for q, simplified] ok_call [of "Work f" for f, simplified] intro: ok_round)

lemma ok_runs: "pruns W s s' \<Longrightarrow> ok (p_ctl s) (p_store s) \<Longrightarrow> ok (p_ctl s') (p_store s')"
  by (induction rule: rtranclp_induct) (auto intro: ok_step)

lemma round_finishes:
  assumes "runs_to W s s1" "p_pc s1 t = In_round" "ok (p_ctl s) (p_store s)"
  shows "\<exists>s2. runs_to W s s2 \<and> p_pc s2 t = Testing \<and> p_flag s2 = p_flag s1"
proof -
  have "ok (p_ctl s1) (p_store s1)" using ok_runs [of s s1] assms(1,3) by (simp add: runs_to_def)
  then obtain st where st: "(w_round W t)\<^sup>*\<^sup>* (p_store s1) st" "w_over W t st" using round_ends by blast
  let ?s1 = "s1\<lparr>p_store := st\<rparr>"
  have snd: "sound s1" using assms(1) by (simp add: runs_to_def)
  have r: "runs_to W s ?s1" by (rule runs_to_trans [OF assms(1) runs_to_rounds [OF st(1) assms(2) snd]])
  have "runs_to W s (?s1\<lparr>p_pc := (p_pc ?s1)(t := Testing)\<rparr>)"
    by (rule runs_to_step [OF r pstep.round_over]) (use st(2) snd assms(2) in \<open>simp_all add: sound_def\<close>)
  then show ?thesis by (rule_tac exI) (auto intro!: conjI)
qed

lemma stopping_exits:
  assumes "sound s" "p_pc s t \<noteq> No_thread" "\<not> p_flag s t" "t = T_ome \<longrightarrow> p_pc s t \<noteq> Starting"
    and "ok (p_ctl s) (p_store s)"
  shows "\<exists>s'. runs_to W s s' \<and> p_pc s' t = Exited"
proof -
  have tested: "\<exists>s'. runs_to W s s' \<and> p_pc s' t = Exited" if "runs_to W s s1" "p_pc s1 t = Testing" "\<not> p_flag s1 t" for s1
    using test_passes [OF that(1,2)] that(3) by fastforce
  show ?thesis
  proof (cases "p_pc s t")
    case Starting
    then show ?thesis using tested [OF enter_passes [OF assms(1) Starting]] assms(3,4) Starting by (cases "t = T_ome") (simp_all add: enter_run_def)
  next
    case Testing
    then show ?thesis using tested [OF runs_to_refl [OF assms(1)]] assms(3) by simp
  next
    case In_round
    then show ?thesis using round_finishes [OF runs_to_refl [OF assms(1)] In_round assms(5)] tested assms(3) by auto
  next
    case Exited
    then show ?thesis using runs_to_refl [OF assms(1)] by blast
  qed (use assms(2) in simp)
qed

end

locale finishing_loops = ending_rounds W ok for W :: "'c workload" and ok :: "'c instr list \<Rightarrow> 'c \<Rightarrow> bool" +
  assumes drains: "ok is st \<Longrightarrow> \<exists>st'. (w_round W t)\<^sup>*\<^sup>* st st' \<and> w_drained W t st'"
begin

lemma live_drains:
  assumes "sound s" "has_status Live t s" "ok (p_ctl s) (p_store s)"
  shows "\<exists>s'. runs_to W s s' \<and> w_drained W t (p_store s')"
proof -
  obtain s1 where s1: "runs_to W s s1" "p_pc s1 t = In_round" "p_store s1 = p_store s"
    using live_enters_round [OF assms(1,2)] by blast
  obtain st where st: "(w_round W t)\<^sup>*\<^sup>* (p_store s1) st" "w_drained W t st" using drains [OF assms(3)] s1(3) by auto
  have "sound s1" using s1(1) by (simp add: runs_to_def)
  then show ?thesis using runs_to_trans [OF s1(1) runs_to_rounds [OF st(1) s1(2)]] st(2) by fastforce
qed

text \<open>Before each call that passes the threads can bring the process to a state where it is made.\<close>

lemma call_passes:
  assumes "sound s" "have_status \<sigma> s" "p_ctl s = i # is" "can_pass i \<sigma>" "call_effect i \<sigma> = Some \<sigma>'"
    and "ok (p_ctl s) (p_store s)"
  shows "\<exists>s1 s'. runs_to W s s1 \<and> pstep W s1 s' \<and> sound s' \<and> p_ctl s' = is"
proof -
  have made: "\<exists>s'. pstep W s1 s' \<and> sound s' \<and> p_ctl s' = is"
    if s1: "runs_to W s s1" and able: "\<And>t. i = Join_thread t \<Longrightarrow> p_pc s1 t \<in> {No_thread, Exited}"
      "\<And>t. i = Wait_drained t \<Longrightarrow> w_drained W t (p_store s1)" for s1
  proof -
    have s: "\<not> p_terminated s1" "p_destroyed s1 = {}" "p_ctl s1 = i # is"
      using s1 assms(3) by (auto simp: runs_to_def sound_def)
    have pc: "p_pc s1 t = No_thread" if "i = Create_thread t" for t
      using have_status_runs [of W s s1 \<sigma>] s1 assms(2,5) that have_status_at [of \<sigma> s1 t]
      by (auto simp: runs_to_def split: status.splits)
    show ?thesis
    proof (cases i)
      case (Set_running t b)
      then show ?thesis using pstep.set_running [OF s(1), of t b "is" W] s by (fastforce simp: sound_def)
    next
      case (Create_thread t)
      then show ?thesis using pstep.create_thread [OF s(1), of t "is" W] pc s by (fastforce simp: sound_def)
    next
      case (Wait_drained t)
      then show ?thesis using pstep.wait_drained [OF s(1), of t "is" W] able s by (fastforce simp: sound_def)
    next
      case (Join_thread t)
      then show ?thesis using pstep.join_thread [OF s(1), of t "is" W] able s by (fastforce simp: sound_def)
    next
      case (Work f)
      then show ?thesis using pstep.work [OF s(1), of f "is" W] s by (fastforce simp: sound_def)
    qed (use assms(4) in simp)
  qed
  have "\<exists>s1. runs_to W s s1 \<and> (\<forall>t. i = Join_thread t \<longrightarrow> p_pc s1 t \<in> {No_thread, Exited})
      \<and> (\<forall>t. i = Wait_drained t \<longrightarrow> w_drained W t (p_store s1))"
  proof (cases i)
    case (Wait_drained t)
    then show ?thesis using live_drains [OF assms(1) _ assms(6)] have_status_at [OF assms(2), of t] assms(4) by auto
  next
    case (Join_thread t)
    then consider "p_pc s t = No_thread" | "has_status Stopping t s"
      using assms(4) have_status_at [OF assms(2), of t] by auto
    then show ?thesis
      using Join_thread stopping_exits [OF assms(1) _ _ _ assms(6), of t] runs_to_refl [OF assms(1)] by cases auto
  qed (use runs_to_refl [OF assms(1)] in auto)
  then show ?thesis using made by blast
qed

lemma calls_pass:
  assumes "sound s" "have_status \<sigma> s" "all_pass xs \<sigma>" "p_ctl s = xs @ ys" "ok (p_ctl s) (p_store s)"
  shows "\<exists>s' \<sigma>'. pruns W s s' \<and> sound s' \<and> p_ctl s' = ys \<and> calls_effect xs \<sigma> = Some \<sigma>' \<and> have_status \<sigma>' s'"
  using assms
proof (induction xs arbitrary: s \<sigma>)
  case Nil
  then show ?case by auto
next
  case (Cons i xs)
  then obtain \<sigma>1 where e: "call_effect i \<sigma> = Some \<sigma>1" "all_pass xs \<sigma>1" by (auto split: option.splits)
  obtain s1 s2 where s: "runs_to W s s1" "pstep W s1 s2" "sound s2" "p_ctl s2 = xs @ ys"
    using call_passes [OF Cons.prems(1,2) _ _ e(1) Cons.prems(5)] Cons.prems(3,4) by fastforce
  have r: "pruns W s s2" using s(1,2) by (auto simp: runs_to_def)
  from simulated_here [OF Cons.prems(2)] have "simulated \<sigma> (p_ctl s) s2" by (rule simulated_runs [OF r])
  then have h: "have_status \<sigma>1 s2" using s(4) Cons.prems(4) e(1) by (auto simp: simulated_def)
  show ?case
    using Cons.IH [OF s(3) h e(2) s(4) ok_runs [OF r Cons.prems(5)]] r e(1) by (auto intro: rtranclp_trans)
qed

end

text \<open>Calls that pass never terminate the process nor destroy a queue.\<close>

lemma passes_append:
  "all_pass (xs @ ys) \<sigma> \<longleftrightarrow> all_pass xs \<sigma> \<and> (case calls_effect xs \<sigma> of None \<Rightarrow> False | Some \<sigma>' \<Rightarrow> all_pass ys \<sigma>')"
  by (induction xs arbitrary: \<sigma>) (auto split: option.splits Option.bind_splits)

lemma passes_next:
  assumes "simulated \<sigma>0 prog s" "all_pass prog \<sigma>0"
  shows "\<exists>\<sigma>. have_status \<sigma> s \<and> all_pass (p_ctl s) \<sigma>"
  using assms by (auto simp: simulated_def passes_append)

lemma passes_effect: "all_pass prog \<sigma> \<Longrightarrow> calls_effect prog \<sigma> \<noteq> None \<and> (\<forall>q. Destroy q \<notin> set prog)"
proof (induction prog arbitrary: \<sigma>)
  case (Cons i prog)
  then show ?case by (cases i) (auto split: option.splits status.splits)
qed simp

lemma sound_step:
  assumes "pstep W s s'" "sound s" "simulated \<sigma>0 prog s" "calls_effect prog \<sigma>0 \<noteq> None" "\<forall>q. Destroy q \<notin> set prog"
  shows "sound s'"
proof -
  obtain pre \<sigma> where \<sigma>: "prog = pre @ p_ctl s" "have_status \<sigma> s" "calls_effect (p_ctl s) \<sigma> \<noteq> None"
    using assms(3,4) by (auto simp: simulated_def calls_effect_append)
  from assms(1) show ?thesis
  proof (cases rule: pstep.cases)
    case (create_over_thread t "is")
    then have "has_status (\<sigma> t) t s" "\<sigma> t = Absent \<or> \<sigma> t = Ready"
      using \<sigma> by (auto simp: have_status_at split: status.splits)
    then show ?thesis using create_over_thread by auto
  qed (use assms(2,5) \<sigma>(1) in \<open>auto simp: sound_def\<close>)
qed

lemma sound_runs:
  assumes "pruns W (new_process prog st) s" "calls_effect prog all_absent \<noteq> None" "\<forall>q. Destroy q \<notin> set prog"
  shows "sound s"
  using assms(1)
proof (induction rule: rtranclp_induct)
  case base
  then show ?case by (simp add: sound_def new_process_def)
next
  case (step s s')
  show ?case by (rule sound_step [OF step(2,3) pruns_simulated [OF step(1)] assms(2,3)])
qed

lemmas sound_passes = sound_runs [OF _ conjunct1 [OF passes_effect] conjunct2 [OF passes_effect]]

lemma pruns_ended:
  assumes "pruns W (new_process prog st) s" "p_ctl s = []"
  shows "\<exists>\<sigma>. calls_effect prog all_absent = Some \<sigma> \<and> have_status \<sigma> s"
  using pruns_simulated [OF assms(1)] assms(2) by (auto simp: simulated_def)

context finishing_loops
begin

text \<open>From every state the owner's calls can be carried through.\<close>

lemma completes:
  assumes "pruns W (new_process prog st) s" "all_pass prog all_absent" "ok prog st"
  shows "\<exists>s'. pruns W s s' \<and> p_ctl s' = []"
proof -
  obtain \<sigma> where \<sigma>: "have_status \<sigma> s" "all_pass (p_ctl s) \<sigma>"
    using passes_next [OF pruns_simulated [OF assms(1)] assms(2)] by blast
  have "ok (p_ctl s) (p_store s)" using ok_runs [OF assms(1)] assms(3) by (simp add: new_process_def)
  then show ?thesis
    using calls_pass [OF sound_passes [OF assms(1,2,2)] \<sigma>(1), of "p_ctl s" "[]"] \<sigma>(2) by auto
qed

end

text \<open>
  The threads can also let the owner's calls pass without doing anything to the data, when every
  loop may be between two rounds there: the workload in which no round is done is one whose loops end.
\<close>

definition resting :: "'c \<Rightarrow> 'c workload" where
  "resting st = \<lparr>w_round = \<lambda>_ _ _. False, w_over = \<lambda>_ st'. st' = st, w_drained = \<lambda>_ st'. st' = st\<rparr>"

definition no_work :: "'c instr list \<Rightarrow> bool" where
  "no_work is \<longleftrightarrow> (\<forall>f. Work f \<notin> set is)"

interpretation rest: finishing_loops "resting st" "\<lambda>is st'. st' = st \<and> no_work is"
proof unfold_locales
  fix i and "is" :: "'a instr list" and st' :: 'a
  assume "st' = st \<and> no_work (i # is)"
  then show "(case i of Work f \<Rightarrow> f st' | _ \<Rightarrow> st') = st \<and> no_work is" by (cases i) (auto simp: no_work_def)
qed (auto simp: resting_def)

lemma resting_runs:
  assumes "pruns (resting st) s s'" "\<And>t. w_over W t st \<and> w_drained W t st"
  shows "pruns W s s'"
  using assms(1)
proof (induction rule: rtranclp_induct)
  case (step s1 s2)
  have "pstep W s1 s2"
    using step(2)
  proof (cases rule: pstep.cases)
    case (wait_drained t "is")
    then show ?thesis using pstep.wait_drained [of s1 t "is" W] assms(2) by (simp add: resting_def)
  next
    case (test t)
    then show ?thesis using pstep.test [of s1 t W] by simp
  next
    case (round_over t)
    then show ?thesis using pstep.round_over [of s1 t W] assms(2) by (simp add: resting_def)
  qed (auto simp: resting_def intro: pstep.intros)
  with step(3) show ?case by simp
qed simp

lemma calls_without_rounds:
  assumes "sound s" "have_status \<sigma> s" "all_pass xs \<sigma>" "p_ctl s = xs @ ys" "no_work (p_ctl s)"
    and "\<And>t. w_over W t (p_store s) \<and> w_drained W t (p_store s)"
  shows "\<exists>s' \<sigma>'. pruns W s s' \<and> sound s' \<and> p_ctl s' = ys \<and> p_store s' = p_store s \<and> calls_effect xs \<sigma> = Some \<sigma>' \<and> have_status \<sigma>' s'"
proof -
  obtain s' \<sigma>' where s': "pruns (resting (p_store s)) s s'" "sound s'" "p_ctl s' = ys" "calls_effect xs \<sigma> = Some \<sigma>'" "have_status \<sigma>' s'"
    using rest.calls_pass [OF assms(1-4)] assms(5) by blast
  then show ?thesis
    using rest.ok_runs [OF s'(1)] resting_runs [OF s'(1) assms(6)] assms(5) by blast
qed

text \<open>A live thread can do any round that its data allow.\<close>

lemma live_does_round:
  assumes "sound s" "has_status Live t s" "w_round W t (p_store s) st"
  shows "\<exists>s'. runs_to W s s' \<and> p_store s' = st"
proof -
  obtain s1 where s1: "runs_to W s s1" "p_pc s1 t = In_round" "p_store s1 = p_store s"
    using live_enters_round [OF assms(1,2)] by blast
  have "runs_to W s1 (s1\<lparr>p_store := st\<rparr>)"
    by (rule runs_to_rounds [OF _ s1(2)]) (use s1 assms(3) in \<open>auto simp: runs_to_def\<close>)
  then show ?thesis by (rule_tac exI) (auto intro!: runs_to_trans [OF s1(1)])
qed

subsection \<open>Start and stop of the components\<close>

lemmas lifecycle_defs = ome_start_def ome_stop_def ogs_start_def ogs_stop_def ss_start_def ss_stop_def mdp_start_def
  mdp_stop_def ogc_start_def ogc_stop_def mdc_start_def mdc_stop_def te_start_def te_stop_def logger_constructor_def
  logger_destructor_def server_start_def server_stop_def server_destructor_def

text \<open>The components with a \<open>start\<close> and a \<open>stop\<close>, without the matching engine.\<close>

definition lifecycles :: "('c \<Rightarrow> 'c) \<Rightarrow> (thread_id \<times> 'c instr list) list" where
  "lifecycles report = [(T_ogs, ogs_start @ ogs_stop), (T_ss, ss_start @ ss_stop), (T_mdp, mdp_start @ mdp_stop),
     (T_ogc, ogc_start @ ogc_stop), (T_mdc, mdc_start @ mdc_stop), (T_te, te_start @ te_stop report),
     (T_logger, logger_constructor @ logger_destructor), (T_server, server_start @ server_stop)]"

lemma lifecycles_pass: "(t, prog) \<in> set (lifecycles report) \<Longrightarrow> all_pass prog all_absent"
  unfolding lifecycles_def by (auto simp: lifecycle_defs all_absent_def)

lemma lifecycles_effect:
  "(t, prog) \<in> set (lifecycles report) \<Longrightarrow> calls_effect prog all_absent = Some \<sigma> \<Longrightarrow> \<sigma> t = Absent"
  unfolding lifecycles_def by (auto simp: lifecycle_defs all_absent_def)

context finishing_loops
begin

text \<open>
  Where the loops finish on the data of a component, its \<open>start\<close> and \<open>stop\<close> can be carried through from
  every state the process can be in, whatever the scheduler did so far; no new thread replaces a
  running one, and when \<open>stop\<close> has returned the component has no thread.
\<close>

lemma component_stops:
  assumes "(t, prog) \<in> set (lifecycles report)" "pruns W (new_process prog st) s" "ok prog st"
  shows "(\<exists>s'. pruns W s s' \<and> p_ctl s' = []) \<and> \<not> p_terminated s \<and> (p_ctl s = [] \<longrightarrow> p_pc s t = No_thread)"
proof -
  have "p_pc s t = No_thread" if ended: "p_ctl s = []"
  proof -
    obtain \<sigma> where "calls_effect prog all_absent = Some \<sigma>" "have_status \<sigma> s" using pruns_ended [OF assms(2) ended] by blast
    then show ?thesis using lifecycles_effect [OF assms(1)] have_status_at [of \<sigma> s t] by simp
  qed
  then show ?thesis
    using completes [OF assms(2) lifecycles_pass [OF assms(1)] assms(3)]
      sound_passes [OF assms(2) lifecycles_pass lifecycles_pass, OF assms(1,1)] by (auto simp: sound_def)
qed

end

text \<open>A workload that counts down, one a round.\<close>

definition counting_down :: "nat workload" where
  "counting_down = \<lparr>w_round = \<lambda>t n m. n = Suc m, w_over = \<lambda>t n. n = 0, w_drained = \<lambda>t n. n = 0\<rparr>"

lemma counting_down_ends: "(\<lambda>n m. n = Suc m)\<^sup>*\<^sup>* k 0"
proof (induction k)
  case (Suc k)
  then show ?case by (rule converse_rtranclp_into_rtranclp [rotated]) simp
qed simp

text \<open>
  C34. \<open>ExchangeServer::stop\<close> stops only the server's own thread: when \<open>start\<close> and \<open>stop\<close> have
  returned, and at any time after, the matching engine, the gateway, the publisher and the
  synthesizer still have threads that do not leave their loops.
\<close>

theorem server_stop_leaves_components_running:
  assumes "pruns W (new_process (server_start @ server_stop) st) s" "p_ctl s = []"
  shows "p_pc s T_server = No_thread \<and> (\<forall>t \<in> {T_ome, T_ogs, T_mdp, T_ss}. p_pc s t \<in> {Starting, Testing, In_round})"
proof -
  obtain \<sigma> where \<sigma>: "calls_effect (server_start @ server_stop :: 'a instr list) all_absent = Some \<sigma>" "have_status \<sigma> s"
    using pruns_ended [OF assms] by blast
  have "\<sigma> T_server = Absent \<and> (\<forall>t \<in> {T_ome, T_ogs, T_mdp, T_ss}. \<sigma> t = Live)"
    using \<sigma>(1) by (auto simp: lifecycle_defs all_absent_def)
  then show ?thesis
    using have_status_at [OF \<sigma>(2), of T_server] have_status_at [OF \<sigma>(2), of T_ome] have_status_at [OF \<sigma>(2), of T_ogs]
      have_status_at [OF \<sigma>(2), of T_mdp] have_status_at [OF \<sigma>(2), of T_ss] by auto
qed

theorem server_stop_leaves_components_running_witness:
  "\<exists>s. pruns counting_down (new_process (server_start @ server_stop) 0) s \<and> p_ctl s = [] \<and> p_pc s T_ome \<in> {Starting, Testing, In_round}"
proof -
  have "finishing_loops counting_down (\<lambda>_ _. True)"
    using counting_down_ends by unfold_locales (auto simp: counting_down_def)
  then obtain s where s: "pruns counting_down (new_process (server_start @ server_stop) 0) s" "p_ctl s = []"
    using finishing_loops.completes [of counting_down _ "server_start @ server_stop" 0, OF _ rtranclp.rtrancl_refl]
    by (auto simp: lifecycle_defs all_absent_def)
  then show ?thesis using server_stop_leaves_components_running [OF s] by blast
qed

subsection \<open>The matching engine\<close>

text \<open>A live engine with the owner in \<open>join\<close> stays so: nothing is left to clear the flag.\<close>

lemma join_live_stuck:
  assumes "pstep W s s'" "p_ctl s = [Join_thread t]" "has_status Live t s"
  shows "p_ctl s' = [Join_thread t] \<and> has_status Live t s'"
  using assms by (cases rule: pstep.cases) (auto simp: enter_run_def)

lemma join_live_hangs:
  "pruns W s s' \<Longrightarrow> p_ctl s = [Join_thread t] \<Longrightarrow> has_status Live t s
    \<Longrightarrow> p_ctl s' = [Join_thread t] \<and> has_status Live t s'"
  by (induction rule: rtranclp_induct) (use join_live_stuck in \<open>blast+\<close>)

lemma exited_flag:
  "pruns W s s' \<Longrightarrow> Set_running T_ome True \<notin> set (p_ctl s) \<and> (p_pc s T_ome = Exited \<longrightarrow> \<not> p_flag s T_ome)
    \<Longrightarrow> Set_running T_ome True \<notin> set (p_ctl s') \<and> (p_pc s' T_ome = Exited \<longrightarrow> \<not> p_flag s' T_ome)"
proof (induction rule: rtranclp_induct)
  case (step s' s'')
  from step(2) step(3) [OF step(4)] show ?case by (cases rule: pstep.cases) auto
qed simp

lemma ome_joining:
  assumes "pruns W (new_process (ome_start @ ome_stop) st) s" "p_ctl s = [Join_thread T_ome]"
  shows "p_pc s T_ome \<noteq> No_thread" "p_pc s T_ome = Exited \<longrightarrow> \<not> p_flag s T_ome" "sound s"
proof -
  obtain pre \<sigma> where p: "ome_start @ ome_stop = pre @ p_ctl s" "calls_effect pre all_absent = Some \<sigma>" "have_status \<sigma> s"
    using pruns_simulated [OF assms(1)] by (auto simp: simulated_def)
  have "pre = [Create_thread T_ome, Set_running T_ome False]"
    using p(1) assms(2) by (simp add: lifecycle_defs)
  then have "\<sigma> T_ome = Unsure" using p(2) by (auto simp: all_absent_def)
  then show "p_pc s T_ome \<noteq> No_thread" using have_status_at [OF p(3), of T_ome] by simp
  show "p_pc s T_ome = Exited \<longrightarrow> \<not> p_flag s T_ome"
    using exited_flag [OF assms(1)] by (simp add: new_process_def lifecycle_defs)
  show "sound s"
    by (rule sound_runs [OF assms(1)]) (simp_all add: lifecycle_defs all_absent_def)
qed

text \<open>
  \<open>OrderMatchingEngine::stop\<close> can wait forever. The loop's thread sets \<open>is_running\<close> itself; when
  it does so after \<open>stop\<close> has cleared it the loop never ends and \<open>stop\<close> never returns.
\<close>

theorem ome_stop_may_hang:
  "\<exists>s. pruns W (new_process (ome_start @ ome_stop) st) s \<and> p_ctl s = [Join_thread T_ome]
     \<and> \<not> (\<exists>s'. pruns W s s' \<and> p_ctl s' = [])"
proof -
  let ?s = "new_process (ome_start @ ome_stop) st"
  let ?s1 = "?s\<lparr>p_ctl := ome_stop, p_pc := (p_pc ?s)(T_ome := Starting)\<rparr>"
  let ?s2 = "?s1\<lparr>p_ctl := [Join_thread T_ome], p_flag := (p_flag ?s1)(T_ome := False)\<rparr>"
  have "pstep W ?s ?s1" by (rule create_thread) (simp_all add: new_process_def lifecycle_defs)
  moreover have "pstep W ?s1 ?s2" by (rule set_running) (simp_all add: new_process_def lifecycle_defs)
  ultimately have r: "pruns W ?s ?s2" by (rule rtranclp.rtrancl_into_rtrancl [OF r_into_rtranclp])
  have "p_ctl s' = [Join_thread T_ome]" if "pruns W ?s2 s'" for s'
    using join_live_hangs [OF that, of T_ome] by simp
  then show ?thesis using r by (intro exI [of _ ?s2]) auto
qed

text \<open>
  C30. It returns in all other cases: while the owner waits in \<open>stop\<close>, the wait can end exactly when the
  loop was entered before the flag was cleared, provided that the rounds of the loop can end.
\<close>

theorem ome_stop_ends_iff_entered:
  assumes "\<And>u st. \<exists>st'. (w_round W u)\<^sup>*\<^sup>* st st' \<and> w_over W u st'"
    and "pruns W (new_process (ome_start @ ome_stop) st) s" "p_ctl s = [Join_thread T_ome]"
  shows "(\<exists>s'. pruns W s s' \<and> p_ctl s' = []) \<longleftrightarrow> p_pc s T_ome \<noteq> Starting \<and> \<not> p_flag s T_ome"
proof
  assume "\<exists>s'. pruns W s s' \<and> p_ctl s' = []"
  then obtain s' where s': "pruns W s s'" "p_ctl s' = []" by blast
  have "\<not> has_status Live T_ome s" using join_live_hangs [OF s'(1) assms(3)] s'(2) by auto
  then show "p_pc s T_ome \<noteq> Starting \<and> \<not> p_flag s T_ome"
    using ome_joining [OF assms(2,3)] by (cases "p_pc s T_ome") auto
next
  assume entered: "p_pc s T_ome \<noteq> Starting \<and> \<not> p_flag s T_ome"
  note joining = ome_joining [OF assms(2,3)]
  have "ending_rounds W (\<lambda>_ _. True)" using assms(1) by unfold_locales auto
  then obtain s1 where s1: "runs_to W s s1" "p_pc s1 T_ome = Exited"
    using ending_rounds.stopping_exits [OF _ joining(3,1)] entered by blast
  let ?s2 = "s1\<lparr>p_ctl := [], p_pc := (p_pc s1)(T_ome := No_thread)\<rparr>"
  have "pstep W s1 ?s2"
    by (rule join_thread) (use s1 assms(3) in \<open>auto simp: runs_to_def sound_def\<close>)
  then show "\<exists>s'. pruns W s s' \<and> p_ctl s' = []"
    using s1(1) by (intro exI [of _ ?s2]) (auto simp: runs_to_def)
qed

text \<open>A run in which the engine enters its loop, is stopped and ends.\<close>

theorem ome_stop_ends_iff_entered_witness:
  "\<exists>s. pruns counting_down (new_process (ome_start @ ome_stop) 0) s \<and> p_ctl s = [Join_thread T_ome]
     \<and> (\<exists>s'. pruns counting_down s s' \<and> p_ctl s' = [])"
proof -
  let ?s = "new_process (ome_start @ ome_stop) (0 :: nat)"
  let ?s1 = "?s\<lparr>p_ctl := ome_stop, p_pc := (p_pc ?s)(T_ome := Starting)\<rparr>"
  let ?s2 = "?s1\<lparr>p_pc := (p_pc ?s1)(T_ome := Testing), p_flag := (p_flag ?s1)(T_ome := enter_run T_ome (p_flag ?s1 T_ome))\<rparr>"
  let ?s3 = "?s2\<lparr>p_ctl := [Join_thread T_ome], p_flag := (p_flag ?s2)(T_ome := False)\<rparr>"
  have "pstep counting_down ?s ?s1" by (rule create_thread) (simp_all add: new_process_def lifecycle_defs)
  then have "pruns counting_down ?s ?s1" by (rule r_into_rtranclp)
  moreover have "pstep counting_down ?s1 ?s2" by (rule enter) (simp_all add: new_process_def lifecycle_defs)
  moreover have "pstep counting_down ?s2 ?s3" by (rule set_running) (simp_all add: new_process_def lifecycle_defs)
  ultimately have r: "pruns counting_down ?s ?s3" by (meson rtranclp.rtrancl_into_rtrancl)
  have "\<exists>st'. (w_round counting_down u)\<^sup>*\<^sup>* st st' \<and> w_over counting_down u st'" for u and st
    using counting_down_ends [of st] by (auto simp: counting_down_def)
  then have "\<exists>s'. pruns counting_down ?s3 s' \<and> p_ctl s' = []"
    using ome_stop_ends_iff_entered [OF _ r] by simp
  then show ?thesis using r by (intro exI [of _ ?s3]) simp
qed

subsection \<open>Calls that go wrong\<close>

text \<open>
  C35. \<open>~ExchangeServer\<close> destroys the queues while the components still poll them: they are
  declared after the components, so they go first, and the components' destructors come last.
\<close>

theorem server_destructor_dangles:
  assumes "\<And>u st. \<exists>st'. (w_round W u)\<^sup>*\<^sup>* st st' \<and> w_over W u st'"
    and "\<And>u st. \<exists>st'. (w_round W u)\<^sup>*\<^sup>* st st' \<and> w_drained W u st'"
  shows "\<exists>s. pruns W (new_process (server_start @ server_destructor) st) s \<and> p_dangling s \<and> p_pc s T_ome = In_round"
proof -
  let ?xs = "server_start @ server_stop :: 'a instr list"
  let ?s = "new_process (server_start @ server_destructor) st"
  have "finishing_loops W (\<lambda>_ _. True)" using assms by unfold_locales auto
  moreover have "sound ?s" "have_status all_absent ?s" by (simp_all add: new_process_def sound_def have_status_def all_absent_def)
  moreover have "all_pass ?xs all_absent" by (rule lifecycles_pass [of T_server]) (simp add: lifecycles_def)
  moreover obtain q ys where ys: "p_ctl ?s = ?xs @ Destroy q # ys" "q \<in> uses T_ome"
    by (simp add: new_process_def server_destructor_def)
  ultimately obtain s1 \<sigma> where s1: "pruns W ?s s1" "sound s1" "p_ctl s1 = Destroy q # ys" "calls_effect ?xs all_absent = Some \<sigma>" "have_status \<sigma> s1"
    using finishing_loops.calls_pass by blast
  have "has_status Live T_ome s1"
    using s1(4) have_status_at [OF s1(5), of T_ome] by (auto simp: lifecycle_defs all_absent_def)
  then obtain s2 where s2: "runs_to W s1 s2" "p_pc s2 T_ome = In_round" using live_enters_round [OF s1(2)] by blast
  let ?s3 = "s2\<lparr>p_ctl := ys, p_destroyed := insert q (p_destroyed s2)\<rparr>"
  have "pstep W s2 ?s3" by (rule destroy) (use s2(1) s1(3) in \<open>auto simp: runs_to_def sound_def\<close>)
  moreover have "pstep W ?s3 (?s3\<lparr>p_dangling := True\<rparr>)"
    by (rule round_dangling [of _ T_ome]) (use s2 ys(2) in \<open>auto simp: runs_to_def sound_def\<close>)
  ultimately have "pruns W ?s (?s3\<lparr>p_dangling := True\<rparr>)"
    using s1(1) s2(1) unfolding runs_to_def by (meson rtranclp.rtrancl_into_rtrancl rtranclp_trans)
  then show ?thesis using s2(2) by (intro exI [of _ "?s3\<lparr>p_dangling := True\<rparr>"]) simp
qed

theorem server_destructor_dangles_witness:
  "\<exists>s. pruns counting_down (new_process (server_start @ server_destructor) 3) s \<and> p_dangling s"
  using server_destructor_dangles [of counting_down 3] counting_down_ends by (auto simp: counting_down_def)

text \<open>
  The wait of \<open>TradingEngine::stop\<close>, which \<open>~TradingEngine\<close> also calls: an engine that was never
  started, with anything left in its queues, waits for a thread that does not exist.
\<close>

lemma te_stop_waits_for_no_thread:
  assumes "\<not> w_drained W T_te st" "pruns W (new_process (te_stop report) st) s"
  shows "s = new_process (te_stop report) st"
  using assms(2)
proof (induction rule: rtranclp_induct)
  case (step s s')
  from step(2) show ?case
    using assms(1) by (cases rule: pstep.cases) (auto simp: step(3) new_process_def te_stop_def)
qed simp

text \<open>A second \<open>start\<close> without a \<open>stop\<close> is never completed: it would replace a running thread.\<close>

lemma second_start_never_returns:
  assumes "prog \<in> {ome_start, ogs_start, ss_start, mdp_start, ogc_start, mdc_start, te_start, server_start}"
    and "pruns W (new_process (prog @ prog) st) s"
  shows "p_ctl s \<noteq> []"
proof
  assume "p_ctl s = []"
  then obtain \<sigma> where "calls_effect (prog @ prog) all_absent = Some \<sigma>" using pruns_ended [OF assms(2)] by blast
  then show False using assms(1) by (auto simp: lifecycle_defs all_absent_def)
qed

text \<open>The main program: once the signal handler is through, the engine and the logger have no thread.\<close>

lemma shutdown_handler_ends_threads:
  assumes "pruns W (new_process (nitek_main @ shutdown_handler) st) s" "p_ctl s = []"
  shows "p_pc s T_ome = No_thread \<and> p_pc s T_logger = No_thread \<and> \<not> p_terminated s"
proof -
  let ?prog = "nitek_main @ shutdown_handler :: 'a instr list"
  obtain \<sigma> where \<sigma>: "calls_effect ?prog all_absent = Some \<sigma>" "have_status \<sigma> s" using pruns_ended [OF assms] by blast
  have "\<sigma> T_ome = Absent \<and> \<sigma> T_logger = Absent"
    using \<sigma>(1) by (auto simp: nitek_main_def shutdown_handler_def lifecycle_defs all_absent_def)
  moreover have "sound s"
    by (rule sound_runs [OF assms(1)])
      (simp_all add: nitek_main_def shutdown_handler_def lifecycle_defs all_absent_def)
  ultimately show ?thesis
    using have_status_at [OF \<sigma>(2), of T_ome] have_status_at [OF \<sigma>(2), of T_logger] by (simp add: sound_def)
qed

end
