(* ===== verification/Logger.thy ===== *)
theory Logger
  imports LF_Queue Floats
begin

text \<open>
  \<open>llbase/logging.h\<close>: the logger every component writes to. \<open>logf\<close> substitutes its arguments
  into a template and puts the characters and numbers one by one into a queue, which a thread
  of its own prints to the file. The specification cuts the template into letters and holes
  once and fills the holes. The printing of a \<open>double\<close> is the argument's \<open>fshow\<close>, of a
  \<open>float\<close> the same after its exact conversion. The thread itself is in \<open>Logger_Shutdown\<close>.
\<close>

subsection \<open>Elements of the queue\<close>

text \<open>\<open>LogType\<close> and the union of \<open>LogElement\<close> that it tags.\<close>

datatype 'f log_element = LOG_CHAR char | LOG_INT "32 word" | LOG_LONG "64 word" | LOG_LONG_LONG "64 word"
  | LOG_U_INT "32 word" | LOG_U_LONG "64 word" | LOG_U_LONG_LONG "64 word" | LOG_FLOAT 'f | LOG_DOUBLE 'f

record 'f logger =
  log_file :: string
  log_queue :: "'f log_element lfqueue"

definition LOG_QUEUE_SIZE :: nat where "LOG_QUEUE_SIZE = 8 * 1024 * 1024"

definition new_logger :: "'f log_element \<Rightarrow> 'f logger" where
  "new_logger junk = \<lparr>log_file = [], log_queue = new_lfqueue LOG_QUEUE_SIZE junk\<rparr>"

text \<open>What \<open>file << next->value\<close> prints.\<close>

fun print_element :: "'f float_ops \<Rightarrow> 'f log_element \<Rightarrow> string" where
  "print_element F (LOG_CHAR c) = [c]"
| "print_element F (LOG_INT i) = int_to_str (sint i)"
| "print_element F (LOG_LONG i) = int_to_str (sint i)"
| "print_element F (LOG_LONG_LONG i) = int_to_str (sint i)"
| "print_element F (LOG_U_INT i) = nat_to_str (unat i)"
| "print_element F (LOG_U_LONG i) = nat_to_str (unat i)"
| "print_element F (LOG_U_LONG_LONG i) = nat_to_str (unat i)"
| "print_element F (LOG_FLOAT x) = fshow F x"
| "print_element F (LOG_DOUBLE x) = fshow F x"

text \<open>One round of \<open>process_queue\<close>, until the queue is empty.\<close>

definition process_element :: "'f float_ops \<Rightarrow> string \<Rightarrow> 'f log_element \<Rightarrow> string res" where
  "process_element F file x = Inr (file @ print_element F x)"

definition process_queue :: "'f float_ops \<Rightarrow> 'f logger \<Rightarrow> 'f logger res" where
  "process_queue F l =
     bindR (consume get_next_to_read increment_read_index (q_size (log_queue l)) (process_element F)
              (log_queue l) (log_file l)) (\<lambda>(q, file).
     Inr (l\<lparr>log_file := file, log_queue := q\<rparr>))"

subsection \<open>\<open>push_value\<close>\<close>

definition push_element :: "'f log_element \<Rightarrow> 'f logger \<Rightarrow> 'f logger" where
  "push_element x l = l\<lparr>log_queue := enq x (log_queue l)\<rparr>"

text \<open>A C string, without its final NUL: the loop stops at the first one.\<close>

fun push_chars :: "string \<Rightarrow> 'f logger \<Rightarrow> 'f logger" where
  "push_chars [] l = l"
| "push_chars (c # s) l = (if c = CHR 0x00 then l else push_chars s (push_element (LOG_CHAR c) l))"

text \<open>The types the overloads take: a single element, \<open>const char*\<close> or \<open>std::string\<close>.\<close>

datatype 'f log_arg = Elem "'f log_element" | Str string

fun push_value :: "'f log_arg \<Rightarrow> 'f logger \<Rightarrow> 'f logger" where
  "push_value (Elem x) l = push_element x l"
| "push_value (Str s) l = push_chars s l"

subsection \<open>\<open>logf\<close>\<close>

text \<open>
  The two overloads, with and without arguments. \<open>s\<close> is the template up to its NUL, so
  \<open>*(s + 1)\<close> is that NUL when \<open>%\<close> is the last character.
\<close>

fun logf :: "'f log_arg list \<Rightarrow> string \<Rightarrow> 'f logger \<Rightarrow> 'f logger res" where
  "logf [] [] l = Inr l"
| "logf (v # as) [] l = FATAL"
| "logf as (c # s) l =
     (if c = CHR ''%''
      then (case s of
          d # s' \<Rightarrow> if d = CHR ''%'' then logf as s' (push_element (LOG_CHAR d) l)
            else (case as of v # as' \<Rightarrow> logf as' s (push_value v l) | [] \<Rightarrow> FATAL)
        | [] \<Rightarrow> (case as of v # as' \<Rightarrow> logf as' s (push_value v l) | [] \<Rightarrow> FATAL))
      else logf as s (push_element (LOG_CHAR c) l))"

declare logf.simps(3) [simp del]

subsection \<open>Templates\<close>

datatype piece = Letter char | Hole

fun pieces :: "string \<Rightarrow> piece list" where
  "pieces [] = []"
| "pieces (c # s) =
     (if c = CHR ''%''
      then (case s of d # s' \<Rightarrow> if d = CHR ''%'' then Letter d # pieces s' else Hole # pieces s
            | [] \<Rightarrow> [Hole])
      else Letter c # pieces s)"

declare pieces.simps(2) [simp del]

definition holes :: "string \<Rightarrow> nat" where
  "holes s = length (filter (\<lambda>p. p = Hole) (pieces s))"

text \<open>The elements of an argument, of a filled template, and their print.\<close>

fun arg_elements :: "'f log_arg \<Rightarrow> 'f log_element list" where
  "arg_elements (Elem x) = [x]"
| "arg_elements (Str s) = map LOG_CHAR (takeWhile (\<lambda>c. c \<noteq> CHR 0x00) s)"

fun fill :: "piece list \<Rightarrow> 'f log_arg list \<Rightarrow> 'f log_element list" where
  "fill [] as = []"
| "fill (Letter c # ps) as = LOG_CHAR c # fill ps as"
| "fill (Hole # ps) (v # as) = arg_elements v @ fill ps as"
| "fill (Hole # ps) [] = []"

definition print_all :: "'f float_ops \<Rightarrow> 'f log_element list \<Rightarrow> string" where
  "print_all F xs = concat (map (print_element F) xs)"

definition push_all :: "'f log_element list \<Rightarrow> 'f logger \<Rightarrow> 'f logger" where
  "push_all xs l = l\<lparr>log_queue := enq_all xs (log_queue l)\<rparr>"

lemma push_all_simps [simp]:
  "push_all [] l = l" "push_all (x # xs) l = push_all xs (push_element x l)"
  "push_all (xs @ ys) l = push_all ys (push_all xs l)"
  by (simp_all add: push_all_def push_element_def enq_all_def)

lemma push_chars_all: "push_chars s l = push_all (map LOG_CHAR (takeWhile (\<lambda>c. c \<noteq> CHR 0x00) s)) l"
  by (induction s arbitrary: l) simp_all

lemma push_value_all: "push_value v l = push_all (arg_elements v) l"
  by (cases v) (simp_all add: push_chars_all)

subsection \<open>Properties\<close>

abbreviation opens_hole :: "string \<Rightarrow> bool" where
  "opens_hole s \<equiv> (case s of [] \<Rightarrow> True | d # _ \<Rightarrow> d \<noteq> CHR ''%'')"

lemma logf_letter: "c \<noteq> CHR ''%'' \<Longrightarrow> logf as (c # s) l = logf as s (push_element (LOG_CHAR c) l)"
  by (subst logf.simps(3)) simp

lemma logf_escape: "logf as (CHR ''%'' # CHR ''%'' # s) l = logf as s (push_element (LOG_CHAR (CHR ''%'')) l)"
  by (subst logf.simps(3)) simp

lemma logf_hole:
  assumes "opens_hole s"
  shows "logf [] (CHR ''%'' # s) l = Inl Fatal" "logf (v # as) (CHR ''%'' # s) l = logf as s (push_value v l)"
  using assms by (subst logf.simps(3), cases s, simp_all add: FATAL_def)+

lemma pieces_simps:
  "c \<noteq> CHR ''%'' \<Longrightarrow> pieces (c # s) = Letter c # pieces s"
  "pieces (CHR ''%'' # CHR ''%'' # s) = Letter (CHR ''%'') # pieces s"
  "opens_hole s \<Longrightarrow> pieces (CHR ''%'' # s) = Hole # pieces s"
  by (simp_all add: pieces.simps(2) [of c] pieces.simps(2) [of "CHR ''%''" s] pieces.simps(2) [of _ "_ # _"] split: list.splits)

lemma holes_simps:
  "holes [] = 0" "c \<noteq> CHR ''%'' \<Longrightarrow> holes (c # s) = holes s" "holes (CHR ''%'' # CHR ''%'' # s) = holes s"
  "opens_hole s \<Longrightarrow> holes (CHR ''%'' # s) = Suc (holes s)"
  by (simp_all add: holes_def pieces_simps)

text \<open>
  C36. \<open>logf\<close> is equivalent to cutting the template into pieces once and filling its holes: with as
  many arguments as holes it queues exactly the filled template, with any other number it stops
  the process.
\<close>

theorem logf_fills_template:
  "logf as s l = (if length as = holes s then Inr (push_all (fill (pieces s) as) l) else Inl Fatal)"
proof (induction s arbitrary: as l rule: pieces.induct)
  case 1
  then show ?case by (cases as) (simp_all add: holes_simps FATAL_def)
next
  case (2 c s)
  consider (letter) "c \<noteq> CHR ''%''" | (escape) s' where "c = CHR ''%''" "s = CHR ''%'' # s'"
    | (hole) "c = CHR ''%''" "opens_hole s"
    by (cases s) auto
  then show ?case
  proof cases
    case letter
    then show ?thesis using 2(3) [OF letter] letter by (simp add: logf_letter holes_simps pieces_simps)
  next
    case escape
    then show ?thesis using 2(1) [of "CHR ''%''" s'] by (simp add: logf_escape holes_simps pieces_simps)
  next
    case hole
    have IH: "logf as s l = (if length as = holes s then Inr (push_all (fill (pieces s) as) l) else Inl Fatal)"
      for as and l :: "'a logger"
    proof (cases s)
      case Nil
      then show ?thesis by (cases as) (simp_all add: holes_simps FATAL_def)
    next
      case (Cons d s')
      then show ?thesis using hole 2(2) [of d s' as l] by simp
    qed
    show ?thesis
      using hole(1) by (cases as) (simp_all add: logf_hole [OF hole(2)] holes_simps(4) [OF hole(2)]
          pieces_simps(3) [OF hole(2)] IH push_value_all)
  qed
qed

lemma foldR_process: "foldR (process_element F) out xs = Inr (out @ print_all F xs)"
  by (induction xs arbitrary: out) (simp_all add: process_element_def print_all_def)

text \<open>
  What is logged is what is written: a message whose arguments fit its template, put into a
  queue with room for it, is printed by the next round of the logging thread, after what was
  pending and with nothing left over.
\<close>

theorem logged_message_is_written:
  assumes "q_ok (log_queue l)" "length as = holes s"
    and "q_size (log_queue l) + length (fill (pieces s) as) \<le> q_cap (log_queue l)"
  shows "\<exists>l1 l2. logf as s l = Inr l1 \<and> process_queue F l1 = Inr l2 \<and> q_list (log_queue l2) = []
    \<and> log_file l2 = log_file l @ print_all F (q_list (log_queue l)) @ print_all F (fill (pieces s) as)"
proof -
  let ?xs = "fill (pieces s) as"
  let ?l1 = "push_all ?xs l"
  have q: "q_ok (log_queue ?l1)" "q_list (log_queue ?l1) = q_list (log_queue l) @ ?xs" "log_file ?l1 = log_file l"
    using enq_all_ok [OF assms(1,3)] by (simp_all add: push_all_def)
  obtain q' where "consume get_next_to_read increment_read_index (q_size (log_queue ?l1)) (process_element F)
      (log_queue ?l1) (log_file l) = Inr (q', log_file l @ print_all F (q_list (log_queue l) @ ?xs))" "q_list q' = []"
    using lfq.consume_foldR [OF q(1), of "q_size (log_queue ?l1)" "process_element F" "log_file l"]
    by (auto simp: foldR_process q(2) length_q_list [symmetric] simp del: length_q_list)
  then show ?thesis using assms(2) q(3) by (simp add: logf_fills_template process_queue_def print_all_def)
qed

theorem logged_message_is_written_witness:
  "\<exists>l1 l2. logf [Elem (LOG_U_INT 42), Str ''ok''] ''qty: %, %!'' \<lparr>log_file = ''> '', log_queue = new_lfqueue 16 (LOG_CHAR CHR ''x'')\<rparr> = Inr l1
    \<and> process_queue (exact_ops (\<lambda>_. ''x'')) l1 = Inr l2 \<and> log_file l2 = ''> qty: 42, ok!''"
proof -
  let ?l = "\<lparr>log_file = ''> '', log_queue = new_lfqueue 16 (LOG_CHAR CHR ''x'')\<rparr> :: real option logger"
  have n: "nat_to_str 42 = ''42''" by code_simp
  have p: "pieces ''qty: %, %!'' = map Letter ''qty: '' @ [Hole] @ map Letter '', '' @ [Hole, Letter CHR ''!'']"
    by (simp add: pieces_simps)
  have h: "length [Elem (LOG_U_INT 42), Str ''ok'' :: real option log_arg] = holes ''qty: %, %!''" by (simp add: holes_def p)
  have f: "fill (pieces ''qty: %, %!'') [Elem (LOG_U_INT 42), Str ''ok'' :: real option log_arg]
      = map LOG_CHAR ''qty: '' @ [LOG_U_INT 42] @ map LOG_CHAR '', ok!''" by (simp add: p)
  show ?thesis
    using logged_message_is_written [where l = ?l, OF _ h, of "exact_ops (\<lambda>_. ''x'')"]
    by (simp add: f q_ok_new print_all_def n) blast
qed

subsection \<open>The log calls of the program\<close>

text \<open>
  The templates of all calls of \<open>logf\<close> in the source, each with the number of arguments it is
  given, in the order of the files and without repetitions.
\<close>

definition log_calls :: "(string \<times> nat) list" where
  "log_calls =
    [(''% <McastSocket::%> RX at socket %, size: %'' @ [CHR 0x0A], 4),
     (''% <McastSocket::%> TX at socket %, size: %'' @ [CHR 0x0A], 4),
     (''% <Sockets::%> %'', 3),
     (''% <TCPServer::%> EPOLLIN at listener_socket fd: %'' @ [CHR 0x0A], 3),
     (''% <TCPServer::%> EPOLLIN at socket fd: %'' @ [CHR 0x0A], 3),
     (''% <TCPServer::%> EPOLLOUT at socket fd: %'' @ [CHR 0x0A], 3),
     (''% <TCPServer::%> EPOLLERR|HUP at socket fd: %'' @ [CHR 0x0A], 3),
     (''% <TCPServer::%> has_new_connection'' @ [CHR 0x0A], 2),
     (''% <TCPServer::%> accepted new socket fd: %'' @ [CHR 0x0A], 3),
     (''% <TCPServer::%> socket: %, len: %, rx: %'' @ [CHR 0x0A], 5),
     (''% <TCPServer::%> server rx done'' @ [CHR 0x0A], 2),
     (''% <TCPSocket::%> RX at socket %, len: %, t_user: %, t_kernel: %, delta: %'' @ [CHR 0x0A], 7),
     (''% <TCPSocket::%> TX at socket %, size: %'' @ [CHR 0x0A], 4),
     (''% <TCPSocket::%> socket: %, len: %, rx: %'' @ [CHR 0x0A], 5),
     (''% <MDC::%> running client data consumer...'' @ [CHR 0x0A], 2),
     (''% <MDC::%> WARNING rx'd snapshot message but not in recovery'' @ [CHR 0x0A], 2),
     (''% <MDC::%> rx'd on % socket, len: %, request: %'' @ [CHR 0x0A], 5),
     (''% <MDC::%> lost packets on % socket. n_seq expected: %, received: %'' @ [CHR 0x0A], 5),
     (''% <MDC::%> %'' @ [CHR 0x0A], 3),
     (''% <MDC::%> dropped packets during snapshot recovery, received update again: %'' @ [CHR 0x0A], 3),
     (''% <MDC::%> start sync, stream joined at socket fd: %'' @ [CHR 0x0A], 3),
     (''% <MDC::%> waiting for SNAPSHOT_START'' @ [CHR 0x0A], 2),
     (''% <MDC::%> % => %'' @ [CHR 0x0A], 4),
     (''% <MDC::%> snapshot stream n_seq packet loss. Expected: %, found: %, update: %'' @ [CHR 0x0A], 5),
     (''% <MDC::%> snapshot sync discarded due to snapshot packet loss'' @ [CHR 0x0A], 2),
     (''% <MDC::%> abandon snapshot sync. Expected SNAPSHOT_END but none found'' @ [CHR 0x0A], 2),
     (''% <MDC::%> incremental stream packet loss. Expected: %, found: %, update: %'' @ [CHR 0x0A], 5),
     (''% <MDC::%> snapshot sync discarded due to incremental update packet loss'' @ [CHR 0x0A], 2),
     (''% <MDC::%> snapshot recovery complete. Rx'd % snapshot and % incremental data'' @ [CHR 0x0A], 4),
     (''% <OGC::%> running order gateway client...'' @ [CHR 0x0A], 2),
     (''% <OGC::%> tx request, client: %, n_seq: %, req: %'' @ [CHR 0x0A], 5),
     (''% <OGC::%> rx at socket fd: %, len: %, t: %'' @ [CHR 0x0A], 5),
     (''% <OGC::%> response rx'd: %'' @ [CHR 0x0A], 3),
     (''% <OGC::%> ERROR received wrong client ID from exchange. Expected % but got %'' @ [CHR 0x0A], 4),
     (''% <OGC::%> ERROR received wrong response n_seq from exchange. Expected % but got %'' @ [CHR 0x0A], 4),
     (''% <TEOrderBook::%> % %'' @ [CHR 0x0A], 4),
     (''% <FE::%> ticker: %, price: %, side: %, mkt_price: %, agg_ratio: %'' @ [CHR 0x0A], 7),
     (''% <FE::%> update: %, mkt_price: %, agg_ratio: %'' @ [CHR 0x0A], 5),
     (''% <MarketMaker::%> ticker: %, price: %, side: %'' @ [CHR 0x0A], 5),
     (''% <MarketMaker::%> fair_market_price: %, ticker: %'' @ [CHR 0x0A], 4),
     (''% <MarketMaker::%> %'' @ [CHR 0x0A], 3),
     (''% <OM::%> order request: % for: %'' @ [CHR 0x0A], 4),
     (''% <OM::%> cancel request: % for: %'' @ [CHR 0x0A], 4),
     (''% <OM::%> risk check failed for ticker: %, %, qty: %, risk_result: %'' @ [CHR 0x0A], 6),
     (''% <OM::%> %'' @ [CHR 0x0A], 3),
     (''% <Position::%> % %'' @ [CHR 0x0A], 4),
     (''% <TE::%> init % algo for ticker: %, %'' @ [CHR 0x0A], 5),
     (''% <TE::%> stopping trading engine...'' @ [CHR 0x0A], 2),
     (''% <TE::%> process remaining order data before stop: rx_res: %, rx_update: %'' @ [CHR 0x0A], 4),
     (''% <TE::%> Position Manager'' @ [CHR 0x0A] @ ''%'' @ [CHR 0x0A], 3),
     (''% <TE::%> run trading engine...'' @ [CHR 0x0A], 2),
     (''% <TE::%> rx %'' @ [CHR 0x0A], 3),
     (''% <TE::%> send request: %'' @ [CHR 0x0A], 3),
     (''% <TE::%> ticker: %, price: %, side: %'' @ [CHR 0x0A], 5),
     (''% <TE::%> trade update: %'' @ [CHR 0x0A], 3),
     (''% <TE::%> response: %'' @ [CHR 0x0A], 3),
     (''% <TE::%> %'' @ [CHR 0x0A], 3),
     (''% <MDP::%> running data publisher...'' @ [CHR 0x0A], 2),
     (''% <MDP::%> sending n_seq: %, update: %'' @ [CHR 0x0A], 4),
     (''% <SS::%> running snapshot synthesizer...'' @ [CHR 0x0A], 2),
     (''% <SS::%> process update %'' @ [CHR 0x0A], 3),
     (''% <SS::%> %'' @ [CHR 0x0A], 3),
     (''% <SS::%> snapshot published, size: % orders'' @ [CHR 0x0A], 3),
     (''% <ExchangeServer::%> starting Matching Engine'' @ [CHR 0x0A], 2),
     (''% <ExchangeServer::%> starting Order Gateway'' @ [CHR 0x0A], 2),
     (''% <ExchangeServer::%> starting Data Publisher'' @ [CHR 0x0A], 2),
     (''% <ExchangeServer::%> stopping all running exchange processes...'' @ [CHR 0x0A], 2),
     (''% <ExchangeServer::%> Sleeping for %ms...'' @ [CHR 0x0A], 3),
     (''% <FIFOSequencer::%> pending requests: %'' @ [CHR 0x0A], 3),
     (''% <FIFOSequencer::%> sequencing request: % at t_rx: %'' @ [CHR 0x0A], 4),
     (''% <OGS::%> running order gateway...'' @ [CHR 0x0A], 2),
     (''% <OGS::%> processing cid: %, n_seq: %, response: %'' @ [CHR 0x0A], 5),
     (''% <OGS::%> rx at socket: %, len: %, t: %'' @ [CHR 0x0A], 5),
     (''% <OGS::%> req: %'' @ [CHR 0x0A], 3),
     (''% <OGS::%> rx'd req from client: % on socket: %! expected: %'' @ [CHR 0x0A], 5),
     (''% <OGS::%> seq number error! client: %, n_seq expected: %  but received: %'' @ [CHR 0x0A], 5),
     (''% <OME::%> accepting client order requests...'' @ [CHR 0x0A], 2),
     (''% <OME::%> rx request: %'' @ [CHR 0x0A], 3),
     (''% <OME::%> tx response: %'' @ [CHR 0x0A], 3),
     (''% <OME::%> tx update: %'' @ [CHR 0x0A], 3),
     (''% <Exchange::%> Starting matching engine...'' @ [CHR 0x0A], 2),
     (''% <Exchange::%> Sleeping for some ms...'' @ [CHR 0x0A], 2)]"

text \<open>
  C37. Every log call of the program is well formed: its template has as many holes as the call
  has arguments, so no message, whatever the values logged, ends the process.
\<close>

theorem log_calls_fit:
  assumes "(s, n) \<in> set log_calls" "length as = n"
  shows "\<exists>l'. logf as s l = Inr l'"
proof -
  have "\<forall>(s, n) \<in> set log_calls. holes s = n"
    unfolding log_calls_def by code_simp
  then have "holes s = n" using assms(1) by auto
  then show ?thesis using assms(2) by (simp add: logf_fills_template)
qed

theorem log_calls_fit_witness:
  "\<exists>l'. logf [Str ''12:00'', Str ''run'', Elem (LOG_INT 100)] (''% <ExchangeServer::%> Sleeping for %ms...'' @ [CHR 0x0A])
     (new_logger (LOG_CHAR CHR ''x'')) = Inr l'"
  by (rule log_calls_fit [where n = 3]) (simp_all add: log_calls_def)

end
