(* ===== verification/Logger_Shutdown.thy ===== *)
theory Logger_Shutdown
  imports Lifecycle_Properties Logger Time_Keeping
begin

text \<open>
  The logger with its thread (\<open>llbase/logging.h\<close>): the constructor starts \<open>process_queue\<close>, the
  owner logs, the destructor waits until the queue is empty and stops the thread. The thread
  prints one element a step, so it works on the queue while the owner writes to it.
\<close>

definition logger_round :: "'f float_ops \<Rightarrow> thread_id \<Rightarrow> 'f logger \<Rightarrow> 'f logger \<Rightarrow> bool" where
  "logger_round F t l l' \<longleftrightarrow> t = T_logger \<and> (\<exists>x file q. get_next_to_read (log_queue l) = Some x
     \<and> process_element F (log_file l) x = Inr file \<and> increment_read_index (log_queue l) = Inr q
     \<and> l' = l\<lparr>log_file := file, log_queue := q\<rparr>)"

definition logger_workload :: "'f float_ops \<Rightarrow> 'f logger workload" where
  "logger_workload F = \<lparr>w_round = logger_round F, w_over = \<lambda>t l. t = T_logger \<longrightarrow> q_size (log_queue l) = 0,
     w_drained = \<lambda>t l. t = T_logger \<longrightarrow> q_size (log_queue l) = 0\<rparr>"

text \<open>A logger's life: every \<open>logf\<close> of the owner puts a list of elements into the queue.\<close>

definition logger_life :: "'f log_element list list \<Rightarrow> 'f logger instr list" where
  "logger_life xss = logger_constructor @ map (\<lambda>xs. Work (push_all xs)) xss @ logger_destructor"

subsection \<open>What holds throughout\<close>

text \<open>
  The file, the queue and the calls to come make up the whole log; the queue has room for them;
  each call comes before the wait of the destructor, after which the queue is empty.
\<close>

fun works :: "'c instr list \<Rightarrow> ('c \<Rightarrow> 'c) list" where
  "works [] = []"
| "works (Work f # is) = f # works is"
| "works (_ # is) = works is"

fun work_before_wait :: "'c instr list \<Rightarrow> bool" where
  "work_before_wait [] \<longleftrightarrow> True"
| "work_before_wait (i # is) \<longleftrightarrow> (works (i # is) \<noteq> [] \<longrightarrow> Wait_drained T_logger \<in> set is) \<and> work_before_wait is"

definition logger_ok :: "'f float_ops \<Rightarrow> string \<Rightarrow> 'f logger instr list \<Rightarrow> 'f logger \<Rightarrow> bool" where
  "logger_ok F whole is l \<longleftrightarrow> q_ok (log_queue l) \<and> work_before_wait is
     \<and> (Wait_drained T_logger \<notin> set is \<longrightarrow> q_list (log_queue l) = [])
     \<and> (\<exists>yss. works is = map push_all yss \<and> q_size (log_queue l) + length (concat yss) \<le> q_cap (log_queue l)
          \<and> log_file l @ print_all F (q_list (log_queue l)) @ print_all F (concat yss) = whole)"

lemma print_all_simps [simp]:
  "print_all F [] = []" "print_all F (x # xs) = print_element F x @ print_all F xs"
  "print_all F (xs @ ys) = print_all F xs @ print_all F ys"
  by (simp_all add: print_all_def)

lemma logger_round_prints:
  assumes "q_ok (log_queue l)" "q_list (log_queue l) = x # xs"
  shows "\<exists>q. logger_round F T_logger l (l\<lparr>log_file := log_file l @ print_element F x, log_queue := q\<rparr>)
    \<and> q_ok q \<and> q_list q = xs \<and> q_cap q = q_cap (log_queue l)"
proof -
  obtain q where "increment_read_index (log_queue l) = Inr q" "q_ok q" "q_list q = xs" "q_cap q = q_cap (log_queue l)"
    using lfq.drop_list [OF assms] by blast
  then show ?thesis using lfq.peek_list [OF assms(1)] assms(2) by (auto simp: logger_round_def process_element_def)
qed

lemma logger_ok_round:
  assumes "logger_ok F whole is l" "logger_round F t l l'"
  shows "logger_ok F whole is l'"
proof -
  have ok: "q_ok (log_queue l)" using assms(1) by (simp add: logger_ok_def)
  obtain x out q where r: "get_next_to_read (log_queue l) = Some x" "process_element F (log_file l) x = Inr out"
    "increment_read_index (log_queue l) = Inr q" "l' = l\<lparr>log_file := out, log_queue := q\<rparr>"
    using assms(2) by (auto simp: logger_round_def)
  obtain xs where xs: "q_list (log_queue l) = x # xs" using r(1) lfq.peek_list [OF ok] by (auto split: list.splits)
  have q: "q_ok q" "q_list q = xs" "q_cap q = q_cap (log_queue l)" using lfq.drop_list [OF ok xs] r(3) by auto
  have "q_size q \<le> q_size (log_queue l)" using q(2) xs by (metis length_Cons length_q_list le_SucI order_refl)
  then show ?thesis
    using assms(1) q xs r(2,4) unfolding logger_ok_def by (fastforce simp: process_element_def)
qed

lemma logger_ok_call:
  assumes "logger_ok F whole (i # is) l" "\<And>t. i = Wait_drained t \<Longrightarrow> w_drained (logger_workload F) t l"
  shows "logger_ok F whole is (case i of Work f \<Rightarrow> f l | _ \<Rightarrow> l)"
proof (cases i)
  case (Work f)
  obtain ys yss where ys: "f = push_all ys" "works is = map push_all yss"
    "q_size (log_queue l) + length (concat (ys # yss)) \<le> q_cap (log_queue l)"
    "log_file l @ print_all F (q_list (log_queue l)) @ print_all F (concat (ys # yss)) = whole"
  proof -
    from assms(1) obtain yss where "works (i # is) = map push_all yss"
      "q_size (log_queue l) + length (concat yss) \<le> q_cap (log_queue l)"
      "log_file l @ print_all F (q_list (log_queue l)) @ print_all F (concat yss) = whole"
      unfolding logger_ok_def by blast
    with Work show thesis by (cases yss) (auto intro: that)
  qed
  have q: "q_ok (enq_all ys (log_queue l))" "q_list (enq_all ys (log_queue l)) = q_list (log_queue l) @ ys"
    "q_cap (enq_all ys (log_queue l)) = q_cap (log_queue l)"
    using enq_all_ok [of "log_queue l" ys] assms(1) ys(3) by (auto simp: logger_ok_def)
  then have "q_size (enq_all ys (log_queue l)) = q_size (log_queue l) + length ys"
    by (metis length_append length_q_list)
  then show ?thesis
    using assms(1) Work ys q unfolding logger_ok_def by (auto simp: push_all_def intro!: exI [of _ yss])
next
  case (Wait_drained t)
  then have "q_list (log_queue l) = []" if "Wait_drained T_logger \<notin> set is"
    using assms that by (cases "t = T_logger") (auto simp: logger_ok_def logger_workload_def q_list_def)
  then show ?thesis using assms(1) Wait_drained unfolding logger_ok_def by auto
qed (use assms(1) in \<open>auto simp: logger_ok_def\<close>)

lemma logger_drains:
  assumes "q_ok (log_queue l)"
  shows "\<exists>l'. (logger_round F T_logger)\<^sup>*\<^sup>* l l' \<and> q_size (log_queue l') = 0"
  using assms
proof (induction "q_list (log_queue l)" arbitrary: l)
  case Nil
  then have "q_size (log_queue l) = 0" by (metis length_q_list list.size(3))
  then show ?case by blast
next
  case (Cons x xs)
  obtain q where q: "logger_round F T_logger l (l\<lparr>log_file := log_file l @ print_element F x, log_queue := q\<rparr>)"
    "q_ok q" "q_list q = xs"
    using logger_round_prints [OF Cons.prems Cons.hyps(2) [symmetric]] by blast
  then show ?case
    using Cons.hyps(1) [of "l\<lparr>log_file := log_file l @ print_element F x, log_queue := q\<rparr>"]
    by (auto intro: converse_rtranclp_into_rtranclp)
qed

interpretation lg: finishing_loops "logger_workload F" "logger_ok F whole"
proof unfold_locales
  fix "is" l t
  assume ok: "logger_ok F whole is l"
  have "\<exists>l'. (w_round (logger_workload F) t)\<^sup>*\<^sup>* l l' \<and> (t = T_logger \<longrightarrow> q_size (log_queue l') = 0)"
    using logger_drains [of l F] ok by (cases "t = T_logger") (auto simp: logger_ok_def logger_workload_def)
  then show "\<exists>l'. (w_round (logger_workload F) t)\<^sup>*\<^sup>* l l' \<and> w_over (logger_workload F) t l'"
    "\<exists>l'. (w_round (logger_workload F) t)\<^sup>*\<^sup>* l l' \<and> w_drained (logger_workload F) t l'"
    by (simp_all add: logger_workload_def)
next
  fix i "is" l
  assume "logger_ok F whole (i # is) l" "\<And>t. i = Wait_drained t \<Longrightarrow> w_drained (logger_workload F) t l"
  then show "logger_ok F whole is (case i of Work f \<Rightarrow> f l | _ \<Rightarrow> l)" by (rule logger_ok_call)
qed (auto simp: logger_workload_def intro: logger_ok_round)

subsection \<open>The whole log is in the file\<close>

lemma works_append [simp]: "works (is @ js) = works is @ works js"
  by (induction "is" rule: works.induct) simp_all

lemma works_logger_life [simp]: "works (map (\<lambda>xs. Work (push_all xs)) xss) = map push_all xss"
  by (induction xss) simp_all

lemma work_before_wait_append: "Wait_drained T_logger \<in> set js \<Longrightarrow> work_before_wait js \<Longrightarrow> work_before_wait (is @ js)"
  by (induction "is") simp_all

lemma passes_logger_life: "all_pass (logger_life xss) all_absent"
proof -
  have "all_pass (map (\<lambda>xs. Work (push_all xs)) xss @ logger_destructor) \<sigma>" if "\<sigma> T_logger = Live" for \<sigma>
    using that by (induction xss) (simp_all add: logger_destructor_def)
  then show ?thesis by (simp add: logger_life_def logger_constructor_def all_absent_def)
qed

lemma logger_life_effect:
  assumes "calls_effect (logger_life xss) all_absent = Some \<sigma>"
  shows "\<sigma> T_logger = Absent"
proof -
  have "\<sigma>' T_logger = Absent"
    if "calls_effect (map (\<lambda>xs. Work (push_all xs)) xss @ logger_destructor) \<sigma> = Some \<sigma>'" "\<sigma> T_logger = Live" for \<sigma> \<sigma>'
    using that by (induction xss) (auto simp: logger_destructor_def)
  then show ?thesis using assms by (fastforce simp: logger_life_def logger_constructor_def all_absent_def)
qed

lemma logger_ok_new:
  assumes "length (concat xss) \<le> LOG_QUEUE_SIZE"
  shows "logger_ok F (print_all F (concat xss)) (logger_life xss) (new_logger junk)"
proof -
  have "work_before_wait (logger_life xss)"
    unfolding logger_life_def
    by (intro work_before_wait_append) (simp_all add: logger_destructor_def)
  then show ?thesis
    using assms unfolding logger_ok_def
    by (auto simp: logger_life_def logger_constructor_def logger_destructor_def new_logger_def q_ok_new LOG_QUEUE_SIZE_def
        intro!: exI [of _ xss])
qed

text \<open>
  C26. Nothing that was logged is lost when the logger is destroyed. Whatever the owner logs between
  constructor and destructor, as long as the queue has room for it, and however the two threads
  interleave, the destructor can always return, and when it has the file holds every message,
  in order, and the thread is gone.
\<close>

theorem logger_destructor_flushes:
  assumes "length (concat xss) \<le> LOG_QUEUE_SIZE"
    and "pruns (logger_workload F) (new_process (logger_life xss) (new_logger junk)) s"
  shows "(\<exists>s'. pruns (logger_workload F) s s' \<and> p_ctl s' = [])
    \<and> (p_ctl s = [] \<longrightarrow> log_file (p_store s) = print_all F (concat xss) \<and> p_pc s T_logger = No_thread)"
proof -
  note ok = logger_ok_new [OF assms(1), of F junk]
  have kept: "logger_ok F (print_all F (concat xss)) (p_ctl s) (p_store s)"
    using lg.ok_runs [OF assms(2)] ok by (simp add: new_process_def)
  have "p_pc s T_logger = No_thread" if ended: "p_ctl s = []"
  proof -
    obtain \<sigma> where "calls_effect (logger_life xss) all_absent = Some \<sigma>" "have_status \<sigma> s" using pruns_ended [OF assms(2) ended] by blast
    then show ?thesis using logger_life_effect [of xss] have_status_at [of \<sigma> s T_logger] by simp
  qed
  then show ?thesis
    using lg.completes [OF assms(2) passes_logger_life ok] kept by (auto simp: logger_ok_def)
qed

theorem logger_destructor_flushes_witness:
  "\<exists>s. pruns (logger_workload (exact_ops (\<lambda>_. ''x'')))
       (new_process (logger_life [[LOG_CHAR CHR ''o''], [LOG_CHAR CHR ''k'', LOG_U_INT 42]]) (new_logger (LOG_CHAR CHR ''x''))) s
     \<and> p_ctl s = [] \<and> log_file (p_store s) = ''ok42''"
proof -
  let ?F = "exact_ops (\<lambda>_. ''x'')" and ?xss = "[[LOG_CHAR CHR ''o''], [LOG_CHAR CHR ''k'', LOG_U_INT 42]] :: real option log_element list list"
  let ?s = "new_process (logger_life ?xss) (new_logger (LOG_CHAR CHR ''x''))"
  have len: "length (concat ?xss) \<le> LOG_QUEUE_SIZE" by (simp add: LOG_QUEUE_SIZE_def)
  obtain s where s: "pruns (logger_workload ?F) ?s s" "p_ctl s = []"
    using logger_destructor_flushes [OF len rtranclp.rtrancl_refl, of ?F "LOG_CHAR CHR ''x''"] by blast
  have "nat_to_str 42 = ''42''" by code_simp
  then have "log_file (p_store s) = ''ok42''" using logger_destructor_flushes [OF len s(1)] s(2) by simp
  then show ?thesis using s by blast
qed

text \<open>
  The first argument of every log call is the time. \<open>push_value\<close> stops at the NUL that
  \<open>get_time_str\<close> puts over the newline, so the time is logged without it and the line goes on.
\<close>

lemma log_time_str:
  assumes "fmt now = s @ [CHR 0x0A]" "CHR 0x00 \<notin> set s"
  shows "arg_elements (Str (get_time_str fmt now buffer)) = map LOG_CHAR s"
proof -
  have "takeWhile (\<lambda>c. c \<noteq> CHR 0x00) s = s" using assms(2) by (auto simp: takeWhile_eq_all_conv)
  then show ?thesis by (simp add: get_time_str_line [of fmt now s, OF assms(1)] takeWhile_tail)
qed

end
