(* ===== verification/Ome_Print.thy ===== *)
theory Ome_Print
  imports Ome_Properties
begin

text \<open>
  The strings of the exchange's orders, price levels and books: the \<open>to_str\<close> methods of
  \<open>exchange/orders/ome_order.h\<close> and \<open>ome_order_book.cpp\<close>. That of a book can check, on the way,
  that the price levels are sorted, and ends the process when they are not. The theorem at the
  end says that it never does, and that what it prints are the orders in price-time priority.
\<close>

subsection \<open>Orders and levels\<close>

definition id_at :: "ome_book \<Rightarrow> ptr \<Rightarrow> order_id" where
  "id_at b p = (case p of None \<Rightarrow> OrderID_INVALID | Some c \<Rightarrow> o_market_oid (ord b c))"

definition ome_order_to_str :: "ome_book \<Rightarrow> addr \<Rightarrow> string" where
  "ome_order_to_str b a = (let r = ord b a in
     ''<OMEOrder>'' @ ''['' @ ''ticker: '' @ numeric_to_str (o_ticker r)
     @ '', client: '' @ numeric_to_str (o_client r)
     @ '', oid_client: '' @ numeric_to_str (o_client_oid r)
     @ '', oid_market: '' @ numeric_to_str (o_market_oid r)
     @ '', side: '' @ side_to_str (o_side r)
     @ '', price: '' @ price_to_str (o_price r)
     @ '', qty: '' @ numeric_to_str (o_qty r)
     @ '', priority: '' @ numeric_to_str (o_priority r)
     @ '', prev: '' @ numeric_to_str (id_at b (o_prev r))
     @ '', next: '' @ numeric_to_str (id_at b (o_next r)) @ '']'')"

definition ome_level_to_str :: "ome_book \<Rightarrow> addr \<Rightarrow> string" where
  "ome_level_to_str b a = (let l = lev b a;
       price_of = (\<lambda>p. case p of None \<Rightarrow> Price_INVALID | Some c \<Rightarrow> l_price (lev b c)) in
     ''<OMEOrdersAtPrice>['' @ ''side: '' @ side_to_str (l_side l)
     @ '', price: '' @ price_to_str (l_price l)
     @ '', order_0: '' @ (case l_order_0 l of Some c \<Rightarrow> ome_order_to_str b c | None \<Rightarrow> ''NULL'')
     @ '', prev: '' @ price_to_str (price_of (l_prev l))
     @ '', next: '' @ price_to_str (price_of (l_next l)) @ '']'')"

subsection \<open>\<open>OMEOrderBook::to_str\<close>\<close>

text \<open>The \<open>printf\<close> conversions \<open>%3s\<close> and \<open>%-5s\<close>: pad on the left, on the right.\<close>

definition pad_left :: "nat \<Rightarrow> string \<Rightarrow> string" where
  "pad_left n s = replicate (n - length s) CHR '' '' @ s"

definition pad_right :: "nat \<Rightarrow> string \<Rightarrow> string" where
  "pad_right n s = s @ replicate (n - length s) CHR '' ''"

text \<open>
  The two loops over the orders of a level, from \<open>order_0\<close> to the one before it: the quantity
  (32 bit, wrapping) and number, and the details. The fuel is the size of the order pool.
\<close>

fun level_totals :: "nat \<Rightarrow> ome_book \<Rightarrow> ptr \<Rightarrow> ptr \<Rightarrow> qty \<Rightarrow> nat \<Rightarrow> (qty \<times> nat) res" where
  "level_totals fuel b order_0 p q n = (case fuel of 0 \<Rightarrow> Inl Diverges
     | Suc f \<Rightarrow> bindR (deref p) (\<lambda>a.
         if o_next (ord b a) = order_0 then Inr (q + o_qty (ord b a), n + 1)
         else level_totals f b order_0 (o_next (ord b a)) (q + o_qty (ord b a)) (n + 1)))"

definition order_detail :: "order_id \<Rightarrow> qty \<Rightarrow> order_id \<Rightarrow> order_id \<Rightarrow> string" where
  "order_detail oid q p n = [CHR 0x0A, CHR 0x09, CHR 0x09, CHR 0x09] @ ''{ oid:'' @ numeric_to_str oid
     @ '', q:'' @ numeric_to_str q @ '', p:'' @ numeric_to_str p @ '', n:'' @ numeric_to_str n @ '' }''"

fun level_details :: "nat \<Rightarrow> ome_book \<Rightarrow> bool \<Rightarrow> ptr \<Rightarrow> ptr \<Rightarrow> string res" where
  "level_details fuel b is_detailed order_0 p = (case fuel of 0 \<Rightarrow> Inl Diverges
     | Suc f \<Rightarrow> bindR (deref p) (\<lambda>a.
         let r = ord b a;
             s = (if is_detailed then order_detail (o_market_oid r) (o_qty r) (id_at b (o_prev r)) (id_at b (o_next r))
                  else []) in
         if o_next r = order_0 then Inr s
         else bindR (level_details f b is_detailed order_0 (o_next r)) (\<lambda>t. Inr (s @ t))))"

declare level_totals.simps [simp del] level_details.simps [simp del]

definition level_head :: "price \<Rightarrow> price \<Rightarrow> price \<Rightarrow> qty \<Rightarrow> nat \<Rightarrow> string" where
  "level_head p before after q n = '' { p:'' @ pad_left 3 (price_to_str p)
     @ '' [-]:'' @ pad_left 3 (price_to_str before) @ '' [+]:'' @ pad_left 3 (price_to_str after)
     @ '' } '' @ pad_right 5 (numeric_to_str q) @ '' @ '' @ pad_right 3 (price_to_str p)
     @ '' ('' @ pad_right 4 (nat_to_str n) @ '')''"

text \<open>The lambda \<open>printer\<close>: the text of a level and the new \<open>last_price\<close>.\<close>

definition print_level :: "bool \<Rightarrow> bool \<Rightarrow> ome_book \<Rightarrow> side \<Rightarrow> addr \<Rightarrow> price \<Rightarrow> (string \<times> price) res" where
  "print_level is_detailed has_validity_check b sd l last_price =
     (let v = lev b l; fuel = n_blocks (order_pool b) in
      bindR (level_totals fuel b (l_order_0 v) (l_order_0 v) 0 0) (\<lambda>(q, n).
      bindR (deref (l_prev v)) (\<lambda>pl.
      bindR (deref (l_next v)) (\<lambda>nl.
      bindR (level_details fuel b is_detailed (l_order_0 v) (l_order_0 v)) (\<lambda>s.
      let text = level_head (l_price v) (l_price (lev b pl)) (l_price (lev b nl)) q n @ s @ [CHR 0x0A] in
      if has_validity_check
      then if (sd = SELL \<and> sint (l_price v) \<le> sint last_price) \<or> (sd = BUY \<and> sint last_price \<le> sint (l_price v))
           then FATAL else Inr (text, l_price v)
      else Inr (text, last_price))))))"

text \<open>The loop over the levels of a side; the fuel is the size of the level pool.\<close>

fun print_levels :: "nat \<Rightarrow> bool \<Rightarrow> bool \<Rightarrow> ome_book \<Rightarrow> side \<Rightarrow> string \<Rightarrow> ptr \<Rightarrow> ptr \<Rightarrow> nat \<Rightarrow> price \<Rightarrow> string res" where
  "print_levels fuel is_detailed has_validity_check b sd name best p k last_price =
     (case p of None \<Rightarrow> Inr []
      | Some l \<Rightarrow> (case fuel of 0 \<Rightarrow> Inl Diverges
        | Suc f \<Rightarrow>
            bindR (print_level is_detailed has_validity_check b sd l last_price) (\<lambda>(s, last').
            bindR (print_levels f is_detailed has_validity_check b sd name best
                     (if l_next (lev b l) = best then None else l_next (lev b l)) (k + 1) last') (\<lambda>t.
            Inr (name @ ''['' @ nat_to_str k @ ''] => '' @ s @ t)))))"

declare print_levels.simps [simp del]

definition print_side :: "bool \<Rightarrow> bool \<Rightarrow> ome_book \<Rightarrow> side \<Rightarrow> string \<Rightarrow> price \<Rightarrow> string res" where
  "print_side is_detailed has_validity_check b sd name first_price =
     (let best = best_levels sd b;
          none = [CHR 0x0A] @ ''                  [NO '' @ name @ '' ON BOOK]'' @ [CHR 0x0A] in
      case best of None \<Rightarrow> Inr none
      | Some l \<Rightarrow> if l_order_0 (lev b l) = None then Inr none
          else print_levels (n_blocks (orders_at_price_pool b)) is_detailed has_validity_check b sd name
                 best best 0 first_price)"

definition Price_MIN :: price where "Price_MIN = 0x8000000000000000"

definition book_frame_text :: "ticker_id \<Rightarrow> string \<Rightarrow> string \<Rightarrow> string" where
  "book_frame_text t asks bids = [CHR 0x0A] @ ''----- ORDER BOOK FOR TICKER: '' @ numeric_to_str t @ '' -----'' @ [CHR 0x0A]
     @ asks @ [CHR 0x0A] @ ''                          X'' @ [CHR 0x0A, CHR 0x0A] @ bids"

definition ome_book_to_str :: "bool \<Rightarrow> bool \<Rightarrow> ome_book \<Rightarrow> string res" where
  "ome_book_to_str is_detailed has_validity_check b =
     bindR (print_side is_detailed has_validity_check b SELL ''ASKS'' Price_MIN) (\<lambda>asks.
     bindR (print_side is_detailed has_validity_check b BUY ''BIDS'' Price_INVALID) (\<lambda>bids.
     Inr (book_frame_text (assigned_ticker b) asks bids)))"

subsection \<open>The text of a list of orders\<close>

text \<open>Orders in priority, grouped by price.\<close>

fun price_groups :: "ome_order list \<Rightarrow> (price \<times> ome_order list) list" where
  "price_groups [] = []"
| "price_groups (r # rs) = (case price_groups rs of
       (p, os) # gs \<Rightarrow> if p = o_price r then (p, r # os) # gs else (o_price r, [r]) # (p, os) # gs
     | [] \<Rightarrow> [(o_price r, [r])])"

text \<open>Every element of a list with its neighbours, the ends being neighbours of each other.\<close>

definition with_neighbours :: "'a list \<Rightarrow> ('a \<times> 'a \<times> 'a) list" where
  "with_neighbours xs = zip (last xs # xs) (zip xs (tl xs @ [hd xs]))"

definition group_text :: "bool \<Rightarrow> price \<Rightarrow> price \<times> ome_order list \<Rightarrow> price \<Rightarrow> string" where
  "group_text is_detailed before g after =
     level_head (fst g) before after (sum_list (map o_qty (snd g))) (length (snd g))
     @ (if is_detailed then concat (map (\<lambda>(p, r, n). order_detail (o_market_oid r) (o_qty r) (o_market_oid p) (o_market_oid n))
                                (with_neighbours (snd g))) else []) @ [CHR 0x0A]"

fun groups_text :: "bool \<Rightarrow> string \<Rightarrow> nat \<Rightarrow> ((price \<times> ome_order list) \<times> (price \<times> ome_order list) \<times> (price \<times> ome_order list)) list
    \<Rightarrow> string" where
  "groups_text is_detailed name k [] = []"
| "groups_text is_detailed name k ((p, g, n) # gs) = name @ ''['' @ nat_to_str k @ ''] => ''
     @ group_text is_detailed (fst p) g (fst n) @ groups_text is_detailed name (k + 1) gs"

definition side_text :: "bool \<Rightarrow> string \<Rightarrow> ome_order list \<Rightarrow> string" where
  "side_text is_detailed name rs = (if rs = []
     then [CHR 0x0A] @ ''                  [NO '' @ name @ '' ON BOOK]'' @ [CHR 0x0A]
     else groups_text is_detailed name 0 (with_neighbours (price_groups rs)))"

definition view_text :: "bool \<Rightarrow> ticker_id \<Rightarrow> book_view \<Rightarrow> string" where
  "view_text is_detailed t A = book_frame_text t (side_text is_detailed ''ASKS'' (A SELL)) (side_text is_detailed ''BIDS'' (A BUY))"

subsection \<open>The walks through the rings\<close>

lemma dring_around:
  assumes "dring nx pv (P @ c # S)"
  shows "nx c = Some (hd (S @ P @ [c]))" "pv c = Some (last (c # S @ P))"
proof -
  have r: "dring nx pv (c # S @ P)" using assms dring_rotate [of nx pv P "c # S"] by simp
  then show "pv c = Some (last (c # S @ P))" using dring_hd by fastforce
  show "nx c = Some (hd (S @ P @ [c]))"
  proof (cases "S @ P")
    case Nil
    then show ?thesis using r by simp
  next
    case (Cons d T)
    then show ?thesis using r dring_next_hd [of nx pv c d T] by (cases S) auto
  qed
qed

lemma dring_step:
  assumes "dring nx pv (P @ c # d # S)"
  shows "nx c = Some d" "Some d \<noteq> Some (hd (P @ [c]))"
proof -
  show "nx c = Some d" using dring_around(1) [OF assms] by simp
  have "distinct (P @ c # d # S)" by (rule dring_distinct [OF assms])
  then show "Some d \<noteq> Some (hd (P @ [c]))" by (cases P) auto
qed

lemma level_totals_walk:
  assumes "dring (onx b) (opv b) (P @ c # S)" "length S < fuel"
  shows "level_totals fuel b (Some (hd (P @ [c]))) (Some c) q n
    = Inr (q + sum_list (map (\<lambda>a. o_qty (ord b a)) (c # S)), n + length (c # S))"
  using assms
proof (induction S arbitrary: P c fuel q n)
  case Nil
  then obtain f where "fuel = Suc f" by (cases fuel) auto
  then show ?case using dring_around(1) [OF Nil.prems(1)] by (simp add: level_totals.simps onx_def)
next
  case (Cons d S)
  obtain f where f: "fuel = Suc f" "length S < f" using Cons.prems(2) by (cases fuel) auto
  have hd: "hd (P @ [c]) = hd ((P @ [c]) @ [d])" by (cases P) auto
  have "level_totals f b (Some (hd ((P @ [c]) @ [d]))) (Some d) (q + o_qty (ord b c)) (n + 1)
      = Inr (q + o_qty (ord b c) + sum_list (map (\<lambda>a. o_qty (ord b a)) (d # S)), n + 1 + length (d # S))"
    by (rule Cons.IH) (use Cons.prems(1) f(2) in simp_all)
  note walk = this [folded hd]
  show ?case unfolding level_totals.simps [of fuel]
    using dring_step [OF Cons.prems(1)] f(1) walk by (simp add: onx_def add.assoc del: append_Cons append.simps append_assoc)
qed

definition detail_at :: "ome_book \<Rightarrow> addr \<Rightarrow> string" where
  "detail_at b a = order_detail (o_market_oid (ord b a)) (o_qty (ord b a)) (id_at b (o_prev (ord b a))) (id_at b (o_next (ord b a)))"

lemma level_details_walk:
  assumes "dring (onx b) (opv b) (P @ c # S)" "length S < fuel"
  shows "level_details fuel b det (Some (hd (P @ [c]))) (Some c)
    = Inr (if det then concat (map (detail_at b) (c # S)) else [])"
  using assms
proof (induction S arbitrary: P c fuel)
  case Nil
  then obtain f where "fuel = Suc f" by (cases fuel) auto
  then show ?case using dring_around(1) [OF Nil.prems(1)] by (simp add: level_details.simps onx_def detail_at_def Let_def)
next
  case (Cons d S)
  obtain f where f: "fuel = Suc f" "length S < f" using Cons.prems(2) by (cases fuel) auto
  have hd: "hd (P @ [c]) = hd ((P @ [c]) @ [d])" by (cases P) auto
  have "level_details f b det (Some (hd ((P @ [c]) @ [d]))) (Some d)
      = Inr (if det then concat (map (detail_at b) (d # S)) else [])"
    by (rule Cons.IH) (use Cons.prems(1) f(2) in simp_all)
  note walk = this [folded hd]
  show ?case unfolding level_details.simps [of fuel]
    using dring_step [OF Cons.prems(1)] f(1) walk by (simp add: onx_def detail_at_def Let_def del: append_Cons append.simps append_assoc)
qed

text \<open>A ring as a list with neighbours.\<close>

lemma dring_with_neighbours:
  assumes "dring nx pv xs"
  shows "with_neighbours xs = map (\<lambda>a. (the (pv a), a, the (nx a))) xs"
proof (rule nth_equalityI)
  have ne: "xs \<noteq> []" using assms by auto
  then show len: "length (with_neighbours xs) = length (map (\<lambda>a. (the (pv a), a, the (nx a))) xs)"
    by (simp add: with_neighbours_def)
  fix i assume "i < length (with_neighbours xs)"
  then have i: "i < length xs" using len by simp
  let ?P = "take i xs" and ?c = "xs ! i" and ?S = "drop (Suc i) xs"
  have split: "?P @ ?c # ?S = xs" by (rule id_take_nth_drop [OF i, symmetric])
  have r: "dring nx pv (?P @ ?c # ?S)" using assms split by simp
  have p: "last (?c # ?S @ ?P) = (last xs # xs) ! i"
  proof (cases i)
    case 0
    then show ?thesis using ne by (cases xs) (auto simp: last_append)
  next
    case (Suc j)
    then have "last (?c # ?S @ ?P) = last ?P" using ne by (simp add: last_append)
    then show ?thesis using Suc i by (simp add: take_Suc_conv_app_nth)
  qed
  have n: "hd (?S @ ?P @ [?c]) = (tl xs @ [hd xs]) ! i"
  proof (cases "Suc i < length xs")
    case True
    then show ?thesis using i by (auto simp: hd_append hd_drop_conv_nth nth_append nth_tl)
  next
    case False
    then have "Suc i = length xs" using i by simp
    then show ?thesis by (cases xs) (auto simp: nth_append hd_append hd_conv_nth)
  qed
  show "with_neighbours xs ! i = map (\<lambda>a. (the (pv a), a, the (nx a))) xs ! i"
    using i ne dring_around [OF r] p n by (simp add: with_neighbours_def)
qed

lemma with_neighbours_map:
  assumes "xs \<noteq> []"
  shows "with_neighbours (map f xs) = map (\<lambda>(p, x, n). (f p, f x, f n)) (with_neighbours xs)"
proof -
  have "last (map f xs) # map f xs = map f (last xs # xs)" using assms by (simp add: last_map)
  moreover have "tl (map f xs) @ [hd (map f xs)] = map f (tl xs @ [hd xs])" using assms by (simp add: map_tl hd_map)
  ultimately show ?thesis unfolding with_neighbours_def by (simp only: zip_map_map map_map) (auto simp: case_prod_beta)
qed

subsection \<open>Printing a level\<close>

definition out_of_order :: "side \<Rightarrow> price \<Rightarrow> price \<Rightarrow> bool" where
  "out_of_order sd p last_price \<longleftrightarrow> (sd = SELL \<and> sint p \<le> sint last_price) \<or> (sd = BUY \<and> sint last_price \<le> sint p)"

lemma worse_in_order: "worse sd p q \<Longrightarrow> \<not> out_of_order sd p q"
  by (auto simp: worse_def out_of_order_def)

lemma first_in_order:
  "p \<noteq> Price_MIN \<Longrightarrow> worse SELL p Price_MIN" "p \<noteq> Price_INVALID \<Longrightarrow> worse BUY p Price_INVALID"
proof -
  have bounds: "- (2 ^ 63) \<le> sint p" "sint p < 2 ^ 63" using sint_ge [of p] sint_lt [of p] by simp_all
  have ends: "sint Price_MIN = - (2 ^ 63)" "sint Price_INVALID = 2 ^ 63 - 1" by (simp_all add: Price_MIN_def Price_INVALID_def)
  have inj: "p = q" if "sint p = sint q" for q :: price using that by (rule signed_word_eqI)
  show "worse SELL p Price_MIN" if "p \<noteq> Price_MIN"
    using that bounds(1) ends(1) inj [of Price_MIN] by (force simp: worse_def)
  show "worse BUY p Price_INVALID" if "p \<noteq> Price_INVALID"
    using that bounds(2) ends(2) inj [of Price_INVALID] by (force simp: worse_def)
qed

definition view_at :: "ome_book \<Rightarrow> addr list \<Rightarrow> ome_order list" where
  "view_at b os = map (\<lambda>a. odata (ord b a)) os"

lemma view_at_len: "length (view_at b os) = length os"
  by (simp add: view_at_def)

lemma details_of_view:
  assumes "dring (onx b) (opv b) os"
  shows "concat (map (\<lambda>(p, r, n). order_detail (o_market_oid r) (o_qty r) (o_market_oid p) (o_market_oid n))
      (with_neighbours (view_at b os))) = concat (map (detail_at b) os)"
proof -
  have ne: "os \<noteq> []" using assms by auto
  have "id_at b (opv b a) = o_market_oid (ord b (the (opv b a)))" "id_at b (onx b a) = o_market_oid (ord b (the (onx b a)))"
    if "a \<in> set os" for a
    using dring_links_closed [OF assms that] by (auto simp: id_at_def)
  then show ?thesis
    unfolding view_at_def with_neighbours_map [OF ne] dring_with_neighbours [OF assms]
    by (auto simp: detail_at_def odata_def opv_def onx_def intro!: arg_cong [of _ _ concat])
qed

lemma print_level_ok:
  assumes lv: "level_ok b sd (l, os)" and len: "length os \<le> n_blocks (order_pool b)"
    and pl: "lpv b l = Some pl" and nl: "lnx b l = Some nl"
  shows "print_level det check b sd l last_price =
    (if check \<and> out_of_order sd (lpr b l) last_price then FATAL
     else Inr (group_text det (lpr b pl) (lpr b l, view_at b os) (lpr b nl), if check then lpr b l else last_price))"
proof -
  obtain a as where os: "os = a # as" using lv by (cases os) (auto simp: level_ok_def)
  have ring: "dring (onx b) (opv b) ([] @ a # as)" and first: "l_order_0 (lev b l) = Some (hd ([] @ [a]))"
    using lv os by (simp_all add: level_ok_def)
  have fuel: "length as < n_blocks (order_pool b)" using len os by simp
  have sums: "sum_list (map o_qty (view_at b os)) = sum_list (map (\<lambda>c. o_qty (ord b c)) os)"
    by (simp add: view_at_def odata_def comp_def)
  have group: "group_text det (lpr b pl) (lpr b l, view_at b os) (lpr b nl)
    = level_head (lpr b l) (lpr b pl) (lpr b nl) (sum_list (map (\<lambda>c. o_qty (ord b c)) os)) (length os)
      @ (if det then concat (map (detail_at b) os) else []) @ [CHR 0x0A]"
    using details_of_view [of b os] lv unfolding group_text_def by (simp add: sums view_at_len level_ok_def)
  have totals: "level_totals (n_blocks (order_pool b)) b (Some a) (Some a) 0 0
      = Inr (sum_list (map (\<lambda>c. o_qty (ord b c)) os), length os)"
    using level_totals_walk [OF ring fuel, of 0 0] os by simp
  have details: "level_details (n_blocks (order_pool b)) b det (Some a) (Some a)
      = Inr (if det then concat (map (detail_at b) os) else [])"
    using level_details_walk [OF ring fuel, of det] os by simp
  show ?thesis
    using first pl nl unfolding print_level_def group out_of_order_def
    by (simp add: totals details Let_def view_defs del: if_split)
qed

subsection \<open>Printing a side\<close>

text \<open>The group of orders a level of a ghost side stands for, and the levels as those groups.\<close>

definition group_at :: "ome_book \<Rightarrow> ghost_side \<Rightarrow> addr \<Rightarrow> price \<times> ome_order list" where
  "group_at b L l = (lpr b l, view_at b (the (map_of L l)))"

lemma price_groups_block:
  assumes "rs \<noteq> []" "\<forall>r \<in> set rs. o_price r = p" "\<And>q os gs. price_groups ss = (q, os) # gs \<Longrightarrow> q \<noteq> p"
  shows "price_groups (rs @ ss) = (p, rs) # price_groups ss"
  using assms(1,2)
proof (induction rs)
  case (Cons r rs)
  show ?case
  proof (cases "rs = []")
    case True
    then show ?thesis using Cons.prems assms(3) by (auto split: list.splits)
  next
    case False
    then show ?thesis using Cons by simp
  qed
qed simp

lemma price_groups_levels:
  assumes "\<forall>e \<in> set L. level_ok b sd e" "sorted_wrt (\<lambda>e f. worse sd (lpr b (fst f)) (lpr b (fst e))) L"
  shows "price_groups (view_at b (queue L)) = map (\<lambda>e. (lpr b (fst e), view_at b (snd e))) L"
  using assms
proof (induction L)
  case Nil
  show ?case by (simp add: view_at_def)
next
  case (Cons e L)
  have IH: "price_groups (view_at b (queue L)) = map (\<lambda>e. (lpr b (fst e), view_at b (snd e))) L"
    by (rule Cons.IH) (use Cons.prems in simp_all)
  have "price_groups (view_at b (snd e) @ view_at b (queue L))
      = (lpr b (fst e), view_at b (snd e)) # price_groups (view_at b (queue L))"
  proof (rule price_groups_block)
    show "view_at b (snd e) \<noteq> []" "\<forall>r \<in> set (view_at b (snd e)). o_price r = lpr b (fst e)"
      using Cons.prems(1) by (auto simp: level_ok_def order_ok_def view_at_def odata_def)
    fix q os gs assume "price_groups (view_at b (queue L)) = (q, os) # gs"
    then obtain f where "f \<in> set L" "q = lpr b (fst f)" using IH by (cases L) auto
    then show "q \<noteq> lpr b (fst e)" using Cons.prems(2) by auto
  qed
  then show ?case using IH by (simp add: view_at_def)
qed

lemma print_levels_walk:
  assumes "dring (lnx b) (lpv b) (P @ l # S)" "length (l # S) \<le> fuel"
    and "sorted_wrt (\<lambda>x y. worse sd (lpr b y) (lpr b x)) (l # S)"
    and "check \<longrightarrow> worse sd (lpr b l) last_price"
    and "\<And>x q. x \<in> set (l # S) \<Longrightarrow> print_level det check b sd x q =
      (if check \<and> out_of_order sd (lpr b x) q then FATAL
       else Inr (group_text det (fst (g (the (lpv b x)))) (g x) (fst (g (the (lnx b x)))), if check then lpr b x else q))"
  shows "print_levels fuel det check b sd name (Some (hd (P @ [l]))) (Some l) k last_price
    = Inr (groups_text det name k (map (\<lambda>x. (g (the (lpv b x)), g x, g (the (lnx b x)))) (l # S)))"
  using assms
proof (induction S arbitrary: P l fuel k last_price)
  case Nil
  then obtain f where f: "fuel = Suc f" by (cases fuel) auto
  have here: "print_level det check b sd l last_price = Inr (group_text det (fst (g (the (lpv b l)))) (g l) (fst (g (the (lnx b l)))),
      if check then lpr b l else last_price)"
    using Nil.prems(4,5) worse_in_order by auto
  have "l_next (lev b l) = Some (hd (P @ [l]))" using dring_around(1) [OF Nil.prems(1)] by (simp add: lnx_def)
  moreover have "print_levels f det check b sd name best None k' q = Inr []" for best k' q
    by (simp add: print_levels.simps)
  ultimately show ?case unfolding print_levels.simps [of fuel] using f here by simp
next
  case (Cons d S)
  obtain f where f: "fuel = Suc f" "length (d # S) \<le> f" using Cons.prems(2) by (cases fuel) auto
  have hd: "hd (P @ [l]) = hd ((P @ [l]) @ [d])" by (cases P) auto
  let ?last = "if check then lpr b l else last_price"
  have here: "print_level det check b sd l last_price = Inr (group_text det (fst (g (the (lpv b l)))) (g l) (fst (g (the (lnx b l)))), ?last)"
    using Cons.prems(4,5) worse_in_order by auto
  have "print_levels f det check b sd name (Some (hd ((P @ [l]) @ [d]))) (Some d) (k + 1) ?last
      = Inr (groups_text det name (k + 1) (map (\<lambda>x. (g (the (lpv b x)), g x, g (the (lnx b x)))) (d # S)))"
    by (rule Cons.IH) (use Cons.prems f(2) in simp_all)
  note walk = this [folded hd]
  have "l_next (lev b l) = Some d" "Some d \<noteq> Some (hd (P @ [l]))"
    using dring_step [OF Cons.prems(1)] by (simp_all add: lnx_def)
  then show ?case unfolding print_levels.simps [of fuel]
    using f(1) here walk by simp
qed

lemma groups_of_view:
  assumes ok: "side_ok b sd L"
  shows "price_groups (view_at b (queue L)) = map (group_at b L) (map fst L)"
proof -
  have "price_groups (view_at b (queue L)) = map (\<lambda>e. (lpr b (fst e), view_at b (snd e))) L"
    by (rule price_groups_levels) (use ok in \<open>auto simp: side_ok_def\<close>)
  also have "\<dots> = map (\<lambda>e. group_at b L (fst e)) L"
    using side_ok_distinct [OF ok] by (auto simp: group_at_def)
  finally show ?thesis by (simp add: comp_def)
qed

lemma print_level_in_side:
  assumes ok: "side_ok b sd L" and l: "l \<in> levels_of L" and len: "length (queue L) \<le> n_blocks (order_pool b)"
  shows "print_level det check b sd l q =
      (if check \<and> out_of_order sd (lpr b l) q then FATAL
       else Inr (group_text det (fst (group_at b L (the (lpv b l)))) (group_at b L l)
         (fst (group_at b L (the (lnx b l)))), if check then lpr b l else q))"
proof -
  obtain os where os: "(l, os) \<in> set L" using l by (auto simp: levels_of_def)
  then obtain L1 L2 where L: "L = L1 @ (l, os) # L2" by (metis split_list)
  have "length os \<le> length (queue L)" by (simp add: L)
  moreover have "map_of L l = Some os" using os side_ok_distinct [OF ok] by simp
  moreover have "\<exists>pl nl. lpv b l = Some pl \<and> lnx b l = Some nl"
    using ok l dring_links_closed [of "lnx b" "lpv b" "map fst L" l] by (auto simp: side_ok_def levels_of_def L)
  moreover have "level_ok b sd (l, os)" using ok os by (simp add: side_ok_def)
  ultimately show ?thesis using print_level_ok len by (fastforce simp: group_at_def)
qed

lemma print_side_ok:
  assumes ok: "side_ok b sd L" and lens: "length (queue L) \<le> n_blocks (order_pool b)" "length L \<le> n_blocks (orders_at_price_pool b)"
    and first: "check \<longrightarrow> (\<forall>r \<in> set (view_at b (queue L)). worse sd (o_price r) p)"
  shows "print_side det check b sd name p = Inr (side_text det name (view_at b (queue L)))"
proof (cases L)
  case Nil
  then show ?thesis using ok by (simp add: print_side_def side_text_def side_ok_def view_at_def)
next
  case (Cons e S)
  have lv: "level_ok b sd e" and best: "best_levels sd b = Some (fst e)" and ring: "dring (lnx b) (lpv b) ([] @ fst e # map fst S)"
    using ok Cons by (simp_all add: side_ok_def)
  then obtain a os where e: "snd e = a # os" "order_ok b sd (lpr b (fst e)) a" by (cases "snd e") (auto simp: level_ok_def)
  have start: "check \<longrightarrow> worse sd (lpr b (fst e)) p"
    using first Cons e by (simp add: view_at_def order_ok_def odata_def)
  have "print_levels (n_blocks (orders_at_price_pool b)) det check b sd name (Some (hd ([] @ [fst e]))) (Some (fst e)) 0 p
    = Inr (groups_text det name 0 (map (\<lambda>x. (group_at b L (the (lpv b x)), group_at b L x, group_at b L (the (lnx b x))))
        (fst e # map fst S)))"
  proof (rule print_levels_walk [OF ring _ _ start])
    show "length (fst e # map fst S) \<le> n_blocks (orders_at_price_pool b)" using lens(2) Cons by simp
    show "sorted_wrt (\<lambda>x y. worse sd (lpr b y) (lpr b x)) (fst e # map fst S)"
      using ok Cons by (auto simp: side_ok_def sorted_wrt_map)
    show "print_level det check b sd x q = (if check \<and> out_of_order sd (lpr b x) q then FATAL
       else Inr (group_text det (fst (group_at b L (the (lpv b x)))) (group_at b L x)
         (fst (group_at b L (the (lnx b x)))), if check then lpr b x else q))" if "x \<in> set (fst e # map fst S)" for x q
      by (rule print_level_in_side [OF ok _ lens(1)]) (use that Cons in \<open>auto simp: levels_of_def\<close>)
  qed
  moreover have "with_neighbours (price_groups (view_at b (queue L)))
    = map (\<lambda>x. (group_at b L (the (lpv b x)), group_at b L x, group_at b L (the (lnx b x)))) (fst e # map fst S)"
  proof -
    have "map fst L = fst e # map fst S" using Cons by simp
    then show ?thesis unfolding groups_of_view [OF ok]
      using dring_with_neighbours [OF ring] by (simp add: with_neighbours_map comp_def del: list.map)
  qed
  moreover have "view_at b (queue L) \<noteq> []" using Cons e(1) by (simp add: view_at_def)
  moreover have "l_order_0 (lev b (fst e)) = Some (hd (snd e))" using lv by (simp add: level_ok_def)
  ultimately show ?thesis using best by (simp add: print_side_def side_text_def Let_def)
qed

subsection \<open>The book\<close>

lemma ghost_fits:
  assumes ok: "book_ok b G {} {}" and sd: "is_side sd"
  shows "length (queue (G sd)) \<le> n_blocks (order_pool b)" "length (G sd) \<le> n_blocks (orders_at_price_pool b)"
proof -
  have sok: "side_ok b sd (G sd)" by (rule book_ok_side [OF ok sd])
  have u: "orders_of (G sd) \<subseteq> used (order_pool b)" "levels_of (G sd) \<subseteq> used (orders_at_price_pool b)"
    using ok all_orders_side [OF sd, of G] all_levels_side [OF sd, of G] by (auto simp: book_ok_def)
  have c: "card (used (order_pool b)) < n_blocks (order_pool b)"
    "card (used (orders_at_price_pool b)) < n_blocks (orders_at_price_pool b)"
    using ok pool_card [of "order_pool b"] pool_card [of "orders_at_price_pool b"] by (simp_all add: book_ok_def)
  have "length (queue (G sd)) = card (orders_of (G sd))"
    using distinct_queue [OF sok] distinct_card [of "queue (G sd)"] by simp
  then show "length (queue (G sd)) \<le> n_blocks (order_pool b)"
    using card_mono [OF _ u(1)] c(1) by simp
  have "length (G sd) = card (levels_of (G sd))"
    using side_ok_distinct [OF sok] by (metis distinct_card length_map levels_of_def set_map)
  then show "length (G sd) \<le> n_blocks (orders_at_price_pool b)"
    using card_mono [OF _ u(2)] c(2) by simp
qed

text \<open>The check starts below the lowest ask and above the highest bid: an order at that very price fails it.\<close>

lemma print_side_fatal:
  assumes ok: "side_ok b sd L" and lens: "length (queue L) \<le> n_blocks (order_pool b)" "length L \<le> n_blocks (orders_at_price_pool b)"
    and r: "r \<in> set (view_at b (queue L))" "out_of_order sd (o_price r) p"
  shows "print_side det True b sd name p = FATAL"
proof -
  obtain l os a where l: "(l, os) \<in> set L" "a \<in> set os" "r = odata (ord b a)"
    using r(1) by (auto simp: view_at_def queue_def)
  then have pr: "o_price r = lpr b l" using ok by (auto simp: side_ok_def level_ok_def order_ok_def odata_def list_all_iff)
  obtain e S where L: "L = e # S" using l(1) by (cases L) auto
  have lv: "level_ok b sd e" and best: "best_levels sd b = Some (fst e)" using ok L by (simp_all add: side_ok_def)
  have "l = fst e \<or> worse sd (lpr b l) (lpr b (fst e))"
    using ok L l(1) by (auto simp: side_ok_def sorted_wrt_map)
  then have "out_of_order sd (lpr b (fst e)) p" using r(2) pr by (auto simp: out_of_order_def worse_def)
  then have "print_level det True b sd (fst e) p = FATAL"
    using print_level_in_side [OF ok _ lens(1), of "fst e" det True p] L by (simp add: levels_of_def)
  moreover obtain f where "n_blocks (orders_at_price_pool b) = Suc f" using lens(2) L by (cases "n_blocks (orders_at_price_pool b)") auto
  moreover obtain y where "l_order_0 (lev b (fst e)) = Some y" using lv by (auto simp: level_ok_def)
  ultimately show ?thesis
    using best by (simp add: print_side_def print_levels.simps [of "Suc f"] FATAL_def)
qed

lemma at_the_end: "out_of_order SELL Price_MIN Price_MIN" "out_of_order BUY Price_INVALID Price_INVALID"
  by (simp_all add: out_of_order_def)

text \<open>
  C13. A book that stands for the order lists \<open>A\<close> is printed as those lists: level by level in
  price priority and order by order in time priority, each with its neighbours, the levels with
  the sum and number of their orders. The validity check on the way, which ends the process, stops
  it exactly when an order sells at the lowest or buys at the highest number a price can have,
  although such a book is in order too.
\<close>

theorem print_shows_the_orders:
  assumes "represents b A"
  shows "ome_book_to_str det check b =
    (if check \<and> (Price_MIN \<in> o_price ` set (A SELL) \<or> Price_INVALID \<in> o_price ` set (A BUY)) then FATAL
     else Inr (view_text det (assigned_ticker b) A))"
proof -
  obtain G where ok: "book_ok b G {} {}" and A: "\<And>s. is_side s \<Longrightarrow> A s = view_at b (queue (G s))"
    using assms by (auto simp: represents_def ome_ok_def side_view_def view_at_def)
  have side: "print_side det check b sd name p = Inr (side_text det name (A sd))"
    if "is_side sd" "check \<longrightarrow> (\<forall>r \<in> set (A sd). worse sd (o_price r) p)" for sd name p
    using print_side_ok [OF book_ok_side [OF ok that(1)] ghost_fits [OF ok that(1)]] that A [OF that(1)] by simp
  have fatal: "print_side det True b sd name p = FATAL"
    if "is_side sd" "p \<in> o_price ` set (A sd)" "out_of_order sd p p" for sd name p
    using print_side_fatal [OF book_ok_side [OF ok that(1)] ghost_fits [OF ok that(1)]] that A [OF that(1)] by auto
  have asks: "print_side det check b SELL name Price_MIN =
      (if check \<and> Price_MIN \<in> o_price ` set (A SELL) then FATAL else Inr (side_text det name (A SELL)))" for name
    using side [of SELL Price_MIN name] fatal [of SELL Price_MIN name] at_the_end(1) first_in_order(1) by (cases check) (force simp: image_iff)+
  have bids: "print_side det check b BUY name Price_INVALID =
      (if check \<and> Price_INVALID \<in> o_price ` set (A BUY) then FATAL else Inr (side_text det name (A BUY)))" for name
    using side [of BUY Price_INVALID name] fatal [of BUY Price_INVALID name] at_the_end(2) first_in_order(2) by (cases check) (force simp: image_iff)+
  show ?thesis by (auto simp: ome_book_to_str_def asks bids view_text_def FATAL_def)
qed

theorem print_shows_the_orders_witness:
  "\<exists>b. represents b demo_view \<and> ome_book_to_str True True b = Inr (view_text True (assigned_ticker b) demo_view)"
proof -
  obtain b where b: "represents b demo_view" using demo_book by blast
  have "Price_MIN \<notin> o_price ` set (demo_view SELL)" "Price_INVALID \<notin> o_price ` set (demo_view BUY)"
    by (simp_all add: demo_view_def demo_order_def Price_MIN_def Price_INVALID_def)
  then have "ome_book_to_str True True b = Inr (view_text True (assigned_ticker b) demo_view)"
    using print_shows_the_orders [OF b, of True True] by simp
  then show ?thesis using b by blast
qed

end
