(* ===== verification/Ome_Collision.thy ===== *)
theory Ome_Collision
  imports Ome_Properties
begin

text \<open>
  What the condition on prices in \<open>accepts\<close> is for. \<open>get_level_for_price\<close> looks a price up by its
  remainder modulo \<open>MAX_PRICE_LEVELS\<close> and does not compare the price of the level it finds.
\<close>

text \<open>A book with an order whose price is not that of the level its index leads to.\<close>

lemma not_represents:
  assumes "map_price_to_price_level b (price_to_index p) = Some l" "lpr b l \<noteq> p"
    and "a \<in> used (order_pool b)" "o_price (ord b a) = p"
  shows "\<not> represents b A"
proof
  assume "represents b A"
  then obtain G where ok: "book_ok b G {} {}" by (auto simp: represents_def ome_ok_def)
  then have "p \<in> prices_of b G" using assms(3,4) by (auto simp: book_ok_def prices_of_def)
  then obtain l' where "l' \<in> all_levels G" "lpr b l' = p" using prices_levels(1) [OF ok] by auto
  then have "map_price_to_price_level b (price_to_index p) = Some l'" using ok by (auto simp: book_ok_def table_ok_def)
  then show False using assms(1,2) \<open>lpr b l' = p\<close> by simp
qed

lemma match_loop_nothing:
  assumes ok: "book_ok b G X Y" and sd: "is_side sd"
    and no: "\<And>a. a \<in> orders_of (G (opposite sd)) \<Longrightarrow> worse sd p (o_price (ord b a))"
  shows "match_loop fuel tk c sd coid moid p q b = Inr (q, b)"
proof (cases "G (opposite sd)")
  case Nil
  then have "best_levels (opposite sd) b = None" using book_ok_side [OF ok, of "opposite sd"] sd by (simp add: side_ok_def)
  then show ?thesis by (simp add: match_loop.simps)
next
  case (Cons e L)
  then have s: "best_levels (opposite sd) b = Some (fst e)" "level_ok b (opposite sd) e"
    using book_ok_side [OF ok, of "opposite sd"] sd by (simp_all add: side_ok_def)
  then obtain f where f: "l_order_0 (lev b (fst e)) = Some f" "f \<in> set (snd e)"
    by (cases "snd e") (auto simp: level_ok_def)
  then have "worse sd p (o_price (ord b f))" using no [of f] Cons by simp
  then show ?thesis using s(1) f(1) by (simp add: match_loop.simps)
qed

text \<open>An order that is linked into a level it finds changes neither the levels nor the table.\<close>

lemma link_found:
  assumes "get_level_for_price b (o_price (ord b a)) = Some l" "l_order_0 (lev b l) = Some f" "o_prev (ord b f) = Some t"
    and "a \<noteq> f" "a \<noteq> t"
  obtains b' where "link_order b a = Inr b'" "lev b' = lev b" "map_price_to_price_level b' = map_price_to_price_level b"
    "odata (ord b' a) = odata (ord b a)" "used (order_pool b') = used (order_pool b)"
  using assms by (simp add: link_order_def Let_def) (simp add: book_simps odata_def)

text \<open>
  C14. Prices that are equal modulo \<open>MAX_PRICE_LEVELS\<close> break the book: when an order rests at one
  of them and an order at the other comes in that matches nothing, \<open>add\<close> returns normally, but
  the new order is linked into the level of the old price, and the book then stands for no
  order lists at all: the pointers, the table and the levels contradict each other.
\<close>

theorem price_collision_breaks_book:
  assumes "represents b A" "is_side sd" "in_range c oid" "q \<noteq> 0"
    and "\<forall>s \<in> set (A (opposite sd)). worse sd p (o_price s)"
    and "r \<in> set (all_resting A)" "price_to_index (o_price r) = price_to_index p" "o_price r \<noteq> p"
    and "Suc (length (all_resting A)) < MAX_ORDER_IDS"
  shows "\<exists>b'. add c oid tk sd p q b = Inr b' \<and> (\<forall>A'. \<not> represents b' A')"
proof -
  obtain G where ok: "ome_ok b G" and A: "\<forall>s. is_side s \<longrightarrow> A s = side_view b G s"
    using assms(1) by (auto simp: represents_def)
  have bok: "book_ok b G {} {}" using ok by (simp add: ome_ok_def)
  have "o_price r \<in> prices_of b G" using assms(6) by (simp flip: resting_orders(2) [OF A] add: view_prices_def)
  then obtain l where l: "l \<in> all_levels G" "lpr b l = o_price r" using prices_levels(1) [OF bok] by auto
  then have look: "map_price_to_price_level b (price_to_index p) = Some l" using bok assms(7) by (auto simp: book_ok_def table_ok_def)
  obtain f t where f: "l_order_0 (lev b l) = Some f" "o_prev (ord b f) = Some t" "f \<in> all_orders G" "t \<in> all_orders G"
    using level_first [OF bok l(1)] by metis
  let ?b2 = "send_response (b\<lparr>next_market_oid := next_market_oid b + 1,
    client_response := mk_response RES_ACCEPTED c tk oid (next_market_oid b) sd p 0 q\<rparr>)"
  have same: "same_core b ?b2" by (simp add: same_core_def level_book.truncate_def send_response_def)
  note core = same_coreD [OF same]
  have "match_loop fuel tk c sd oid (next_market_oid b) p q ?b2 = Inr (q, ?b2)" for fuel
  proof (rule match_loop_nothing [OF _ assms(2)])
    show "book_ok ?b2 G {} {}" using bok same_core_book_ok [OF same] by simp
    show "worse sd p (o_price (ord ?b2 a))" if "a \<in> orders_of (G (opposite sd))" for a
      using assms(2,5) A that by (auto simp: side_view_def core odata_def)
  qed
  then have none: "find_match c oid tk sd p q (next_market_oid b) ?b2 = Inr (q, ?b2)"
    using assms(2) by (auto simp: find_match_def is_side_def)
  have prio: "get_next_priority ?b2 p = Inr (o_priority (ord b t) + 1)"
    using look f by (simp add: get_next_priority_def get_level_for_price_def core)
  let ?r = "\<lparr>o_side = sd, o_price = p, o_qty = q, o_priority = o_priority (ord b t) + 1, o_prev = None, o_next = None,
    o_ticker = tk, o_client = c, o_client_oid = oid, o_market_oid = next_market_oid b\<rparr>"
  have "Suc (card (used (order_pool b))) < n_blocks (order_pool b)" "pool_ok (order_pool b)"
    using assms(9) resting_length [OF bok A] ok bok by (simp_all add: ome_ok_def book_ok_def)
  then obtain a op where a: "allocate (order_pool b) ?r = Inr (a, op)" "blk op = (blk (order_pool b))(a := ?r)"
    "a \<notin> used (order_pool b)" "a \<in> used op" using allocate_ok by (metis insertI1)
  let ?b3 = "?b2\<lparr>order_pool := op\<rparr>"
  have reads: "lev ?b3 = lev b" "ord ?b3 = (ord b)(a := ?r)" using a(2) core by (auto simp: ord_def lev_def fun_eq_iff)
  have "a \<noteq> f" "a \<noteq> t" using a(3) f(3,4) bok by (auto simp: book_ok_def)
  then obtain b4 where b4: "link_order ?b3 a = Inr b4" "lev b4 = lev b"
    "map_price_to_price_level b4 = map_price_to_price_level b" "odata (ord b4 a) = ?r" "used (order_pool b4) = used op"
    using link_found [of ?b3 a l f t] look f reads core by (auto simp: get_level_for_price_def odata_def)
  have data: "o_price (ord b4 a) = p" "o_client (ord b4 a) = c" "o_client_oid (ord b4 a) = oid"
    using arg_cong [OF b4(4), of o_price] arg_cong [OF b4(4), of o_client] arg_cong [OF b4(4), of o_client_oid]
    by (simp_all add: odata_def)
  let ?b5 = "b4\<lparr>map_client_id_to_order := (map_client_id_to_order b4)(c := (map_client_id_to_order b4 c)(oid := Some a))\<rparr>"
  let ?b6 = "send_update (?b5\<lparr>market_update := mk_update UPD_ADD (next_market_oid b) tk sd p q (o_priority (ord b t) + 1)\<rparr>)"
  have "add c oid tk sd p q b = Inr ?b6"
    using none prio a(1) b4(1) data assms(3,4) core(2)
    by (simp add: add_def Let_def add_order_to_book_def set_client_order_def)
  moreover have "same_core b4 ?b6" by (simp add: same_core_def level_book.truncate_def send_update_def)
  note core6 = same_coreD [OF this]
  have "\<not> represents ?b6 A'" for A'
    by (rule not_represents [where a = a and l = l and p = p])
      (use look l(2) assms(8) a(4) b4 data(1) core in \<open>simp_all add: core6 lpr_def\<close>)
  ultimately show ?thesis by blast
qed

theorem price_collision_breaks_book_witness:
  "\<exists>b b'. represents b demo_view \<and> add 3 4 0 SELL (101 + of_nat MAX_PRICE_LEVELS) 8 b = Inr b' \<and> (\<forall>A'. \<not> represents b' A')"
proof -
  obtain b where b: "represents b demo_view" using demo_book by blast
  have "\<exists>b'. add 3 4 0 SELL (101 + of_nat MAX_PRICE_LEVELS) 8 b = Inr b' \<and> (\<forall>A'. \<not> represents b' A')"
    by (rule price_collision_breaks_book [OF b, where r = demo_order])
      (simp_all add: demo_view_def demo_order_def all_resting_def limit_defs in_range_def price_to_index_def is_side_def)
  then show ?thesis using b by blast
qed

end
