(* ===== verification/Exchange_Server.thy ===== *)
theory Exchange_Server
  imports Market_View Gateway_Delivery
begin

text \<open>
  \<open>exchange/exchange_server.{h,cpp}\<close>: the exchange as a whole. Its components are threads that
  share four queues: the gateway's sequencer feeds the matching engine, which feeds the gateway
  and the publisher, which feeds the synthesizer. Here every queue is a field of the exchange;
  a component's round gets the queues it works on and gives them back. The rounds may come in
  any order (\<open>exchange_run\<close>); that the two ends of one queue can also work at the same time is
  the subject of \<open>LF_Queue_SPSC\<close>.
\<close>

record exchange_server =
  client_requests :: "ome_client_request lfqueue"
  client_responses :: "ome_client_response lfqueue"
  market_updates :: "ome_market_update lfqueue"
  snapshot_updates :: "mdp_market_update lfqueue"
  xs_ome :: matching_engine
  xs_ogs :: order_gateway_server
  xs_mdp :: market_data_publisher
  xs_synthesizer :: snapshot_synthesizer

text \<open>
  \<open>start\<close>: the components in the order the code makes them. What the operating system decides
  is an argument: the contents of the uninitialised array of each book, the result of the
  server's \<open>listen\<close> and the descriptors of the two multicast sockets.
\<close>

definition start_exchange :: "(nat \<Rightarrow> client_order_map) \<Rightarrow> tcp_server res \<Rightarrow> int \<Rightarrow> int \<Rightarrow> exchange_server res" where
  "start_exchange junk listening fd_incremental fd_snapshot =
     (let requests = new_lfqueue MAX_CLIENT_UPDATES default_request;
          responses = new_lfqueue MAX_CLIENT_UPDATES default_response;
          updates = new_lfqueue MAX_MARKET_UPDATES default_update;
          engine = new_matching_engine junk responses updates in
      bindR listening (\<lambda>server.
      let gateway = new_order_gateway_server requests responses server in
      bindR (ASSERT (0 \<le> fd_incremental)) (\<lambda>_.
      bindR (ASSERT (0 \<le> fd_snapshot)) (\<lambda>_.
      let publisher = new_market_data_publisher updates fd_incremental in
      Inr \<lparr>client_requests = requests, client_responses = responses, market_updates = updates,
           snapshot_updates = tx_snapshot_updates publisher, xs_ome = engine, xs_ogs = gateway,
           xs_mdp = publisher,
           xs_synthesizer = new_snapshot_synthesizer (tx_snapshot_updates publisher) fd_snapshot\<rparr>))))"

subsection \<open>One round of each component\<close>

definition ome_round :: "exchange_server \<Rightarrow> exchange_server res" where
  "ome_round x =
     bindR (run_engine (client_requests x)
              ((xs_ome x)\<lparr>tx_responses := client_responses x, tx_market_updates := market_updates x\<rparr>)) (\<lambda>(q, e).
     Inr (x\<lparr>client_requests := q, client_responses := tx_responses e, market_updates := tx_market_updates e, xs_ome := e\<rparr>))"

definition ogs_round :: "(pending_client_request list \<Rightarrow> pending_client_request list)
    \<Rightarrow> poll_event list \<Rightarrow> connection list \<Rightarrow> (nat \<Rightarrow> bytes \<times> int) \<Rightarrow> (nat \<Rightarrow> bytes \<times> int)
    \<Rightarrow> exchange_server \<Rightarrow> (exchange_server \<times> (nat \<times> bytes) list) res" where
  "ogs_round srt events pending rx rx' x =
     bindR (ogs_run srt events pending rx rx' ((xs_ogs x)\<lparr>ogs_rx_responses := client_responses x,
              ogs_fifo := (ogs_fifo (xs_ogs x))\<lparr>fs_rx_requests := client_requests x\<rparr>\<rparr>)) (\<lambda>(w, out).
     Inr (x\<lparr>client_requests := fs_rx_requests (ogs_fifo w), client_responses := ogs_rx_responses w, xs_ogs := w\<rparr>, out))"

definition mdp_round :: "bytes \<Rightarrow> exchange_server \<Rightarrow> (exchange_server \<times> bytes) res" where
  "mdp_round rx x =
     bindR (mdp_run rx ((xs_mdp x)\<lparr>ome_market_updates := market_updates x, tx_snapshot_updates := snapshot_updates x\<rparr>))
       (\<lambda>(p, out).
     Inr (x\<lparr>market_updates := ome_market_updates p, snapshot_updates := tx_snapshot_updates p, xs_mdp := p\<rparr>, out))"

definition synthesizer_round :: "int \<Rightarrow> int \<Rightarrow> (64 word \<Rightarrow> bytes) \<Rightarrow> exchange_server \<Rightarrow> (exchange_server \<times> bytes) res" where
  "synthesizer_round now now' rx x =
     bindR (ss_run now now' rx ((xs_synthesizer x)\<lparr>ss_tx_updates := snapshot_updates x\<rparr>)) (\<lambda>(w, out).
     Inr (x\<lparr>snapshot_updates := ss_tx_updates w, xs_synthesizer := w\<rparr>, out))"

subsection \<open>The runs of the exchange\<close>

text \<open>
  A session the exchange can serve: valid requests, fewer than there are order ids, that lead
  to fewer updates than the synthesizer has blocks. \<open>new_messages\<close> are those the requests in
  the queue will lead to.
\<close>

definition servable :: "ome_client_request list \<Rightarrow> bool" where
  "servable rs \<longleftrightarrow> valid_run rs empty_books \<and> Suc (length rs) < MAX_ORDER_IDS
     \<and> length (updates (snd (run_spec rs empty_books))) < MAX_ORDER_IDS"

definition new_messages :: "ome_client_request list \<Rightarrow> exchange_server \<Rightarrow> ome_msg list" where
  "new_messages rs x = snd (run_spec (q_list (client_requests x)) (fst (run_spec rs empty_books)))"

definition ome_has_room :: "ome_client_request list \<Rightarrow> exchange_server \<Rightarrow> bool" where
  "ome_has_room rs x \<longleftrightarrow>
     q_size (client_responses x) + length (responses (new_messages rs x)) \<le> q_cap (client_responses x)
   \<and> q_size (market_updates x) + length (updates (new_messages rs x)) \<le> q_cap (market_updates x)"

definition mdp_has_room :: "exchange_server \<Rightarrow> bool" where
  "mdp_has_room x \<longleftrightarrow> q_size (snapshot_updates x) + q_size (market_updates x) \<le> q_cap (snapshot_updates x)
     \<and> 42 * q_size (market_updates x) < MCAST_BUFFER_SIZE"

text \<open>
  \<open>exchange_run x0 x rs ds bs\<close>: from \<open>x0\<close> the exchange can come to \<open>x\<close> by rounds of its
  components in any order; \<open>rs\<close> are the requests the engine took so far, \<open>ds\<close> the responses the
  gateway took, \<open>bs\<close> the bytes sent on the incremental stream. The rounds go on while the queues
  have room; the sockets of the publisher and of the synthesizer receive nothing.
\<close>

inductive exchange_run :: "exchange_server \<Rightarrow> exchange_server \<Rightarrow> ome_client_request list
    \<Rightarrow> ome_client_response list \<Rightarrow> bytes \<Rightarrow> bool" for x0 where
  started: "exchange_run x0 x0 [] [] []"
| engine: "exchange_run x0 x rs ds bs \<Longrightarrow> servable (rs @ q_list (client_requests x)) \<Longrightarrow> ome_has_room rs x
    \<Longrightarrow> ome_round x = Inr x' \<Longrightarrow> exchange_run x0 x' (rs @ q_list (client_requests x)) ds bs"
| gateway: "exchange_run x0 x rs ds bs \<Longrightarrow> sorting pending_less srt
    \<Longrightarrow> q_size (client_requests x) + MAX_PENDING_ORDER_REQUESTS \<le> q_cap (client_requests x)
    \<Longrightarrow> ogs_round srt events pending rx rx' x = Inr (x', out)
    \<Longrightarrow> exchange_run x0 x' rs (ds @ q_list (client_responses x)) bs"
| publisher: "exchange_run x0 x rs ds bs \<Longrightarrow> mdp_has_room x
    \<Longrightarrow> mdp_round [] x = Inr (x', out') \<Longrightarrow> exchange_run x0 x' rs ds (bs @ out')"
| synthesizer: "exchange_run x0 x rs ds bs
    \<Longrightarrow> synthesizer_round now now' (\<lambda>_. []) x = Inr (x', out') \<Longrightarrow> exchange_run x0 x' rs ds bs"

subsection \<open>A round of the gateway\<close>

text \<open>What the callbacks of the server leave alone: both queues; nothing but room for pending requests is used.\<close>

definition ogs_kept :: "order_gateway_server \<Rightarrow> order_gateway_server \<Rightarrow> bool" where
  "ogs_kept w v \<longleftrightarrow> fs_rx_requests (ogs_fifo v) = fs_rx_requests (ogs_fifo w) \<and> ogs_rx_responses v = ogs_rx_responses w
     \<and> length (pending_requests (ogs_fifo v)) \<le> MAX_PENDING_ORDER_REQUESTS"

lemma ogs_kept_server [simp]:
  "ogs_kept w (v\<lparr>ogs_server := s\<rparr>) = ogs_kept w v" "ogs_kept w (set_server_socket ogs_server ogs_put_server i k v) = ogs_kept w v"
  by (simp_all add: ogs_kept_def set_server_socket_def)

lemma ogs_on_request_kept: "ogs_kept w v \<Longrightarrow> ogs_on_request i t v m = Inr v' \<Longrightarrow> ogs_kept w v'"
  by (auto simp: ogs_kept_def ogs_on_request_def push_client_request_def FATAL_def Let_def bindR_eq_Inr split: if_splits)

lemma ogs_rx_callback_kept:
  assumes "ogs_kept w v" "ogs_rx_callback i t v = Inr v'"
  shows "ogs_kept w v'"
proof -
  have "ogs_kept w v1" if "foldR (ogs_on_request i t) v ms = Inr v1" for ms v1
    by (rule foldR_invariant [where P = "ogs_kept w", OF _ assms(1) that]) (rule ogs_on_request_kept)
  then show ?thesis
    using assms by (auto simp: ogs_rx_callback_def Let_def bindR_eq_Inr split: if_splits prod.splits)
qed

lemma ogs_server_loop_kept:
  assumes "ogs_kept w v" "server_loop ogs_server ogs_put_server ogs_rx_callback rx is v = Inr (v', out, r)"
  shows "ogs_kept w v'"
proof -
  have "ogs_kept w (fst (v', out, r))"
  proof (rule foldR_invariant [where P = "\<lambda>s. ogs_kept w (fst s)", OF _ _ assms(2) [unfolded server_loop_def]])
    fix s x s'
    assume s: "ogs_kept w (fst s)" and step: "(case s of (w, out, receiving) \<Rightarrow> \<lambda>(k, i).
         bindR (tcp_tx_and_rx (server_socket ogs_server i) (set_server_socket ogs_server ogs_put_server i) (ogs_rx_callback i) (rx k) w)
           (\<lambda>(w', bs, r). Inr (w', out @ [(i, bs)], receiving \<or> r))) x = Inr s'"
    obtain k i where x: "x = (k, i)" by (cases x)
    have "ogs_kept w v1" if "ogs_rx_callback i t (set_server_socket ogs_server ogs_put_server i b (fst s)) = Inr v1" for t b v1
      by (rule ogs_rx_callback_kept [OF _ that]) (simp add: s)
    then show "ogs_kept w (fst s')"
      using s step x by (auto simp: tcp_tx_and_rx_def Let_def bindR_eq_Inr split: if_splits prod.splits)
  qed (simp add: assms(1))
  then show ?thesis by simp
qed

lemma ogs_on_response_kept: "ogs_kept w v \<Longrightarrow> ogs_on_response v r = Inr v' \<Longrightarrow> ogs_kept w v'"
  by (auto simp: ogs_kept_def ogs_on_response_def set_server_socket_def Let_def bindR_eq_Inr split: if_splits)

lemma ogs_send_responses_ok:
  assumes "ogs_send_responses w = Inr w'" "q_ok (ogs_rx_responses w)"
    and "length (pending_requests (ogs_fifo w)) \<le> MAX_PENDING_ORDER_REQUESTS"
  shows "q_ok (ogs_rx_responses w')" "q_list (ogs_rx_responses w') = []"
    "q_cap (ogs_rx_responses w') = q_cap (ogs_rx_responses w)"
    "fs_rx_requests (ogs_fifo w') = fs_rx_requests (ogs_fifo w)"
    "length (pending_requests (ogs_fifo w')) \<le> MAX_PENDING_ORDER_REQUESTS"
proof -
  obtain q' w1 where c: "consume get_next_to_read increment_read_index (q_size (ogs_rx_responses w)) ogs_on_response
      (ogs_rx_responses w) w = Inr (q', w1)" "w' = w1\<lparr>ogs_rx_responses := q'\<rparr>"
    using assms(1) unfolding ogs_send_responses_def by (auto simp: bindR_eq_Inr)
  note w1 = lfq.consume_Inr [OF c(1) assms(2)]
  have "ogs_kept w w1"
    by (rule foldR_invariant [where P = "ogs_kept w", OF ogs_on_response_kept _ w1(1)]) (simp_all add: ogs_kept_def assms(3))
  then show "q_ok (ogs_rx_responses w')" "q_list (ogs_rx_responses w') = []"
    "q_cap (ogs_rx_responses w') = q_cap (ogs_rx_responses w)"
    "fs_rx_requests (ogs_fifo w') = fs_rx_requests (ogs_fifo w)"
    "length (pending_requests (ogs_fifo w')) \<le> MAX_PENDING_ORDER_REQUESTS"
    using w1(2-4) c(2) by (simp_all add: ogs_kept_def)
qed

lemma ogs_run_queues:
  assumes run: "ogs_run srt events pending rx rx' w = Inr (w', out)" and srt: "sorting pending_less srt"
    and ok: "q_ok (fs_rx_requests (ogs_fifo w))" "q_ok (ogs_rx_responses w)"
    and pend: "length (pending_requests (ogs_fifo w)) \<le> MAX_PENDING_ORDER_REQUESTS"
    and room: "q_size (fs_rx_requests (ogs_fifo w)) + MAX_PENDING_ORDER_REQUESTS \<le> q_cap (fs_rx_requests (ogs_fifo w))"
  shows "q_ok (fs_rx_requests (ogs_fifo w'))" "q_ok (ogs_rx_responses w')" "q_list (ogs_rx_responses w') = []"
    "length (pending_requests (ogs_fifo w')) \<le> MAX_PENDING_ORDER_REQUESTS"
proof -
  obtain s w1 r1 w2 w3 r3 outs where steps:
    "server_loop ogs_server ogs_put_server ogs_rx_callback rx (rx_sockets s) (w\<lparr>ogs_server := s\<rparr>) = Inr (w1, fst outs, r1)"
    "(if r1 then ogs_rx_done_callback srt w1 else Inr w1) = Inr w2"
    "server_loop ogs_server ogs_put_server ogs_rx_callback rx' (tx_sockets (ogs_server w2)) w2 = Inr (w3, snd outs, r3)"
    "ogs_send_responses w3 = Inr w'"
    using run by (auto simp: ogs_run_def server_tx_and_rx_def bindR_eq_Inr)
  have k1: "ogs_kept w w1"
    by (rule ogs_server_loop_kept [OF _ steps(1)]) (use pend in \<open>simp add: ogs_kept_def\<close>)
  have "ogs_rx_responses w2 = ogs_rx_responses w \<and> q_ok (fs_rx_requests (ogs_fifo w2))
    \<and> length (pending_requests (ogs_fifo w2)) \<le> MAX_PENDING_ORDER_REQUESTS"
  proof (cases r1)
    case True
    have "q_ok (fs_rx_requests (ogs_fifo w1))" "q_size (fs_rx_requests (ogs_fifo w1)) + length (pending_requests (ogs_fifo w1))
        \<le> q_cap (fs_rx_requests (ogs_fifo w1))"
      using k1 ok room by (simp_all add: ogs_kept_def)
    note publish_queue [OF srt this]
    then show ?thesis using True steps(2) k1 by (auto simp: ogs_rx_done_callback_def ogs_kept_def)
  qed (use steps(2) k1 ok in \<open>simp add: ogs_kept_def\<close>)
  moreover from this have "ogs_kept w2 w3"
    by (intro ogs_server_loop_kept [OF _ steps(3)]) (simp add: ogs_kept_def)
  ultimately show "q_ok (fs_rx_requests (ogs_fifo w'))" "q_ok (ogs_rx_responses w')" "q_list (ogs_rx_responses w') = []"
    "length (pending_requests (ogs_fifo w')) \<le> MAX_PENDING_ORDER_REQUESTS"
    using ogs_send_responses_ok [OF steps(4)] ok(2) by (simp_all add: ogs_kept_def)
qed

subsection \<open>The components in step\<close>

lemma run_spec_append:
  "run_spec (rs @ rs') S = (fst (run_spec rs' (fst (run_spec rs S))), snd (run_spec rs S) @ snd (run_spec rs' (fst (run_spec rs S))))"
  by (induction rs arbitrary: S) (simp_all add: Let_def case_prod_unfold)

lemma valid_run_append: "valid_run (rs @ rs') S \<longleftrightarrow> valid_run rs S \<and> valid_run rs' (fst (run_spec rs S))"
  by (induction rs arbitrary: S) (simp_all add: Let_def case_prod_unfold conj_assoc)

lemma messages_append [simp]:
  "responses (ms @ ms') = responses ms @ responses ms'" "updates (ms @ ms') = updates ms @ updates ms'"
  by (simp_all add: responses_def updates_def)

definition exchange_queues_ok :: "exchange_server \<Rightarrow> bool" where
  "exchange_queues_ok x \<longleftrightarrow> q_ok (client_requests x) \<and> q_ok (client_responses x) \<and> q_ok (market_updates x)
     \<and> q_ok (snapshot_updates x) \<and> tx_buffer (mdp_socket (xs_mdp x)) = [] \<and> tx_buffer (ss_socket (xs_synthesizer x)) = []
     \<and> length (pending_requests (ogs_fifo (xs_ogs x))) \<le> MAX_PENDING_ORDER_REQUESTS"

text \<open>
  The state after the requests \<open>rs\<close>, of whose updates the synthesizer has \<open>us\<close> and the publisher
  also sent \<open>vs\<close>.
\<close>

definition in_step :: "exchange_server \<Rightarrow> ome_client_request list \<Rightarrow> ome_client_response list
    \<Rightarrow> ome_market_update list \<Rightarrow> ome_market_update list \<Rightarrow> bool" where
  "in_step x rs ds us vs \<longleftrightarrow> servable rs \<and> exchange_queues_ok x
     \<and> (case run_spec rs empty_books of (S, ms) \<Rightarrow>
          (\<exists>rq uq. engine_ok ((xs_ome x)\<lparr>tx_responses := rq, tx_market_updates := uq\<rparr>) S)
        \<and> responses ms = ds @ q_list (client_responses x)
        \<and> updates ms = us @ vs @ q_list (market_updates x))
     \<and> q_list (snapshot_updates x) = mdp_stream (1 + of_nat (length us)) vs
     \<and> n_seq_next (xs_mdp x) = 1 + of_nat (length (us @ vs))
     \<and> n_seq_last (xs_synthesizer x) = of_nat (length us)
     \<and> holds (xs_synthesizer x) (fold market_apply us (\<lambda>_ _. None))"

lemma engine_ok_queues:
  "engine_ok (e\<lparr>tx_responses := rq, tx_market_updates := uq\<rparr>) S \<Longrightarrow> q_ok rq' \<Longrightarrow> q_ok uq'
    \<Longrightarrow> engine_ok (e\<lparr>tx_responses := rq', tx_market_updates := uq'\<rparr>) S"
  by (simp add: engine_ok_def)

lemma engine_step:
  assumes st: "in_step x rs ds us vs" and s: "servable (rs @ q_list (client_requests x))" and room: "ome_has_room rs x"
  obtains x' where "ome_round x = Inr x'" "in_step x' (rs @ q_list (client_requests x)) ds us vs"
    "q_list (client_requests x') = []" "q_list (market_updates x') = q_list (market_updates x) @ updates (new_messages rs x)"
    "snapshot_updates x' = snapshot_updates x" "q_cap (market_updates x') = q_cap (market_updates x)"
proof -
  let ?q = "client_requests x" and ?S = "fst (run_spec rs empty_books)" and ?ms = "new_messages rs x"
  let ?e = "(xs_ome x)\<lparr>tx_responses := client_responses x, tx_market_updates := market_updates x\<rparr>"
  have ok: "engine_ok ?e ?S"
    using st by (auto simp: in_step_def exchange_queues_ok_def case_prod_unfold intro: engine_ok_queues)
  have v: "valid_run (q_list ?q) ?S" using s by (simp add: servable_def valid_run_append)
  have spec: "run_spec (q_list ?q) ?S = (fst (run_spec (q_list ?q) ?S), ?ms)" by (simp add: new_messages_def)
  have "has_room ?e ?ms" using room by (simp add: has_room_def ome_has_room_def)
  from foldR_process_ok [OF ok v spec this] obtain e' where
    e': "foldR (\<lambda>e r. process_client_request r e) ?e (q_list ?q) = Inr e'"
      "engine_ok e' (fst (run_spec (q_list ?q) ?S))" "emitted ?e e' ?ms" by blast
  have "q_ok ?q" using st by (simp add: in_step_def exchange_queues_ok_def)
  from lfq.foldR_consume [OF e'(1) this, of "q_size ?q"] obtain q' where
    q': "run_engine ?q ?e = Inr (q', e')" "q_ok q'" "q_list q' = []" by (auto simp: run_engine_def)
  let ?x = "x\<lparr>client_requests := q', client_responses := tx_responses e', market_updates := tx_market_updates e', xs_ome := e'\<rparr>"
  have run: "run_spec (rs @ q_list ?q) empty_books = (fst (run_spec (q_list ?q) ?S), snd (run_spec rs empty_books) @ ?ms)"
    by (simp add: run_spec_append new_messages_def)
  have "engine_ok (e'\<lparr>tx_responses := tx_responses e', tx_market_updates := tx_market_updates e'\<rparr>)
      (fst (run_spec (q_list ?q) ?S))" using e'(2) by simp
  then have "\<exists>rq uq. engine_ok (e'\<lparr>tx_responses := rq, tx_market_updates := uq\<rparr>) (fst (run_spec (q_list ?q) ?S))" by blast
  moreover have "q_ok (tx_responses e')" "q_ok (tx_market_updates e')" using e'(2) by (simp_all add: engine_ok_def)
  ultimately have "in_step ?x (rs @ q_list ?q) ds us vs"
    using st s q'(2) e'(3) unfolding in_step_def run
    by (auto simp: exchange_queues_ok_def emitted_def case_prod_unfold)
  moreover have "ome_round x = Inr ?x" using q'(1) by (simp add: ome_round_def)
  ultimately show thesis using that [of ?x] q'(3) e'(3) by (simp add: emitted_def)
qed

lemma publisher_step:
  assumes st: "in_step x rs ds us vs" and room: "mdp_has_room x"
  obtains x' out where "mdp_round [] x = Inr (x', out)" "in_step x' rs ds us (vs @ q_list (market_updates x))"
    "q_list (market_updates x') = []" "client_requests x' = client_requests x" "xs_ome x' = xs_ome x"
    "out = concat (map put_mdp_update (mdp_stream (1 + of_nat (length (us @ vs))) (q_list (market_updates x))))"
proof -
  let ?p = "(xs_mdp x)\<lparr>ome_market_updates := market_updates x, tx_snapshot_updates := snapshot_updates x\<rparr>"
  have q: "q_ok (ome_market_updates ?p)" "q_ok (tx_snapshot_updates ?p)" "tx_buffer (mdp_socket ?p) = []"
    "q_size (tx_snapshot_updates ?p) + q_size (ome_market_updates ?p) \<le> q_cap (tx_snapshot_updates ?p)"
    "42 * q_size (ome_market_updates ?p) < MCAST_BUFFER_SIZE"
    using st room by (simp_all add: in_step_def exchange_queues_ok_def mdp_has_room_def)
  let ?out = "concat (map put_mdp_update (mdp_stream (n_seq_next (xs_mdp x)) (q_list (market_updates x))))"
  obtain p' where p': "mdp_run [] ?p = Inr (p', ?out)" "q_list (ome_market_updates p') = []" "q_ok (tx_snapshot_updates p')"
      "q_list (tx_snapshot_updates p') = q_list (snapshot_updates x) @ mdp_stream (n_seq_next (xs_mdp x)) (q_list (market_updates x))"
      "n_seq_next p' = n_seq_next (xs_mdp x) + of_nat (length (q_list (market_updates x)))" "tx_buffer (mdp_socket p') = []" "q_ok (ome_market_updates p')"
    using mdp_run_ok [OF q(1,2,4,3,5)] by auto
  let ?x = "x\<lparr>market_updates := ome_market_updates p', snapshot_updates := tx_snapshot_updates p', xs_mdp := p'\<rparr>"
  have "in_step ?x rs ds us (vs @ q_list (market_updates x))"
    using st p' unfolding in_step_def
    by (auto simp: exchange_queues_ok_def case_prod_unfold mdp_stream_append algebra_simps)
  moreover have "mdp_round [] x = Inr (?x, ?out)" using p'(1) by (simp add: mdp_round_def)
  ultimately show thesis using that [of ?x ?out] p'(2) st by (simp add: in_step_def)
qed

lemma synthesizer_step:
  assumes st: "in_step x rs ds us vs"
  obtains x' out where "synthesizer_round now now' (\<lambda>_. []) x = Inr (x', out)" "in_step x' rs ds (us @ vs) []"
    "client_requests x' = client_requests x" "market_updates x' = market_updates x" "xs_ome x' = xs_ome x"
proof -
  obtain S ms where run: "run_spec rs empty_books = (S, ms)" by (cases "run_spec rs empty_books")
  let ?w = "(xs_synthesizer x)\<lparr>ss_tx_updates := snapshot_updates x\<rparr>" and ?A = "fold market_apply us (\<lambda>_ _. None)"
  have "servable rs" using st by (simp add: in_step_def)
  then have "market_accepts_run (updates ms) (\<lambda>_ _. None)"
    using run_market(1) [OF _ run] run by (simp add: servable_def)
  then have acc: "market_accepts_run vs ?A"
    using st run by (simp add: in_step_def market_accepts_run_append)
  have w: "q_ok (ss_tx_updates ?w)" "q_list (ss_tx_updates ?w) = mdp_stream (n_seq_last ?w + 1) vs" "holds ?w ?A"
    "tx_buffer (ss_socket ?w) = []"
    using st by (simp_all add: in_step_def exchange_queues_ok_def holds_def add.commute)
  obtain w' out where w': "ss_run now now' (\<lambda>_. []) ?w = Inr (w', out)" "holds w' (fold market_apply vs ?A)"
    "n_seq_last w' = n_seq_last ?w + of_nat (length vs)" "tx_buffer (ss_socket w') = []"
    "q_ok (ss_tx_updates w')" "q_list (ss_tx_updates w') = []"
    using ss_run_ok [OF w(1-3) acc w(4)] by blast
  let ?x = "x\<lparr>snapshot_updates := ss_tx_updates w', xs_synthesizer := w'\<rparr>"
  have "in_step ?x rs ds (us @ vs) []"
    using st w' unfolding in_step_def by (simp add: exchange_queues_ok_def case_prod_unfold)
  moreover have "synthesizer_round now now' (\<lambda>_. []) x = Inr (?x, out)" using w'(1) by (simp add: synthesizer_round_def)
  ultimately show thesis using that [of ?x] by simp
qed

lemma gateway_step:
  assumes st: "in_step x rs ds us vs" and srt: "sorting pending_less srt"
    and room: "q_size (client_requests x) + MAX_PENDING_ORDER_REQUESTS \<le> q_cap (client_requests x)"
    and round: "ogs_round srt events pending rx rx' x = Inr (x', out)"
  shows "in_step x' rs (ds @ q_list (client_responses x)) us vs"
proof -
  let ?w = "(xs_ogs x)\<lparr>ogs_rx_responses := client_responses x,
    ogs_fifo := (ogs_fifo (xs_ogs x))\<lparr>fs_rx_requests := client_requests x\<rparr>\<rparr>"
  obtain w' where w': "ogs_run srt events pending rx rx' ?w = Inr (w', out)"
    "x' = x\<lparr>client_requests := fs_rx_requests (ogs_fifo w'), client_responses := ogs_rx_responses w', xs_ogs := w'\<rparr>"
    using round by (auto simp: ogs_round_def bindR_eq_Inr)
  have w: "q_ok (fs_rx_requests (ogs_fifo ?w))" "q_ok (ogs_rx_responses ?w)"
    "length (pending_requests (ogs_fifo ?w)) \<le> MAX_PENDING_ORDER_REQUESTS"
    "q_size (fs_rx_requests (ogs_fifo ?w)) + MAX_PENDING_ORDER_REQUESTS \<le> q_cap (fs_rx_requests (ogs_fifo ?w))"
    using st room by (simp_all add: in_step_def exchange_queues_ok_def)
  note out = ogs_run_queues [OF w'(1) srt w]
  show ?thesis
    using st out unfolding in_step_def w'(2) by (simp add: exchange_queues_ok_def case_prod_unfold)
qed

lemma start_in_step:
  assumes "start_exchange junk listening fd_incremental fd_snapshot = Inr x0"
    and "\<And>t c oid. in_range c oid \<Longrightarrow> junk t c oid = None"
  shows "in_step x0 [] [] [] []"
proof -
  let ?rq = "new_lfqueue MAX_CLIENT_UPDATES default_response" and ?uq = "new_lfqueue MAX_MARKET_UPDATES default_update"
  have "engine_ok (new_matching_engine junk ?rq ?uq) empty_books"
    by (rule new_engine_ok [OF _ _ assms(2)]) (simp_all add: q_ok_new limit_defs)
  then have "\<exists>rq uq. engine_ok ((new_matching_engine junk ?rq ?uq)\<lparr>tx_responses := rq, tx_market_updates := uq\<rparr>) empty_books"
    by (metis engine_ok_queues new_matching_engine_def matching_engine.update_convs(2,3))
  moreover have "xs_ome x0 = new_matching_engine junk ?rq ?uq"
    using assms(1) by (auto simp: start_exchange_def Let_def bindR_eq_Inr)
  moreover have "servable []" by (simp add: servable_def updates_def limit_defs)
  ultimately show ?thesis
    using assms(1) holds_new
    by (auto simp: in_step_def exchange_queues_ok_def start_exchange_def Let_def bindR_eq_Inr q_ok_new limit_defs
        responses_def updates_def new_market_data_publisher_def new_order_gateway_server_def new_fifo_sequencer_def
        new_socket_def) (simp_all add: new_snapshot_synthesizer_def new_socket_def)
qed

lemma run_in_step:
  assumes "exchange_run x0 x rs ds bs" "in_step x0 [] [] [] []"
  shows "\<exists>us vs. in_step x rs ds us vs \<and> bs = concat (map put_mdp_update (mdp_stream 1 (us @ vs)))"
  using assms
proof (induction rule: exchange_run.induct)
  case (engine x rs ds bs x')
  then obtain us vs where "in_step x rs ds us vs" "bs = concat (map put_mdp_update (mdp_stream 1 (us @ vs)))" by blast
  from engine_step [OF this(1) engine.hyps(2,3)] this(2) engine.hyps(4) show ?case by (metis sum.inject(2))
next
  case (gateway x rs ds bs srt events pending rx rx' x' out)
  then show ?case using gateway_step by blast
next
  case (publisher x rs ds bs x' out)
  then obtain us vs where st: "in_step x rs ds us vs" and bs: "bs = concat (map put_mdp_update (mdp_stream 1 (us @ vs)))" by blast
  have "in_step x' rs ds us (vs @ q_list (market_updates x))"
    "out = concat (map put_mdp_update (mdp_stream (1 + of_nat (length (us @ vs))) (q_list (market_updates x))))"
    using publisher_step [OF st publisher.hyps(2)] publisher.hyps(3) by (metis sum.inject(2) prod.inject)+
  moreover have "bs @ out = concat (map put_mdp_update (mdp_stream 1 ((us @ vs) @ q_list (market_updates x))))"
    unfolding mdp_stream_append [of 1 "us @ vs"] by (simp add: bs calculation(2))
  ultimately show ?case by (metis append_assoc)
next
  case (synthesizer x rs ds bs now now' x' out)
  then obtain us vs where st: "in_step x rs ds us vs" and bs: "bs = concat (map put_mdp_update (mdp_stream 1 (us @ vs)))" by blast
  have "in_step x' rs ds (us @ vs) []"
    using synthesizer_step [OF st] synthesizer.hyps(2) by (metis sum.inject(2) prod.inject)
  then show ?case using bs by (metis append_Nil2)
qed (force simp: mdp_stream_def)

subsection \<open>Properties\<close>

lemma mdp_stream_Nil [simp]: "mdp_stream n us = [] \<longleftrightarrow> us = []" "[] = mdp_stream n us \<longleftrightarrow> us = []"
  by (cases us; auto)+

lemma in_step_books:
  assumes "in_step x rs ds us vs"
  shows "\<forall>t < MAX_TICKERS. represents (order_book_for_ticker (xs_ome x) ! t) (fst (fst (run_spec rs empty_books) t))"
    "q_list (market_updates x) = [] \<Longrightarrow> vs = [] \<Longrightarrow>
      holds (xs_synthesizer x) (market_of_books (\<lambda>t. fst (fst (run_spec rs empty_books) t)))"
proof -
  obtain S ms where run: "run_spec rs empty_books = (S, ms)" by (cases "run_spec rs empty_books")
  show "\<forall>t < MAX_TICKERS. represents (order_book_for_ticker (xs_ome x) ! t) (fst (fst (run_spec rs empty_books) t))"
    using assms by (auto simp: in_step_def case_prod_unfold engine_ok_def)
  have "servable rs" using assms by (simp add: in_step_def)
  then have "fold market_apply (updates ms) (\<lambda>_ _. None) = market_of_books (\<lambda>t. fst (S t))"
    using run_market(2) [OF _ run] run by (simp add: servable_def)
  then show "holds (xs_synthesizer x) (market_of_books (\<lambda>t. fst (fst (run_spec rs empty_books) t)))"
    if "q_list (market_updates x) = []" "vs = []" using assms run that by (simp add: in_step_def)
qed

text \<open>
  C4. The components of the exchange stay in step. In whatever order their rounds are run, from
  the start on: the books of the engine are what the specification makes of the requests taken
  so far; the responses the gateway took and those still queued are exactly the specification's,
  in order; the synthesizer holds the market after some of its updates, a prefix of them; and
  once the queues behind the engine are empty it holds exactly the orders of the books.
\<close>

theorem exchange_in_step:
  assumes "start_exchange junk listening fd_incremental fd_snapshot = Inr x0"
    and "\<And>t c oid. in_range c oid \<Longrightarrow> junk t c oid = None" and "exchange_run x0 x rs ds bs"
  shows "\<exists>S ms us. run_spec rs empty_books = (S, ms)
    \<and> (\<forall>t < MAX_TICKERS. represents (order_book_for_ticker (xs_ome x) ! t) (fst (S t)))
    \<and> responses ms = ds @ q_list (client_responses x)
    \<and> prefix us (updates ms) \<and> holds (xs_synthesizer x) (fold market_apply us (\<lambda>_ _. None))
    \<and> (q_list (market_updates x) = [] \<and> q_list (snapshot_updates x) = []
         \<longrightarrow> holds (xs_synthesizer x) (market_of_books (\<lambda>t. fst (S t))))"
proof -
  obtain us vs where st: "in_step x rs ds us vs" using run_in_step [OF assms(3) start_in_step [OF assms(1,2)]] by blast
  obtain S ms where run: "run_spec rs empty_books = (S, ms)" by (cases "run_spec rs empty_books")
  have "responses ms = ds @ q_list (client_responses x)" "prefix us (updates ms)"
    "holds (xs_synthesizer x) (fold market_apply us (\<lambda>_ _. None))" "q_list (snapshot_updates x) = [] \<Longrightarrow> vs = []"
    using st run by (auto simp: in_step_def)
  then show ?thesis using in_step_books [OF st] run by (intro exI [of _ S] exI [of _ ms] exI [of _ us]) auto
qed

text \<open>
  C5. The exchange settles within its limits. From every state its runs reach, if the requests that wait
  can be served and the queues and the publisher's buffer have room for what they lead to: a round of
  the engine, one of the publisher and one of the synthesizer all succeed (no assertion fails, no
  loop hangs), the three queues are then empty, the books and the responses are what the
  specification makes of all requests, every update of theirs is on the incremental stream, numbered
  from 1, and the synthesizer holds exactly the orders of the books. (The gateway takes no part: what
  its round does depends on what the clients send.)
\<close>

theorem exchange_settles:
  assumes "start_exchange junk listening fd_incremental fd_snapshot = Inr x0"
    and "\<And>t c oid. in_range c oid \<Longrightarrow> junk t c oid = None" and "exchange_run x0 x rs ds bs"
    and "servable (rs @ q_list (client_requests x))" "ome_has_room rs x"
    and "q_size (snapshot_updates x) + q_size (market_updates x) + length (updates (new_messages rs x)) \<le> q_cap (snapshot_updates x)"
    and "42 * (q_size (market_updates x) + length (updates (new_messages rs x))) < MCAST_BUFFER_SIZE"
  shows "\<exists>x1 x2 x3 out out' S ms. ome_round x = Inr x1 \<and> mdp_round [] x1 = Inr (x2, out)
    \<and> synthesizer_round now now' (\<lambda>_. []) x2 = Inr (x3, out')
    \<and> q_list (client_requests x3) = [] \<and> q_list (market_updates x3) = [] \<and> q_list (snapshot_updates x3) = []
    \<and> run_spec (rs @ q_list (client_requests x)) empty_books = (S, ms)
    \<and> (\<forall>t < MAX_TICKERS. represents (order_book_for_ticker (xs_ome x3) ! t) (fst (S t)))
    \<and> responses ms = ds @ q_list (client_responses x3)
    \<and> bs @ out = concat (map put_mdp_update (mdp_stream 1 (updates ms)))
    \<and> holds (xs_synthesizer x3) (market_of_books (\<lambda>t. fst (S t)))"
proof -
  obtain us vs where st: "in_step x rs ds us vs" and bs: "bs = concat (map put_mdp_update (mdp_stream 1 (us @ vs)))"
    using run_in_step [OF assms(3) start_in_step [OF assms(1,2)]] by blast
  let ?rs = "rs @ q_list (client_requests x)"
  obtain x1 where x1: "ome_round x = Inr x1" "in_step x1 ?rs ds us vs" "q_list (client_requests x1) = []"
    "q_list (market_updates x1) = q_list (market_updates x) @ updates (new_messages rs x)" "snapshot_updates x1 = snapshot_updates x"
    using engine_step [OF st assms(4,5)] by metis
  have "q_size (market_updates x1) = q_size (market_updates x) + length (updates (new_messages rs x))"
    using arg_cong [OF x1(4), of length] by simp
  then have "mdp_has_room x1" using assms(6,7) x1(5) by (simp add: mdp_has_room_def)
  from publisher_step [OF x1(2) this] obtain x2 out where x2: "mdp_round [] x1 = Inr (x2, out)"
    "in_step x2 ?rs ds us (vs @ q_list (market_updates x1))" "q_list (market_updates x2) = []"
    "client_requests x2 = client_requests x1"
    "out = concat (map put_mdp_update (mdp_stream (1 + of_nat (length (us @ vs))) (q_list (market_updates x1))))" by metis
  from synthesizer_step [OF x2(2)] obtain x3 out' where x3: "synthesizer_round now now' (\<lambda>_. []) x2 = Inr (x3, out')"
    "in_step x3 ?rs ds (us @ vs @ q_list (market_updates x1)) []" "client_requests x3 = client_requests x2"
    "market_updates x3 = market_updates x2" by metis
  have "responses (snd (run_spec ?rs empty_books)) = ds @ q_list (client_responses x3)"
    "updates (snd (run_spec ?rs empty_books)) = us @ vs @ q_list (market_updates x1)"
    using x3(2) x1(2) by (simp_all add: in_step_def case_prod_unfold)
  moreover have "bs @ out = concat (map put_mdp_update (mdp_stream 1 (us @ vs @ q_list (market_updates x1))))"
    using mdp_stream_append [of 1 "us @ vs" "q_list (market_updates x1)"] by (simp add: bs x2(5))
  ultimately have sent: "responses (snd (run_spec ?rs empty_books)) = ds @ q_list (client_responses x3)"
    "bs @ out = concat (map put_mdp_update (mdp_stream 1 (updates (snd (run_spec ?rs empty_books)))))" by simp_all
  have "q_list (snapshot_updates x3) = []" using x3(2) by (simp add: in_step_def)
  moreover have "holds (xs_synthesizer x3) (market_of_books (\<lambda>t. fst (fst (run_spec ?rs empty_books) t)))"
    by (rule in_step_books(2) [OF x3(2)]) (simp_all add: x3(4) x2(3))
  ultimately show ?thesis
    using x1(1,3) x2(1,3,4) x3(1,3,4) in_step_books(1) [OF x3(2)] sent by (metis prod.collapse)
qed

text \<open>One client connects and sends one order.\<close>

definition demo_order_request :: ome_client_request where
  "demo_order_request = \<lparr>rq_type = REQ_NEW, rq_client_id = 1, rq_ticker_id = 3, rq_order_id = 7, rq_side = SELL,
     rq_price = 101, rq_qty = 10\<rparr>"

definition demo_round :: "exchange_server \<Rightarrow> (exchange_server \<times> (nat \<times> bytes) list) res" where
  "demo_round = ogs_round (sort_key pd_t_rx) [\<lparr>ev_socket = 0, ev_in = True, ev_out = False, ev_err = False\<rparr>]
     [\<lparr>cn_fd = 9, cn_non_blocking = True, cn_no_delay = True, cn_epoll = 0\<rparr>]
     (\<lambda>_. (put_ogs_request \<lparr>oq_n_seq = 1, oq_request = demo_order_request\<rparr>, 10)) (\<lambda>_. ([], 0))"

lemma demo_arrives:
  assumes "start_exchange (\<lambda>_ _ _. None) (tcp_listen 4 (Inr 3) 0) 5 6 = Inr x0"
  shows "demo_round x0 = Inr (x0\<lparr>client_requests := enq demo_order_request (client_requests x0),
      client_responses := new_lfqueue MAX_CLIENT_UPDATES default_response,
      xs_ogs := \<lparr>ogs_rx_responses = new_lfqueue MAX_CLIENT_UPDATES default_response,
        ogs_server = \<lparr>socks = [new_socket 3, new_socket 9], rx_sockets = [1], tx_sockets = [], dx_sockets = []\<rparr>,
        ogs_fifo = \<lparr>pending_requests = [], fs_rx_requests = enq demo_order_request (client_requests x0)\<rparr>,
        map_client_to_tx_n_seq = (\<lambda>_. 1), map_client_to_rx_n_seq = (\<lambda>_. 1)(1 := 2),
        map_client_to_socket = [1 \<mapsto> 1]\<rparr>\<rparr>, [(1, [])])"
proof -
  let ?m = "\<lparr>oq_n_seq = 1, oq_request = demo_order_request\<rparr>"
  have f: "frames 38 get_ogs_request (put_ogs_request ?m) = ([?m], [])"
    using request_wire.frames_enc [of "[]" "[?m]"] by simp
  have len: "length (put_ogs_request ?m) = 38" by (rule request_wire.length_enc)
  then have ne: "put_ogs_request ?m \<noteq> []" by (metis list.size(3) zero_neq_numeral)
  have x0: "xs_ogs x0 = new_order_gateway_server (client_requests x0) (client_responses x0) (new_tcp_server 3)"
    "client_responses x0 = new_lfqueue MAX_CLIENT_UPDATES default_response"
    using assms by (auto simp: start_exchange_def tcp_listen_def Let_def)
  have c: "unat (rq_client_id demo_order_request) = 1" by (simp add: demo_order_request_def)
  show ?thesis
    unfolding demo_round_def ogs_round_def ogs_run_def
    using x0 f len c ne
    by (simp add: tcp_poll_def on_poll_event_def accept_connection_def new_tcp_server_def new_order_gateway_server_def
      add_new_def element_does_not_exist_def server_tx_and_rx_def server_loop_def tcp_tx_and_rx_def server_socket_def
      set_server_socket_def new_socket_def TCP_BUFFER_SIZE_def ogs_rx_callback_def ogs_on_request_def limit_defs
      push_client_request_def ogs_rx_done_callback_def sequence_and_publish_def ogs_send_responses_def consume.simps get_next_to_read_def
      new_fifo_sequencer_def Let_def)
qed

text \<open>The exchange before and after that round, ready to match.\<close>

lemma demo_waits:
  obtains x0 x1 out where "start_exchange (\<lambda>_ _ _. None) (tcp_listen 4 (Inr 3) 0) 5 6 = Inr x0"
    "demo_round x0 = Inr (x1, out)" "exchange_run x0 x1 [] [] []" "q_list (client_requests x1) = [demo_order_request]"
    "servable [demo_order_request]" "ome_has_room [] x1"
    "length (updates (new_messages [] x1)) = 1" "q_size (snapshot_updates x1) = 0" "q_size (market_updates x1) = 0"
    "q_cap (snapshot_updates x1) = MAX_MARKET_UPDATES"
proof -
  obtain x0 where x0: "start_exchange (\<lambda>_ _ _. None) (tcp_listen 4 (Inr 3) 0) 5 6 = Inr x0"
    by (simp add: start_exchange_def tcp_listen_def Let_def)
  obtain x1 out where x1: "demo_round x0 = Inr (x1, out)" "client_requests x1 = enq demo_order_request (client_requests x0)"
    "client_responses x1 = new_lfqueue MAX_CLIENT_UPDATES default_response"
    "market_updates x1 = market_updates x0" "snapshot_updates x1 = snapshot_updates x0"
    using demo_arrives [OF x0] by auto
  have q: "client_requests x0 = new_lfqueue MAX_CLIENT_UPDATES default_request"
    "client_responses x0 = new_lfqueue MAX_CLIENT_UPDATES default_response"
    "market_updates x0 = new_lfqueue MAX_MARKET_UPDATES default_update"
    "snapshot_updates x0 = new_lfqueue MAX_MARKET_UPDATES \<lparr>md_n_seq = 0, md_update = default_update\<rparr>"
    using x0 by (auto simp: start_exchange_def tcp_listen_def Let_def new_market_data_publisher_def)
  have r1: "q_list (client_requests x1) = [demo_order_request]"
    unfolding x1(2) q(1) by (subst q_list_enq) (simp_all add: q_ok_new limit_defs)
  have run: "exchange_run x0 x1 [] ([] @ q_list (client_responses x0)) []"
    by (rule exchange_run.gateway [OF exchange_run.started stable_sort.sorting_axioms _ x1(1) [unfolded demo_round_def]])
      (simp add: q limit_defs)
  have spec: "valid_run [demo_order_request] empty_books"
    "length (responses (snd (run_spec [demo_order_request] empty_books))) = 1"
    "length (updates (snd (run_spec [demo_order_request] empty_books))) = 1"
    by (simp_all add: demo_run_simps demo_order_request_def responses_def updates_def)
  have s: "servable [demo_order_request]" using spec by (simp add: servable_def limit_defs)
  have ms: "new_messages [] x1 = snd (run_spec [demo_order_request] empty_books)" by (simp add: new_messages_def r1)
  show thesis
    by (rule that [OF x0 x1(1) _ r1 s]) (use run q x1 spec in \<open>simp_all add: ms ome_has_room_def limit_defs\<close>)
qed

theorem exchange_in_step_witness:
  "\<exists>x0 x1 out. start_exchange (\<lambda>_ _ _. None) (tcp_listen 4 (Inr 3) 0) 5 6 = Inr x0 \<and> demo_round x0 = Inr (x1, out)
    \<and> holds (xs_synthesizer x1) (market_of_books (\<lambda>t. fst (empty_books t)))"
proof -
  obtain x0 x1 out where d: "start_exchange (\<lambda>_ _ _. None) (tcp_listen 4 (Inr 3) 0) 5 6 = Inr x0"
    "demo_round x0 = Inr (x1, out)" "exchange_run x0 x1 [] [] []" "q_size (snapshot_updates x1) = 0" "q_size (market_updates x1) = 0"
    by (rule demo_waits)
  have "q_list (market_updates x1) = []" "q_list (snapshot_updates x1) = []"
    using d(4,5) by (metis length_q_list length_0_conv)+
  then have "holds (xs_synthesizer x1) (market_of_books (\<lambda>t. fst (empty_books t)))"
    using exchange_in_step [OF d(1) _ d(3)] by auto
  then show ?thesis using d(1,2) by blast
qed

theorem exchange_settles_witness:
  "\<exists>x0 x x1 x2 x3 o0 out out' S ms. start_exchange (\<lambda>_ _ _. None) (tcp_listen 4 (Inr 3) 0) 5 6 = Inr x0
    \<and> demo_round x0 = Inr (x, o0) \<and> ome_round x = Inr x1 \<and> mdp_round [] x1 = Inr (x2, out)
    \<and> synthesizer_round 5 6 (\<lambda>_. []) x2 = Inr (x3, out') \<and> run_spec [demo_order_request] empty_books = (S, ms)
    \<and> holds (xs_synthesizer x3) (market_of_books (\<lambda>t. fst (S t)))"
proof -
  obtain x0 x o0 where d: "start_exchange (\<lambda>_ _ _. None) (tcp_listen 4 (Inr 3) 0) 5 6 = Inr x0"
    "demo_round x0 = Inr (x, o0)" "exchange_run x0 x [] [] []" "q_list (client_requests x) = [demo_order_request]"
    "servable [demo_order_request]" "ome_has_room [] x"
    "length (updates (new_messages [] x)) = 1" "q_size (snapshot_updates x) = 0" "q_size (market_updates x) = 0"
    "q_cap (snapshot_updates x) = MAX_MARKET_UPDATES"
    by (rule demo_waits)
  have s: "servable ([] @ q_list (client_requests x))" using d(4,5) by simp
  have "q_size (snapshot_updates x) + q_size (market_updates x) + length (updates (new_messages [] x)) \<le> q_cap (snapshot_updates x)"
    "42 * (q_size (market_updates x) + length (updates (new_messages [] x))) < MCAST_BUFFER_SIZE"
    using d(7-10) by (simp_all add: limit_defs MCAST_BUFFER_SIZE_def)
  from exchange_settles [OF d(1) _ d(3) s d(6) this, of 5 6] d(1,2,4) show ?thesis
    by (metis append_Nil)
qed

end
