(* ===== verification/Client_View.thy ===== *)
theory Client_View
  imports Exchange_Server Market_Data_Recovery
begin

text \<open>
  From end to end: what the exchange's rounds send on the incremental stream, received by a
  client's market data consumer and applied to the client's order books, shows the books of the
  matching engine.
\<close>

text \<open>
  C2. The client sees the exchange's books. Whatever the order of the exchange's rounds, once
  the publisher has sent what it had: a client's consumer that gets the bytes sent since the
  start, cut into any datagrams, never falls into recovery and passes updates on that every
  order book of the client accepts, and each book then shows exactly the resting orders of the
  engine's book of that ticker, with the same price, open quantity and priority, in the same
  order on each side.
\<close>

theorem client_sees_the_exchange:
  assumes "start_exchange junk listening fd_incremental fd_snapshot = Inr x0"
    and "\<And>t c oid. in_range c oid \<Longrightarrow> junk t c oid = None" and "exchange_run x0 x rs ds bs"
    and "q_list (market_updates x) = []"
    and "inc_ok env w" "\<not> is_in_recovery w" "rx_buffer (socket_incremental w) = []" "tx_buffer (socket_incremental w) = []"
    and "n_seq_inc_next w = 1" "q_ok (mdc_tx_updates w)" "q_list (mdc_tx_updates w) = []"
    and "length (updates (snd (run_spec rs empty_books))) \<le> q_cap (mdc_tx_updates w)"
    and "list_all (\<lambda>x. length (fst x) + 42 \<le> MCAST_BUFFER_SIZE) segs" "concat (map fst segs) = bs"
  shows "\<exists>w'. foldR (mdc_arrive env False) w segs = Inr w' \<and> \<not> is_in_recovery w'
    \<and> (\<forall>t < MAX_TICKERS. \<exists>A c B. represents (order_book_for_ticker (xs_ome x) ! t) A
         \<and> te_run (for_ticker t (q_list (mdc_tx_updates w'))) (new_te_book (of_nat t)) = Inr c
         \<and> te_represents c B \<and> B BUY = map te_of_ome (A BUY) \<and> B SELL = map te_of_ome (A SELL))"
proof -
  obtain us vs where st: "in_step x rs ds us vs" and bs: "bs = concat (map put_mdp_update (mdp_stream 1 (us @ vs)))"
    using run_in_step [OF assms(3) start_in_step [OF assms(1,2)]] by blast
  obtain S ms where run: "run_spec rs empty_books = (S, ms)" by (cases "run_spec rs empty_books")
  have ms: "updates ms = us @ vs" using st run assms(4) by (simp add: in_step_def)
  have z: "q_size (mdc_tx_updates w) = 0" using assms(11) by (metis length_q_list list.size(3))
  have room: "q_size (mdc_tx_updates w) + length (updates ms) \<le> q_cap (mdc_tx_updates w)" using assms(12) run z by simp
  have "concat (map fst segs) = concat (map put_mdp_update (mdp_stream (n_seq_inc_next w) (updates ms)))"
    by (simp add: assms(9,14) bs ms)
  from consumer_in_step [OF assms(5-8,10) room assms(13) this] obtain w' where
    w': "foldR (mdc_arrive env False) w segs = Inr w'" "\<not> is_in_recovery w'" "q_list (mdc_tx_updates w') = updates ms"
    using assms(11) by auto
  have "servable rs" using st by (simp add: in_step_def)
  then have "\<exists>c B. te_run (for_ticker t (updates ms)) (new_te_book (of_nat t)) = Inr c \<and> te_represents c B
    \<and> B BUY = map te_of_ome (fst (S t) BUY) \<and> B SELL = map te_of_ome (fst (S t) SELL)" for t
    using run_clients [OF _ run] by (simp add: servable_def)
  then show ?thesis using w' in_step_books(1) [OF st] run by (metis fst_conv)
qed

theorem client_sees_the_exchange_witness:
  "\<exists>x0 x1 x2 x3 o1 out w'. start_exchange (\<lambda>_ _ _. None) (tcp_listen 4 (Inr 3) 0) 5 6 = Inr x0
    \<and> demo_round x0 = Inr (x1, o1) \<and> ome_round x1 = Inr x2 \<and> mdp_round [] x2 = Inr (x3, out)
    \<and> foldR (mdc_arrive (Inr 6, True) False) demo_consumer [(out, 0)] = Inr w'
    \<and> (\<exists>A c B. represents (order_book_for_ticker (xs_ome x3) ! 3) A
         \<and> te_run (for_ticker 3 (q_list (mdc_tx_updates w'))) (new_te_book (of_nat 3)) = Inr c
         \<and> te_represents c B \<and> B SELL = map te_of_ome (A SELL))"
proof -
  obtain x0 x1 o1 where d: "start_exchange (\<lambda>_ _ _. None) (tcp_listen 4 (Inr 3) 0) 5 6 = Inr x0"
    "demo_round x0 = Inr (x1, o1)" "exchange_run x0 x1 [] [] []" "q_list (client_requests x1) = [demo_order_request]"
    "servable [demo_order_request]" "ome_has_room [] x1" "length (updates (new_messages [] x1)) = 1"
    "q_size (snapshot_updates x1) = 0" "q_size (market_updates x1) = 0" "q_cap (snapshot_updates x1) = MAX_MARKET_UPDATES"
    by (rule demo_waits)
  have s: "servable ([] @ q_list (client_requests x1))" using d(4,5) by simp
  obtain us vs where st: "in_step x1 [] [] us vs" using run_in_step [OF d(3) start_in_step [OF d(1)]] by auto
  obtain x2 where x2: "ome_round x1 = Inr x2" "in_step x2 ([] @ q_list (client_requests x1)) [] us vs"
    "q_list (market_updates x2) = q_list (market_updates x1) @ updates (new_messages [] x1)" "snapshot_updates x2 = snapshot_updates x1"
    using engine_step [OF st s d(6)] by metis
  have one: "q_size (market_updates x2) = 1" using arg_cong [OF x2(3), of length] d(7,9) by simp
  then have room: "mdp_has_room x2" using d(8,10) x2(4) by (simp add: mdp_has_room_def MCAST_BUFFER_SIZE_def limit_defs)
  obtain x3 out where x3: "mdp_round [] x2 = Inr (x3, out)" "q_list (market_updates x3) = []"
    "out = concat (map put_mdp_update (mdp_stream (1 + of_nat (length (us @ vs))) (q_list (market_updates x2))))"
    using publisher_step [OF x2(2) room] by metis
  have run: "exchange_run x0 x3 [demo_order_request] [] ([] @ out)"
    using exchange_run.publisher [OF exchange_run.engine [OF d(3) s d(6) x2(1)] room x3(1)] d(4) by simp
  have "length out = 42" using one unfolding x3(3) by (simp only: mdp_stream_bytes) simp
  then have seg: "list_all (\<lambda>x. length (fst x) + 42 \<le> MCAST_BUFFER_SIZE) [(out, 0 :: int)]"
    by (simp add: MCAST_BUFFER_SIZE_def)
  have "length (updates (snd (run_spec [demo_order_request] empty_books))) \<le> q_cap (mdc_tx_updates demo_consumer)"
    by (simp add: demo_consumer_ok demo_run_simps demo_order_request_def updates_def)
  then have "\<exists>w'. foldR (mdc_arrive (Inr 6, True) False) demo_consumer [(out, 0)] = Inr w' \<and> \<not> is_in_recovery w'
    \<and> (\<forall>t < MAX_TICKERS. \<exists>A c B. represents (order_book_for_ticker (xs_ome x3) ! t) A
         \<and> te_run (for_ticker t (q_list (mdc_tx_updates w'))) (new_te_book (of_nat t)) = Inr c
         \<and> te_represents c B \<and> B BUY = map te_of_ome (A BUY) \<and> B SELL = map te_of_ome (A SELL))"
    by (intro client_sees_the_exchange [OF d(1) _ run x3(2) demo_consumer_ok(1,2) _ _ demo_consumer_ok(3) _ _ _ seg])
      (simp_all add: demo_consumer_ok new_socket_def q_ok_new)
  then obtain w' where w': "foldR (mdc_arrive (Inr 6, True) False) demo_consumer [(out, 0)] = Inr w'"
    and books: "\<And>t. t < MAX_TICKERS \<Longrightarrow> \<exists>A c B. represents (order_book_for_ticker (xs_ome x3) ! t) A
         \<and> te_run (for_ticker t (q_list (mdc_tx_updates w'))) (new_te_book (of_nat t)) = Inr c
         \<and> te_represents c B \<and> B BUY = map te_of_ome (A BUY) \<and> B SELL = map te_of_ome (A SELL)" by blast
  have "3 < MAX_TICKERS" by (simp add: limit_defs)
  note books [OF this]
  then show ?thesis using d(1,2) x2(1) x3(1) w' by blast
qed

end
