(* ===== verification/Threads.thy ===== *)
theory Threads
  imports Prelude
begin

text \<open>
  \<open>llbase/threading.h\<close>: how every component starts its thread. \<open>create_and_start_thread\<close> has
  two threads of control, the caller that waits and the lambda \<open>thread_body\<close> on the new
  thread; they share the atomics \<open>running\<close> and \<open>failed\<close>. Each rule of the step relation is
  one access to them, or one call. The scheduler picks the thread that moves. What the
  operating system decides is a parameter: whether the \<open>std::thread\<close> can be created, and the
  result of \<open>pthread_setaffinity_np\<close>.
\<close>

subsection \<open>\<open>pin_thread_to_core\<close>\<close>

text \<open>
  \<open>cpu_set_t\<close> is a mask of \<open>CPU_SETSIZE\<close> bits; \<open>CPU_SET\<close> converts the id to an unsigned number
  and leaves the mask alone when it is too large.
\<close>

definition CPU_SETSIZE :: int where "CPU_SETSIZE = 1024"

definition CPU_SET :: "int \<Rightarrow> nat set \<Rightarrow> nat set" where
  "CPU_SET cpu cpus = (if 0 \<le> cpu \<and> cpu < CPU_SETSIZE then insert (nat cpu) cpus else cpus)"

definition pin_thread_to_core :: "(nat set \<Rightarrow> int) \<Rightarrow> int \<Rightarrow> bool" where
  "pin_thread_to_core setaffinity core_id = (setaffinity (CPU_SET core_id {}) = 0)"

text \<open>What decides whether the new thread gets to call its function: the guard of \<open>thread_body\<close>.\<close>

definition can_run :: "(nat set \<Rightarrow> int) \<Rightarrow> int \<Rightarrow> bool" where
  "can_run setaffinity core_id \<longleftrightarrow> \<not> (0 \<le> core_id \<and> \<not> pin_thread_to_core setaffinity core_id)"

text \<open>Every component passes the core -1: it asks for no core, and its thread always gets to run.\<close>

lemma unpinned_can_run: "core_id < 0 \<Longrightarrow> can_run setaffinity core_id"
  by (simp add: can_run_def)

text \<open>A core the mask cannot hold leaves it empty, whatever the system makes of an empty mask.\<close>

lemma pin_beyond_mask: "CPU_SETSIZE \<le> core_id \<Longrightarrow> pin_thread_to_core setaffinity core_id = (setaffinity {} = 0)"
  by (simp add: pin_thread_to_core_def CPU_SET_def)

subsection \<open>\<open>create_and_start_thread\<close>\<close>

text \<open>
  \<open>Returned b\<close>: the function has returned, a thread (\<open>b\<close>) or \<open>nullptr\<close>; \<open>Statement_over b\<close>:
  the caller has gone past the statement of the call, in which the temporaries among its
  arguments die. \<open>Terminated\<close>: an exception left the \<open>noexcept\<close> function. The lambda captures
  \<open>fn\<close> and \<open>args\<close> by reference; every component passes a temporary, \<open>[this]() { run(); }\<close>, so a
  call through the reference after that point is \<open>In_dangling_fn\<close>.
\<close>

datatype caller_pc = Creating | Read_running | Read_failed | Sleeping | Check_failed | Joining
  | Returned bool | Statement_over bool | Terminated

datatype body_pc = Not_created | Pinning | Announce_failure | Announcing | Calling
  | In_fn | In_dangling_fn | Ended

record thread_start =
  caller :: caller_pc
  body :: body_pc
  running :: bool
  failed :: bool

definition thread_start_init :: thread_start where
  "thread_start_init = \<lparr>caller = Creating, body = Not_created, running = False, failed = False\<rparr>"

inductive start_step :: "(nat set \<Rightarrow> int) \<Rightarrow> bool \<Rightarrow> int \<Rightarrow> thread_start \<Rightarrow> thread_start \<Rightarrow> bool"
  for setaffinity created core_id where
  create: "caller s = Creating \<Longrightarrow> created \<Longrightarrow>
    start_step setaffinity created core_id s (s\<lparr>caller := Read_running, body := Pinning\<rparr>)"
| create_throws: "caller s = Creating \<Longrightarrow> \<not> created \<Longrightarrow>
    start_step setaffinity created core_id s (s\<lparr>caller := Terminated\<rparr>)"
| read_running: "caller s = Read_running \<Longrightarrow>
    start_step setaffinity created core_id s (s\<lparr>caller := if running s then Check_failed else Read_failed\<rparr>)"
| read_failed: "caller s = Read_failed \<Longrightarrow>
    start_step setaffinity created core_id s (s\<lparr>caller := if failed s then Check_failed else Sleeping\<rparr>)"
| wake_up: "caller s = Sleeping \<Longrightarrow> start_step setaffinity created core_id s (s\<lparr>caller := Read_running\<rparr>)"
| check_failed: "caller s = Check_failed \<Longrightarrow>
    start_step setaffinity created core_id s (s\<lparr>caller := if failed s then Joining else Returned True\<rparr>)"
| join: "caller s = Joining \<Longrightarrow> body s = Ended \<Longrightarrow>
    start_step setaffinity created core_id s (s\<lparr>caller := Returned False\<rparr>)"
| leave_statement: "caller s = Returned b \<Longrightarrow>
    start_step setaffinity created core_id s (s\<lparr>caller := Statement_over b\<rparr>)"
| pin: "body s = Pinning \<Longrightarrow> start_step setaffinity created core_id s
    (s\<lparr>body := if 0 \<le> core_id \<and> \<not> pin_thread_to_core setaffinity core_id then Announce_failure else Announcing\<rparr>)"
| announce_failure: "body s = Announce_failure \<Longrightarrow>
    start_step setaffinity created core_id s (s\<lparr>failed := True, body := Ended\<rparr>)"
| announce: "body s = Announcing \<Longrightarrow>
    start_step setaffinity created core_id s (s\<lparr>running := True, body := Calling\<rparr>)"
| call_fn: "body s = Calling \<Longrightarrow> start_step setaffinity created core_id s
    (s\<lparr>body := case caller s of Statement_over _ \<Rightarrow> In_dangling_fn | _ \<Rightarrow> In_fn\<rparr>)"
| fn_returns: "body s = In_fn \<Longrightarrow> start_step setaffinity created core_id s (s\<lparr>body := Ended\<rparr>)"

inductive_cases start_stepE: "start_step setaffinity created core_id s t"

inductive starts :: "(nat set \<Rightarrow> int) \<Rightarrow> bool \<Rightarrow> int \<Rightarrow> thread_start \<Rightarrow> bool"
  for setaffinity created core_id where
  starts_init: "starts setaffinity created core_id thread_start_init"
| starts_step: "starts setaffinity created core_id s \<Longrightarrow> start_step setaffinity created core_id s t
    \<Longrightarrow> starts setaffinity created core_id t"

subsection \<open>The invariant\<close>

text \<open>
  The flags say where the lambda is, the flags the caller has seen say what it returns.
\<close>

definition body_ok :: "bool \<Rightarrow> thread_start \<Rightarrow> bool" where
  "body_ok can s \<longleftrightarrow> (case body s of
       Announce_failure \<Rightarrow> \<not> can \<and> \<not> running s \<and> \<not> failed s
     | Announcing \<Rightarrow> can \<and> \<not> running s \<and> \<not> failed s
     | Calling \<Rightarrow> can \<and> running s \<and> \<not> failed s
     | In_fn \<Rightarrow> can \<and> running s \<and> \<not> failed s
     | In_dangling_fn \<Rightarrow> can \<and> running s \<and> \<not> failed s
     | Ended \<Rightarrow> running s = can \<and> failed s = (\<not> can)
     | _ \<Rightarrow> \<not> running s \<and> \<not> failed s)"

definition caller_ok :: "bool \<Rightarrow> thread_start \<Rightarrow> bool" where
  "caller_ok created s \<longleftrightarrow> (case caller s of
       Creating \<Rightarrow> body s = Not_created
     | Terminated \<Rightarrow> \<not> created \<and> body s = Not_created
     | Check_failed \<Rightarrow> created \<and> body s \<noteq> Not_created \<and> (running s \<or> failed s)
     | Joining \<Rightarrow> created \<and> body s \<noteq> Not_created \<and> failed s
     | Returned b \<Rightarrow> created \<and> body s \<noteq> Not_created \<and> (if b then running s else failed s)
     | Statement_over b \<Rightarrow> created \<and> body s \<noteq> Not_created \<and> (if b then running s else failed s)
     | _ \<Rightarrow> created \<and> body s \<noteq> Not_created)"

lemmas start_inv_defs = body_ok_def caller_ok_def

lemma body_ok_step:
  "start_step setaffinity created core_id s t \<Longrightarrow> body_ok (can_run setaffinity core_id) s \<Longrightarrow> caller_ok created s
    \<Longrightarrow> body_ok (can_run setaffinity core_id) t"
  by (erule start_step.cases; cases "body s") (auto simp: start_inv_defs can_run_def split: caller_pc.splits if_splits)

lemma caller_ok_step:
  "start_step setaffinity created core_id s t \<Longrightarrow> body_ok can s \<Longrightarrow> caller_ok created s \<Longrightarrow> caller_ok created t"
  by (erule start_step.cases; cases "body s") (auto simp: start_inv_defs split: caller_pc.splits if_splits)

lemma starts_inv:
  "starts setaffinity created core_id s \<Longrightarrow> body_ok (can_run setaffinity core_id) s \<and> caller_ok created s"
  by (induction rule: starts.induct)
    (simp add: start_inv_defs thread_start_init_def, blast intro: body_ok_step caller_ok_step)

text \<open>
  C28. What the caller gets is right in every interleaving: a thread exactly when the thread could
  be pinned (or no core was asked for). When it gets \<open>nullptr\<close> instead, the new thread has
  ended, was joined and never called its function.
\<close>

theorem create_and_start_thread_result:
  assumes "starts setaffinity created core_id s" "caller s \<in> {Returned b, Statement_over b}"
  shows "b = can_run setaffinity core_id \<and> (\<not> b \<longrightarrow> body s = Ended \<and> \<not> running s)
    \<and> (b \<longrightarrow> body s \<in> {Calling, In_fn, In_dangling_fn, Ended})"
  using starts_inv [OF assms(1)] assms(2)
  by (cases b; cases "body s") (auto simp: start_inv_defs)

text \<open>A thread that is not pinned, up to the moment its start is announced and seen.\<close>

lemma starts_to_calling:
  assumes "can_run setaffinity core_id"
  shows "starts setaffinity True core_id \<lparr>caller = Statement_over True, body = Calling, running = True, failed = False\<rparr>"
proof -
  let ?r = "starts setaffinity True core_id"
  let ?s = "\<lambda>c b r. \<lparr>caller = c, body = b, running = r, failed = False\<rparr>"
  note steps = starts_step [where setaffinity = setaffinity and core_id = core_id and created = True]
  have "?r (?s Creating Not_created False)" using starts_init by (simp add: thread_start_init_def)
  then have "?r (?s Read_running Pinning False)" using steps [OF _ create] by fastforce
  then have "?r (?s Read_running Announcing False)" using steps [OF _ pin] assms by (fastforce simp: can_run_def)
  then have "?r (?s Read_running Calling True)" using steps [OF _ announce] by fastforce
  then have "?r (?s Check_failed Calling True)" using steps [OF _ read_running] by fastforce
  then have "?r (?s (Returned True) Calling True)" using steps [OF _ check_failed] by fastforce
  then show ?thesis using steps [OF _ leave_statement] by fastforce
qed

theorem create_and_start_thread_result_witness:
  "can_run (\<lambda>_. 22) (- 1) \<and> (\<exists>s. starts (\<lambda>_. 22) True (- 1) s \<and> caller s = Statement_over True \<and> body s = Calling)"
  using create_and_start_thread_result [OF starts_to_calling [of "\<lambda>_. 22" "- 1"], of True]
    starts_to_calling [of "\<lambda>_. 22" "- 1"]
  by (fastforce simp: can_run_def)

text \<open>
  The new thread can call a function that is gone: the caller waits only until \<open>running\<close> is
  set, which the new thread does before it calls \<open>fn\<close> through the reference it captured. The
  caller can see the flag, return and end the statement, and with it the temporary, before that.
\<close>

theorem thread_body_calls_dangling_fn:
  assumes "can_run setaffinity core_id"
  shows "\<exists>s. starts setaffinity True core_id s \<and> caller s = Statement_over True \<and> body s = In_dangling_fn"
proof -
  have "starts setaffinity True core_id \<lparr>caller = Statement_over True, body = In_dangling_fn, running = True, failed = False\<rparr>"
    using starts_step [OF starts_to_calling [OF assms] call_fn] by simp
  then show ?thesis by fastforce
qed

theorem thread_body_calls_dangling_fn_witness:
  "\<exists>s. starts (\<lambda>_. 0) True 3 s \<and> body s = In_dangling_fn"
  using thread_body_calls_dangling_fn [of "\<lambda>_. 0" 3] by (auto simp: can_run_def pin_thread_to_core_def)

subsection \<open>Termination\<close>

text \<open>
  A poll that starts while neither flag is set is idle: it changes nothing but the place of the
  caller in its loop. Every other step comes closer to the end.
\<close>

definition idle_poll :: "thread_start \<Rightarrow> thread_start \<Rightarrow> bool" where
  "idle_poll s t \<longleftrightarrow> \<not> running s \<and> \<not> failed s \<and> caller s \<in> {Read_running, Read_failed, Sleeping} \<and> body t = body s"

definition progress :: "(nat set \<Rightarrow> int) \<Rightarrow> bool \<Rightarrow> int \<Rightarrow> thread_start \<Rightarrow> thread_start \<Rightarrow> bool" where
  "progress setaffinity created core_id s t \<longleftrightarrow> starts setaffinity created core_id s
     \<and> start_step setaffinity created core_id s t \<and> \<not> idle_poll s t"

definition caller_rank :: "thread_start \<Rightarrow> nat" where
  "caller_rank s = (case caller s of Creating \<Rightarrow> 11
     | Read_failed \<Rightarrow> if failed s then 4 else 6
     | Sleeping \<Rightarrow> if failed s then 6 else if running s then 5 else 6
     | Read_running \<Rightarrow> if failed s then 5 else if running s then 4 else 6
     | Check_failed \<Rightarrow> 3 | Joining \<Rightarrow> 2 | Returned b \<Rightarrow> 1 | _ \<Rightarrow> 0)"

definition body_rank :: "thread_start \<Rightarrow> nat" where
  "body_rank s = (case body s of Pinning \<Rightarrow> 4 | Announce_failure \<Rightarrow> 3 | Announcing \<Rightarrow> 3 | Calling \<Rightarrow> 2
     | In_fn \<Rightarrow> 1 | _ \<Rightarrow> 0)"

lemma start_step_rank:
  "start_step setaffinity created core_id s t \<Longrightarrow> body_ok can s \<Longrightarrow> caller_ok created s \<Longrightarrow> \<not> idle_poll s t
    \<Longrightarrow> caller_rank t + body_rank t < caller_rank s + body_rank s"
  by (erule start_step.cases; cases "body s")
    (auto simp: start_inv_defs idle_poll_def caller_rank_def body_rank_def split: caller_pc.splits if_splits)

lemma progress_rank:
  "progress setaffinity created core_id s t \<Longrightarrow> caller_rank t + body_rank t < caller_rank s + body_rank s"
  unfolding progress_def by (blast dest: starts_inv start_step_rank)

definition waits :: "(nat set \<Rightarrow> int) \<Rightarrow> bool \<Rightarrow> int \<Rightarrow> thread_start \<Rightarrow> thread_start \<Rightarrow> bool" where
  "waits setaffinity created core_id s t \<longleftrightarrow> start_step setaffinity created core_id s t \<and> idle_poll s t"

lemma waits_rank: "waits setaffinity created core_id s t \<Longrightarrow> caller_rank t + body_rank t = caller_rank s + body_rank s"
  unfolding waits_def by (elim conjE, erule start_step.cases) (auto simp: idle_poll_def caller_rank_def body_rank_def split: caller_pc.splits)

lemma waits_star_rank:
  "(waits setaffinity created core_id)\<^sup>*\<^sup>* s t \<Longrightarrow> caller_rank t + body_rank t = caller_rank s + body_rank s"
  by (induction rule: rtranclp_induct) (simp_all add: waits_rank)

lemma progress_wf:
  "wfP (\<lambda>t s. ((waits setaffinity created core_id)\<^sup>*\<^sup>* OO progress setaffinity created core_id) s t)"
proof (rule wfp_if_convertible_to_nat [where f = "\<lambda>s. caller_rank s + body_rank s"])
  fix t s
  assume "((waits setaffinity created core_id)\<^sup>*\<^sup>* OO progress setaffinity created core_id) s t"
  then obtain u where u: "(waits setaffinity created core_id)\<^sup>*\<^sup>* s u" "progress setaffinity created core_id u t"
    by (auto simp: OO_def)
  show "caller_rank t + body_rank t < caller_rank s + body_rank s"
    using progress_rank [OF u(2)] waits_star_rank [OF u(1)] by simp
qed

text \<open>While the new thread still has something to do it can do it; then the caller can.\<close>

lemma body_progress:
  assumes "starts setaffinity created core_id s" "body s \<in> {Pinning, Announce_failure, Announcing, Calling, In_fn}"
  shows "\<exists>t. progress setaffinity created core_id s t"
proof -
  have "\<exists>t. start_step setaffinity created core_id s t \<and> body t \<noteq> body s"
    using assms(2) start_step.pin [of s setaffinity created core_id] start_step.announce_failure [of s setaffinity created core_id]
      start_step.announce [of s setaffinity created core_id] start_step.call_fn [of s setaffinity created core_id]
      start_step.fn_returns [of s setaffinity created core_id]
    by (auto split: caller_pc.splits) (fastforce split: caller_pc.splits if_splits)+
  then show ?thesis using assms(1) by (auto simp: progress_def idle_poll_def)
qed

lemma caller_progress:
  assumes "starts setaffinity created core_id s" "body s \<notin> {Pinning, Announce_failure, Announcing, Calling, In_fn}"
    and "\<And>b. caller s \<noteq> Statement_over b" "caller s \<noteq> Terminated"
  shows "\<exists>t. progress setaffinity created core_id s t"
proof -
  have inv: "body_ok (can_run setaffinity core_id) s" "caller_ok created s" using starts_inv [OF assms(1)] by simp_all
  have flag: "running s \<or> failed s" if "caller s \<noteq> Creating"
    using inv assms(2-4) that by (cases "body s"; cases "caller s") (auto simp: start_inv_defs)
  have "\<exists>t. start_step setaffinity created core_id s t"
  proof (cases "caller s")
    case Creating
    then show ?thesis by (cases created) (blast intro: create create_throws)+
  next
    case Joining
    then have "body s = Ended" using inv assms(2) by (cases "body s") (auto simp: start_inv_defs)
    then show ?thesis using Joining by (blast intro: join)
  next
    case (Returned b)
    then show ?thesis by (blast intro: leave_statement)
  qed (use assms(3,4) in \<open>blast intro: read_running read_failed wake_up check_failed\<close>)+
  then show ?thesis using flag assms(1) by (auto simp: progress_def idle_poll_def)
qed

text \<open>
  C29. \<open>create_and_start_thread\<close> ends: no interleaving makes progress, between idle polls, infinitely
  often, and when nothing but idle polls is left the caller has returned what the pinning decided;
  only when the thread cannot be created at all it gets nothing, the process is terminated.
\<close>

theorem create_and_start_thread_ends:
  assumes "starts setaffinity created core_id s" "\<nexists>t. progress setaffinity created core_id s t"
  shows "wfP (\<lambda>t s. ((waits setaffinity created core_id)\<^sup>*\<^sup>* OO progress setaffinity created core_id) s t)
    \<and> caller s = (if created then Statement_over (can_run setaffinity core_id) else Terminated)"
proof (rule conjI [OF progress_wf])
  have inv: "body_ok (can_run setaffinity core_id) s" "caller_ok created s" using starts_inv [OF assms(1)] by simp_all
  consider (over) b where "caller s = Statement_over b" | (terminated) "caller s = Terminated"
    using body_progress [OF assms(1)] caller_progress [OF assms(1)] assms(2) by blast
  then show "caller s = (if created then Statement_over (can_run setaffinity core_id) else Terminated)"
  proof cases
    case over
    then show ?thesis
      using inv body_progress [OF assms(1)] assms(2) by (cases b; cases "body s") (auto simp: start_inv_defs)
  next
    case terminated
    then show ?thesis using inv by (simp add: start_inv_defs)
  qed
qed

theorem create_and_start_thread_ends_witness:
  "\<exists>s. starts (\<lambda>_. 0) True 3 s \<and> body s = Ended
     \<and> caller s = (if True then Statement_over (can_run (\<lambda>_. 0) 3) else Terminated)"
proof -
  let ?r = "starts (\<lambda>_. 0) True 3"
  let ?s = "\<lambda>c b r. \<lparr>caller = c, body = b, running = r, failed = False\<rparr>"
  let ?over = "?s (Statement_over True) Ended True"
  note steps = starts_step [where setaffinity = "\<lambda>_. 0" and core_id = 3 and created = True]
  have "?r (?s Creating Not_created False)" using starts_init by (simp add: thread_start_init_def)
  then have "?r (?s Read_running Pinning False)" using steps [OF _ create] by fastforce
  then have "?r (?s Read_running Announcing False)" using steps [OF _ pin] by (fastforce simp: pin_thread_to_core_def)
  then have "?r (?s Read_running Calling True)" using steps [OF _ announce] by fastforce
  then have "?r (?s Read_running In_fn True)" using steps [OF _ call_fn] by fastforce
  then have "?r (?s Read_running Ended True)" using steps [OF _ fn_returns] by fastforce
  then have "?r (?s Check_failed Ended True)" using steps [OF _ read_running] by fastforce
  then have "?r (?s (Returned True) Ended True)" using steps [OF _ check_failed] by fastforce
  then have r: "?r ?over" using steps [OF _ leave_statement] by fastforce
  have "\<nexists>t. progress (\<lambda>_. 0) True 3 ?over t"
    by (auto simp: progress_def elim: start_stepE)
  then show ?thesis using create_and_start_thread_ends [OF r] r by (intro exI [of _ ?over]) simp
qed

end
