(* ===== verification/Exchange_Threads.thy ===== *)
theory Exchange_Threads
  imports Lifecycle_Properties Exchange_Server
begin

text \<open>
  The exchange under its owner: the threads that \<open>ExchangeServer::start\<close> creates, each with the
  rounds of its component (\<open>Exchange_Server\<close>) as its workload. A thread that \<open>start\<close> did not create does
  nothing; one whose round fails ends the process.
\<close>

subsection \<open>The rounds of the threads\<close>

text \<open>What a round finds outside the program: sockets, clocks and the order \<open>std::sort\<close> gives equal elements.\<close>

record exchange_env =
  en_srt :: "pending_client_request list \<Rightarrow> pending_client_request list"
  en_events :: "poll_event list"
  en_pending :: "connection list"
  en_rx :: "nat \<Rightarrow> bytes \<times> int"
  en_rx' :: "nat \<Rightarrow> bytes \<times> int"
  en_mdp_rx :: bytes
  en_now :: int
  en_now' :: int
  en_ss_rx :: "64 word \<Rightarrow> bytes"

text \<open>
  The data of the process: the exchange; the requests the engine took, the responses the gateway
  took and the bytes the publisher sent so far; the assertion that failed and its thread, if one did.
  \<open>es_within\<close> records whether every round so far began within the limits of the code (\<open>within_limits\<close>);
  it decides nothing.
\<close>

record exchange_state =
  es_server :: exchange_server
  es_requests :: "ome_client_request list"
  es_responses :: "ome_client_response list"
  es_stream :: bytes
  es_failed :: "(thread_id \<times> err) option"
  es_within :: bool

definition start_state :: "exchange_server \<Rightarrow> exchange_state" where
  "start_state x0 = \<lparr>es_server = x0, es_requests = [], es_responses = [], es_stream = [], es_failed = None, es_within = True\<rparr>"

text \<open>One pass of each loop, and what it sends on the incremental stream. The server's own loop logs and sleeps.\<close>

fun server_round :: "thread_id \<Rightarrow> exchange_env \<Rightarrow> exchange_server \<Rightarrow> (exchange_server \<times> bytes) res" where
  "server_round T_ome n x = bindR (ome_round x) (\<lambda>x'. Inr (x', []))"
| "server_round T_ogs n x =
     bindR (ogs_round (en_srt n) (en_events n) (en_pending n) (en_rx n) (en_rx' n) x) (\<lambda>(x', out). Inr (x', []))"
| "server_round T_mdp n x = mdp_round (en_mdp_rx n) x"
| "server_round T_ss n x = bindR (synthesizer_round (en_now n) (en_now' n) (en_ss_rx n) x) (\<lambda>(x', out). Inr (x', []))"
| "server_round _ n x = Inr (x, [])"

text \<open>
  The limits: the requests that wait can be served and there is room for what a round puts into the
  queues; on the sockets of the publisher and the synthesizer, which only send, nothing arrives.
\<close>

fun within_limits :: "thread_id \<Rightarrow> exchange_env \<Rightarrow> exchange_state \<Rightarrow> bool" where
  "within_limits T_ome n a \<longleftrightarrow>
     servable (es_requests a @ q_list (client_requests (es_server a))) \<and> ome_has_room (es_requests a) (es_server a)"
| "within_limits T_ogs n a \<longleftrightarrow>
     q_size (client_requests (es_server a)) + MAX_PENDING_ORDER_REQUESTS \<le> q_cap (client_requests (es_server a))"
| "within_limits T_mdp n a \<longleftrightarrow> mdp_has_room (es_server a) \<and> en_mdp_rx n = []"
| "within_limits T_ss n a \<longleftrightarrow> en_ss_rx n = (\<lambda>_. [])"
| "within_limits _ n a \<longleftrightarrow> True"

definition after_round :: "thread_id \<Rightarrow> exchange_env \<Rightarrow> exchange_state \<Rightarrow> exchange_state" where
  "after_round t n a = (let a' = a\<lparr>es_within := es_within a \<and> within_limits t n a\<rparr>; x = es_server a in
     case server_round t n x of
       Inl e \<Rightarrow> a'\<lparr>es_failed := Some (t, e)\<rparr>
     | Inr (x', out) \<Rightarrow> a'\<lparr>es_server := x', es_stream := es_stream a @ out,
         es_requests := es_requests a @ (if t = T_ome then q_list (client_requests x) else []),
         es_responses := es_responses a @ (if t = T_ogs then q_list (client_responses x) else [])\<rparr>)"

definition exchange_round :: "thread_id \<Rightarrow> exchange_state \<Rightarrow> exchange_state \<Rightarrow> bool" where
  "exchange_round t a b \<longleftrightarrow> es_failed a = None \<and> (\<exists>n. sorting pending_less (en_srt n) \<and> b = after_round t n a)"

text \<open>
  A pass of a loop is some rounds, or none. Once an assertion has failed, which ends the program, no
  thread does another round, and the calls of the owner that are left pass without effect.
\<close>

definition exchange_workload :: "exchange_state workload" where
  "exchange_workload = \<lparr>w_round = exchange_round, w_over = \<lambda>_ _. True, w_drained = \<lambda>_ _. True\<rparr>"

subsection \<open>Within the limits the process runs as the components do\<close>

text \<open>The data are a run of the exchange; only the gateway's round can fail, on what its clients send.\<close>

definition runs_from :: "exchange_server \<Rightarrow> exchange_state \<Rightarrow> bool" where
  "runs_from x0 a \<longleftrightarrow> exchange_run x0 (es_server a) (es_requests a) (es_responses a) (es_stream a)
     \<and> (\<forall>t e. es_failed a = Some (t, e) \<longrightarrow> t = T_ogs)"

lemma after_round_run:
  assumes x0: "in_step x0 [] [] [] []" and run: "runs_from x0 a" and "es_failed a = None"
    and srt: "sorting pending_less (en_srt n)" and lim: "within_limits t n a"
  shows "runs_from x0 (after_round t n a)"
proof -
  have r: "exchange_run x0 (es_server a) (es_requests a) (es_responses a) (es_stream a)"
    using run by (simp add: runs_from_def)
  obtain us vs where st: "in_step (es_server a) (es_requests a) (es_responses a) us vs"
    using run_in_step [OF r x0] by blast
  show ?thesis
  proof (cases t)
    case T_ome
    obtain x' where "ome_round (es_server a) = Inr x'" using engine_step [OF st] T_ome lim by auto
    moreover from this have "exchange_run x0 x' (es_requests a @ q_list (client_requests (es_server a))) (es_responses a) (es_stream a)"
      using exchange_run.engine [OF r] T_ome lim by simp
    ultimately show ?thesis using T_ome assms(3) by (simp add: runs_from_def after_round_def)
  next
    case T_ogs
    show ?thesis
    proof (cases "ogs_round (en_srt n) (en_events n) (en_pending n) (en_rx n) (en_rx' n) (es_server a)")
      case (Inl e)
      then show ?thesis using T_ogs r by (simp add: runs_from_def after_round_def)
    next
      case (Inr y)
      then obtain x' out where y: "ogs_round (en_srt n) (en_events n) (en_pending n) (en_rx n) (en_rx' n) (es_server a) = Inr (x', out)"
        by (cases y) simp
      then have "exchange_run x0 x' (es_requests a) (es_responses a @ q_list (client_responses (es_server a))) (es_stream a)"
        using exchange_run.gateway [OF r srt] T_ogs lim by simp
      then show ?thesis using y T_ogs assms(3) by (simp add: runs_from_def after_round_def)
    qed
  next
    case T_mdp
    have "mdp_has_room (es_server a)" using T_mdp lim by simp
    then obtain x' out where "mdp_round [] (es_server a) = Inr (x', out)" using publisher_step [OF st] by blast
    moreover from this have "exchange_run x0 x' (es_requests a) (es_responses a) (es_stream a @ out)"
      using exchange_run.publisher [OF r] T_mdp lim by simp
    ultimately show ?thesis using T_mdp lim assms(3) by (simp add: runs_from_def after_round_def)
  next
    case T_ss
    obtain x' out where "synthesizer_round (en_now n) (en_now' n) (\<lambda>_. []) (es_server a) = Inr (x', out)"
      using synthesizer_step [OF st] by blast
    moreover from this have "exchange_run x0 x' (es_requests a) (es_responses a) (es_stream a)"
      using exchange_run.synthesizer [OF r] by simp
    ultimately show ?thesis using T_ss lim assms(3) by (simp add: runs_from_def after_round_def)
  qed (use r assms(3) in \<open>simp_all add: runs_from_def after_round_def\<close>)
qed

lemma within_after_round: "es_within (after_round t n a) \<longleftrightarrow> es_within a \<and> within_limits t n a"
  by (simp add: after_round_def Let_def split: sum.split prod.split)

definition exchange_ok :: "exchange_server \<Rightarrow> exchange_state instr list \<Rightarrow> exchange_state \<Rightarrow> bool" where
  "exchange_ok x0 is a \<longleftrightarrow> no_work is \<and> (in_step x0 [] [] [] [] \<and> es_within a \<longrightarrow> runs_from x0 a)"

interpretation xt: finishing_loops exchange_workload "exchange_ok x0"
proof unfold_locales
  fix "is" t a b
  assume "exchange_ok x0 is a" "w_round exchange_workload t a b"
  then show "exchange_ok x0 is b"
    using after_round_run by (auto simp: exchange_ok_def exchange_workload_def exchange_round_def within_after_round)
next
  fix i "is" and a :: exchange_state
  assume "exchange_ok x0 (i # is) a"
  then show "exchange_ok x0 is (case i of Work f \<Rightarrow> f a | _ \<Rightarrow> a)"
    by (cases i) (auto simp: exchange_ok_def no_work_def)
qed (auto simp: exchange_workload_def)

lemma exchange_ok_start: "exchange_ok x0 (server_start @ server_stop) (start_state x0)"
  using exchange_run.started by (simp add: exchange_ok_def runs_from_def start_state_def no_work_def lifecycle_defs)

lemma server_passes: "all_pass (server_start @ server_stop :: exchange_state instr list) all_absent"
  by (rule lifecycles_pass [of T_server]) (simp add: lifecycles_def)

text \<open>Once \<open>start\<close> is through, and whatever of \<open>stop\<close> is, the four components have live threads.\<close>

lemma server_started_live:
  assumes "pruns W (new_process (server_start @ server_stop) st) s" "suffix (p_ctl s) server_stop"
  shows "\<exists>\<sigma>. have_status \<sigma> s \<and> (\<forall>t \<in> {T_ome, T_ogs, T_mdp, T_ss}. \<sigma> t = Live)"
proof -
  obtain pre \<sigma> where p: "server_start @ server_stop = pre @ p_ctl s" "calls_effect pre all_absent = Some \<sigma>" "have_status \<sigma> s"
    using pruns_simulated [OF assms(1)] by (auto simp: simulated_def)
  obtain zs where "server_stop = zs @ p_ctl s" using assms(2) by (auto simp: suffix_def)
  moreover from this p(1) have "pre = server_start @ zs" by (metis append.assoc append_same_eq)
  ultimately have "pre \<in> {server_start, server_start @ [Set_running T_server False], server_start @ server_stop}"
    by (auto simp: server_stop_def Cons_eq_append_conv)
  then have "\<forall>t \<in> {T_ome, T_ogs, T_mdp, T_ss}. \<sigma> t = Live" using p(2) by (auto simp: lifecycle_defs all_absent_def)
  then show ?thesis using p(3) by blast
qed

text \<open>A thread that is live does the round the environment asks for; the others stay live.\<close>

lemma server_does_round:
  assumes "sound s" "have_status \<sigma> s" "\<sigma> t = Live" "es_failed (p_store s) = None" "sorting pending_less (en_srt n)"
  shows "\<exists>s'. runs_to exchange_workload s s' \<and> p_store s' = after_round t n (p_store s) \<and> have_status \<sigma> s'"
proof -
  have "w_round exchange_workload t (p_store s) (after_round t n (p_store s))"
    using assms(4,5) by (auto simp: exchange_workload_def exchange_round_def)
  moreover have "has_status Live t s" using have_status_at [OF assms(2), of t] assms(3) by simp
  ultimately obtain s' where "runs_to exchange_workload s s'" "p_store s' = after_round t n (p_store s)"
    using live_does_round [OF assms(1)] by blast
  then show ?thesis using have_status_runs [of exchange_workload s s' \<sigma>] assms(2) by (auto simp: runs_to_def)
qed

text \<open>An engine, a publisher and a synthesizer round settle the data.\<close>

definition can_settle :: "exchange_state \<Rightarrow> bool" where
  "can_settle a \<longleftrightarrow> (let x = es_server a; rs = es_requests a; new = length (updates (new_messages rs x)) in
     es_failed a = None \<and> servable (rs @ q_list (client_requests x)) \<and> ome_has_room rs x
   \<and> q_size (snapshot_updates x) + q_size (market_updates x) + new \<le> q_cap (snapshot_updates x)
   \<and> 42 * (q_size (market_updates x) + new) < MCAST_BUFFER_SIZE)"

definition settled :: "exchange_state \<Rightarrow> bool" where
  "settled a \<longleftrightarrow> (let x = es_server a; S = fst (run_spec (es_requests a) empty_books) in
     es_failed a = None \<and> q_list (client_requests x) = [] \<and> q_list (market_updates x) = [] \<and> q_list (snapshot_updates x) = []
   \<and> (\<forall>t < MAX_TICKERS. represents (order_book_for_ticker (xs_ome x) ! t) (fst (S t)))
   \<and> holds (xs_synthesizer x) (market_of_books (\<lambda>t. fst (S t))))"

lemma rounds_settle:
  assumes st: "in_step (es_server a) (es_requests a) (es_responses a) us vs" and can: "can_settle a"
    and "en_mdp_rx n = []" "en_ss_rx n = (\<lambda>_. [])"
  shows "es_failed (after_round T_ome n a) = None \<and> es_failed (after_round T_mdp n (after_round T_ome n a)) = None
    \<and> settled (after_round T_ss n (after_round T_mdp n (after_round T_ome n a)))
    \<and> es_requests (after_round T_ss n (after_round T_mdp n (after_round T_ome n a))) = es_requests a @ q_list (client_requests (es_server a))"
proof -
  let ?x = "es_server a" and ?rs = "es_requests a @ q_list (client_requests (es_server a))" and ?ds = "es_responses a"
  have c: "es_failed a = None" "servable ?rs" "ome_has_room (es_requests a) ?x"
    "q_size (snapshot_updates ?x) + q_size (market_updates ?x) + length (updates (new_messages (es_requests a) ?x)) \<le> q_cap (snapshot_updates ?x)"
    "42 * (q_size (market_updates ?x) + length (updates (new_messages (es_requests a) ?x))) < MCAST_BUFFER_SIZE"
    using can by (simp_all add: can_settle_def Let_def)
  obtain x1 where x1: "ome_round ?x = Inr x1" "in_step x1 ?rs ?ds us vs" "q_list (client_requests x1) = []"
    "q_list (market_updates x1) = q_list (market_updates ?x) @ updates (new_messages (es_requests a) ?x)"
    "snapshot_updates x1 = snapshot_updates ?x"
    using engine_step [OF st c(2,3)] by metis
  have "q_size (market_updates x1) = q_size (market_updates ?x) + length (updates (new_messages (es_requests a) ?x))"
    using arg_cong [OF x1(4), of length] by simp
  then have "mdp_has_room x1" using c(4,5) x1(5) by (simp add: mdp_has_room_def)
  from publisher_step [OF x1(2) this] obtain x2 out where x2: "mdp_round [] x1 = Inr (x2, out)"
    "in_step x2 ?rs ?ds us (vs @ q_list (market_updates x1))" "q_list (market_updates x2) = []"
    "client_requests x2 = client_requests x1" by metis
  from synthesizer_step [OF x2(2)] obtain x3 out' where x3: "synthesizer_round (en_now n) (en_now' n) (\<lambda>_. []) x2 = Inr (x3, out')"
    "in_step x3 ?rs ?ds (us @ vs @ q_list (market_updates x1)) []" "client_requests x3 = client_requests x2"
    "market_updates x3 = market_updates x2" by metis
  have a3: "es_failed (after_round T_ss n (after_round T_mdp n (after_round T_ome n a))) = None"
    "es_server (after_round T_ss n (after_round T_mdp n (after_round T_ome n a))) = x3"
    "es_requests (after_round T_ss n (after_round T_mdp n (after_round T_ome n a))) = ?rs"
    "es_failed (after_round T_ome n a) = None" "es_failed (after_round T_mdp n (after_round T_ome n a)) = None"
    using x1(1) x2(1) x3(1) c(1) assms(3,4) by (simp_all add: after_round_def)
  have "q_list (snapshot_updates x3) = []" using x3(2) by (simp add: in_step_def)
  moreover have "holds (xs_synthesizer x3) (market_of_books (\<lambda>t. fst (fst (run_spec ?rs empty_books) t)))"
    by (rule in_step_books(2) [OF x3(2)]) (simp_all add: x3(4) x2(3))
  ultimately show ?thesis
    using a3 x1(3) x2(3,4) x3(3,4) in_step_books(1) [OF x3(2)] by (simp add: settled_def Let_def)
qed

text \<open>So the threads can bring the process there.\<close>

lemma process_settles:
  assumes "sound s" "have_status \<sigma> s" "\<forall>t \<in> {T_ome, T_ogs, T_mdp, T_ss}. \<sigma> t = Live"
    and "in_step (es_server (p_store s)) (es_requests (p_store s)) (es_responses (p_store s)) us vs" "can_settle (p_store s)"
  shows "\<exists>s'. runs_to exchange_workload s s' \<and> settled (p_store s')
    \<and> es_requests (p_store s') = es_requests (p_store s) @ q_list (client_requests (es_server (p_store s)))"
proof -
  let ?n = "\<lparr>en_srt = sort_key pd_t_rx, en_events = [], en_pending = [], en_rx = \<lambda>_. ([], 0), en_rx' = \<lambda>_. ([], 0),
    en_mdp_rx = [], en_now = 0, en_now' = 0, en_ss_rx = \<lambda>_. []\<rparr>"
  have srt: "sorting pending_less (en_srt ?n)" using stable_sort.sorting_axioms by simp
  note rounds = rounds_settle [OF assms(4,5), of ?n, simplified]
  have "es_failed (p_store s) = None" using assms(5) by (simp add: can_settle_def Let_def)
  with server_does_round [OF assms(1,2) _ _ srt, of T_ome] assms(3) obtain s1 where
    s1: "runs_to exchange_workload s s1" "p_store s1 = after_round T_ome ?n (p_store s)" "have_status \<sigma> s1" by auto
  with server_does_round [of s1 \<sigma> T_mdp ?n] srt assms(3) rounds obtain s2 where
    s2: "runs_to exchange_workload s1 s2" "p_store s2 = after_round T_mdp ?n (p_store s1)" "have_status \<sigma> s2"
    by (auto simp: runs_to_def)
  with server_does_round [of s2 \<sigma> T_ss ?n] srt assms(3) rounds s1(2) obtain s3 where
    s3: "runs_to exchange_workload s2 s3" "p_store s3 = after_round T_ss ?n (p_store s2)"
    by (auto simp: runs_to_def)
  have "runs_to exchange_workload s s3" by (rule runs_to_trans [OF s1(1) runs_to_trans [OF s2(1) s3(1)]])
  then show ?thesis using rounds s1(2) s2(2) s3(2) by auto
qed

subsection \<open>The started exchange\<close>

text \<open>
  C6. The exchange that \<open>start\<close> brings up works. Whatever the scheduler does to the threads, before,
  during and after \<open>stop\<close>, as long as the rounds began within the limits of the code: the data of the
  process are a run of the exchange (\<open>exchange_run\<close>), the engine's books and the responses are what
  the specification makes of the requests taken, no round of the engine, the publisher or the
  synthesizer has failed (one of the gateway can, on what its clients send), and the calls of the
  owner can be carried through. Once \<open>start\<close> has returned, and unless a round has failed, each of the
  four components comes to its next round, whatever it finds outside; and if the requests that wait
  are within the limits too, the threads that \<open>start\<close> created can bring the process to a state where
  these requests are taken, the queues empty, the books those of the specification and the
  synthesizer in possession of exactly their orders.
\<close>

theorem server_threads_run_exchange:
  assumes "start_exchange junk listening fd_incremental fd_snapshot = Inr x0"
    and "\<And>t c oid. in_range c oid \<Longrightarrow> junk t c oid = None"
    and "pruns exchange_workload (new_process (server_start @ server_stop) (start_state x0)) s"
    and "p_store s = a" "es_within a"
  shows "exchange_run x0 (es_server a) (es_requests a) (es_responses a) (es_stream a)
    \<and> (\<forall>t < MAX_TICKERS. represents (order_book_for_ticker (xs_ome (es_server a)) ! t)
        (fst (fst (run_spec (es_requests a) empty_books) t)))
    \<and> responses (snd (run_spec (es_requests a) empty_books)) = es_responses a @ q_list (client_responses (es_server a))
    \<and> (\<forall>t e. es_failed a = Some (t, e) \<longrightarrow> t = T_ogs)
    \<and> (\<exists>s'. pruns exchange_workload s s' \<and> p_ctl s' = [])
    \<and> (suffix (p_ctl s) server_stop \<and> es_failed a = None \<longrightarrow>
        (\<forall>t \<in> {T_ome, T_ogs, T_mdp, T_ss}. \<forall>n. sorting pending_less (en_srt n) \<longrightarrow>
          (\<exists>s'. pruns exchange_workload s s' \<and> p_ctl s' = p_ctl s \<and> p_store s' = after_round t n a)))
    \<and> (suffix (p_ctl s) server_stop \<and> can_settle a \<longrightarrow>
        (\<exists>s'. pruns exchange_workload s s' \<and> p_ctl s' = p_ctl s \<and> settled (p_store s')
          \<and> es_requests (p_store s') = es_requests a @ q_list (client_requests (es_server a))))"
proof -
  note x0 = start_in_step [OF assms(1,2)]
  have run: "runs_from x0 a"
    using xt.ok_runs [OF assms(3)] exchange_ok_start [of x0] x0 assms(4,5) by (simp add: new_process_def exchange_ok_def)
  then obtain us vs where st: "in_step (es_server a) (es_requests a) (es_responses a) us vs"
    using run_in_step [OF _ x0] unfolding runs_from_def by blast
  note snd = sound_passes [OF assms(3) server_passes server_passes]
  have rounds: "\<exists>s'. pruns exchange_workload s s' \<and> p_ctl s' = p_ctl s \<and> p_store s' = after_round t n a"
    if "suffix (p_ctl s) server_stop" "es_failed a = None" "t \<in> {T_ome, T_ogs, T_mdp, T_ss}" "sorting pending_less (en_srt n)" for t n
    using server_started_live [OF assms(3) that(1)] server_does_round [OF snd, of _ t n] that assms(4)
    unfolding runs_to_def by metis
  have settles: "\<exists>s'. pruns exchange_workload s s' \<and> p_ctl s' = p_ctl s \<and> settled (p_store s')
      \<and> es_requests (p_store s') = es_requests a @ q_list (client_requests (es_server a))"
    if "suffix (p_ctl s) server_stop" "can_settle a"
    using server_started_live [OF assms(3) that(1)] process_settles [OF snd] st that(2) assms(4)
    unfolding runs_to_def by metis
  show ?thesis
    using rounds settles run st in_step_books(1) [OF st] xt.completes [OF assms(3) server_passes exchange_ok_start]
    by (auto simp: in_step_def runs_from_def case_prod_unfold)
qed

text \<open>A client connects and sends an order; the started threads take it to the book and to the synthesizer.\<close>

theorem server_threads_run_exchange_witness:
  "\<exists>x0 s s'. start_exchange (\<lambda>_ _ _. None) (tcp_listen 4 (Inr 3) 0) 5 6 = Inr x0
    \<and> pruns exchange_workload (new_process (server_start @ server_stop) (start_state x0)) s \<and> p_ctl s = server_stop
    \<and> q_list (client_requests (es_server (p_store s))) = [demo_order_request]
    \<and> pruns exchange_workload s s' \<and> es_requests (p_store s') = [demo_order_request] \<and> settled (p_store s')"
proof -
  obtain x0 x1 out where d: "start_exchange (\<lambda>_ _ _. None) (tcp_listen 4 (Inr 3) 0) 5 6 = Inr x0"
    "demo_round x0 = Inr (x1, out)" "q_list (client_requests x1) = [demo_order_request]"
    "servable [demo_order_request]" "ome_has_room [] x1" "length (updates (new_messages [] x1)) = 1"
    "q_size (snapshot_updates x1) = 0" "q_size (market_updates x1) = 0" "q_cap (snapshot_updates x1) = MAX_MARKET_UPDATES"
    by (rule demo_waits)
  have room: "q_size (client_requests x0) + MAX_PENDING_ORDER_REQUESTS \<le> q_cap (client_requests x0)"
    using d(1) by (auto simp: start_exchange_def tcp_listen_def Let_def limit_defs)
  let ?n = "\<lparr>en_srt = sort_key pd_t_rx, en_events = [\<lparr>ev_socket = 0, ev_in = True, ev_out = False, ev_err = False\<rparr>],
    en_pending = [\<lparr>cn_fd = 9, cn_non_blocking = True, cn_no_delay = True, cn_epoll = 0\<rparr>],
    en_rx = \<lambda>_. (put_ogs_request \<lparr>oq_n_seq = 1, oq_request = demo_order_request\<rparr>, 10), en_rx' = \<lambda>_. ([], 0),
    en_mdp_rx = [], en_now = 5, en_now' = 6, en_ss_rx = \<lambda>_. []\<rparr>"
  let ?s0 = "new_process (server_start @ server_stop) (start_state x0)" and ?a = "after_round T_ogs ?n (start_state x0)"
  have s0: "sound ?s0" "have_status all_absent ?s0" "p_store ?s0 = start_state x0" "p_ctl ?s0 = server_start @ server_stop"
    by (simp_all add: new_process_def sound_def have_status_def all_absent_def)
  have "all_pass (server_start :: exchange_state instr list) all_absent" using server_passes passes_append by blast
  moreover have "w_over exchange_workload t (start_state x0) \<and> w_drained exchange_workload t (start_state x0)" for t
    by (simp add: exchange_workload_def start_state_def)
  ultimately obtain s1 \<sigma> where s1: "pruns exchange_workload ?s0 s1" "sound s1" "p_ctl s1 = server_stop"
    "p_store s1 = start_state x0" "have_status \<sigma> s1"
    using calls_without_rounds [OF s0(1,2), of server_start server_stop exchange_workload] s0(3,4) exchange_ok_start [of x0] by (auto simp: exchange_ok_def)
  have "suffix (p_ctl s1) server_stop" using s1(3) by simp
  from server_started_live [OF s1(1) this] obtain \<sigma>' where "have_status \<sigma>' s1" "\<sigma>' T_ogs = Live" by blast
  from server_does_round [OF s1(2) this, of ?n] obtain s where
    s: "runs_to exchange_workload s1 s" "p_store s = ?a"
    using s1(4) stable_sort.sorting_axioms by (auto simp: start_state_def)
  have a: "es_server ?a = x1" "es_requests ?a = []" "es_failed ?a = None" "es_within ?a"
    using d(2) room by (simp_all add: after_round_def start_state_def demo_round_def)
  have r: "pruns exchange_workload ?s0 s" "p_ctl s = server_stop"
    using s1(1,3) s(1) by (auto simp: runs_to_def)
  have "can_settle ?a" using a d(3-9) by (simp add: can_settle_def Let_def MCAST_BUFFER_SIZE_def limit_defs)
  moreover have "suffix (p_ctl s) server_stop" using r(2) by simp
  ultimately obtain s' where "pruns exchange_workload s s'" "settled (p_store s')"
    "es_requests (p_store s') = es_requests ?a @ q_list (client_requests (es_server ?a))"
    using server_threads_run_exchange [OF d(1) _ r(1) s(2) a(4)] by blast
  then show ?thesis using d(1,3) r s(2) a(1,2) by (intro exI [of _ x0] exI [of _ s] exI [of _ s']) simp
qed

end
