(* ===== verification/Trading_Shutdown.thy ===== *)
theory Trading_Shutdown
  imports Lifecycle_Properties Trading_Properties
begin

text \<open>
  The trading engine with its thread (\<open>client/trading/trading_engine.cpp\<close>): \<open>start\<close> creates the worker,
  the gateway client and the market data consumer put messages into its two queues, \<open>stop\<close> waits
  until both are empty, logs the report of the positions and stops the worker. The worker handles
  one message a step (\<open>te_poll\<close>), so messages arrive while it works; with none arriving its steps make up
  one \<open>run_round\<close> (\<open>pass_is_run_round\<close>). The messages arrive before \<open>stop\<close> is called; one that comes
  after \<open>stop\<close> has seen both queues empty may be left in its queue.
\<close>

subsection \<open>The worker\<close>

text \<open>
  Where the worker is: in the loop over the responses, in the loop over the updates, or at the end of a
  pass. \<open>wk_failed\<close> is the assertion or the undefined behaviour that ended the program, if one did.
\<close>

datatype te_phase = In_responses | In_updates | Pass_done

record 'f te_worker =
  wk_engine :: "'f trading_engine"
  wk_responses :: "ome_client_response lfqueue"
  wk_updates :: "ome_market_update lfqueue"
  wk_phase :: te_phase
  wk_failed :: "err option"
  wk_report :: string

definition new_te_worker :: "'f trading_engine \<Rightarrow> ome_client_response lfqueue \<Rightarrow> ome_market_update lfqueue \<Rightarrow> 'f te_worker" where
  "new_te_worker e qr qu = \<lparr>wk_engine = e, wk_responses = qr, wk_updates = qu, wk_phase = Pass_done, wk_failed = None,
     wk_report = ''''\<rparr>"

text \<open>The body of either loop: the next message is handled, then taken from its queue.\<close>

definition handle_next :: "('f trading_engine \<Rightarrow> 'm \<Rightarrow> 'f trading_engine res) \<Rightarrow> 'm \<Rightarrow> 'm lfqueue \<Rightarrow> 'f trading_engine
    \<Rightarrow> ('f trading_engine \<times> 'm lfqueue) res" where
  "handle_next handler m q e = bindR (handler e m) (\<lambda>e'. bindR (increment_read_index q) (\<lambda>q'. Inr (e', q')))"

definition te_poll :: "'f float_ops \<Rightarrow> int \<Rightarrow> 'f te_worker \<Rightarrow> 'f te_worker" where
  "te_poll F now w = (case wk_phase w of
       In_responses \<Rightarrow> (case get_next_to_read (wk_responses w) of
           None \<Rightarrow> w\<lparr>wk_phase := In_updates\<rparr>
         | Some r \<Rightarrow> (case handle_next (handle_response now) r (wk_responses w) (wk_engine w) of
               Inl x \<Rightarrow> w\<lparr>wk_failed := Some x\<rparr>
             | Inr (e, q) \<Rightarrow> w\<lparr>wk_engine := e, wk_responses := q\<rparr>))
     | In_updates \<Rightarrow> (case get_next_to_read (wk_updates w) of
           None \<Rightarrow> w\<lparr>wk_phase := Pass_done\<rparr>
         | Some u \<Rightarrow> (case handle_next (handle_update F now) u (wk_updates w) (wk_engine w) of
               Inl x \<Rightarrow> w\<lparr>wk_failed := Some x\<rparr>
             | Inr (e, q) \<Rightarrow> w\<lparr>wk_engine := e, wk_updates := q\<rparr>))
     | Pass_done \<Rightarrow> w\<lparr>wk_phase := In_responses\<rparr>)"

text \<open>
  \<open>now\<close> is what the clock shows. Once the program has failed the worker does nothing more, and the
  calls of the owner that are left pass without effect.
\<close>

definition te_round :: "'f float_ops \<Rightarrow> thread_id \<Rightarrow> 'f te_worker \<Rightarrow> 'f te_worker \<Rightarrow> bool" where
  "te_round F t w w' \<longleftrightarrow> t = T_te \<and> wk_failed w = None \<and> (\<exists>now. w' = te_poll F now w)"

definition queues_empty :: "'f te_worker \<Rightarrow> bool" where
  "queues_empty w \<longleftrightarrow> q_size (wk_responses w) = 0 \<and> q_size (wk_updates w) = 0"

definition te_workload :: "'f float_ops \<Rightarrow> 'f te_worker workload" where
  "te_workload F = \<lparr>w_round = te_round F, w_over = \<lambda>t w. t = T_te \<longrightarrow> wk_failed w \<noteq> None \<or> wk_phase w = Pass_done,
     w_drained = \<lambda>t w. t = T_te \<longrightarrow> wk_failed w \<noteq> None \<or> queues_empty w\<rparr>"

text \<open>The messages that arrive, and the report; \<open>to_str\<close> may itself be undefined.\<close>

type_synonym te_message = "ome_client_response + ome_market_update"

definition arrive :: "te_message \<Rightarrow> 'f te_worker \<Rightarrow> 'f te_worker" where
  "arrive m w = (if wk_failed w \<noteq> None then w else case m of
       Inl r \<Rightarrow> w\<lparr>wk_responses := enq r (wk_responses w)\<rparr>
     | Inr u \<Rightarrow> w\<lparr>wk_updates := enq u (wk_updates w)\<rparr>)"

definition log_report :: "'f float_ops \<Rightarrow> 'f te_worker \<Rightarrow> 'f te_worker" where
  "log_report F w = (if wk_failed w \<noteq> None then w else case stop_report F (wk_engine w) of
       Inl x \<Rightarrow> w\<lparr>wk_failed := Some x\<rparr>
     | Inr str \<Rightarrow> w\<lparr>wk_report := str\<rparr>)"

definition te_life :: "'f float_ops \<Rightarrow> te_message list \<Rightarrow> 'f te_worker instr list" where
  "te_life F ms = te_start @ map (\<lambda>m. Work (arrive m)) ms @ te_stop (log_report F)"

subsection \<open>What the messages do\<close>

definition responses_of :: "te_message list \<Rightarrow> ome_client_response list" where
  "responses_of ms = map projl (filter isl ms)"

definition updates_of :: "te_message list \<Rightarrow> ome_market_update list" where
  "updates_of ms = map projr (filter (\<lambda>m. \<not> isl m) ms)"

lemma messages_of_simps [simp]:
  "responses_of [] = []" "responses_of (Inl r # ms) = r # responses_of ms" "responses_of (Inr u # ms) = responses_of ms"
  "updates_of [] = []" "updates_of (Inl r # ms) = updates_of ms" "updates_of (Inr u # ms) = u # updates_of ms"
  "responses_of (ms @ ms') = responses_of ms @ responses_of ms'" "updates_of (ms @ ms') = updates_of ms @ updates_of ms'"
  by (simp_all add: responses_of_def updates_of_def)

definition handle_message :: "'f float_ops \<Rightarrow> 'f trading_engine \<Rightarrow> int \<times> te_message \<Rightarrow> 'f trading_engine res" where
  "handle_message F e = (\<lambda>(now, m). case m of Inl r \<Rightarrow> handle_response now e r | Inr u \<Rightarrow> handle_update F now e u)"

text \<open>
  \<open>handled F e0 R U rs us e\<close>: from \<open>e0\<close> the engine can come to \<open>e\<close> by handling all of \<open>R\<close> but \<open>rs\<close> and all
  of \<open>U\<close> but \<open>us\<close>, each in order and once, at whatever times.
\<close>

definition handled :: "'f float_ops \<Rightarrow> 'f trading_engine \<Rightarrow> ome_client_response list \<Rightarrow> ome_market_update list
    \<Rightarrow> ome_client_response list \<Rightarrow> ome_market_update list \<Rightarrow> 'f trading_engine \<Rightarrow> bool" where
  "handled F e0 R U rs us e \<longleftrightarrow> (\<exists>hs. foldR (handle_message F) e0 hs = Inr e
     \<and> responses_of (map snd hs) @ rs = R \<and> updates_of (map snd hs) @ us = U)"

lemma handled_more:
  assumes "handled F e0 R U rs us e"
  shows "rs = r # rs' \<Longrightarrow> handle_response now e r = Inr e' \<Longrightarrow> handled F e0 R U rs' us e'"
    and "us = u # us' \<Longrightarrow> handle_update F now e u = Inr e' \<Longrightarrow> handled F e0 R U rs us' e'"
proof -
  obtain hs where hs: "foldR (handle_message F) e0 hs = Inr e" "responses_of (map snd hs) @ rs = R" "updates_of (map snd hs) @ us = U"
    using assms by (auto simp: handled_def)
  show "handled F e0 R U rs' us e'" if "rs = r # rs'" "handle_response now e r = Inr e'"
    unfolding handled_def
    by (rule exI [of _ "hs @ [(now, Inl r)]"]) (use hs that in \<open>simp add: foldR_append handle_message_def\<close>)
  show "handled F e0 R U rs us' e'" if "us = u # us'" "handle_update F now e u = Inr e'"
    unfolding handled_def
    by (rule exI [of _ "hs @ [(now, Inr u)]"]) (use hs that in \<open>simp add: foldR_append handle_message_def\<close>)
qed

text \<open>The ways in which the program can fail: at the next message of a queue, or in the report when none is left.\<close>

inductive te_fails :: "'f float_ops \<Rightarrow> 'f trading_engine \<Rightarrow> ome_client_response list \<Rightarrow> ome_market_update list \<Rightarrow> err \<Rightarrow> bool"
  for F e0 R U where
  at_response: "handled F e0 R U (r # rs) us e \<Longrightarrow> handle_response now e r = Inl x \<Longrightarrow> te_fails F e0 R U x"
| at_update: "handled F e0 R U rs (u # us) e \<Longrightarrow> handle_update F now e u = Inl x \<Longrightarrow> te_fails F e0 R U x"
| at_report: "handled F e0 R U [] [] e \<Longrightarrow> stop_report F e = Inl x \<Longrightarrow> te_fails F e0 R U x"

subsection \<open>What holds throughout\<close>

text \<open>
  The calls to come: before the wait, messages \<open>ms\<close> that have yet to arrive; after it the queues are
  empty; after the report it is that of the engine.
\<close>

inductive stage :: "'f float_ops \<Rightarrow> 'f te_worker instr list \<Rightarrow> te_message list \<Rightarrow> 'f te_worker \<Rightarrow> bool" for F where
  running: "set pre \<subseteq> {Set_running T_te True, Create_thread T_te}
    \<Longrightarrow> stage F (pre @ map (\<lambda>m. Work (arrive m)) ms @ te_stop (log_report F)) ms w"
| drained: "queues_empty w \<Longrightarrow> stage F [Work (log_report F), Set_running T_te False, Join_thread T_te] [] w"
| reported: "queues_empty w \<Longrightarrow> is \<in> {[Set_running T_te False, Join_thread T_te], [Join_thread T_te], []}
    \<Longrightarrow> stop_report F (wk_engine w) = Inr (wk_report w) \<Longrightarrow> stage F is [] w"

definition known_calls :: "'f float_ops \<Rightarrow> 'f te_worker instr list \<Rightarrow> bool" where
  "known_calls F is \<longleftrightarrow> (\<forall>f. Work f \<in> set is \<longrightarrow> f = log_report F \<or> (\<exists>m. f = arrive m))"

definition worker_ok :: "'f float_ops \<Rightarrow> 'f trading_engine \<Rightarrow> ome_client_response list \<Rightarrow> ome_market_update list
    \<Rightarrow> 'f te_worker instr list \<Rightarrow> 'f te_worker \<Rightarrow> bool" where
  "worker_ok F e0 R U is w \<longleftrightarrow> known_calls F is \<and> (case wk_failed w of
       Some x \<Rightarrow> te_fails F e0 R U x
     | None \<Rightarrow> q_ok (wk_responses w) \<and> q_ok (wk_updates w)
         \<and> (\<exists>ms. stage F is ms w
              \<and> q_size (wk_responses w) + length (responses_of ms) \<le> q_cap (wk_responses w)
              \<and> q_size (wk_updates w) + length (updates_of ms) \<le> q_cap (wk_updates w)
              \<and> handled F e0 R U (q_list (wk_responses w) @ responses_of ms) (q_list (wk_updates w) @ updates_of ms) (wk_engine w)))"

lemma queues_empty_list: "queues_empty w \<longleftrightarrow> q_list (wk_responses w) = [] \<and> q_list (wk_updates w) = []"
  unfolding queues_empty_def by (metis length_0_conv length_q_list)

lemma stage_next:
  assumes "stage F (i # is) ms w"
  shows "(i \<in> {Set_running T_te True, Create_thread T_te} \<and> stage F is ms w)
    \<or> (\<exists>m ms'. i = Work (arrive m) \<and> ms = m # ms' \<and> (\<forall>w'. stage F is ms' w'))
    \<or> (i = Wait_drained T_te \<and> ms = [] \<and> (queues_empty w \<longrightarrow> stage F is [] w))
    \<or> (i = Work (log_report F) \<and> ms = [] \<and> queues_empty w
        \<and> (\<forall>w'. queues_empty w' \<and> stop_report F (wk_engine w') = Inr (wk_report w') \<longrightarrow> stage F is [] w'))
    \<or> (i \<in> {Set_running T_te False, Join_thread T_te} \<and> ms = [] \<and> stage F is [] w)"
  using assms
proof (cases rule: stage.cases)
  case (running pre)
  show ?thesis
  proof (cases pre)
    case (Cons j pre')
    then show ?thesis using running stage.running [of pre' F ms w] by auto
  next
    case Nil
    show ?thesis
    proof (cases ms)
      case (Cons m ms')
      then have "is = [] @ map (\<lambda>m. Work (arrive m)) ms' @ te_stop (log_report F)" "i = Work (arrive m)"
        using running Nil by simp_all
      then show ?thesis using Cons stage.running [of "[]" F ms'] by auto
    qed (use Nil running stage.drained in \<open>auto simp: te_stop_def\<close>)
  qed
next
  case drained
  then show ?thesis by (auto intro: stage.reported)
next
  case reported
  then show ?thesis by (auto intro: stage.reported)
qed

text \<open>Handling the next message, for either queue.\<close>

lemma handle_next_cases:
  assumes "q_ok q" "q_list q = m # rest"
  shows "(\<exists>x. handler e m = Inl x \<and> handle_next handler m q e = Inl x)
    \<or> (\<exists>e' q'. handler e m = Inr e' \<and> handle_next handler m q e = Inr (e', q') \<and> q_ok q' \<and> q_list q' = rest \<and> q_cap q' = q_cap q
        \<and> Suc (q_size q') = q_size q)"
proof -
  obtain q' where q': "increment_read_index q = Inr q'" "q_ok q'" "q_list q' = rest" "q_cap q' = q_cap q"
    using lfq.drop_list [OF assms] by blast
  moreover have "Suc (q_size q') = q_size q" using q'(3) assms(2) by (metis length_Cons length_q_list)
  ultimately show ?thesis by (cases "handler e m") (auto simp: handle_next_def)
qed

lemma te_poll_effect:
  assumes ok: "q_ok (wk_responses w)" "q_ok (wk_updates w)" and none: "wk_failed w = None"
  shows "(\<exists>r rs x. q_list (wk_responses w) = r # rs \<and> handle_response now (wk_engine w) r = Inl x \<and> te_poll F now w = w\<lparr>wk_failed := Some x\<rparr>)
    \<or> (\<exists>u us x. q_list (wk_updates w) = u # us \<and> handle_update F now (wk_engine w) u = Inl x \<and> te_poll F now w = w\<lparr>wk_failed := Some x\<rparr>)
    \<or> (\<exists>r rs e q. q_list (wk_responses w) = r # rs \<and> handle_response now (wk_engine w) r = Inr e \<and> q_ok q \<and> q_list q = rs
        \<and> q_cap q = q_cap (wk_responses w) \<and> Suc (q_size q) = q_size (wk_responses w)
        \<and> wk_phase w = In_responses \<and> te_poll F now w = w\<lparr>wk_engine := e, wk_responses := q\<rparr>)
    \<or> (\<exists>u us e q. q_list (wk_updates w) = u # us \<and> handle_update F now (wk_engine w) u = Inr e \<and> q_ok q \<and> q_list q = us
        \<and> q_cap q = q_cap (wk_updates w) \<and> Suc (q_size q) = q_size (wk_updates w)
        \<and> wk_phase w = In_updates \<and> te_poll F now w = w\<lparr>wk_engine := e, wk_updates := q\<rparr>)
    \<or> (\<exists>p. te_poll F now w = w\<lparr>wk_phase := p\<rparr> \<and> (p = In_updates \<and> wk_phase w = In_responses \<and> q_list (wk_responses w) = []
        \<or> p = Pass_done \<and> wk_phase w = In_updates \<and> q_list (wk_updates w) = [] \<or> p = In_responses \<and> wk_phase w = Pass_done))"
proof (cases "wk_phase w")
  case In_responses
  show ?thesis
  proof (cases "q_list (wk_responses w)")
    case (Cons r rs)
    then have g: "get_next_to_read (wk_responses w) = Some r" using lfq.peek_list [OF ok(1)] by simp
    from handle_next_cases [OF ok(1) Cons, of "handle_response now" "wk_engine w"] show ?thesis
      using g In_responses Cons by (auto simp: te_poll_def)
  qed (use In_responses lfq.peek_list [OF ok(1)] in \<open>simp add: te_poll_def\<close>)
next
  case In_updates
  show ?thesis
  proof (cases "q_list (wk_updates w)")
    case (Cons u us)
    then have g: "get_next_to_read (wk_updates w) = Some u" using lfq.peek_list [OF ok(2)] by simp
    from handle_next_cases [OF ok(2) Cons, of "handle_update F now" "wk_engine w"] show ?thesis
      using g In_updates Cons by (auto simp: te_poll_def)
  qed (use In_updates lfq.peek_list [OF ok(2)] in \<open>simp add: te_poll_def\<close>)
qed (simp add: te_poll_def)

lemma stage_any: "stage F is ms w \<Longrightarrow> \<not> queues_empty w \<Longrightarrow> stage F is ms w'"
  by (erule stage.cases) (auto intro: stage.running)

lemma stage_same:
  "stage F is ms w \<Longrightarrow> queues_empty w' = queues_empty w \<Longrightarrow> wk_engine w' = wk_engine w \<Longrightarrow> wk_report w' = wk_report w \<Longrightarrow> stage F is ms w'"
  by (erule stage.cases) (auto intro: stage.intros)

lemma worker_ok_round:
  assumes "worker_ok F e0 R U is w" "te_round F t w w'"
  shows "worker_ok F e0 R U is w'"
proof -
  obtain now where none: "wk_failed w = None" and w': "w' = te_poll F now w"
    using assms(2) by (auto simp: te_round_def)
  have known: "known_calls F is" using assms(1) by (simp add: worker_ok_def)
  obtain ms where ok: "q_ok (wk_responses w)" "q_ok (wk_updates w)" and st: "stage F is ms w"
    and room: "q_size (wk_responses w) + length (responses_of ms) \<le> q_cap (wk_responses w)"
      "q_size (wk_updates w) + length (updates_of ms) \<le> q_cap (wk_updates w)"
    and h: "handled F e0 R U (q_list (wk_responses w) @ responses_of ms) (q_list (wk_updates w) @ updates_of ms) (wk_engine w)"
    using assms(1) none by (auto simp: worker_ok_def)
  from te_poll_effect [OF ok none, of now F, folded w'] consider
    (res) r rs x where "q_list (wk_responses w) = r # rs" "handle_response now (wk_engine w) r = Inl x" "w' = w\<lparr>wk_failed := Some x\<rparr>"
  | (upd) u us x where "q_list (wk_updates w) = u # us" "handle_update F now (wk_engine w) u = Inl x" "w' = w\<lparr>wk_failed := Some x\<rparr>"
  | (r) r rs e q where "q_list (wk_responses w) = r # rs" "handle_response now (wk_engine w) r = Inr e" "q_ok q" "q_list q = rs"
      "q_cap q = q_cap (wk_responses w)" "Suc (q_size q) = q_size (wk_responses w)" "w' = w\<lparr>wk_engine := e, wk_responses := q\<rparr>"
  | (u) u us e q where "q_list (wk_updates w) = u # us" "handle_update F now (wk_engine w) u = Inr e" "q_ok q" "q_list q = us"
      "q_cap q = q_cap (wk_updates w)" "Suc (q_size q) = q_size (wk_updates w)" "w' = w\<lparr>wk_engine := e, wk_updates := q\<rparr>"
  | (p) p where "w' = w\<lparr>wk_phase := p\<rparr>"
    by (elim disjE exE conjE) blast+
  then show ?thesis
  proof cases
    case res
    then have "te_fails F e0 R U x" using h by (auto intro: te_fails.at_response)
    then show ?thesis using known by (simp add: worker_ok_def res)
  next
    case upd
    then have "te_fails F e0 R U x" using h by (auto intro: te_fails.at_update)
    then show ?thesis using known by (simp add: worker_ok_def upd)
  next
    case r
    have "stage F is ms w'" using r(1) by (intro stage_any [OF st]) (simp add: queues_empty_list)
    moreover have "handled F e0 R U (rs @ responses_of ms) (q_list (wk_updates w) @ updates_of ms) e"
      by (rule handled_more(1) [OF h _ r(2)]) (simp add: r(1))
    ultimately show ?thesis using known ok none room r(3-7) by (auto simp: worker_ok_def)
  next
    case u
    have "stage F is ms w'" using u(1) by (intro stage_any [OF st]) (simp add: queues_empty_list)
    moreover have "handled F e0 R U (q_list (wk_responses w) @ responses_of ms) (us @ updates_of ms) e"
      by (rule handled_more(2) [OF h _ u(2)]) (simp add: u(1))
    ultimately show ?thesis using known ok none room u(3-7) by (auto simp: worker_ok_def)
  next
    case p
    have "stage F is ms w'" by (rule stage_same [OF st]) (simp_all add: p queues_empty_def)
    then show ?thesis using known ok none room h by (auto simp: worker_ok_def p)
  qed
qed

text \<open>An arriving message goes to the end of its queue.\<close>

lemma arrive_ok:
  assumes ok: "q_ok (wk_responses w)" "q_ok (wk_updates w)" and none: "wk_failed w = None"
    and room: "q_size (wk_responses w) + length (responses_of (m # ms)) \<le> q_cap (wk_responses w)"
      "q_size (wk_updates w) + length (updates_of (m # ms)) \<le> q_cap (wk_updates w)"
  shows "q_ok (wk_responses (arrive m w)) \<and> q_ok (wk_updates (arrive m w)) \<and> wk_failed (arrive m w) = None
    \<and> wk_engine (arrive m w) = wk_engine w
    \<and> q_size (wk_responses (arrive m w)) + length (responses_of ms) \<le> q_cap (wk_responses (arrive m w))
    \<and> q_size (wk_updates (arrive m w)) + length (updates_of ms) \<le> q_cap (wk_updates (arrive m w))
    \<and> q_list (wk_responses (arrive m w)) @ responses_of ms = q_list (wk_responses w) @ responses_of (m # ms)
    \<and> q_list (wk_updates (arrive m w)) @ updates_of ms = q_list (wk_updates w) @ updates_of (m # ms)"
proof (cases m)
  case (Inl r)
  then show ?thesis using assms q_ok_enq [OF ok(1), of r] q_list_enq [OF ok(1), of r] by (simp add: arrive_def)
next
  case (Inr u)
  then show ?thesis using assms q_ok_enq [OF ok(2), of u] q_list_enq [OF ok(2), of u] by (simp add: arrive_def)
qed

lemma worker_ok_call:
  assumes "worker_ok F e0 R U (i # is) w" "\<And>t. i = Wait_drained t \<Longrightarrow> w_drained (te_workload F) t w"
  shows "worker_ok F e0 R U is (case i of Work f \<Rightarrow> f w | _ \<Rightarrow> w)"
proof -
  have known: "known_calls F (i # is)" and known': "known_calls F is" using assms(1) by (auto simp: worker_ok_def known_calls_def)
  show ?thesis
  proof (cases "wk_failed w")
    case (Some x)
    then have fails: "te_fails F e0 R U x" using assms(1) by (simp add: worker_ok_def)
    have "(case i of Work f \<Rightarrow> f w | _ \<Rightarrow> w) = w"
    proof (cases i)
      case (Work f)
      then have "f = log_report F \<or> (\<exists>m. f = arrive m)" using known by (simp add: known_calls_def)
      then show ?thesis using Work Some by (auto simp: arrive_def log_report_def)
    qed simp_all
    then show ?thesis using Some fails known' by (simp add: worker_ok_def)
  next
    case None
    then obtain ms where ok: "q_ok (wk_responses w)" "q_ok (wk_updates w)" and st: "stage F (i # is) ms w"
      and room: "q_size (wk_responses w) + length (responses_of ms) \<le> q_cap (wk_responses w)"
        "q_size (wk_updates w) + length (updates_of ms) \<le> q_cap (wk_updates w)"
      and h: "handled F e0 R U (q_list (wk_responses w) @ responses_of ms) (q_list (wk_updates w) @ updates_of ms) (wk_engine w)"
      using assms(1) by (auto simp: worker_ok_def)
    have same: "worker_ok F e0 R U is w" if "stage F is ms w"
      using that known' None ok room h by (auto simp: worker_ok_def)
    from stage_next [OF st] consider "i \<in> {Set_running T_te True, Create_thread T_te, Set_running T_te False, Join_thread T_te}" "stage F is ms w"
      | (a) m ms' where "i = Work (arrive m)" "ms = m # ms'" "\<And>w'. stage F is ms' w'"
      | (w) "i = Wait_drained T_te" "ms = []" "queues_empty w \<longrightarrow> stage F is [] w"
      | (r) "i = Work (log_report F)" "ms = []" "queues_empty w"
          "\<And>w'. queues_empty w' \<Longrightarrow> stop_report F (wk_engine w') = Inr (wk_report w') \<Longrightarrow> stage F is [] w'"
      by (elim disjE exE conjE) blast+
    then show ?thesis
    proof cases
      case a
      have "worker_ok F e0 R U is (arrive m w)"
        using known' h a(2,3) arrive_ok [OF ok None room [unfolded a(2)]]
        unfolding worker_ok_def by (simp only: option.case simp_thms) (intro exI [of _ ms'], simp)
      then show ?thesis using a(1) by simp
    next
      case w
      then have "queues_empty w" using assms(2) [OF w(1)] None by (simp add: te_workload_def)
      then show ?thesis using same w by simp
    next
      case r
      have e: "handled F e0 R U [] [] (wk_engine w)" using h r(2,3) by (simp add: queues_empty_list)
      show ?thesis
      proof (cases "stop_report F (wk_engine w)")
        case (Inl x)
        then have "te_fails F e0 R U x" using e by (auto intro: te_fails.at_report)
        then show ?thesis using r(1) Inl None known' by (simp add: worker_ok_def log_report_def)
      next
        case (Inr str)
        have "stage F is [] (w\<lparr>wk_report := str\<rparr>)" using r(3) Inr by (intro r(4)) (simp_all add: queues_empty_def)
        then have "worker_ok F e0 R U is (w\<lparr>wk_report := str\<rparr>)"
          using known' None ok room h r(2) by (auto simp: worker_ok_def)
        then show ?thesis using r(1) Inr None by (simp add: log_report_def)
      qed
    qed (use same in auto)
  qed
qed

subsection \<open>A pass ends and the queues drain\<close>

lemma te_round_poll: "wk_failed w = None \<Longrightarrow> te_round F T_te w (te_poll F now w)"
  by (auto simp: te_round_def)

lemma responses_loop_ends:
  assumes "q_ok (wk_responses w)" "q_ok (wk_updates w)" "wk_failed w = None" "wk_phase w = In_responses"
  shows "\<exists>w'. (te_round F T_te)\<^sup>*\<^sup>* w w' \<and> (wk_failed w' \<noteq> None \<or> wk_failed w' = None \<and> q_ok (wk_responses w') \<and> q_ok (wk_updates w')
    \<and> wk_phase w' = In_updates \<and> q_list (wk_responses w') = [])"
  using assms
proof (induction "q_size (wk_responses w)" arbitrary: w rule: less_induct)
  case less
  note poll = te_round_poll [OF less.prems(3), of F 0]
  from te_poll_effect [OF less.prems(1-3), of 0 F] consider
    (failed) x where "te_poll F 0 w = w\<lparr>wk_failed := Some x\<rparr>"
  | (more) e q where "te_poll F 0 w = w\<lparr>wk_engine := e, wk_responses := q\<rparr>" "q_ok q" "Suc (q_size q) = q_size (wk_responses w)"
  | (over) "te_poll F 0 w = w\<lparr>wk_phase := In_updates\<rparr>" "q_list (wk_responses w) = []"
    using less.prems(4) by fastforce
  then show ?case
  proof cases
    case more
    let ?w = "w\<lparr>wk_engine := e, wk_responses := q\<rparr>"
    have "q_size (wk_responses ?w) < q_size (wk_responses w)" using more(3) by simp
    from less.hyps [OF this] less.prems(2-4) more(2) poll [unfolded more(1)] show ?thesis
      by (auto intro: converse_rtranclp_into_rtranclp)
  qed (use poll less.prems in auto)
qed

lemma updates_loop_ends:
  assumes "q_ok (wk_responses w)" "q_ok (wk_updates w)" "wk_failed w = None" "wk_phase w = In_updates"
  shows "\<exists>w'. (te_round F T_te)\<^sup>*\<^sup>* w w' \<and> (wk_failed w' \<noteq> None \<or> wk_failed w' = None \<and> q_ok (wk_responses w') \<and> q_ok (wk_updates w')
    \<and> wk_phase w' = Pass_done \<and> q_list (wk_updates w') = [] \<and> q_list (wk_responses w') = q_list (wk_responses w))"
  using assms
proof (induction "q_size (wk_updates w)" arbitrary: w rule: less_induct)
  case less
  note poll = te_round_poll [OF less.prems(3), of F 0]
  from te_poll_effect [OF less.prems(1-3), of 0 F] consider
    (failed) x where "te_poll F 0 w = w\<lparr>wk_failed := Some x\<rparr>"
  | (more) e q where "te_poll F 0 w = w\<lparr>wk_engine := e, wk_updates := q\<rparr>" "q_ok q" "Suc (q_size q) = q_size (wk_updates w)"
  | (over) "te_poll F 0 w = w\<lparr>wk_phase := Pass_done\<rparr>" "q_list (wk_updates w) = []"
    using less.prems(4) by fastforce
  then show ?case
  proof cases
    case more
    let ?w = "w\<lparr>wk_engine := e, wk_updates := q\<rparr>"
    have "q_size (wk_updates ?w) < q_size (wk_updates w)" using more(3) by simp
    from less.hyps [OF this] less.prems(1,3,4) more(2) poll [unfolded more(1)] show ?thesis
      by (auto intro: converse_rtranclp_into_rtranclp)
  qed (use poll less.prems in auto)
qed

text \<open>A pass from its start: both queues are then empty.\<close>

definition at_rest :: "'f te_worker \<Rightarrow> bool" where
  "at_rest w \<longleftrightarrow> wk_failed w \<noteq> None \<or> wk_phase w = Pass_done \<and> queues_empty w"

lemma pass_ends:
  assumes "q_ok (wk_responses w)" "q_ok (wk_updates w)" "wk_failed w = None" "wk_phase w = In_responses"
  shows "\<exists>w'. (te_round F T_te)\<^sup>*\<^sup>* w w' \<and> at_rest w'"
proof -
  obtain w1 where w1: "(te_round F T_te)\<^sup>*\<^sup>* w w1" "wk_failed w1 \<noteq> None \<or> wk_failed w1 = None \<and> q_ok (wk_responses w1) \<and> q_ok (wk_updates w1)
    \<and> wk_phase w1 = In_updates \<and> q_list (wk_responses w1) = []"
    using responses_loop_ends [OF assms] by blast
  show ?thesis
  proof (cases "wk_failed w1")
    case None
    then show ?thesis
      using updates_loop_ends [of w1 F] w1 by (auto simp: at_rest_def queues_empty_list intro: rtranclp_trans)
  qed (use w1(1) in \<open>auto simp: at_rest_def\<close>)
qed

lemma worker_rests:
  assumes "q_ok (wk_responses w)" "q_ok (wk_updates w)" "wk_failed w = None"
  shows "\<exists>w'. (te_round F T_te)\<^sup>*\<^sup>* w w' \<and> at_rest w'"
proof -
  have passed: "\<exists>w'. (te_round F T_te)\<^sup>*\<^sup>* v w' \<and> at_rest w'"
    if "q_ok (wk_responses v)" "q_ok (wk_updates v)" "wk_failed v = None" "wk_phase v = Pass_done" for v :: "'a te_worker"
  proof -
    have "te_round F T_te v (v\<lparr>wk_phase := In_responses\<rparr>)"
      using te_round_poll [OF that(3), of F 0] that(4) by (simp add: te_poll_def)
    moreover have "\<exists>w'. (te_round F T_te)\<^sup>*\<^sup>* (v\<lparr>wk_phase := In_responses\<rparr>) w' \<and> at_rest w'"
      by (rule pass_ends) (use that in simp_all)
    ultimately show ?thesis by (blast intro: converse_rtranclp_into_rtranclp)
  qed
  show ?thesis
  proof (cases "wk_phase w")
    case In_updates
    then obtain w1 where w1: "(te_round F T_te)\<^sup>*\<^sup>* w w1" "wk_failed w1 \<noteq> None \<or> wk_failed w1 = None \<and> q_ok (wk_responses w1)
      \<and> q_ok (wk_updates w1) \<and> wk_phase w1 = Pass_done"
      using updates_loop_ends [OF assms] by blast
    show ?thesis
    proof (cases "wk_failed w1")
      case None
      then show ?thesis using passed [of w1] w1 by (blast intro: rtranclp_trans)
    qed (use w1(1) in \<open>auto simp: at_rest_def\<close>)
  qed (use pass_ends [OF assms] passed [OF assms] in blast)+
qed

interpretation tw: finishing_loops "te_workload F" "worker_ok F e0 R U"
proof unfold_locales
  fix "is" t w
  assume ok: "worker_ok F e0 R U is w"
  have "\<exists>w'. (w_round (te_workload F) t)\<^sup>*\<^sup>* w w' \<and> (t = T_te \<longrightarrow> at_rest w')"
  proof (cases "t = T_te \<and> wk_failed w = None")
    case True
    then have "q_ok (wk_responses w)" "q_ok (wk_updates w)" "wk_failed w = None" using ok by (simp_all add: worker_ok_def)
    then show ?thesis using worker_rests [of w F] True by (simp add: te_workload_def)
  next
    case False
    then show ?thesis by (auto simp: at_rest_def)
  qed
  then show "\<exists>w'. (w_round (te_workload F) t)\<^sup>*\<^sup>* w w' \<and> w_over (te_workload F) t w'"
    "\<exists>w'. (w_round (te_workload F) t)\<^sup>*\<^sup>* w w' \<and> w_drained (te_workload F) t w'"
    by (auto simp: te_workload_def at_rest_def)
next
  fix i "is" w
  assume "worker_ok F e0 R U (i # is) w" "\<And>t. i = Wait_drained t \<Longrightarrow> w_drained (te_workload F) t w"
  then show "worker_ok F e0 R U is (case i of Work f \<Rightarrow> f w | _ \<Rightarrow> w)" by (rule worker_ok_call)
qed (auto simp: te_workload_def intro: worker_ok_round)

subsection \<open>A pass is a round of \<open>run_round\<close>\<close>

lemma responses_loop_is_consume:
  assumes "consume get_next_to_read increment_read_index fuel (handle_response now) (wk_responses w) (wk_engine w) = Inr (q, e)"
    and "wk_failed w = None" "wk_phase w = In_responses"
  shows "(te_round F T_te)\<^sup>*\<^sup>* w (w\<lparr>wk_engine := e, wk_responses := q, wk_phase := In_updates\<rparr>)"
  using assms
proof (induction fuel arbitrary: w)
  case 0
  then have "get_next_to_read (wk_responses w) = None" "q = wk_responses w" "e = wk_engine w"
    by (auto simp: consume.simps [of _ _ 0] split: option.splits)
  then have "te_round F T_te w (w\<lparr>wk_engine := e, wk_responses := q, wk_phase := In_updates\<rparr>)"
    using 0(2,3) by (auto simp: te_round_def te_poll_def intro!: exI)
  then show ?case by blast
next
  case (Suc n)
  show ?case
  proof (cases "get_next_to_read (wk_responses w)")
    case None
    then have "q = wk_responses w" "e = wk_engine w" using Suc.prems(1) by (simp_all add: consume.simps [of _ _ "Suc n"])
    then have "te_round F T_te w (w\<lparr>wk_engine := e, wk_responses := q, wk_phase := In_updates\<rparr>)"
      using Suc.prems(2,3) None by (auto simp: te_round_def te_poll_def intro!: exI)
    then show ?thesis by blast
  next
    case (Some r)
    then obtain e1 q1 where r: "handle_response now (wk_engine w) r = Inr e1" "increment_read_index (wk_responses w) = Inr q1"
      "consume get_next_to_read increment_read_index n (handle_response now) q1 e1 = Inr (q, e)"
      using Suc.prems(1) by (auto simp: consume.simps [of _ _ "Suc n"] bindR_eq_Inr)
    let ?w = "w\<lparr>wk_engine := e1, wk_responses := q1\<rparr>"
    have "te_poll F now w = ?w" using Some r(1,2) Suc.prems(3) by (simp add: te_poll_def handle_next_def)
    then have "te_round F T_te w ?w" using te_round_poll [OF Suc.prems(2), of F now] by simp
    then show ?thesis using Suc.IH [of ?w] r(3) Suc.prems(2,3) by (simp add: converse_rtranclp_into_rtranclp)
  qed
qed

lemma updates_loop_is_consume:
  assumes "consume get_next_to_read increment_read_index fuel (handle_update F now) (wk_updates w) (wk_engine w) = Inr (q, e)"
    and "wk_failed w = None" "wk_phase w = In_updates"
  shows "(te_round F T_te)\<^sup>*\<^sup>* w (w\<lparr>wk_engine := e, wk_updates := q, wk_phase := Pass_done\<rparr>)"
  using assms
proof (induction fuel arbitrary: w)
  case 0
  then have "get_next_to_read (wk_updates w) = None" "q = wk_updates w" "e = wk_engine w"
    by (auto simp: consume.simps [of _ _ 0] split: option.splits)
  then have "te_round F T_te w (w\<lparr>wk_engine := e, wk_updates := q, wk_phase := Pass_done\<rparr>)"
    using 0(2,3) by (auto simp: te_round_def te_poll_def intro!: exI)
  then show ?case by blast
next
  case (Suc n)
  show ?case
  proof (cases "get_next_to_read (wk_updates w)")
    case None
    then have "q = wk_updates w" "e = wk_engine w" using Suc.prems(1) by (simp_all add: consume.simps [of _ _ "Suc n"])
    then have "te_round F T_te w (w\<lparr>wk_engine := e, wk_updates := q, wk_phase := Pass_done\<rparr>)"
      using Suc.prems(2,3) None by (auto simp: te_round_def te_poll_def intro!: exI)
    then show ?thesis by blast
  next
    case (Some u)
    then obtain e1 q1 where u: "handle_update F now (wk_engine w) u = Inr e1" "increment_read_index (wk_updates w) = Inr q1"
      "consume get_next_to_read increment_read_index n (handle_update F now) q1 e1 = Inr (q, e)"
      using Suc.prems(1) by (auto simp: consume.simps [of _ _ "Suc n"] bindR_eq_Inr)
    let ?w = "w\<lparr>wk_engine := e1, wk_updates := q1\<rparr>"
    have "te_poll F now w = ?w" using Some u(1,2) Suc.prems(3) by (simp add: te_poll_def handle_next_def)
    then have "te_round F T_te w ?w" using te_round_poll [OF Suc.prems(2), of F now] by simp
    then show ?thesis using Suc.IH [of ?w] u(3) Suc.prems(2,3) by (simp add: converse_rtranclp_into_rtranclp)
  qed
qed

text \<open>When no message arrives meanwhile and the clock stands still, the worker's steps make up one \<open>run_round\<close>.\<close>

lemma pass_is_run_round:
  assumes "run_round F now (wk_responses w) (wk_updates w) (wk_engine w) = Inr (qr, qu, e)"
    and "wk_failed w = None" "wk_phase w = In_responses"
  shows "(te_round F T_te)\<^sup>*\<^sup>* w (w\<lparr>wk_engine := e, wk_responses := qr, wk_updates := qu, wk_phase := Pass_done\<rparr>)"
proof -
  obtain e1 where e1: "consume get_next_to_read increment_read_index (q_size (wk_responses w)) (handle_response now) (wk_responses w) (wk_engine w) = Inr (qr, e1)"
    "consume get_next_to_read increment_read_index (q_size (wk_updates w)) (handle_update F now) (wk_updates w) e1 = Inr (qu, e)"
    using assms(1) by (auto simp: run_round_def bindR_eq_Inr)
  let ?w = "w\<lparr>wk_engine := e1, wk_responses := qr, wk_phase := In_updates\<rparr>"
  have "(te_round F T_te)\<^sup>*\<^sup>* w ?w" by (rule responses_loop_is_consume [OF e1(1) assms(2,3)])
  moreover have "(te_round F T_te)\<^sup>*\<^sup>* ?w (?w\<lparr>wk_engine := e, wk_updates := qu, wk_phase := Pass_done\<rparr>)"
    by (rule updates_loop_is_consume [of _ _ _ ?w]) (use e1(2) assms(2) in simp_all)
  ultimately have "(te_round F T_te)\<^sup>*\<^sup>* w (?w\<lparr>wk_engine := e, wk_updates := qu, wk_phase := Pass_done\<rparr>)"
    by (rule rtranclp_trans)
  then show ?thesis by (cases w) simp
qed

subsection \<open>Every message is handled\<close>

lemma te_calls_pass:
  "\<sigma> T_te = Live \<Longrightarrow> all_pass (map (\<lambda>m. Work (arrive m)) ms @ te_stop f) \<sigma>"
  "\<sigma> T_te = Live \<Longrightarrow> calls_effect (map (\<lambda>m. Work (arrive m)) ms @ te_stop f) \<sigma> = Some \<sigma>' \<Longrightarrow> \<sigma>' T_te = Absent"
  by (induction ms) (auto simp: te_stop_def)

lemma te_life_passes: "all_pass (te_life F ms) all_absent"
  by (simp add: te_life_def te_start_def all_absent_def) (rule te_calls_pass(1), simp)

lemma te_life_effect: "calls_effect (te_life F ms) all_absent = Some \<sigma> \<Longrightarrow> \<sigma> T_te = Absent"
  using te_calls_pass(2) [of "all_absent(T_te := Live)"] by (simp add: te_life_def te_start_def all_absent_def)

lemma worker_ok_new:
  assumes "q_ok qr" "q_ok qu" "q_size qr + length (responses_of ms) \<le> q_cap qr" "q_size qu + length (updates_of ms) \<le> q_cap qu"
  shows "worker_ok F e0 (q_list qr @ responses_of ms) (q_list qu @ updates_of ms) (te_life F ms) (new_te_worker e0 qr qu)"
proof -
  have "stage F (te_life F ms) ms (new_te_worker e0 qr qu)"
    unfolding te_life_def by (rule stage.running) (simp add: te_start_def)
  moreover have "known_calls F (te_life F ms)" by (auto simp: known_calls_def te_life_def te_start_def te_stop_def)
  moreover have "handled F e0 R U R U e0" for R U
    unfolding handled_def by (rule exI [of _ "[]"]) simp
  ultimately show ?thesis using assms by (auto simp: worker_ok_def new_te_worker_def)
qed

text \<open>
  C27. \<open>TradingEngine::stop\<close> loses no message. Whatever is in the two queues when the engine is started
  and whatever arrives before \<open>stop\<close> is called, as long as the queues have room for it, and however
  the worker and the owner interleave: \<open>stop\<close> can always be carried through, unless the program
  fails, and that it can only do at the handler of a message or in the report once all were
  handled. When \<open>stop\<close> has returned every response and every update was handled, once and in the
  order of its queue, the queues are empty, the report that was logged is that of the engine
  after the last of them, and the thread is gone.
\<close>

theorem te_stop_handles_everything:
  assumes "q_ok qr" "q_ok qu"
    and "q_size qr + length (responses_of ms) \<le> q_cap qr" "q_size qu + length (updates_of ms) \<le> q_cap qu"
    and "pruns (te_workload F) (new_process (te_life F ms) (new_te_worker e0 qr qu)) s" "p_store s = w"
    and "q_list qr @ responses_of ms = R" "q_list qu @ updates_of ms = U"
  shows "(\<exists>s'. pruns (te_workload F) s s' \<and> p_ctl s' = [])
    \<and> (\<forall>x. wk_failed w = Some x \<longrightarrow> te_fails F e0 R U x)
    \<and> (p_ctl s = [] \<and> wk_failed w = None \<longrightarrow> handled F e0 R U [] [] (wk_engine w) \<and> queues_empty w
        \<and> stop_report F (wk_engine w) = Inr (wk_report w) \<and> p_pc s T_te = No_thread)"
proof -
  have ok: "worker_ok F e0 R U (te_life F ms) (new_te_worker e0 qr qu)"
    using worker_ok_new [OF assms(1-4)] assms(7,8) by simp
  have kept: "worker_ok F e0 R U (p_ctl s) w"
    using tw.ok_runs [OF assms(5)] ok assms(6) by (simp add: new_process_def)
  have "handled F e0 R U [] [] (wk_engine w) \<and> queues_empty w \<and> stop_report F (wk_engine w) = Inr (wk_report w)
      \<and> p_pc s T_te = No_thread"
    if ended: "p_ctl s = []" "wk_failed w = None"
  proof -
    obtain ms' where ms': "stage F [] ms' w" "handled F e0 R U (q_list (wk_responses w) @ responses_of ms')
        (q_list (wk_updates w) @ updates_of ms') (wk_engine w)"
      using kept ended by (auto simp: worker_ok_def)
    from ms'(1) have "ms' = []" "queues_empty w" "stop_report F (wk_engine w) = Inr (wk_report w)"
      by (cases rule: stage.cases; auto simp: te_stop_def)+
    moreover obtain \<sigma> where "calls_effect (te_life F ms) all_absent = Some \<sigma>" "have_status \<sigma> s"
      using pruns_ended [OF assms(5) ended(1)] by blast
    ultimately show ?thesis
      using ms'(2) te_life_effect have_status_at [of \<sigma> s T_te] by (fastforce simp: queues_empty_list)
  qed
  moreover have "te_fails F e0 R U x" if "wk_failed w = Some x" for x
    using kept that by (simp add: worker_ok_def)
  ultimately show ?thesis using tw.completes [OF assms(5) te_life_passes ok] by blast
qed

text \<open>
  An engine without an algorithm whose books only ever saw trades: it handles every response and every
  further trade, and its report is defined.
\<close>

definition quiet :: "'f float_ops \<Rightarrow> 'f trading_engine \<Rightarrow> bool" where
  "quiet F e \<longleftrightarrow> maker_algo e = None \<and> length (book_for_ticker e) = MAX_TICKERS
     \<and> (\<forall>b \<in> set (book_for_ticker e). notified b = []) \<and> pman e = new_position_manager F"

definition is_trade :: "ome_market_update \<Rightarrow> bool" where
  "is_trade u \<longleftrightarrow> mu_type u = UPD_TRADE \<and> unat (mu_ticker_id u) < MAX_TICKERS"

lemma quiet_response: "quiet F e \<Longrightarrow> \<exists>e'. handle_response now e r = Inr e' \<and> quiet F e'"
  by (simp add: quiet_def handle_response_def order_response_callback_def)

lemma quiet_trade:
  assumes "quiet F e" "is_trade u"
  shows "\<exists>e'. handle_update F now e u = Inr e' \<and> quiet F e'"
proof -
  let ?b = "book_for_ticker e ! unat (mu_ticker_id u)"
  let ?ob = "notify (Trade_Update u) ?b"
  have b: "notified ?b = []" "unat (mu_ticker_id u) < length (book_for_ticker e)"
    using assms by (simp_all add: quiet_def is_trade_def)
  have "quiet F (e\<lparr>book_for_ticker := (book_for_ticker e)[unat (mu_ticker_id u) := ?ob\<lparr>notified := []\<rparr>]\<rparr>)"
    using assms(1) by (auto simp: quiet_def dest!: subsetD [OF set_update_subset_insert])
  moreover have "te_on_market_update u ?b = Inr ?ob" using assms(2) by (simp add: te_on_market_update_def is_trade_def)
  ultimately show ?thesis
    using b by (auto simp: handle_update_def notify_def on_note_def on_trade_update_def Let_def quiet_def)
qed

lemma quiet_handled:
  assumes "handled F e0 R U rs us e" "quiet F e0" "\<forall>u \<in> set U. is_trade u"
  shows "quiet F e \<and> (\<forall>u \<in> set us. is_trade u)"
proof -
  obtain hs where hs: "foldR (handle_message F) e0 hs = Inr e" "updates_of (map snd hs) @ us = U"
    using assms(1) by (auto simp: handled_def)
  have "quiet F e" if "foldR (handle_message F) e1 ks = Inr e" "quiet F e1" "\<forall>u \<in> set (updates_of (map snd ks)). is_trade u" for e1 ks
    using that
  proof (induction ks arbitrary: e1)
    case (Cons k ks)
    obtain now m where k: "k = (now, m)" by (cases k)
    have "\<exists>e2. handle_message F e1 k = Inr e2 \<and> quiet F e2"
      using Cons.prems(2,3) quiet_response [of F e1 now] quiet_trade [of F e1 _ now] k
      by (cases m) (auto simp: handle_message_def)
    moreover have "\<forall>u \<in> set (updates_of (map snd ks)). is_trade u" using Cons.prems(3) k by (cases m) auto
    ultimately show ?case using Cons.IH Cons.prems(1) by auto
  qed simp
  then show ?thesis using hs assms(2,3) by auto
qed

lemma quiet_report: "quiet F e \<Longrightarrow> \<exists>str. stop_report F e = Inr str"
proof -
  assume q: "quiet F e"
  have p: "pman e ! n = default_position F" "get_position (of_nat n) (pman e) = Inr (default_position F)" if "n < length (pman e)" for n
    using that q by (auto simp: quiet_def new_position_manager_def get_position_def unat_of_nat limit_defs)
  obtain str where "position_to_str F (default_position F) = Inr str"
    using untouched_to_str(1) [of F "default_position F"] by (auto simp: untouched_def default_position_def)
  then have "\<exists>acc'. foldR (report_position F (pman e)) acc ns = Inr acc'" if "set ns \<subseteq> {0..<length (pman e)}" for acc ns
    using that
  proof (induction ns arbitrary: acc)
    case (Cons n ns)
    then show ?case using p(2) [of n] by (cases acc) (auto simp: report_position_def)
  next
    case Nil
    then show ?case by (cases acc) simp
  qed
  from this [of "[0..<length (pman e)]" "('''', fzero F, 0)"] obtain acc' where
    "foldR (report_position F (pman e)) ('''', fzero F, 0) [0..<length (pman e)] = Inr acc'" by auto
  then show ?thesis by (cases acc') (simp add: stop_report_def pman_to_str_def)
qed

lemma quiet_never_fails:
  assumes "te_fails F e0 R U x" "quiet F e0" "\<forall>u \<in> set U. is_trade u"
  shows False
  using assms(1)
proof (cases rule: te_fails.cases)
  case (at_response r rs us e now)
  then show ?thesis using quiet_handled [OF at_response(1) assms(2,3)] quiet_response [of F e now r] by auto
next
  case (at_update rs u us e now)
  then show ?thesis using quiet_handled [OF at_update(1) assms(2,3)] quiet_trade [of F e u now] by auto
next
  case (at_report e)
  then show ?thesis using quiet_handled [OF at_report(1) assms(2,3)] quiet_report [of F e] by auto
qed

theorem te_stop_handles_everything_witness:
  "\<exists>s e. pruns (te_workload (exact_ops (\<lambda>_. ''x'')))
       (new_process (te_life (exact_ops (\<lambda>_. ''x'')) [Inl (demo_fill BUY 100 10), Inr (default_update\<lparr>mu_type := UPD_TRADE, mu_ticker_id := 0\<rparr>)])
         (new_te_worker (new_trading_engine (exact_ops (\<lambda>_. ''x'')) 1 LIQ_TAKER demo_engine_confs (new_lfqueue 8 default_request))
           (new_lfqueue 4 default_response) (new_lfqueue 4 default_update))) s
     \<and> p_ctl s = [] \<and> wk_failed (p_store s) = None
     \<and> handled (exact_ops (\<lambda>_. ''x'')) (new_trading_engine (exact_ops (\<lambda>_. ''x'')) 1 LIQ_TAKER demo_engine_confs (new_lfqueue 8 default_request))
         [demo_fill BUY 100 10] [default_update\<lparr>mu_type := UPD_TRADE, mu_ticker_id := 0\<rparr>] [] [] e
     \<and> stop_report (exact_ops (\<lambda>_. ''x'')) e = Inr (wk_report (p_store s))"
proof -
  let ?F = "exact_ops (\<lambda>_. ''x'')" and ?u = "default_update\<lparr>mu_type := UPD_TRADE, mu_ticker_id := 0\<rparr>" and ?r = "demo_fill BUY 100 10"
  let ?e = "new_trading_engine ?F 1 LIQ_TAKER demo_engine_confs (new_lfqueue 8 default_request)"
  let ?s = "new_process (te_life ?F [Inl ?r, Inr ?u]) (new_te_worker ?e (new_lfqueue 4 default_response) (new_lfqueue 4 default_update))"
  have q: "quiet ?F ?e"
    by (auto simp: quiet_def new_trading_engine_def new_te_book_def set_trading_engine_def)
  have u: "\<forall>u \<in> set [?u]. is_trade u" by (simp add: is_trade_def limit_defs)
  note stops = te_stop_handles_everything [where R = "[?r]" and U = "[?u]", OF q_ok_new [of 4 default_response] q_ok_new [of 4 default_update]]
  obtain s where s: "pruns (te_workload ?F) ?s s" "p_ctl s = []"
    using stops [OF _ _ _ _ rtranclp.rtrancl_refl refl, where ms = "[Inl ?r, Inr ?u]" and F = ?F and ?e0.0 = ?e] by auto
  have "wk_failed (p_store s) = None"
    using stops [OF _ _ _ _ s(1) refl] quiet_never_fails [OF _ q u] by (cases "wk_failed (p_store s)") auto
  then show ?thesis using stops [OF _ _ _ _ s(1) refl] s by auto
qed

end
