(* ===== verification/Te_Levels.thy ===== *)
theory Te_Levels
  imports Te_Book
begin

text \<open>
  \<open>TEOrderBook::add_price_level\<close> and \<open>remove_price_level\<close> (\<open>client/orders/te_order_book.cpp\<close>), the
  client's own copies of the exchange's routines, statement by statement: a local variable is a
  \<open>let\<close>, an assignment through a pointer a new book. The copies turn out to be the operations of
  \<open>Price_Levels\<close>, on which \<open>Te_Book\<close> is built.
\<close>

subsection \<open>\<open>add_price_level\<close>\<close>

text \<open>The condition that is written out three times, and the loop.\<close>

definition te_should_add_after :: "te_book \<Rightarrow> addr \<Rightarrow> addr \<Rightarrow> bool" where
  "te_should_add_after b new target \<longleftrightarrow>
     l_side (lev b new) = SELL \<and> sint (l_price (lev b target)) < sint (l_price (lev b new))
   \<or> l_side (lev b new) = BUY \<and> sint (l_price (lev b new)) < sint (l_price (lev b target))"

fun te_find_target :: "nat \<Rightarrow> te_book \<Rightarrow> addr \<Rightarrow> addr \<Rightarrow> bool \<Rightarrow> addr \<Rightarrow> (bool \<times> addr) res" where
  "te_find_target fuel b new best should_add_after target =
     (if \<not> (should_add_after \<and> target \<noteq> best) then Inr (should_add_after, target)
      else case fuel of 0 \<Rightarrow> Inl Diverges
        | Suc f \<Rightarrow>
            (let should_add_after = te_should_add_after b new target in
             bindR (if should_add_after then deref (l_next (lev b target)) else Inr target) (\<lambda>target.
             te_find_target f b new best should_add_after target)))"

declare te_find_target.simps [simp del]

definition te_add_price_level :: "te_book \<Rightarrow> addr \<Rightarrow> te_book res" where
  "te_add_price_level b new =
     (let b = b\<lparr>map_price_to_price_level := (map_price_to_price_level b)(price_to_index (l_price (lev b new)) := Some new)\<rparr>;
          sd = l_side (lev b new) in
      case best_levels sd b of
        None \<Rightarrow>
          (let b = set_best sd (Some new) b;
               b = set_level new (\<lambda>l. l\<lparr>l_next := Some new\<rparr>) b
           in Inr (set_level new (\<lambda>l. l\<lparr>l_prev := l_next (lev b new)\<rparr>) b))
      | Some best \<Rightarrow>
          (let target = best; should_add_after = te_should_add_after b new target in
           bindR (if should_add_after
                  then bindR (deref (l_next (lev b target))) (\<lambda>target. Inr (te_should_add_after b new target, target))
                  else Inr (should_add_after, target)) (\<lambda>(should_add_after, target).
           bindR (te_find_target (n_blocks (orders_at_price_pool b)) b new best should_add_after target) (\<lambda>(should_add_after, target).
           if should_add_after then
             bindR (if target = best then deref (l_prev (lev b best)) else Inr target) (\<lambda>target.
             let b = set_level new (\<lambda>l. l\<lparr>l_prev := Some target\<rparr>) b in
             bindR (deref (l_next (lev b target))) (\<lambda>aft.
             let b = set_level aft (\<lambda>l. l\<lparr>l_prev := Some new\<rparr>) b;
                 b = set_level new (\<lambda>l. l\<lparr>l_next := l_next (lev b target)\<rparr>) b
             in Inr (set_level target (\<lambda>l. l\<lparr>l_next := Some new\<rparr>) b)))
           else
             (let b = set_level new (\<lambda>l. l\<lparr>l_prev := l_prev (lev b target)\<rparr>) b;
                  b = set_level new (\<lambda>l. l\<lparr>l_next := Some target\<rparr>) b in
              bindR (deref (l_prev (lev b target))) (\<lambda>before.
              let b = set_level before (\<lambda>l. l\<lparr>l_next := Some new\<rparr>) b;
                  b = set_level target (\<lambda>l. l\<lparr>l_prev := Some new\<rparr>) b
              in if l_side (lev b new) = BUY \<and> sint (l_price (lev b best)) < sint (l_price (lev b new))
                   \<or> l_side (lev b new) = SELL \<and> sint (l_price (lev b new)) < sint (l_price (lev b best))
                 then (let b = set_level target (\<lambda>l. l\<lparr>l_next := if l_next (lev b target) = Some best then Some new
                                  else l_next (lev b target)\<rparr>) b
                       in Inr (set_best (l_side (lev b new)) (Some new) b))
                 else Inr b))))))"

subsection \<open>\<open>remove_price_level\<close>\<close>

definition te_remove_price_level :: "te_book \<Rightarrow> side \<Rightarrow> price \<Rightarrow> te_book res" where
  "te_remove_price_level b sd p =
     (let best = best_levels sd b in
      bindR (deref (get_level_for_price b p)) (\<lambda>level.
      bindR (if l_next (lev b level) = Some level then Inr (set_best sd None b)
             else
               bindR (deref (l_prev (lev b level))) (\<lambda>before.
               let b = set_level before (\<lambda>l. l\<lparr>l_next := l_next (lev b level)\<rparr>) b in
               bindR (deref (l_next (lev b level))) (\<lambda>aft.
               let b = set_level aft (\<lambda>l. l\<lparr>l_prev := l_prev (lev b level)\<rparr>) b;
                   b = (if Some level = best then set_best sd (l_next (lev b level)) b else b);
                   b = set_level level (\<lambda>l. l\<lparr>l_next := None\<rparr>) b
               in Inr (set_level level (\<lambda>l. l\<lparr>l_prev := l_next (lev b level)\<rparr>) b)))) (\<lambda>b.
      let b = b\<lparr>map_price_to_price_level := (map_price_to_price_level b)(price_to_index p := None)\<rparr> in
      bindR (deallocate (orders_at_price_pool b) level) (\<lambda>levels.
      Inr (b\<lparr>orders_at_price_pool := levels\<rparr>)))))"

subsection \<open>The copies are the shared operations\<close>

lemma te_should_add_after_worse:
  "te_should_add_after b new target = worse (l_side (lev b new)) (l_price (lev b new)) (l_price (lev b target))"
  by (auto simp: te_should_add_after_def worse_def)

lemma te_find_target_shared:
  "te_find_target fuel b new best s target = find_target fuel b (l_side (lev b new)) (l_price (lev b new)) best s target"
proof (induction fuel arbitrary: s target)
  case 0
  show ?case by (simp add: te_find_target.simps [of 0] find_target.simps [of 0])
next
  case (Suc f)
  have "te_find_target f b new best = find_target f b (l_side (lev b new)) (l_price (lev b new)) best"
    by (intro ext) (rule Suc)
  then show ?case
    by (simp add: te_find_target.simps [of "Suc f"] find_target.simps [of "Suc f"] te_should_add_after_worse Let_def)
qed

lemma level_writes_collapse:
  "set_level a f (set_level a g b) = set_level a (\<lambda>l. f (g l)) b"
  by (simp add: set_level_def poke_def fun_upd_def fun_eq_iff)

lemma level_updates_swap: "l\<lparr>l_next := p, l_prev := q\<rparr> = l\<lparr>l_prev := q, l_next := p\<rparr>"
  by (cases l) simp

lemma te_insert_after:
  "bindR (if target = best then deref (l_prev (lev b best)) else Inr target) (\<lambda>target.
     let b = set_level new (\<lambda>l. l\<lparr>l_prev := Some target\<rparr>) b in
     bindR (deref (l_next (lev b target))) (\<lambda>aft.
     let b = set_level aft (\<lambda>l. l\<lparr>l_prev := Some new\<rparr>) b;
         b = set_level new (\<lambda>l. l\<lparr>l_next := l_next (lev b target)\<rparr>) b
     in Inr (set_level target (\<lambda>l. l\<lparr>l_next := Some new\<rparr>) b))) = insert_level_after b best new target"
  unfolding insert_level_after_def Let_def by (rule refl)

lemma te_insert_before:
  fixes b :: te_book
  shows "(let b = set_level new (\<lambda>l. l\<lparr>l_prev := l_prev (lev b target)\<rparr>) b;
        b = set_level new (\<lambda>l. l\<lparr>l_next := Some target\<rparr>) b in
    bindR (deref (l_prev (lev b target))) (\<lambda>before.
    let b = set_level before (\<lambda>l. l\<lparr>l_next := Some new\<rparr>) b;
        b = set_level target (\<lambda>l. l\<lparr>l_prev := Some new\<rparr>) b
    in if l_side (lev b new) = BUY \<and> sint (l_price (lev b best)) < sint (l_price (lev b new))
         \<or> l_side (lev b new) = SELL \<and> sint (l_price (lev b new)) < sint (l_price (lev b best))
       then (let b = set_level target (\<lambda>l. l\<lparr>l_next := if l_next (lev b target) = Some best then Some new
                        else l_next (lev b target)\<rparr>) b
             in Inr (set_best (l_side (lev b new)) (Some new) b))
       else Inr b)) = insert_level_before b best new target"
proof -
  have w: "worse sd p q \<longleftrightarrow> sd = BUY \<and> sint p < sint q \<or> sd = SELL \<and> sint q < sint p" for sd p q
    by (auto simp: worse_def)
  have side: "l_side (lev (set_level t (\<lambda>l. l\<lparr>l_next := f\<rparr>) c) new) = l_side (lev c new)" for t f and c :: te_book
    by (simp add: book_simps)
  show ?thesis
    unfolding insert_level_before_def Let_def w by (simp only: side cong: if_cong)
qed

lemma te_add_price_level_shared: "te_add_price_level b new = add_price_level b new"
proof -
  let ?b = "b\<lparr>map_price_to_price_level := (map_price_to_price_level b)(price_to_index (l_price (lev b new)) := Some new)\<rparr>"
  show ?thesis
  proof (cases "best_levels (l_side (lev b new)) ?b")
    case None
    then show ?thesis
      by (simp add: te_add_price_level_def add_price_level_def Let_def book_simps level_writes_collapse level_updates_swap)
  next
    case (Some best)
    then show ?thesis
      by (simp only: te_add_price_level_def add_price_level_def insertion_point_def
          te_insert_after te_insert_before)
        (simp add: Let_def book_simps bindR_assoc te_should_add_after_worse te_find_target_shared split_def if_distrib [of "\<lambda>m. bindR m _"])
  qed
qed

lemma te_remove_price_level_shared: "te_remove_price_level b sd p = remove_price_level b sd p"
  by (simp add: te_remove_price_level_def remove_price_level_def unlink_level_def Let_def book_simps bindR_assoc
      level_writes_collapse level_updates_swap cong: if_cong)

text \<open>
  The client's own copies of the two routines that keep the price levels, transcribed
  statement by statement, are equivalent to the exchange's routines: on every book, also on one
  whose pointers are broken, they give the same book or fail with the same error.
\<close>

theorem te_level_routines_equivalent:
  "te_add_price_level b new = add_price_level b new \<and> te_remove_price_level b sd p = remove_price_level b sd p"
  by (simp add: te_add_price_level_shared te_remove_price_level_shared)

end
