(* ===== verification/Spec2Isabelle.thy ===== *)
theory Spec2Isabelle
  imports Market_View Market_Data_Recovery Gateway_Delivery LF_Queue_SPSC Trading_Properties Logger_Shutdown Ome_Print Ome_Collision Client_View Threads Exchange_Threads Trading_Shutdown Te_Levels
begin

text \<open>
  \<^bold>\<open>Nitek\<close> is an electronic exchange and a client trading on it, in C++. Requests of the
  clients reach the order gateway server over TCP, are put in order of their time of receipt by
  the FIFO sequencer and matched by the order matching engine, which keeps one limit order book
  per ticker. Responses go back through the gateway. Every change of a book is a market update,
  multicast by the market data publisher and collected by the snapshot synthesizer, which
  periodically multicasts the whole market. On the other side the client's gateway sends and
  receives the orders, the market data consumer follows the two streams and recovers from lost
  packets, and the trading engine rebuilds the books, keeps its positions and runs an algorithm.
  The components are threads that exchange messages through single-producer single-consumer
  queues. Paths below are under \<open>src/source\<close>, components of \<open>nitek\<close> without that prefix.

  \<^bold>\<open>Which theory models what.\<close>
  \<^item> \<open>Prelude\<close>: errors as values (\<open>err\<close>, \<open>res\<close>), \<open>ASSERT\<close> and \<open>FATAL\<close> of \<open>llbase/macros.h\<close>, the
    fallible fold. \<open>Nitek_Types\<close>: \<open>common/types.h\<close>; its structs with doubles are in \<open>Floats\<close>.
    \<open>Messages\<close>: the structs of \<open>exchange/data\<close>; \<open>Wire_Format\<close>: their bytes.
  \<^item> \<open>Mem_Pool\<close>: \<open>llbase/mempool.h\<close>. \<open>LF_Queue\<close>: \<open>llbase/lfqueue.h\<close> used by one thread at a time, with
    the locale \<open>fifo_queue\<close> that the components' loops rest on; \<open>LF_Queue_SPSC\<close>: its two threads
    at the granularity of their atomic accesses. \<open>Logger\<close>: \<open>llbase/logging.h\<close>, and
    \<open>Logger_Shutdown\<close>: the same with its thread. \<open>Time_Keeping\<close>: \<open>llbase/timekeeping.h\<close>.
  \<^item> \<open>Threads\<close>: \<open>llbase/threading.h\<close>, the creation of a thread and the caller that waits for it.
    \<open>Lifecycle\<close>: \<open>start\<close>, \<open>stop\<close> and the destructors of all components, and \<open>nitek_main.cpp\<close>, as calls
    of an owner beside the loops of the threads; \<open>Lifecycle_Properties\<close>: which of them return, and
    the locales \<open>ending_rounds\<close> and \<open>finishing_loops\<close> that the logger, the exchange and the trading
    engine interpret.
  \<^item> \<open>Ring\<close>, \<open>Price_Levels\<close>, \<open>Level_Invariant\<close>, \<open>Level_Moves\<close>, \<open>Level_Insertion\<close>, \<open>Level_Orders\<close>: the
    linked price levels and orders that both order books implement in the same way, pointer for
    pointer, and what they amount to, two lists of orders in price-time priority.
  \<^item> \<open>Ome_Book\<close> with \<open>Ome_Spec\<close>, \<open>Ome_Refinement\<close>, \<open>Ome_Properties\<close>: \<open>exchange/orders/ome_order.h\<close> and
    \<open>ome_order_book.{h,cpp}\<close>; \<open>Ome_Print\<close>: their \<open>to_str\<close>;
    \<open>Ome_Collision\<close>: prices that share a slot of the table. \<open>Matching_Engine\<close>: \<open>order_matching_engine.{h,cpp}\<close>.
  \<^item> \<open>Te_Book\<close> with \<open>Te_Refinement\<close>, \<open>Te_Properties\<close>: \<open>client/orders/te_order.h\<close> and
    \<open>te_order_book.{h,cpp}\<close>; \<open>Te_Levels\<close>: its own copies of the routines for price levels, which are
    those of \<open>Price_Levels\<close>. \<open>Replication\<close>: the client's book fed by the exchange's.
  \<^item> \<open>Net_Sockets\<close>: \<open>llbase/sockets.h\<close>, \<open>tcp_socket\<close>, \<open>mcast_socket\<close>, \<open>tcp_server\<close>.
    \<open>Fifo_Sequencer\<close>, \<open>Order_Gateway_Server\<close>: \<open>exchange/networking\<close>; \<open>Order_Gateway_Client\<close>:
    \<open>client/networking\<close>; \<open>Gateway_Streams\<close> and \<open>Gateway_Delivery\<close>: the two ends of a connection.
  \<^item> \<open>Snapshot_Synthesizer\<close>, \<open>Market_Data_Publisher\<close>: \<open>exchange/data\<close>; \<open>Market_Data_Consumer\<close>:
    \<open>client/data\<close>; \<open>Market_Data_Recovery\<close>: the two ends of the market data streams;
    \<open>Market_View\<close>: the synthesizer's market is the matching engine's.
  \<^item> \<open>Exchange_Server\<close>: \<open>exchange/exchange_server.{h,cpp}\<close>, the exchange's components over their
    shared queues, and \<open>exchange_run\<close>, their rounds in any order; \<open>Exchange_Threads\<close>: its
    threads under \<open>start\<close> and \<open>stop\<close>; \<open>Client_View\<close>: the exchange and
    a client's consumer and books from end to end.
  \<^item> \<open>Floats\<close>, \<open>Position_Manager\<close>, \<open>Risk_Manager\<close>, \<open>Feature_Engine\<close>, \<open>Order_Manager\<close>, \<open>Market_Maker\<close>,
    \<open>Trading_Engine\<close>: the modules of \<open>client/trading\<close> of the same names; \<open>Trading_Properties\<close>:
    the trading engine over many rounds, and what its requests do at the exchange;
    \<open>Trading_Shutdown\<close>: its worker, a message at a time, under \<open>start\<close> and \<open>stop\<close>.

  \<^bold>\<open>How the code is modelled.\<close> A class is a record of its members, a method a function from the
  old state to the new one. Each way to leave the defined behaviour of the process is an error
  value: a failed assertion, \<open>.at()\<close> out of range (which ends the process in a \<open>noexcept\<close>
  function), a null pointer, an unchecked index, a dangling pointer, signed overflow, a loop that
  does not end. Unsigned integers and prices are words of their width; the \<open>int\<close> arithmetic of the
  trading modules is on checked integers. Operations on \<open>double\<close> are a parameter, so that a theorem
  holds for any rounding, or instantiated with exact arithmetic where a formula is to be right.
  Pointers into a pool are block numbers. A callback is a function on the state of the component
  that registered it; where a book calls back into its engine, the calls are a list that the
  engine acts on in order. The kernel, the clock and the network are arguments: bytes received,
  times read, results of system calls. Bytes sent are part of the result. Where a component runs as
  a thread, a round that fails is recorded as the end of the program: nothing is done after it.

  \<^bold>\<open>Fuel.\<close> Loops through linked rings take the size of the pool as fuel, and consumer loops the
  number of elements of the queue; the refinement theorems show that this is enough, as they
  conclude that the operation returns a result. The functional theorems all have this form: under
  the stated conditions the code returns, and the result is the specified one.

  \<^bold>\<open>What the lemmas show.\<close> Pools and queues: allocation is fresh and undone by deallocation; a queue
  is a FIFO list up to its capacity, in one thread and under every interleaving of two, and one
  write more loses the oldest element. Order books: the pointer operations implement insertion
  and removal in lists of orders; adding an order matches in price-time priority, conserves
  quantity, keeps the book uncrossed and sorted and tells the client and the market about every
  change; what the book prints is its orders by price and time, and the check on the way stops the
  process for an ask at the lowest price or a bid at the highest and for nothing else; a whole run of the matching engine is the fold of that specification over the requests,
  and a client book fed with its updates shows the same orders; its best bid and offer follows
  them but for the first order of a side (of a \<open>CLEAR\<close> both are shown for an empty book only). The exchange as a whole, its
  rounds in any order, follows that specification too: the responses delivered, the snapshot held
  and the stream sent are those of the requests taken, and every reachable state settles, as long as
  the requests and the room in the queues are within the limits of the code; a client
  that gets the stream sees the same books. Networking: each end's
  messages reach the other end's queue exactly once and in order, however the stream is cut.
  Market data: the synthesizer's market is the one the updates describe, a consumer that lost a
  packet notices and is brought back by a snapshot. Trading: profit and loss is that of a ledger of
  the fills; the risk check bounds the position; the market maker quotes passively. Threads: a thread is
  started exactly when it could be pinned, the wait for it ends; the stop of the trading engine
  handles every message, that of the matching engine returns only once its loop was entered; a
  destroyed logger has written every message; the threads that the exchange server starts do a run
  of the exchange and can bring it to rest. Liveness is that the calls can be carried through from every state that can be
  reached, so a scheduler that is fair to the threads ends them. Some theorems
  prove faults of the code: the last block of a pool cannot be used, two prices with the same
  remainder break the exchange's book, a request can stop it, a cleared client book loses orders,
  equal times can reorder requests, placed quotes are not remembered, one accepted order
  makes the client send a request that is out of bounds at the exchange, fills never reach the
  positions, stopping the trading engine reads a dangling pointer, a thread can call a function
  object that is gone, a stop that comes too early waits for the engine forever, stopping the
  exchange server leaves its components running, and destroying it destroys their queues first.

  \<^bold>\<open>Not modelled.\<close> The sleeps, which only delay, and what is written to \<open>cout\<close> and \<open>cerr\<close>. The weak
  memory order of the accesses that are not atomic: an access is a step. The rounds of the
  server's and \<open>nitek_main\<close>'s own threads, which log and sleep. \<open>get_time_nanos\<close> only reads the
  clock. System calls (\<open>setsockopt\<close>, \<open>getifaddrs\<close>, \<open>connect\<close>, \<open>recv\<close> and the like) and their results
  are arguments. Lines written to the log are left out of the components, the logger itself is
  modelled and all its templates are checked. \<open>llbase/utils.cpp\<close> is an empty program. What the
  coverage leaves is declarations, comments and getters for the tests.
\<close>

end
